(* ===== verification/Sos_Prelude.thy ===== *)
theory Sos_Prelude
  imports Main "HOL-Library.Word" "HOL-Library.Monad_Syntax"
begin

text \<open>
  Shared vocabulary of the development.

  A C function that may stop the program is a function into an option type: \<open>None\<close>
  is the value of a run that reaches a failed \<^verbatim>\<open>assert\<close>, a fatal \<^verbatim>\<open>ZF_LOGF\<close>, or
  a step with undefined behaviour such as an array access out of range. Return codes of the
  C code stay ordinary values. The do-notation of the option monad sequences such steps.

  The theory holds the assertion and array primitives, \<^verbatim>\<open>size_t\<close> counters with their
  wrap-around, the bit-scan builtins of \<^verbatim>\<open>utils/builtin.h\<close> and the constants of the
  platform (AArch64, MCS kernel) that several components use.
\<close>

unbundle bit_operations_syntax

named_theorems c_simps \<open>evaluation rules for the C primitives\<close>
named_theorems c_elims \<open>inversion rules for the C primitives\<close>

type_synonym u64 = "64 word"
type_synonym u32 = "32 word"
type_synonym u16 = "16 word"
type_synonym u8 = "8 word"

type_synonym cptr = nat

section \<open>Assertions and arrays\<close>

definition cassert :: "bool \<Rightarrow> unit option" where
  "cassert b = (if b then Some () else None)"

lemma cassert_True [simp, c_simps]: "cassert True = Some ()"
  by (simp add: cassert_def)

lemma cassert_bind [simp]: "Option.bind (cassert b) f = (if b then f () else None)"
  by (simp add: cassert_def)

lemma cassert_eq_Some [simp]: "cassert b = Some u \<longleftrightarrow> b"
  by (simp add: cassert_def)

definition arr_get :: "'a list \<Rightarrow> nat \<Rightarrow> 'a option" where
  "arr_get xs i = (if i < length xs then Some (xs ! i) else None)"

definition arr_set :: "'a list \<Rightarrow> nat \<Rightarrow> 'a \<Rightarrow> 'a list option" where
  "arr_set xs i v = (if i < length xs then Some (xs[i := v]) else None)"

lemma arr_get_eq_Some: "arr_get xs i = Some v \<longleftrightarrow> i < length xs \<and> v = xs ! i"
  by (auto simp: arr_get_def)

lemma arr_set_eq_Some: "arr_set xs i v = Some ys \<longleftrightarrow> i < length xs \<and> ys = xs[i := v]"
  by (auto simp: arr_set_def)

lemma arr_get_in [c_simps]: "i < length xs \<Longrightarrow> arr_get xs i = Some (xs ! i)"
  by (simp add: arr_get_def)

lemma arr_set_in [c_simps]: "i < length xs \<Longrightarrow> arr_set xs i v = Some (xs[i := v])"
  by (simp add: arr_set_def)

lemma bind_pair_SomeE [c_elims]:
  assumes "Option.bind m (\<lambda>(a, b). f a b) = Some r"
  obtains a b where "m = Some (a, b)" "f a b = Some r"
  using assms by (cases m) auto

lemma bind_SomeE [c_elims]:
  assumes "Option.bind m f = Some r"
  obtains a where "m = Some a" "f a = Some r"
  using assms by (cases m) auto

section \<open>Counters of type size\_t\<close>

definition sz_inc :: "nat \<Rightarrow> nat" where
  "sz_inc n = (n + 1) mod 2 ^ 64"

definition sz_dec :: "nat \<Rightarrow> nat" where
  "sz_dec n = (n + (2 ^ 64 - 1)) mod 2 ^ 64"

lemma sz_inc_small [c_simps]: "n + 1 < 2 ^ 64 \<Longrightarrow> sz_inc n = Suc n"
  by (simp add: sz_inc_def)

lemma sz_dec_pos [c_simps]:
  assumes "0 < n" "n < 2 ^ 64"
  shows "sz_dec n = n - 1"
proof -
  have "n + (2 ^ 64 - 1) = (n - 1) + 2 ^ 64" using assms by simp
  then have "sz_dec n = (n - 1) mod 2 ^ 64"
    unfolding sz_dec_def by (metis mod_add_self2)
  then show ?thesis using assms by simp
qed

lemma sz_dec_zero: "sz_dec 0 = 2 ^ 64 - 1"
  by (simp add: sz_dec_def)

section \<open>Widening\<close>

lemma unat_ucast_32_64 [simp]: "unat (ucast (w :: u32) :: u64) = unat w"
proof -
  have "unat w < 2 ^ 64" using unsigned_less [of w, where 'a = nat] by simp
  then show ?thesis by (simp add: unsigned_ucast_eq take_bit_nat_eq_self)
qed

section \<open>Bit scans\<close>

definition ctzl :: "u64 \<Rightarrow> nat" where
  "ctzl w = (case List.find (\<lambda>i. bit w i) [0..<64] of Some i \<Rightarrow> i | None \<Rightarrow> 64)"

lemma u64_nonzero_bit:
  assumes "(w :: u64) \<noteq> 0"
  shows "\<exists>i < 64. bit w i"
proof -
  obtain i where i: "bit w i" using assms by (metis bit_0_eq bit_eqI bot_apply bot_bool_def)
  with bit_imp_le_length [OF i] show ?thesis by auto
qed

lemma find_upt_Some:
  "List.find P [0..<n] = Some i \<longleftrightarrow> i < n \<and> P i \<and> (\<forall>j < i. \<not> P j)"
  by (auto simp: find_Some_iff)

lemma ctzl_bit:
  assumes "w \<noteq> 0"
  shows "ctzl w < 64" "bit w (ctzl w)" "j < ctzl w \<Longrightarrow> \<not> bit w j"
proof -
  from u64_nonzero_bit [OF assms] obtain i where "i < 64" "bit w i" by blast
  then have "List.find (\<lambda>i. bit w i) [0..<64] \<noteq> None"
    by (auto simp: find_None_iff)
  then obtain k where k: "List.find (\<lambda>i. bit w i) [0..<64] = Some k" by blast
  then have "ctzl w = k" by (simp add: ctzl_def)
  with k show "ctzl w < 64" "bit w (ctzl w)" "j < ctzl w \<Longrightarrow> \<not> bit w j"
    by (auto simp: find_upt_Some)
qed

end
