(* ===== verification/Bitfield.thy ===== *)
theory Bitfield
  imports Sos_Prelude
begin

text \<open>
  The bit fields of \<^verbatim>\<open>libsel4cspace/include/cspace/bitfield.h\<close>: an array of machine
  words indexed by bit. The abstraction of a field is the set \<open>bf_bits\<close> of its set bits;
  setting, clearing and testing a bit are insertion, deletion and membership, and the scan
  for the first free bit is the least bit outside the set.
\<close>

section \<open>Operations\<close>

definition WORD_BITS :: nat where
  "WORD_BITS = 64"

definition WORD_INDEX :: "nat \<Rightarrow> nat" where
  "WORD_INDEX b = b div WORD_BITS"

definition BIT_INDEX :: "nat \<Rightarrow> nat" where
  "BIT_INDEX b = b mod WORD_BITS"

definition BIT :: "nat \<Rightarrow> u64" where
  "BIT n = push_bit n 1"

definition bf_set_bit :: "u64 list \<Rightarrow> nat \<Rightarrow> u64 list option" where
  "bf_set_bit bits b = do {
     w \<leftarrow> arr_get bits (WORD_INDEX b);
     arr_set bits (WORD_INDEX b) (w OR BIT (BIT_INDEX b)) }"

definition bf_clr_bit :: "u64 list \<Rightarrow> nat \<Rightarrow> u64 list option" where
  "bf_clr_bit bits b = do {
     w \<leftarrow> arr_get bits (WORD_INDEX b);
     arr_set bits (WORD_INDEX b) (w AND NOT (BIT (BIT_INDEX b))) }"

definition bf_get_bit :: "u64 list \<Rightarrow> nat \<Rightarrow> bool option" where
  "bf_get_bit bits b = do {
     w \<leftarrow> arr_get bits (WORD_INDEX b);
     Some (w AND BIT (BIT_INDEX b) \<noteq> 0) }"

text \<open>The loop of \<^verbatim>\<open>bf_first_free\<close> that skips the words with every bit set.\<close>

function bf_scan :: "nat \<Rightarrow> u64 list \<Rightarrow> nat \<Rightarrow> nat option" where
  "bf_scan n bits i =
     (if i < n then do {
        w \<leftarrow> arr_get bits i;
        if w = - 1 then bf_scan n bits (Suc i) else Some i }
      else Some i)"
  by pat_completeness auto
termination
  by (relation "measure (\<lambda>(n, bits, i). n - i)") auto

declare bf_scan.simps [simp del]

definition bf_first_free :: "nat \<Rightarrow> u64 list \<Rightarrow> nat option" where
  "bf_first_free n bits = do {
     i \<leftarrow> bf_scan n bits 0;
     if i < n then do {
       w \<leftarrow> arr_get bits i;
       cassert (NOT w \<noteq> 0);
       Some (i * WORD_BITS + ctzl (NOT w)) }
     else Some (i * WORD_BITS) }"

section \<open>The set of bits\<close>

definition bf_bits :: "u64 list \<Rightarrow> nat set" where
  "bf_bits bits = {b. b < 64 * length bits \<and> bit (bits ! (b div 64)) (b mod 64)}"

lemmas bf_consts = WORD_BITS_def WORD_INDEX_def BIT_INDEX_def

lemma bit_BIT [simp]: "bit (BIT n) m \<longleftrightarrow> m = n \<and> n < 64"
  by (auto simp: BIT_def bit_exp_iff)

lemma and_BIT_nonzero: "n < 64 \<Longrightarrow> w AND BIT n \<noteq> 0 \<longleftrightarrow> bit w n"
  by (simp add: BIT_def bit_iff_and_push_bit_not_eq_0)

lemma div64_less: "(b::nat) < 64 * n \<longleftrightarrow> b div 64 < n"
  by (simp add: div_less_iff_less_mult mult.commute)

lemma bf_bits_mem: "b \<in> bf_bits bits \<longleftrightarrow> b div 64 < length bits \<and> bit (bits ! (b div 64)) (b mod 64)"
  by (simp add: bf_bits_def div64_less)

lemma bf_bits_bound: "b \<in> bf_bits bits \<Longrightarrow> b < 64 * length bits"
  by (simp add: bf_bits_def)

lemma finite_bf_bits [simp]: "finite (bf_bits bits)"
  by (simp add: bf_bits_def)

lemma bf_set_bit_eq:
  "bf_set_bit bits b = (if b < 64 * length bits
     then Some (bits[b div 64 := bits ! (b div 64) OR BIT (b mod 64)]) else None)"
  by (auto simp: bf_set_bit_def bf_consts arr_get_def arr_set_def div64_less)

lemma bf_clr_bit_eq:
  "bf_clr_bit bits b = (if b < 64 * length bits
     then Some (bits[b div 64 := bits ! (b div 64) AND NOT (BIT (b mod 64))]) else None)"
  by (auto simp: bf_clr_bit_def bf_consts arr_get_def arr_set_def div64_less)

lemma same_bit: "(x::nat) div 64 = b div 64 \<Longrightarrow> x mod 64 = b mod 64 \<Longrightarrow> x = b"
  by (metis div_mult_mod_eq)

lemma bf_set_bit_bits:
  assumes "b < 64 * length bits"
  shows "\<exists>bits'. bf_set_bit bits b = Some bits' \<and> length bits' = length bits \<and>
           bf_bits bits' = insert b (bf_bits bits)"
  using assms
  by (auto simp: bf_set_bit_eq bf_bits_mem nth_list_update bit_or_iff div64_less
      intro: same_bit split: if_splits)

lemma bf_clr_bit_bits:
  assumes "b < 64 * length bits"
  shows "\<exists>bits'. bf_clr_bit bits b = Some bits' \<and> length bits' = length bits \<and>
           bf_bits bits' = bf_bits bits - {b}"
  using assms
  by (auto simp: bf_clr_bit_eq bf_bits_mem nth_list_update bit_and_iff bit_not_iff div64_less
      intro: same_bit [OF sym] split: if_splits)

lemma bf_get_bit_bits:
  "b < 64 * length bits \<Longrightarrow> bf_get_bit bits b = Some (b \<in> bf_bits bits)"
  by (simp add: bf_get_bit_def bf_consts arr_get_def bf_bits_mem div64_less and_BIT_nonzero)

section \<open>The scan\<close>

lemma bf_scan_spec:
  assumes "n \<le> length bits" "i \<le> n"
  shows "\<exists>k. bf_scan n bits i = Some k \<and> i \<le> k \<and> k \<le> n \<and>
           (\<forall>j. i \<le> j \<and> j < k \<longrightarrow> bits ! j = - 1) \<and> (k < n \<longrightarrow> bits ! k \<noteq> - 1)"
  using assms
proof (induction n bits i rule: bf_scan.induct)
  case (1 n bits i)
  show ?case
  proof (cases "i < n \<and> bits ! i = - 1")
    case True
    with 1 obtain k where k: "bf_scan n bits (Suc i) = Some k" "Suc i \<le> k" "k \<le> n"
      "\<And>j. Suc i \<le> j \<Longrightarrow> j < k \<Longrightarrow> bits ! j = - 1" "k < n \<longrightarrow> bits ! k \<noteq> - 1"
      by (auto simp: arr_get_def)
    have "bits ! j = - 1" if "i \<le> j" "j < k" for j
      using k(4) [of j] that True by (cases "j = i") auto
    with k True 1(2) show ?thesis
      by (intro exI [of _ k]) (auto simp: bf_scan.simps [of n bits i] arr_get_def)
  next
    case False
    then show ?thesis using 1(2,3)
      by (intro exI [of _ i]) (auto simp: bf_scan.simps [of n bits i] arr_get_def)
  qed
qed

lemma not_word_zero_iff: "NOT (w::u64) = 0 \<longleftrightarrow> w = - 1"
  by (metis bit.compl_zero bit.double_compl)

lemma bf_first_free_least:
  assumes "n = length bits"
  shows "\<exists>k. bf_first_free n bits = Some k \<and> k \<le> 64 * n \<and> (\<forall>j < k. j \<in> bf_bits bits) \<and>
           k \<notin> bf_bits bits"
proof -
  obtain i where i: "bf_scan n bits 0 = Some i" "i \<le> n"
      "\<And>j. j < i \<Longrightarrow> bits ! j = - 1" "i < n \<Longrightarrow> bits ! i \<noteq> - 1"
    using bf_scan_spec [of n bits 0] assms by auto
  have low: "j \<in> bf_bits bits" if "j < 64 * i" for j
    using that i(2,3) assms by (simp add: bf_bits_mem div64_less)
  show ?thesis
  proof (cases "i < n")
    case False
    then show ?thesis using i low assms
      by (intro exI [of _ "64 * n"])
        (auto simp: bf_first_free_def bf_consts mult.commute dest: bf_bits_bound)
  next
    case True
    let ?v = "NOT (bits ! i)"
    have nz: "?v \<noteq> 0" using i(4) True by (simp add: not_word_zero_iff)
    let ?k = "64 * i + ctzl ?v"
    have lt: "ctzl ?v < 64" using ctzl_bit(1) [OF nz] .
    have "j \<in> bf_bits bits" if "j < ?k" for j
    proof (cases "j < 64 * i")
      case False
      then have "j div 64 = i" using that lt by (intro div_nat_eqI) auto
      moreover have "j mod 64 = j - 64 * i"
        using \<open>j div 64 = i\<close> by (simp add: minus_mult_div_eq_mod [symmetric] mult.commute)
      moreover have "j - 64 * i < ctzl ?v" using False that by arith
      ultimately have "j div 64 = i" "j mod 64 < ctzl ?v" by simp_all
      then show ?thesis using ctzl_bit(3) [OF nz] True assms lt
        by (auto simp: bf_bits_mem bit_not_iff)
    qed (rule low)
    moreover have "?k \<notin> bf_bits bits"
      using ctzl_bit(2) [OF nz] lt by (auto simp: bf_bits_mem bit_not_iff)
    moreover have "bf_first_free n bits = Some ?k"
      using i True nz assms by (simp add: bf_first_free_def bf_consts arr_get_def mult.commute)
    ultimately show ?thesis using True lt by (intro exI [of _ ?k]) auto
  qed
qed

text \<open>The search for a free bit returns the least index whose bit is clear, or the number of bits when
  the field is full, and never reads outside the field.\<close>

theorem bf_first_free_spec:
  "\<exists>k. bf_first_free (length bits) bits = Some k \<and> k \<le> 64 * length bits \<and>
     (\<forall>j < k. bf_get_bit bits j = Some True) \<and> (k < 64 * length bits \<longrightarrow> bf_get_bit bits k = Some False)"
proof -
  obtain k where k: "bf_first_free (length bits) bits = Some k" "k \<le> 64 * length bits"
    "\<And>j. j < k \<Longrightarrow> j \<in> bf_bits bits" "k \<notin> bf_bits bits"
    using bf_first_free_least [OF refl, of bits] by blast
  then show ?thesis by (intro exI [of _ k]) (auto simp: bf_get_bit_bits)
qed

theorem bf_first_free_spec_witness:
  "\<exists>k. bf_first_free 1 [7] = Some k \<and> k \<le> 64 \<and> (\<forall>j < k. bf_get_bit [7] j = Some True)"
  using bf_first_free_spec [of "[7]"] by auto

end
