(* ===== verification/Dlink.thy ===== *)
theory Dlink
  imports Sos_Prelude
begin

text \<open>
  Doubly linked segments over an array of nodes, the shape of the two frame lists and of the
  clock ring of \<^verbatim>\<open>sos/src/frame_table.c\<close>. A segment is given by the accessor functions of
  its two links, the value its first node has as predecessor and the value its last node has
  as successor. A list ends in index 0 on both sides; a ring ends in its own last and first
  node.
\<close>

definition hd_or :: "'a list \<Rightarrow> 'a \<Rightarrow> 'a" where
  "hd_or xs n = (case xs of [] \<Rightarrow> n | x # _ \<Rightarrow> x)"

definition last_or :: "'a \<Rightarrow> 'a list \<Rightarrow> 'a" where
  "last_or p xs = (if xs = [] then p else last xs)"

lemma hd_or_simps [simp]: "hd_or [] n = n" "hd_or (x # xs) n = x"
  by (simp_all add: hd_or_def)

lemma last_or_simps [simp]:
  "last_or p [] = p" "last_or p (x # xs) = last_or x xs" "last_or p (xs @ [y]) = y"
  by (simp_all add: last_or_def)

lemma hd_or_append [simp]: "hd_or (xs @ ys) n = hd_or xs (hd_or ys n)"
  by (cases xs) simp_all

lemma last_or_append [simp]: "last_or p (xs @ ys) = last_or (last_or p xs) ys"
  by (simp add: last_or_def)

lemma hd_or_nonempty: "xs \<noteq> [] \<Longrightarrow> hd_or xs n = hd xs"
  by (cases xs) simp_all

lemma last_or_nonempty: "xs \<noteq> [] \<Longrightarrow> last_or p xs = last xs"
  by (simp add: last_or_def)

lemma hd_or_in: "xs \<noteq> [] \<Longrightarrow> hd_or xs n \<in> set xs"
  by (cases xs) simp_all

lemma last_or_in: "xs \<noteq> [] \<Longrightarrow> last_or p xs \<in> set xs"
  by (simp add: last_or_def)

lemma hd_or_eq_default: "n \<notin> set xs \<Longrightarrow> hd_or xs n = n \<longleftrightarrow> xs = []"
  by (cases xs) auto

lemma last_or_eq_default: "p \<notin> set xs \<Longrightarrow> last_or p xs = p \<longleftrightarrow> xs = []"
  by (metis last_or_in last_or_simps(1))

fun dllseg :: "('a \<Rightarrow> 'a) \<Rightarrow> ('a \<Rightarrow> 'a) \<Rightarrow> 'a \<Rightarrow> 'a list \<Rightarrow> 'a \<Rightarrow> bool" where
  "dllseg prv nxt p [] n \<longleftrightarrow> True"
| "dllseg prv nxt p (x # xs) n \<longleftrightarrow>
     prv x = p \<and> nxt x = hd_or xs n \<and> dllseg prv nxt x xs n"

lemma dllseg_append:
  "dllseg prv nxt p (xs @ ys) n \<longleftrightarrow>
     dllseg prv nxt p xs (hd_or ys n) \<and> dllseg prv nxt (last_or p xs) ys n"
  by (induction xs arbitrary: p) auto

lemma dllseg_cong:
  assumes "\<And>x. x \<in> set xs \<Longrightarrow> prv x = prv' x" "\<And>x. x \<in> set xs \<Longrightarrow> nxt x = nxt' x"
  shows "dllseg prv nxt p xs n \<longleftrightarrow> dllseg prv' nxt' p xs n"
  using assms by (induction xs arbitrary: p) auto

lemma dllseg_upd_notin [simp]:
  assumes "a \<notin> set xs"
  shows "dllseg (prv(a := v)) nxt p xs n \<longleftrightarrow> dllseg prv nxt p xs n"
    and "dllseg prv (nxt(a := v)) p xs n \<longleftrightarrow> dllseg prv nxt p xs n"
  using assms by (auto intro!: dllseg_cong)

text \<open>Relinking the ends: the first node's predecessor, the last node's successor.\<close>

lemma dllseg_set_first:
  assumes "dllseg prv nxt p xs n" "distinct xs" "xs \<noteq> []"
  shows "dllseg (prv(hd_or xs d := q)) nxt q xs n"
  using assms by (cases xs) auto

lemma dllseg_set_last:
  assumes "dllseg prv nxt p xs n" "distinct xs" "xs \<noteq> []"
  shows "dllseg prv (nxt(last_or d xs := m)) p xs m"
proof -
  obtain ys y where xs: "xs = ys @ [y]" using assms(3) by (cases xs rule: rev_cases) auto
  with assms show ?thesis by (auto simp: dllseg_append)
qed

text \<open>Unlinking an inner node.\<close>

lemma dllseg_unlink:
  assumes seg: "dllseg prv nxt a (xs @ f # ys) b" and dist: "distinct (xs @ ys)"
    and prv: "\<And>r. r \<in> set (xs @ ys) \<Longrightarrow> prv' r = (if ys \<noteq> [] \<and> r = hd ys then last_or a xs else prv r)"
    and nxt: "\<And>r. r \<in> set (xs @ ys) \<Longrightarrow> nxt' r = (if xs \<noteq> [] \<and> r = last xs then hd_or ys b else nxt r)"
  shows "dllseg prv' nxt' a (xs @ ys) b"
proof -
  from seg have l: "dllseg prv nxt a xs f" and r: "dllseg prv nxt f ys b" by (auto simp: dllseg_append)
  have neq: "x \<in> set xs \<Longrightarrow> \<not> (ys \<noteq> [] \<and> x = hd ys)" "x \<in> set ys \<Longrightarrow> \<not> (xs \<noteq> [] \<and> x = last xs)" for x
    using dist last_in_set [of xs] hd_in_set [of ys] by (auto simp del: last_in_set hd_in_set)
  have "dllseg prv' nxt' a xs (hd_or ys b)"
  proof (cases "xs = []")
    case False
    from dllseg_set_last [OF l _ False, of a "hd_or ys b"] dist
    have "dllseg prv (nxt(last xs := hd_or ys b)) a xs (hd_or ys b)" using False by (simp add: last_or_nonempty)
    then show ?thesis
      using False by (rule_tac iffD1 [OF dllseg_cong]) (simp_all add: prv nxt neq)
  qed simp
  moreover have "dllseg prv' nxt' (last_or a xs) ys b"
  proof (cases "ys = []")
    case False
    from dllseg_set_first [OF r _ False, of b "last_or a xs"] dist
    have "dllseg (prv(hd ys := last_or a xs)) nxt (last_or a xs) ys b" using False by (simp add: hd_or_nonempty)
    then show ?thesis
      using False by (rule_tac iffD1 [OF dllseg_cong]) (simp_all add: prv nxt neq)
  qed simp
  ultimately show ?thesis by (simp add: dllseg_append)
qed

lemma dllseg_next:
  assumes "dllseg prv nxt p (xs @ x # ys) n"
  shows "nxt x = hd_or ys n" "prv x = last_or p xs"
  using assms by (auto simp: dllseg_append)

lemma dllseg_ends:
  assumes seg: "dllseg prv nxt a xs b" and xs: "distinct xs" "xs \<noteq> []"
    and prv: "\<And>r. r \<in> set xs \<Longrightarrow> prv' r = (if r = hd xs then a' else prv r)"
    and nxt: "\<And>r. r \<in> set xs \<Longrightarrow> nxt' r = (if r = last xs then b' else nxt r)"
  shows "dllseg prv' nxt' a' xs b'"
proof -
  have "dllseg (prv(hd xs := a')) (nxt(last xs := b')) a' xs b'"
    using dllseg_set_first [OF dllseg_set_last [OF seg xs, of a b'] xs, of b a'] xs(2)
    by (simp add: hd_or_nonempty last_or_nonempty)
  then show ?thesis by (rule iffD1 [OF dllseg_cong, rotated 2]) (simp_all add: prv nxt)
qed

section \<open>Rings\<close>

definition ring :: "('a \<Rightarrow> 'a) \<Rightarrow> ('a \<Rightarrow> 'a) \<Rightarrow> 'a list \<Rightarrow> bool" where
  "ring prv nxt cs \<longleftrightarrow> distinct cs \<and> (cs \<noteq> [] \<longrightarrow> dllseg prv nxt (last cs) cs (hd cs))"

lemma ring_Nil [simp]: "ring prv nxt []"
  by (simp add: ring_def)

lemma ring_cong:
  assumes "\<And>r. r \<in> set cs \<Longrightarrow> prv r = prv' r" "\<And>r. r \<in> set cs \<Longrightarrow> nxt r = nxt' r"
  shows "ring prv nxt cs \<longleftrightarrow> ring prv' nxt' cs"
  using dllseg_cong [OF assms] by (simp add: ring_def)

lemma ring_links:
  assumes "ring prv nxt (xs @ f # ys)"
  shows "nxt f = hd_or ys (hd_or xs f)" "prv f = last_or (last_or f ys) xs"
proof -
  have "dllseg prv nxt (last (xs @ f # ys)) (xs @ f # ys) (hd (xs @ f # ys))"
    using assms by (simp add: ring_def)
  from dllseg_next [OF this]
  show "nxt f = hd_or ys (hd_or xs f)" "prv f = last_or (last_or f ys) xs"
    by (cases xs; simp add: last_or_def)+
qed

lemma ring_rotate1:
  assumes "ring prv nxt (x # ys)"
  shows "ring prv nxt (ys @ [x])"
  using assms by (cases ys) (auto simp: ring_def dllseg_append last_or_def)

lemma ring_rotate:
  "ring prv nxt (xs @ ys) \<Longrightarrow> ring prv nxt (ys @ xs)"
proof (induction xs arbitrary: ys)
  case (Cons x xs)
  from Cons.IH [of "ys @ [x]"] ring_rotate1 [of prv nxt x "xs @ ys"] Cons.prems show ?case by simp
qed simp

lemma ring_snoc:
  assumes r: "ring prv nxt cs" and f: "f \<notin> set cs" and ne: "cs \<noteq> []"
    and new: "prv' f = last cs" "nxt' f = hd cs"
    and prv: "\<And>r. r \<in> set cs \<Longrightarrow> prv' r = (if r = hd cs then f else prv r)"
    and nxt: "\<And>r. r \<in> set cs \<Longrightarrow> nxt' r = (if r = last cs then f else nxt r)"
  shows "ring prv' nxt' (cs @ [f])"
proof -
  from r ne have d: "distinct cs" "dllseg prv nxt (last cs) cs (hd cs)" by (auto simp: ring_def)
  have "dllseg prv' nxt' f cs f" by (rule dllseg_ends [OF d(2,1) ne prv nxt])
  with d f ne new show ?thesis by (simp add: ring_def dllseg_append last_or_nonempty)
qed

lemma ring_remove:
  assumes r: "ring prv nxt (xs @ f # ys)"
    and prv: "\<And>r. r \<in> set (xs @ ys) \<Longrightarrow> prv' r = (if r = nxt f then prv f else prv r)"
    and nxt: "\<And>r. r \<in> set (xs @ ys) \<Longrightarrow> nxt' r = (if r = prv f then nxt f else nxt r)"
  shows "ring prv' nxt' (xs @ ys)"
proof -
  from r have d: "distinct (xs @ f # ys)"
    and seg: "dllseg prv nxt (last (xs @ f # ys)) (xs @ f # ys) (hd (xs @ f # ys))"
    by (auto simp: ring_def)
  note l = ring_links [OF r]
  consider "xs = []" "ys = []" | "xs = []" "ys \<noteq> []" | "xs \<noteq> []" "ys = []" | "xs \<noteq> []" "ys \<noteq> []" by blast
  then show ?thesis
  proof cases
    case 2
    with seg have "dllseg prv nxt f ys f" by simp
    then have "dllseg prv' nxt' (last ys) ys (hd ys)"
      by (rule dllseg_ends) (use 2 d prv nxt l in \<open>auto simp: hd_or_nonempty last_or_nonempty\<close>)
    with 2 d show ?thesis by (simp add: ring_def)
  next
    case 3
    with seg have "dllseg prv nxt f xs f" by (simp add: dllseg_append)
    then have "dllseg prv' nxt' (last xs) xs (hd xs)"
      by (rule dllseg_ends) (use 3 d prv nxt l in \<open>auto simp: hd_or_nonempty last_or_nonempty\<close>)
    with 3 d show ?thesis by (simp add: ring_def)
  next
    case 4
    with l have "nxt f = hd ys" "prv f = last xs" by (simp_all add: hd_or_nonempty last_or_nonempty)
    with 4 d prv nxt have "dllseg prv' nxt' (last (xs @ f # ys)) (xs @ ys) (hd (xs @ f # ys))"
      by (intro dllseg_unlink [OF seg]) (auto simp: hd_or_nonempty last_or_nonempty)
    with 4 d show ?thesis by (auto simp: ring_def)
  qed simp
qed

end
