(* ===== verification/Frame_Lists.thy ===== *)
theory Frame_Lists
  imports Dlink
begin

text \<open>
  The frame array and the two frame lists of \<^verbatim>\<open>sos/src/frame_table.c\<close>: the free list and
  the list of allocated frames, both threaded through the \<^verbatim>\<open>prev\<close> and \<^verbatim>\<open>next\<close>
  indices of the frame entries. A pointer into the array is the index of its entry; the NULL
  pointer is \<open>None\<close> where a function may return it. The abstraction of a table is the
  pair of sequences on its lists, and the four list operations refine consing, appending,
  taking the head and deleting an element.
\<close>

section \<open>Data\<close>

datatype list_id_t = NO_LIST | FREE_LIST | ALLOCATED_LIST

datatype frame_owner_t =
    FRAME_OWNER_KERNEL | FRAME_OWNER_USER | FRAME_OWNER_PAGER | FRAME_OWNER_NETWORK

type_synonym frame_ref = nat

definition NULL_FRAME :: frame_ref where
  "NULL_FRAME = 0"

record frame =
  sos_page :: cptr
  fr_prev :: frame_ref
  fr_next :: frame_ref
  fr_list_id :: list_id_t
  fr_owner :: frame_owner_t
  fr_flags :: u32
  pin_count :: u16
  reserved16 :: u16
  swap_slot :: u32
  clock_prev :: frame_ref
  clock_next :: frame_ref

record frame_list =
  fl_list_id :: list_id_t
  fl_first :: frame_ref
  fl_last :: frame_ref
  fl_length :: nat

record clock_list =
  cl_hand :: frame_ref
  cl_length :: nat

record frame_table =
  ft_frames :: "frame_ref \<Rightarrow> frame"
  ft_capacity :: nat
  ft_used :: nat
  ft_byte_length :: nat
  ft_free :: frame_list
  ft_allocated :: frame_list
  ft_clock :: clock_list
  ft_cspace :: nat
  ft_vspace :: cptr

text \<open>
  The static initialiser of the table. The array of entries lies in memory that is not mapped
  yet, so its contents are a parameter.
\<close>

definition frame_table_static :: "(frame_ref \<Rightarrow> frame) \<Rightarrow> frame_table" where
  "frame_table_static mem = \<lparr>ft_frames = mem, ft_capacity = 0, ft_used = 0,
     ft_byte_length = 0,
     ft_free = \<lparr>fl_list_id = FREE_LIST, fl_first = 0, fl_last = 0, fl_length = 0\<rparr>,
     ft_allocated = \<lparr>fl_list_id = ALLOCATED_LIST, fl_first = 0, fl_last = 0, fl_length = 0\<rparr>,
     ft_clock = \<lparr>cl_hand = NULL_FRAME, cl_length = 0\<rparr>, ft_cspace = 0, ft_vspace = 0\<rparr>"

text \<open>A \<^verbatim>\<open>frame_list_t *\<close> argument points to one of the two lists of the table.\<close>

datatype list_ptr = Free_p | Allocated_p

fun get_list :: "list_ptr \<Rightarrow> frame_table \<Rightarrow> frame_list" where
  "get_list Free_p ft = ft_free ft"
| "get_list Allocated_p ft = ft_allocated ft"

fun upd_list :: "list_ptr \<Rightarrow> (frame_list \<Rightarrow> frame_list) \<Rightarrow> frame_table \<Rightarrow> frame_table" where
  "upd_list Free_p g ft = ft\<lparr>ft_free := g (ft_free ft)\<rparr>"
| "upd_list Allocated_p g ft = ft\<lparr>ft_allocated := g (ft_allocated ft)\<rparr>"

definition upd_frame :: "frame_ref \<Rightarrow> (frame \<Rightarrow> frame) \<Rightarrow> frame_table \<Rightarrow> frame_table" where
  "upd_frame f g ft = ft\<lparr>ft_frames := (ft_frames ft)(f := g (ft_frames ft f))\<rparr>"

section \<open>Operations\<close>

definition frame_from_ref :: "frame_table \<Rightarrow> frame_ref \<Rightarrow> frame_ref option" where
  "frame_from_ref ft r = do {
     cassert (r \<noteq> NULL_FRAME);
     cassert (r < ft_capacity ft);
     Some r }"

definition ref_from_frame :: "frame_table \<Rightarrow> frame_ref \<Rightarrow> frame_ref option" where
  "ref_from_frame ft f = do {
     cassert (f < ft_used ft);
     Some f }"

definition push_front :: "list_ptr \<Rightarrow> frame_ref \<Rightarrow> frame_table \<Rightarrow> frame_table option" where
  "push_front l f ft = do {
     cassert (fr_list_id (ft_frames ft f) = NO_LIST);
     cassert (fr_next (ft_frames ft f) = NULL_FRAME);
     cassert (fr_prev (ft_frames ft f) = NULL_FRAME);
     r \<leftarrow> ref_from_frame ft f;
     let ft = (if fl_last (get_list l ft) = NULL_FRAME
               then upd_list l (\<lambda>d. d\<lparr>fl_last := r\<rparr>) ft else ft);
     let ft = upd_frame f (\<lambda>e. e\<lparr>fr_next := fl_first (get_list l ft)\<rparr>) ft;
     ft \<leftarrow> (if fr_next (ft_frames ft f) \<noteq> NULL_FRAME then do {
              nx \<leftarrow> frame_from_ref ft (fr_next (ft_frames ft f));
              Some (upd_frame nx (\<lambda>e. e\<lparr>fr_prev := r\<rparr>) ft) }
            else Some ft);
     let ft = upd_list l (\<lambda>d. d\<lparr>fl_first := r, fl_length := sz_inc (fl_length d)\<rparr>) ft;
     Some (upd_frame f (\<lambda>e. e\<lparr>fr_list_id := fl_list_id (get_list l ft)\<rparr>) ft) }"

definition push_back :: "list_ptr \<Rightarrow> frame_ref \<Rightarrow> frame_table \<Rightarrow> frame_table option" where
  "push_back l f ft = do {
     cassert (fr_list_id (ft_frames ft f) = NO_LIST);
     cassert (fr_next (ft_frames ft f) = NULL_FRAME);
     cassert (fr_prev (ft_frames ft f) = NULL_FRAME);
     r \<leftarrow> ref_from_frame ft f;
     if fl_last (get_list l ft) \<noteq> NULL_FRAME then do {
       la \<leftarrow> frame_from_ref ft (fl_last (get_list l ft));
       let ft = upd_frame la (\<lambda>e. e\<lparr>fr_next := r\<rparr>) ft;
       let ft = upd_frame f (\<lambda>e. e\<lparr>fr_prev := fl_last (get_list l ft)\<rparr>) ft;
       let ft = upd_list l (\<lambda>d. d\<lparr>fl_last := r\<rparr>) ft;
       let ft = upd_frame f (\<lambda>e. e\<lparr>fr_list_id := fl_list_id (get_list l ft)\<rparr>) ft;
       Some (upd_list l (\<lambda>d. d\<lparr>fl_length := sz_inc (fl_length d)\<rparr>) ft) }
     else push_front l f ft }"

definition pop_front :: "list_ptr \<Rightarrow> frame_table \<Rightarrow> (frame_ref option \<times> frame_table) option" where
  "pop_front l ft =
     (if fl_first (get_list l ft) \<noteq> NULL_FRAME then do {
        hd \<leftarrow> frame_from_ref ft (fl_first (get_list l ft));
        ft \<leftarrow> (if fl_last (get_list l ft) = fl_first (get_list l ft) then do {
                 let ft = upd_list l (\<lambda>d. d\<lparr>fl_last := NULL_FRAME\<rparr>) ft;
                 cassert (fr_next (ft_frames ft hd) = NULL_FRAME);
                 Some ft }
               else do {
                 nx \<leftarrow> frame_from_ref ft (fr_next (ft_frames ft hd));
                 Some (upd_frame nx (\<lambda>e. e\<lparr>fr_prev := NULL_FRAME\<rparr>) ft) });
        let ft = upd_list l (\<lambda>d. d\<lparr>fl_first := fr_next (ft_frames ft hd)\<rparr>) ft;
        cassert (fr_prev (ft_frames ft hd) = NULL_FRAME);
        let ft = upd_frame hd (\<lambda>e. e\<lparr>fr_next := NULL_FRAME, fr_list_id := NO_LIST,
                   fr_prev := NULL_FRAME\<rparr>) ft;
        Some (Some hd, upd_list l (\<lambda>d. d\<lparr>fl_length := sz_dec (fl_length d)\<rparr>) ft) }
      else Some (None, ft))"

definition remove_frame :: "list_ptr \<Rightarrow> frame_ref \<Rightarrow> frame_table \<Rightarrow> frame_table option" where
  "remove_frame l f ft = do {
     cassert (fr_list_id (ft_frames ft f) = fl_list_id (get_list l ft));
     ft \<leftarrow> (if fr_prev (ft_frames ft f) \<noteq> NULL_FRAME then do {
              pv \<leftarrow> frame_from_ref ft (fr_prev (ft_frames ft f));
              Some (upd_frame pv (\<lambda>e. e\<lparr>fr_next := fr_next (ft_frames ft f)\<rparr>) ft) }
            else Some (upd_list l (\<lambda>d. d\<lparr>fl_first := fr_next (ft_frames ft f)\<rparr>) ft));
     ft \<leftarrow> (if fr_next (ft_frames ft f) \<noteq> NULL_FRAME then do {
              nx \<leftarrow> frame_from_ref ft (fr_next (ft_frames ft f));
              Some (upd_frame nx (\<lambda>e. e\<lparr>fr_prev := fr_prev (ft_frames ft f)\<rparr>) ft) }
            else Some (upd_list l (\<lambda>d. d\<lparr>fl_last := fr_prev (ft_frames ft f)\<rparr>) ft));
     let ft = upd_list l (\<lambda>d. d\<lparr>fl_length := sz_dec (fl_length d)\<rparr>) ft;
     Some (upd_frame f (\<lambda>e. e\<lparr>fr_list_id := NO_LIST, fr_prev := NULL_FRAME,
             fr_next := NULL_FRAME\<rparr>) ft) }"

section \<open>Abstraction\<close>

fun lid :: "list_ptr \<Rightarrow> list_id_t" where
  "lid Free_p = FREE_LIST"
| "lid Allocated_p = ALLOCATED_LIST"

lemma lid_inj [simp]: "lid l = lid l' \<longleftrightarrow> l = l'"
  by (cases l; cases l') simp_all

lemma lid_not_NO_LIST [simp]: "lid l \<noteq> NO_LIST" "NO_LIST \<noteq> lid l"
  by (cases l; simp)+

definition flist :: "(frame_ref \<Rightarrow> frame) \<Rightarrow> frame_list \<Rightarrow> frame_ref list \<Rightarrow> bool" where
  "flist h d xs \<longleftrightarrow>
     dllseg (\<lambda>x. fr_prev (h x)) (\<lambda>x. fr_next (h x)) 0 xs 0 \<and> distinct xs \<and>
     fl_first d = hd_or xs 0 \<and> fl_last d = last_or 0 xs \<and> fl_length d = length xs"

definition ft_lists :: "frame_table \<Rightarrow> (list_ptr \<Rightarrow> frame_ref list) \<Rightarrow> bool" where
  "ft_lists ft L \<longleftrightarrow>
     (\<forall>l. flist (ft_frames ft) (get_list l ft) (L l) \<and> fl_list_id (get_list l ft) = lid l \<and>
          set (L l) \<subseteq> {0<..<ft_used ft}) \<and>
     (\<forall>r l. 0 < r \<longrightarrow> r < ft_used ft \<longrightarrow> (fr_list_id (ft_frames ft r) = lid l \<longleftrightarrow> r \<in> set (L l))) \<and>
     (\<forall>r. 0 < r \<longrightarrow> r < ft_used ft \<longrightarrow> fr_list_id (ft_frames ft r) = NO_LIST \<longrightarrow>
          fr_prev (ft_frames ft r) = 0 \<and> fr_next (ft_frames ft r) = 0) \<and>
     ft_used ft \<le> ft_capacity ft \<and> ft_capacity ft < 2 ^ 58"

text \<open>What the list operations leave alone: everything but the three list fields.\<close>

definition payload :: "frame \<Rightarrow> frame" where
  "payload e = e\<lparr>fr_prev := 0, fr_next := 0, fr_list_id := NO_LIST\<rparr>"

definition links_only :: "frame_table \<Rightarrow> frame_table \<Rightarrow> bool" where
  "links_only ft ft' \<longleftrightarrow>
     (\<forall>r. payload (ft_frames ft' r) = payload (ft_frames ft r)) \<and>
     ft_capacity ft' = ft_capacity ft \<and> ft_used ft' = ft_used ft \<and>
     ft_byte_length ft' = ft_byte_length ft \<and> ft_clock ft' = ft_clock ft \<and>
     ft_cspace ft' = ft_cspace ft \<and> ft_vspace ft' = ft_vspace ft"

lemmas frame_ref_defs = frame_from_ref_def ref_from_frame_def NULL_FRAME_def

lemmas frame_ops_defs = frame_ref_defs upd_frame_def

lemma get_upd_list [simp]:
  "get_list l (upd_list l' g ft) = (if l = l' then g (get_list l ft) else get_list l ft)"
  by (cases l; cases l') simp_all

lemma upd_list_sel [simp]:
  "ft_frames (upd_list l g ft) = ft_frames ft" "ft_capacity (upd_list l g ft) = ft_capacity ft"
  "ft_used (upd_list l g ft) = ft_used ft" "ft_byte_length (upd_list l g ft) = ft_byte_length ft"
  "ft_clock (upd_list l g ft) = ft_clock ft" "ft_cspace (upd_list l g ft) = ft_cspace ft"
  "ft_vspace (upd_list l g ft) = ft_vspace ft"
  by (cases l; simp)+

lemma upd_frame_sel [simp]:
  "ft_frames (upd_frame f g ft) r = (if r = f then g (ft_frames ft f) else ft_frames ft r)"
  "ft_capacity (upd_frame f g ft) = ft_capacity ft" "ft_used (upd_frame f g ft) = ft_used ft"
  "ft_byte_length (upd_frame f g ft) = ft_byte_length ft" "ft_clock (upd_frame f g ft) = ft_clock ft"
  "ft_cspace (upd_frame f g ft) = ft_cspace ft" "ft_vspace (upd_frame f g ft) = ft_vspace ft"
  "get_list l (upd_frame f g ft) = get_list l ft"
  by (cases l; simp add: upd_frame_def)+

lemma get_list_frames_upd [simp]: "get_list l (ft\<lparr>ft_frames := h\<rparr>) = get_list l ft"
  by (cases l) simp_all

lemma upd_list_twice [simp]:
  "upd_list l g (upd_list l g' ft) = upd_list l (\<lambda>d. g (g' d)) ft"
  by (cases l) simp_all

lemma upd_list_frames [simp]:
  "upd_list l g (ft\<lparr>ft_frames := h\<rparr>) = (upd_list l g ft)\<lparr>ft_frames := h\<rparr>"
  by (cases l) simp_all

lemma frames_eqI: "(\<And>r. h r = h' r) \<Longrightarrow> ft\<lparr>ft_frames := h\<rparr> = ft\<lparr>ft_frames := h'\<rparr>"
  by presburger

lemma ft_listsD:
  assumes "ft_lists ft L"
  shows "fl_first (get_list l ft) = hd_or (L l) 0" "fl_last (get_list l ft) = last_or 0 (L l)"
    "fl_length (get_list l ft) = length (L l)" "fl_list_id (get_list l ft) = lid l"
    "distinct (L l)" "set (L l) \<subseteq> {0<..<ft_used ft}" "0 \<notin> set (L l)"
    "dllseg (\<lambda>x. fr_prev (ft_frames ft x)) (\<lambda>x. fr_next (ft_frames ft x)) 0 (L l) 0"
    "ft_used ft \<le> ft_capacity ft" "ft_capacity ft < 2 ^ 58"
    "r \<in> set (L l) \<Longrightarrow> fr_list_id (ft_frames ft r) = lid l"
    "r \<in> set (L l) \<Longrightarrow> 0 < r \<and> r < ft_used ft"
    "0 < r \<Longrightarrow> r < ft_used ft \<Longrightarrow> fr_list_id (ft_frames ft r) = lid l \<Longrightarrow> r \<in> set (L l)"
  using assms by (auto simp: ft_lists_def flist_def subset_iff)

lemma ft_lists_length_less:
  assumes "ft_lists ft L" "0 < ft_used ft"
  shows "length (L l) < ft_used ft" "Suc (length (L l)) < 2 ^ 64"
proof -
  have "card (set (L l)) \<le> card {0<..<ft_used ft}"
    using ft_listsD(6) [OF assms(1)] by (intro card_mono) auto
  moreover have "card (set (L l)) = length (L l)"
    using ft_listsD(5) [OF assms(1)] by (rule distinct_card)
  ultimately show "length (L l) < ft_used ft" using assms(2) by simp
  then show "Suc (length (L l)) < 2 ^ 64" using ft_listsD(9,10) [OF assms(1)] by simp
qed

section \<open>Refinement\<close>

text \<open>One list changes to \<open>xs\<close>; the entries on the other list are untouched.\<close>

lemma ft_lists_update:
  assumes inv: "ft_lists ft L"
    and same: "ft_used ft' = ft_used ft" "ft_capacity ft' = ft_capacity ft"
    and others: "\<And>l'. l' \<noteq> l \<Longrightarrow> get_list l' ft' = get_list l' ft"
    and keep: "\<And>l' r. l' \<noteq> l \<Longrightarrow> r \<in> set (L l') \<Longrightarrow> ft_frames ft' r = ft_frames ft r"
    and xs: "flist (ft_frames ft') (get_list l ft') xs" "fl_list_id (get_list l ft') = lid l"
      "set xs \<subseteq> {0<..<ft_used ft}" "\<And>r. r \<in> set xs \<Longrightarrow> fr_list_id (ft_frames ft' r) = lid l"
    and rest: "\<And>r. 0 < r \<Longrightarrow> r < ft_used ft \<Longrightarrow> r \<notin> set xs \<Longrightarrow> (\<And>l'. l' \<noteq> l \<Longrightarrow> r \<notin> set (L l')) \<Longrightarrow>
      fr_list_id (ft_frames ft' r) = NO_LIST \<and> fr_prev (ft_frames ft' r) = 0 \<and>
      fr_next (ft_frames ft' r) = 0"
  shows "ft_lists ft' (L(l := xs))"
proof -
  note D = ft_listsD [OF inv]
  have fl: "flist (ft_frames ft') (get_list l' ft') ((L(l := xs)) l') \<and>
      fl_list_id (get_list l' ft') = lid l' \<and> set ((L(l := xs)) l') \<subseteq> {0<..<ft_used ft'}" for l'
  proof (cases "l' = l")
    case False
    have "dllseg (\<lambda>x. fr_prev (ft_frames ft' x)) (\<lambda>x. fr_next (ft_frames ft' x)) 0 (L l') 0"
      using D(8) [of l'] keep [OF False] by (subst dllseg_cong) auto
    with False D(1-7) [of l'] others [OF False] same show ?thesis by (simp add: flist_def)
  qed (use xs same in simp)
  have ids: "fr_list_id (ft_frames ft' r) = lid l' \<longleftrightarrow> r \<in> set ((L(l := xs)) l')"
    if r: "0 < r" "r < ft_used ft" for r l'
  proof (cases "\<exists>l''. l'' \<noteq> l \<and> r \<in> set (L l'')")
    case True
    then obtain l'' where l'': "l'' \<noteq> l" "r \<in> set (L l'')" by blast
    then have id: "fr_list_id (ft_frames ft' r) = lid l''" using keep D(11) by simp
    with l'' xs(4) [of r] have "r \<notin> set xs" by auto
    with id l'' D(11) [OF l''(2)] D(11) [of r l'] show ?thesis by (cases "l' = l") auto
  next
    case False
    then have "r \<notin> set (L l'')" if "l'' \<noteq> l" for l'' using that by blast
    with rest [OF r] have "r \<notin> set xs \<Longrightarrow> fr_list_id (ft_frames ft' r) = NO_LIST" by blast
    with False xs(4) [of r] show ?thesis by (cases "r \<in> set xs") auto
  qed
  have nolist: "fr_prev (ft_frames ft' r) = 0 \<and> fr_next (ft_frames ft' r) = 0"
    if r: "0 < r" "r < ft_used ft" "fr_list_id (ft_frames ft' r) = NO_LIST" for r
    using rest [OF r(1,2)] ids [OF r(1,2)] r(3) by (metis fun_upd_other fun_upd_same lid_not_NO_LIST(2))
  show ?thesis
    unfolding ft_lists_def using fl ids nolist D(9,10) same by simp
qed

lemma ft_lists_disjoint:
  assumes "ft_lists ft L" "x \<in> set (L l)" "l' \<noteq> l"
  shows "x \<notin> set (L l')"
  using ft_listsD(11) [OF assms(1), of x l] ft_listsD(11) [OF assms(1), of x l'] assms(2,3) by auto

lemma ft_lists_NO_LIST:
  assumes "ft_lists ft L" "fr_list_id (ft_frames ft f) = NO_LIST"
  shows "f \<notin> set (L l)" "0 < f \<Longrightarrow> f < ft_used ft \<Longrightarrow> fr_prev (ft_frames ft f) = 0"
    "0 < f \<Longrightarrow> f < ft_used ft \<Longrightarrow> fr_next (ft_frames ft f) = 0"
  using assms ft_listsD(11) [OF assms(1), of f l] by (auto simp: ft_lists_def)

lemma ft_lists_unlisted:
  assumes "ft_lists ft L" "0 < r" "r < ft_used ft" "\<And>l. r \<notin> set (L l)"
  shows "fr_list_id (ft_frames ft r) = NO_LIST" "fr_prev (ft_frames ft r) = 0"
    "fr_next (ft_frames ft r) = 0"
proof -
  show "fr_list_id (ft_frames ft r) = NO_LIST"
    using ft_listsD(13) [OF assms(1-3)] assms(4) lid.simps by (metis list_id_t.exhaust)
  with assms show "fr_prev (ft_frames ft r) = 0" "fr_next (ft_frames ft r) = 0"
    by (auto simp: ft_lists_def)
qed

lemma ft_lists_upd:
  assumes inv: "ft_lists ft L" and g: "\<And>d. fl_list_id (g d) = fl_list_id d"
    and fl: "flist h (g (get_list l ft)) xs"
    and new: "\<And>r. r \<in> set xs \<Longrightarrow> r \<in> set (L l) \<or>
      fr_list_id (ft_frames ft r) = NO_LIST \<and> 0 < r \<and> r < ft_used ft"
    and id: "\<And>r. r \<in> set xs \<Longrightarrow> fr_list_id (h r) = lid l"
    and gone: "\<And>r. r \<in> set (L l) \<Longrightarrow> r \<notin> set xs \<Longrightarrow>
      fr_list_id (h r) = NO_LIST \<and> fr_prev (h r) = 0 \<and> fr_next (h r) = 0"
    and keep: "\<And>r. r \<notin> set (L l) \<Longrightarrow> r \<notin> set xs \<Longrightarrow> h r = ft_frames ft r"
    and links: "\<And>r. payload (h r) = payload (ft_frames ft r)"
  shows "ft_lists ((upd_list l g ft)\<lparr>ft_frames := h\<rparr>) (L(l := xs)) \<and>
    links_only ft ((upd_list l g ft)\<lparr>ft_frames := h\<rparr>)"
proof (rule conjI)
  let ?ft = "(upd_list l g ft)\<lparr>ft_frames := h\<rparr>"
  show "ft_lists ?ft (L(l := xs))"
  proof (rule ft_lists_update [OF inv])
    fix l' r assume l': "l' \<noteq> l" "r \<in> set (L l')"
    then have "r \<notin> set (L l)" using ft_lists_disjoint [OF inv] by blast
    moreover have "r \<notin> set xs" using calculation new ft_lists_NO_LIST(1) [OF inv] l'(2) by blast
    ultimately show "ft_frames ?ft r = ft_frames ft r" using keep by simp
  next
    fix r assume r: "0 < r" "r < ft_used ft" "r \<notin> set xs" "\<And>l'. l' \<noteq> l \<Longrightarrow> r \<notin> set (L l')"
    show "fr_list_id (ft_frames ?ft r) = NO_LIST \<and> fr_prev (ft_frames ?ft r) = 0 \<and>
      fr_next (ft_frames ?ft r) = 0"
    proof (cases "r \<in> set (L l)")
      case False
      then have "r \<notin> set (L l')" for l' using r(4) by (cases "l' = l") auto
      then show ?thesis using ft_lists_unlisted [OF inv r(1,2)] keep [OF False r(3)] by simp
    qed (use gone r(3) in simp)
  next
    show "set xs \<subseteq> {0<..<ft_used ft}" using new ft_listsD(12) [OF inv, of _ l] by fastforce
  qed (use fl g id ft_listsD(4) [OF inv] in simp_all)
  show "links_only ft ?ft" using links by (simp add: links_only_def)
qed

lemma push_front_refines:
  assumes inv: "ft_lists ft L" and f: "0 < f" "f < ft_used ft"
    and no: "fr_list_id (ft_frames ft f) = NO_LIST"
  shows "\<exists>ft'. push_front l f ft = Some ft' \<and> ft_lists ft' (L(l := f # L l)) \<and> links_only ft ft'"
proof -
  note D = ft_listsD [OF inv]
  note N = ft_lists_NO_LIST [OF inv no] ft_lists_NO_LIST(2,3) [OF inv no f]
  have len: "sz_inc (length (L l)) = Suc (length (L l))"
    using ft_lists_length_less(2) [OF inv, of l] f by (simp add: sz_inc_small)
  let ?h = "(ft_frames ft)(f := (ft_frames ft f)\<lparr>fr_next := hd_or (L l) 0, fr_list_id := lid l\<rparr>)"
  show ?thesis
  proof (cases "L l")
    case Nil
    have "push_front l f ft = Some ((upd_list l (\<lambda>d. d\<lparr>fl_last := f, fl_first := f,
        fl_length := sz_inc (fl_length d)\<rparr>) ft)\<lparr>ft_frames := ?h\<rparr>)" (is "_ = Some ?ft")
      using Nil by (simp add: push_front_def frame_ops_defs D(1-4) N no f)
    moreover have "ft_lists ?ft (L(l := f # L l)) \<and> links_only ft ?ft"
      using Nil f len no N D(3) [of l]
      by (intro ft_lists_upd [OF inv]) (auto simp: flist_def payload_def)
    ultimately show ?thesis by blast
  next
    case (Cons x ys)
    have x: "x \<noteq> f" "0 < x" "x < ft_capacity ft" "x \<notin> set ys" "f \<notin> set ys"
      "fr_list_id (ft_frames ft x) = lid l"
      using N(1) [of l] D(11,12) [of x l] D(5) [of l] D(9) Cons by auto
    let ?h' = "?h(x := (ft_frames ft x)\<lparr>fr_prev := f\<rparr>)"
    have "push_front l f ft = Some ((upd_list l (\<lambda>d. d\<lparr>fl_first := f,
        fl_length := sz_inc (fl_length d)\<rparr>) ft)\<lparr>ft_frames := ?h'\<rparr>)" (is "_ = Some ?ft")
      using Cons x D(7) [of l] last_or_eq_default [OF D(7), of l]
      by (simp add: push_front_def frame_ops_defs D(1-4) N no f fun_upd_twist [of x f])
    moreover have "dllseg (\<lambda>r. fr_prev (?h' r)) (\<lambda>r. fr_next (?h' r)) 0 (f # L l) 0"
      using D(8) [of l] x(1,4,5) unfolding Cons by (auto simp: N elim!: iffD1 [OF dllseg_cong, rotated 2])
    then have "ft_lists ?ft (L(l := f # L l)) \<and> links_only ft ?ft"
      using Cons f len no x D(2,3,5) [of l] D(11) [of _ l]
      by (intro ft_lists_upd [OF inv]) (auto simp: flist_def payload_def)
    ultimately show ?thesis by blast
  qed
qed

lemma push_back_refines:
  assumes inv: "ft_lists ft L" and f: "0 < f" "f < ft_used ft"
    and no: "fr_list_id (ft_frames ft f) = NO_LIST"
  shows "\<exists>ft'. push_back l f ft = Some ft' \<and> ft_lists ft' (L(l := L l @ [f])) \<and> links_only ft ft'"
proof -
  note D = ft_listsD [OF inv]
  note N = ft_lists_NO_LIST [OF inv no] ft_lists_NO_LIST(2,3) [OF inv no f]
  have len: "sz_inc (length (L l)) = Suc (length (L l))"
    using ft_lists_length_less(2) [OF inv, of l] f by (simp add: sz_inc_small)
  show ?thesis
  proof (cases "L l" rule: rev_cases)
    case Nil
    then have "push_back l f ft = push_front l f ft"
      by (simp add: push_back_def push_front_def frame_ops_defs D(1-4))
    with push_front_refines [OF assms, of l] Nil show ?thesis by simp
  next
    case (snoc ys y)
    have y: "y \<noteq> f" "0 < y" "y < ft_capacity ft" "y \<notin> set ys" "f \<notin> set ys"
      "fr_list_id (ft_frames ft y) = lid l"
      using N(1) [of l] D(11,12) [of y l] D(5) [of l] D(9) snoc by auto
    let ?h = "(ft_frames ft)(y := (ft_frames ft y)\<lparr>fr_next := f\<rparr>,
      f := (ft_frames ft f)\<lparr>fr_prev := y, fr_list_id := lid l\<rparr>)"
    have "push_back l f ft = Some ((upd_list l (\<lambda>d. d\<lparr>fl_last := f,
        fl_length := sz_inc (fl_length d)\<rparr>) ft)\<lparr>ft_frames := ?h\<rparr>)" (is "_ = Some ?ft")
      using snoc y by (simp add: push_back_def frame_ops_defs D(1-4) N no f)
    moreover have "dllseg (\<lambda>r. fr_prev (?h r)) (\<lambda>r. fr_next (?h r)) 0 (L l @ [f]) 0"
      using D(8) [of l] y(1,4,5) unfolding snoc
      by (auto simp: N dllseg_append elim!: iffD1 [OF dllseg_cong, rotated 2])
    then have "ft_lists ?ft (L(l := L l @ [f])) \<and> links_only ft ?ft"
      using snoc f len no y D(1,3,5) [of l] D(11) [of _ l]
      by (intro ft_lists_upd [OF inv]) (auto simp: flist_def payload_def)
    ultimately show ?thesis by blast
  qed
qed

lemma pop_front_empty:
  assumes "ft_lists ft L" "L l = []"
  shows "pop_front l ft = Some (None, ft)"
  using assms(2) by (simp add: pop_front_def ft_listsD [OF assms(1)] NULL_FRAME_def)

lemma pop_front_refines:
  assumes inv: "ft_lists ft L" and L: "L l = x # ys"
  shows "\<exists>ft'. pop_front l ft = Some (Some x, ft') \<and> ft_lists ft' (L(l := ys)) \<and>
    fr_list_id (ft_frames ft' x) = NO_LIST \<and> links_only ft ft'"
proof -
  note D = ft_listsD [OF inv]
  have x: "0 < x" "x < ft_capacity ft" "x < ft_used ft" "x \<notin> set ys" "fr_prev (ft_frames ft x) = 0"
    "fr_next (ft_frames ft x) = hd_or ys 0"
    using D(12) [of x l] D(5,8) [of l] D(9) L by auto
  have len: "sz_dec (length (L l)) = length ys"
    using ft_lists_length_less(2) [OF inv, of l] x L by (simp add: sz_dec_pos)
  let ?e = "(ft_frames ft x)\<lparr>fr_next := 0, fr_list_id := NO_LIST, fr_prev := 0\<rparr>"
  show ?thesis
  proof (cases ys)
    case Nil
    have "pop_front l ft = Some (Some x, (upd_list l (\<lambda>d. d\<lparr>fl_last := 0, fl_first := 0,
        fl_length := sz_dec (fl_length d)\<rparr>) ft)\<lparr>ft_frames := (ft_frames ft)(x := ?e)\<rparr>)"
      (is "_ = Some (_, ?ft)")
      using L Nil x by (simp add: pop_front_def frame_ops_defs D(1-4))
    moreover have "ft_lists ?ft (L(l := ys)) \<and> links_only ft ?ft"
      using L Nil len D(3) [of l]
      by (intro ft_lists_upd [OF inv]) (auto simp: flist_def payload_def)
    ultimately show ?thesis by auto
  next
    case (Cons y zs)
    have y: "y \<noteq> x" "0 < y" "y < ft_capacity ft" "y \<notin> set zs" "last_or y zs \<noteq> x"
      using D(12) [of y l] D(5) [of l] D(9) L Cons last_or_in [of "y # zs" 0] by auto
    let ?h = "(ft_frames ft)(y := (ft_frames ft y)\<lparr>fr_prev := 0\<rparr>, x := ?e)"
    have "pop_front l ft = Some (Some x, (upd_list l (\<lambda>d. d\<lparr>fl_first := y,
        fl_length := sz_dec (fl_length d)\<rparr>) ft)\<lparr>ft_frames := ?h\<rparr>)" (is "_ = Some (_, ?ft)")
      using L Cons x y by (simp add: pop_front_def frame_ops_defs D(1-4))
    moreover have "dllseg (\<lambda>r. fr_prev (?h r)) (\<lambda>r. fr_next (?h r)) 0 ys 0"
      using D(8) [of l] x(4) y(1,4) unfolding L Cons
      by (auto elim!: iffD1 [OF dllseg_cong, rotated 2])
    then have "ft_lists ?ft (L(l := ys)) \<and> links_only ft ?ft"
      using L Cons len x y D(2,3,5) [of l] D(11) [of _ l]
      by (intro ft_lists_upd [OF inv]) (auto simp: flist_def payload_def)
    ultimately show ?thesis by auto
  qed
qed

lemma remove_frame_refines:
  assumes inv: "ft_lists ft L" and f: "f \<in> set (L l)"
  shows "\<exists>ft'. remove_frame l f ft = Some ft' \<and> ft_lists ft' (L(l := remove1 f (L l))) \<and>
    fr_list_id (ft_frames ft' f) = NO_LIST \<and> links_only ft ft'"
proof -
  note D = ft_listsD [OF inv]
  obtain xs ys where L: "L l = xs @ f # ys" using f by (meson split_list)
  have ne: "f \<notin> set xs" "f \<notin> set ys" "0 \<notin> set xs" "0 \<notin> set ys" "distinct xs" "distinct ys"
    "set xs \<inter> set ys = {}" "0 < f" "f < ft_capacity ft" "fr_list_id (ft_frames ft f) = lid l"
    using D(5,7) [of l] D(11,12) [OF f] D(9) unfolding L by auto
  have rem: "remove1 f (L l) = xs @ ys" using ne(1) L by (simp add: remove1_append)
  define p n where pn: "p = last_or 0 xs" "n = hd_or ys 0"
  have pn0: "p = 0 \<longleftrightarrow> xs = []" "n = 0 \<longleftrightarrow> ys = []"
    using last_or_eq_default [OF ne(3)] hd_or_eq_default [OF ne(4)] by (simp_all add: pn)
  have pnx: "xs \<noteq> [] \<Longrightarrow> p = last xs" "ys \<noteq> [] \<Longrightarrow> n = hd ys"
    by (simp_all add: pn hd_or_nonempty last_or_nonempty)
  have ends: "xs \<noteq> [] \<Longrightarrow> last xs \<in> set xs" "ys \<noteq> [] \<Longrightarrow> hd ys \<in> set ys" by simp_all
  have neq: "xs \<noteq> [] \<Longrightarrow> last xs \<noteq> f" "ys \<noteq> [] \<Longrightarrow> hd ys \<noteq> f"
    "xs \<noteq> [] \<Longrightarrow> ys \<noteq> [] \<Longrightarrow> hd ys \<noteq> last xs"
    using ends ne(1,2,7) by (auto simp del: last_in_set hd_in_set)
  have len: "sz_dec (length (L l)) = length (xs @ ys)"
    using ft_lists_length_less(2) [OF inv, of l] D(12) [OF f] L by (simp add: sz_dec_pos)
  have links: "fr_prev (ft_frames ft f) = p" "fr_next (ft_frames ft f) = n"
    using D(8) [of l] unfolding L pn by (auto simp: dllseg_append)
  have cap: "xs \<noteq> [] \<Longrightarrow> last xs < ft_capacity ft" "ys \<noteq> [] \<Longrightarrow> hd ys < ft_capacity ft"
    using ends D(12) [of "last xs" l] D(12) [of "hd ys" l] D(9) L by auto
  let ?h = "\<lambda>r. if r = f then (ft_frames ft f)\<lparr>fr_list_id := NO_LIST, fr_prev := 0, fr_next := 0\<rparr>
    else if xs \<noteq> [] \<and> r = last xs then (ft_frames ft r)\<lparr>fr_next := n\<rparr>
    else if ys \<noteq> [] \<and> r = hd ys then (ft_frames ft r)\<lparr>fr_prev := p\<rparr> else ft_frames ft r"
  let ?g = "\<lambda>d. d\<lparr>fl_first := (if xs = [] then n else fl_first d),
    fl_last := (if ys = [] then p else fl_last d), fl_length := sz_dec (fl_length d)\<rparr>"
  let ?ft = "(upd_list l ?g ft)\<lparr>ft_frames := ?h\<rparr>"
  have "remove_frame l f ft = Some ?ft"
    using ne(8-10) neq cap pn0 pnx
    by (cases "xs = []"; cases "ys = []")
      (auto simp: remove_frame_def frame_ops_defs D(1-4) links Let_def intro!: frames_eqI)
  moreover have "dllseg (\<lambda>r. fr_prev (?h r)) (\<lambda>r. fr_next (?h r)) 0 (xs @ ys) 0"
    using D(8) [of l, unfolded L] by (rule dllseg_unlink) (use neq ne(1,2,5-7) in \<open>auto simp: pn\<close>)
  then have fl: "flist ?h (?g (get_list l ft)) (xs @ ys)"
    using ne(5-7) len D(1-3) [of l] unfolding L flist_def
    by (simp add: pn hd_or_nonempty last_or_nonempty)
  have "ft_lists ?ft (L(l := remove1 f (L l))) \<and> links_only ft ?ft"
    unfolding rem
  proof (rule ft_lists_upd [OF inv, where g = ?g and h = ?h])
    fix r assume "r \<in> set (xs @ ys)"
    then show "fr_list_id (?h r) = lid l"
      using D(11) [of r l] ne(1,2) unfolding L by auto
  qed (use L ends fl in \<open>auto simp: payload_def\<close>)
  ultimately show ?thesis by auto
qed

end
