(* ===== verification/Clock_Ring.thy ===== *)
theory Clock_Ring
  imports Frame_Lists
begin

text \<open>
  The clock of evictable frames in \<^verbatim>\<open>sos/src/frame_table.c\<close>: a ring threaded through
  the \<^verbatim>\<open>clock_prev\<close> and \<^verbatim>\<open>clock_next\<close> indices of the frame entries, with a hand.
  The abstraction of the ring is the sequence of its members that starts at the hand, so
  adding a frame appends it, removing one deletes it and advancing the hand rotates. The
  self check that the debug build runs after each change never fires, and the victim search is
  characterised as a search of that sequence.
\<close>

section \<open>Flags\<close>

definition FRAME_FLAG_EVICTABLE :: u32 where "FRAME_FLAG_EVICTABLE = push_bit 0 1"
definition FRAME_FLAG_PINNED :: u32 where "FRAME_FLAG_PINNED = push_bit 1 1"
definition FRAME_FLAG_DIRTY :: u32 where "FRAME_FLAG_DIRTY = push_bit 2 1"
definition FRAME_FLAG_REFERENCED :: u32 where "FRAME_FLAG_REFERENCED = push_bit 3 1"

lemmas flag_defs = FRAME_FLAG_EVICTABLE_def FRAME_FLAG_PINNED_def FRAME_FLAG_DIRTY_def
  FRAME_FLAG_REFERENCED_def

definition clock_is_member :: "frame \<Rightarrow> bool" where
  "clock_is_member e \<longleftrightarrow> clock_next e \<noteq> NULL_FRAME"

definition clock_is_eligible :: "frame \<Rightarrow> bool" where
  "clock_is_eligible e =
     (if fr_owner e \<noteq> FRAME_OWNER_USER then False
      else if fr_flags e AND FRAME_FLAG_EVICTABLE = 0 then False
      else if fr_flags e AND FRAME_FLAG_PINNED \<noteq> 0 then False
      else True)"

section \<open>Operations\<close>

text \<open>The loop of the self check; it stops by itself once the count exceeds the length.\<close>

function clock_validate_loop :: "frame_table \<Rightarrow> frame_ref \<Rightarrow> nat \<Rightarrow> nat option" where
  "clock_validate_loop ft cursor count = do {
     f \<leftarrow> frame_from_ref ft cursor;
     cassert (clock_is_member (ft_frames ft f));
     let count = count + 1;
     let cursor = clock_next (ft_frames ft f);
     if count \<le> cl_length (ft_clock ft) + 1 then
       if cursor \<noteq> cl_hand (ft_clock ft) then clock_validate_loop ft cursor count
       else Some count
     else None }"
  by pat_completeness auto
termination
  by (relation "measure (\<lambda>(ft, cursor, count). cl_length (ft_clock ft) + 2 - count)") auto

definition clock_validate :: "frame_table \<Rightarrow> unit option" where
  "clock_validate ft =
     (if cl_length (ft_clock ft) = 0 then cassert (cl_hand (ft_clock ft) = NULL_FRAME)
      else do {
        cassert (cl_hand (ft_clock ft) \<noteq> NULL_FRAME);
        count \<leftarrow> clock_validate_loop ft (cl_hand (ft_clock ft)) 0;
        cassert (count = cl_length (ft_clock ft)) })"

definition clock_advance_hand :: "frame_ref \<Rightarrow> frame_table \<Rightarrow> frame_table" where
  "clock_advance_hand next ft = ft\<lparr>ft_clock := (ft_clock ft)\<lparr>cl_hand := next\<rparr>\<rparr>"

definition clock_add :: "frame_ref \<Rightarrow> frame_table \<Rightarrow> frame_table option" where
  "clock_add f ft = do {
     cassert (\<not> clock_is_member (ft_frames ft f));
     cassert (clock_is_eligible (ft_frames ft f));
     r \<leftarrow> ref_from_frame ft f;
     ft \<leftarrow> (if cl_length (ft_clock ft) = 0 then
              Some ((upd_frame f (\<lambda>e. e\<lparr>clock_prev := r, clock_next := r\<rparr>) ft)
                     \<lparr>ft_clock := (ft_clock ft)\<lparr>cl_hand := r\<rparr>\<rparr>)
            else do {
              hand \<leftarrow> frame_from_ref ft (cl_hand (ft_clock ft));
              tail \<leftarrow> frame_from_ref ft (clock_prev (ft_frames ft hand));
              tr \<leftarrow> ref_from_frame ft tail;
              let ft = upd_frame f (\<lambda>e. e\<lparr>clock_prev := tr\<rparr>) ft;
              let ft = upd_frame f (\<lambda>e. e\<lparr>clock_next := cl_hand (ft_clock ft)\<rparr>) ft;
              let ft = upd_frame tail (\<lambda>e. e\<lparr>clock_next := r\<rparr>) ft;
              Some (upd_frame hand (\<lambda>e. e\<lparr>clock_prev := r\<rparr>) ft) });
     let ft = ft\<lparr>ft_clock := (ft_clock ft)\<lparr>cl_length := sz_inc (cl_length (ft_clock ft))\<rparr>\<rparr>;
     clock_validate ft;
     Some ft }"

definition clock_remove :: "frame_ref \<Rightarrow> frame_table \<Rightarrow> frame_table option" where
  "clock_remove f ft =
     (if \<not> clock_is_member (ft_frames ft f) then Some ft
      else do {
        r \<leftarrow> ref_from_frame ft f;
        ft \<leftarrow> (if cl_length (ft_clock ft) = 1 then do {
                 cassert (clock_next (ft_frames ft f) = r);
                 cassert (clock_prev (ft_frames ft f) = r);
                 Some (ft\<lparr>ft_clock := (ft_clock ft)\<lparr>cl_hand := NULL_FRAME\<rparr>\<rparr>) }
               else do {
                 pv \<leftarrow> frame_from_ref ft (clock_prev (ft_frames ft f));
                 nx \<leftarrow> frame_from_ref ft (clock_next (ft_frames ft f));
                 let ft = upd_frame pv (\<lambda>e. e\<lparr>clock_next := clock_next (ft_frames ft f)\<rparr>) ft;
                 let ft = upd_frame nx (\<lambda>e. e\<lparr>clock_prev := clock_prev (ft_frames ft f)\<rparr>) ft;
                 if cl_hand (ft_clock ft) = r then do {
                   nr \<leftarrow> ref_from_frame ft nx;
                   Some (clock_advance_hand nr ft) }
                 else Some ft });
        let ft = ft\<lparr>ft_clock := (ft_clock ft)\<lparr>cl_length := sz_dec (cl_length (ft_clock ft))\<rparr>\<rparr>;
        let ft = upd_frame f (\<lambda>e. e\<lparr>clock_prev := NULL_FRAME, clock_next := NULL_FRAME\<rparr>) ft;
        clock_validate ft;
        Some ft })"

definition clock_reconsider :: "frame_ref \<Rightarrow> frame_table \<Rightarrow> frame_table option" where
  "clock_reconsider f ft =
     (if clock_is_member (ft_frames ft f) then
        if \<not> clock_is_eligible (ft_frames ft f) then clock_remove f ft else Some ft
      else if clock_is_eligible (ft_frames ft f) then clock_add f ft else Some ft)"

text \<open>
  The loop of \<^verbatim>\<open>clock_select_victim\<close>. The budget is its decreasing counter; the result is
  \<open>Inl\<close> when the function returns from inside the loop and \<open>Inr\<close> with the dirty
  candidate when the loop ends.
\<close>

fun select_loop :: "nat \<Rightarrow> frame_ref \<Rightarrow> frame_table \<Rightarrow> ((frame_ref + frame_ref) \<times> frame_table) option" where
  "select_loop 0 dirty_candidate ft = Some (Inr dirty_candidate, ft)"
| "select_loop (Suc budget) dirty_candidate ft =
     (if cl_length (ft_clock ft) > 0 then do {
        cur \<leftarrow> frame_from_ref ft (cl_hand (ft_clock ft));
        if \<not> clock_is_eligible (ft_frames ft cur) then do {
          ft \<leftarrow> clock_remove cur ft;
          if cl_length (ft_clock ft) = 0 then Some (Inl NULL_FRAME, ft)
          else select_loop budget dirty_candidate ft }
        else do {
          let referenced = fr_flags (ft_frames ft cur) AND FRAME_FLAG_REFERENCED \<noteq> 0;
          let dirty = fr_flags (ft_frames ft cur) AND FRAME_FLAG_DIRTY \<noteq> 0;
          if referenced then do {
            let ft = upd_frame cur (\<lambda>e. e\<lparr>fr_flags := fr_flags e AND NOT FRAME_FLAG_REFERENCED\<rparr>) ft;
            select_loop budget dirty_candidate
              (clock_advance_hand (clock_next (ft_frames ft cur)) ft) }
          else if \<not> dirty then do {
            victim \<leftarrow> ref_from_frame ft cur;
            Some (Inl victim, clock_advance_hand (clock_next (ft_frames ft cur)) ft) }
          else do {
            dc \<leftarrow> (if dirty_candidate = NULL_FRAME then ref_from_frame ft cur
                   else Some dirty_candidate);
            select_loop budget dc (clock_advance_hand (clock_next (ft_frames ft cur)) ft) } } }
      else Some (Inr dirty_candidate, ft))"

definition clock_select_victim :: "frame_table \<Rightarrow> (frame_ref \<times> frame_table) option" where
  "clock_select_victim ft =
     (if cl_length (ft_clock ft) = 0 then Some (NULL_FRAME, ft)
      else do {
        cassert (cl_hand (ft_clock ft) \<noteq> NULL_FRAME);
        (res, ft) \<leftarrow> select_loop ((cl_length (ft_clock ft) * 2) mod 2 ^ 64) NULL_FRAME ft;
        case res of
          Inl v \<Rightarrow> Some (v, ft)
        | Inr dirty_candidate \<Rightarrow>
            if dirty_candidate \<noteq> NULL_FRAME then do {
              chosen \<leftarrow> frame_from_ref ft dirty_candidate;
              Some (dirty_candidate, clock_advance_hand (clock_next (ft_frames ft chosen)) ft) }
            else Some (NULL_FRAME, ft) })"

section \<open>Abstraction\<close>

definition clock_ring :: "frame_table \<Rightarrow> frame_ref list \<Rightarrow> bool" where
  "clock_ring ft cs \<longleftrightarrow>
     ring (\<lambda>r. clock_prev (ft_frames ft r)) (\<lambda>r. clock_next (ft_frames ft r)) cs \<and>
     cl_hand (ft_clock ft) = hd_or cs 0 \<and> cl_length (ft_clock ft) = length cs \<and>
     set cs \<subseteq> {0<..<ft_used ft} \<and>
     (\<forall>r. 0 < r \<longrightarrow> r < ft_used ft \<longrightarrow> r \<notin> set cs \<longrightarrow>
        clock_prev (ft_frames ft r) = 0 \<and> clock_next (ft_frames ft r) = 0) \<and>
     ft_used ft \<le> ft_capacity ft \<and> ft_capacity ft < 2 ^ 58"

text \<open>What the clock operations leave alone: everything but the hand, the length and the ring links.\<close>

definition cpayload :: "frame \<Rightarrow> frame" where
  "cpayload e = e\<lparr>clock_prev := 0, clock_next := 0\<rparr>"

definition same_tables :: "frame_table \<Rightarrow> frame_table \<Rightarrow> bool" where
  "same_tables ft ft' \<longleftrightarrow>
     ft_capacity ft' = ft_capacity ft \<and> ft_used ft' = ft_used ft \<and>
     ft_byte_length ft' = ft_byte_length ft \<and> ft_free ft' = ft_free ft \<and>
     ft_allocated ft' = ft_allocated ft \<and> ft_cspace ft' = ft_cspace ft \<and> ft_vspace ft' = ft_vspace ft"

lemma same_tables_simps [simp]:
  "same_tables ft ft" "same_tables ft (upd_frame f g ft') = same_tables ft ft'"
  "same_tables ft (ft'\<lparr>ft_frames := h\<rparr>) = same_tables ft ft'"
  "same_tables ft (ft'\<lparr>ft_clock := c\<rparr>) = same_tables ft ft'"
  by (simp_all add: same_tables_def upd_frame_def)

definition clock_only :: "frame_table \<Rightarrow> frame_table \<Rightarrow> bool" where
  "clock_only ft ft' \<longleftrightarrow>
     (\<forall>r. cpayload (ft_frames ft' r) = cpayload (ft_frames ft r)) \<and>
     same_tables ft ft'"

lemma cpayload_eqD:
  assumes "cpayload e = cpayload e'"
  shows "fr_prev e = fr_prev e'" "fr_next e = fr_next e'" "fr_list_id e = fr_list_id e'"
    "fr_owner e = fr_owner e'" "fr_flags e = fr_flags e'" "sos_page e = sos_page e'"
    "swap_slot e = swap_slot e'" "pin_count e = pin_count e'" "reserved16 e = reserved16 e'"
  using assms by (cases e; cases e'; simp add: cpayload_def)+

lemma clock_list_norm:
  "d\<lparr>cl_hand := a\<rparr> = \<lparr>cl_hand = a, cl_length = cl_length d\<rparr>"
  "d\<lparr>cl_length := b\<rparr> = \<lparr>cl_hand = cl_hand d, cl_length = b\<rparr>"
  by (cases d; simp)+

lemma frames_clock_eqI:
  "(\<And>r. h r = h' r) \<Longrightarrow> ft\<lparr>ft_frames := h, ft_clock := c\<rparr> = ft\<lparr>ft_frames := h', ft_clock := c\<rparr>"
  by presburger

lemma clock_ringD:
  assumes "clock_ring ft cs"
  shows "ring (\<lambda>r. clock_prev (ft_frames ft r)) (\<lambda>r. clock_next (ft_frames ft r)) cs"
    "cl_hand (ft_clock ft) = hd_or cs 0" "cl_length (ft_clock ft) = length cs" "distinct cs"
    "0 \<notin> set cs" "ft_used ft \<le> ft_capacity ft" "ft_capacity ft < 2 ^ 58"
    "r \<in> set cs \<Longrightarrow> 0 < r \<and> r < ft_used ft"
    "0 < r \<Longrightarrow> r < ft_used ft \<Longrightarrow> r \<notin> set cs \<Longrightarrow> clock_next (ft_frames ft r) = 0"
  using assms by (auto simp: clock_ring_def ring_def)

lemma clock_ring_length:
  assumes "clock_ring ft cs"
  shows "length cs < 2 ^ 58"
proof -
  have "card (set cs) \<le> card {0<..<ft_used ft}"
    using assms by (intro card_mono) (auto simp: clock_ring_def)
  moreover have "card (set cs) = length cs" using clock_ringD(4) [OF assms] by (rule distinct_card)
  ultimately show ?thesis using clock_ringD(6,7) [OF assms] by simp
qed

lemma clock_ring_next:
  assumes "clock_ring ft (xs @ r # ys)"
  shows "clock_next (ft_frames ft r) = hd_or ys (hd_or xs r)"
    "clock_prev (ft_frames ft r) = last_or (last_or r ys) xs"
  using ring_links [OF clock_ringD(1) [OF assms]] by simp_all

lemma clock_ring_member:
  assumes "clock_ring ft cs" "0 < r" "r < ft_used ft"
  shows "clock_is_member (ft_frames ft r) \<longleftrightarrow> r \<in> set cs"
proof (cases "r \<in> set cs")
  case True
  then obtain xs ys where cs: "cs = xs @ r # ys" by (meson split_list)
  have "hd_or ys (hd_or xs r) \<in> set cs" unfolding cs by (cases xs; cases ys) auto
  then have "hd_or ys (hd_or xs r) \<noteq> 0" using clock_ringD(5) [OF assms(1)] by metis
  with clock_ring_next(1) [of ft xs r ys] assms(1) True show ?thesis
    unfolding cs by (simp add: clock_is_member_def NULL_FRAME_def)
qed (use clock_ringD(9) [OF assms] in \<open>simp add: clock_is_member_def NULL_FRAME_def\<close>)

lemma clock_validate_loop_ok:
  assumes "clock_ring ft (xs @ y # ys)"
  shows "clock_validate_loop ft y (length xs) = Some (length (xs @ y # ys))"
  using assms
proof (induction ys arbitrary: xs y)
  case Nil
  note D = clock_ringD [OF Nil]
  have y: "0 < y" "y < ft_used ft" using D(8) [of y] by auto
  show ?case
    using clock_ring_member [OF Nil y] clock_ring_next(1) [OF Nil] y D(2,3,6)
    by (subst clock_validate_loop.simps) (simp add: frame_from_ref_def NULL_FRAME_def)
next
  case (Cons z ys)
  note D = clock_ringD [OF Cons.prems]
  have y: "0 < y" "y < ft_used ft" using D(8) [of y] by auto
  have z: "z \<noteq> cl_hand (ft_clock ft)" using D(2,4) by (cases xs) auto
  from Cons.prems have "clock_ring ft ((xs @ [y]) @ z # ys)" by simp
  from Cons.IH [OF this] z show ?case
    using clock_ring_member [OF Cons.prems y] clock_ring_next(1) [OF Cons.prems] y D(2,3,6)
    by (subst clock_validate_loop.simps) (simp add: frame_from_ref_def NULL_FRAME_def)
qed

lemma clock_validate_ok:
  assumes "clock_ring ft cs"
  shows "clock_validate ft = Some ()"
proof (cases cs)
  case (Cons x xs)
  note D = clock_ringD [OF assms]
  from clock_validate_loop_ok [of ft "[]" x xs] assms D(2,3,5) Cons show ?thesis
    by (auto simp: clock_validate_def NULL_FRAME_def)
qed (use clock_ringD(2,3) [OF assms] in \<open>simp add: clock_validate_def NULL_FRAME_def\<close>)

lemma clock_add_refines:
  assumes inv: "clock_ring ft cs" and f: "0 < f" "f < ft_used ft" "f \<notin> set cs"
    and el: "clock_is_eligible (ft_frames ft f)"
  shows "\<exists>ft'. clock_add f ft = Some ft' \<and> clock_ring ft' (cs @ [f]) \<and> clock_only ft ft'"
proof -
  note D = clock_ringD [OF inv]
  have mem: "\<not> clock_is_member (ft_frames ft f)" using clock_ring_member [OF inv f(1,2)] f(3) by simp
  define x y where xy: "x = hd_or cs f" "y = last_or f cs"
  let ?h = "\<lambda>r. if r = f then (ft_frames ft f)\<lparr>clock_prev := y, clock_next := x\<rparr>
    else (ft_frames ft r)\<lparr>clock_prev := (if r = x then f else clock_prev (ft_frames ft r)),
      clock_next := (if r = y then f else clock_next (ft_frames ft r))\<rparr>"
  let ?ft = "ft\<lparr>ft_frames := ?h, ft_clock := \<lparr>cl_hand = x, cl_length = Suc (length cs)\<rparr>\<rparr>"
  have "ring (\<lambda>r. clock_prev (?h r)) (\<lambda>r. clock_next (?h r)) (cs @ [f])"
  proof (cases "cs = []")
    case False
    show ?thesis
      by (rule ring_snoc [OF D(1) f(3) False])
        (use f False in \<open>auto simp: xy hd_or_nonempty last_or_nonempty\<close>)
  qed (simp add: ring_def xy)
  moreover have "?h r = ft_frames ft r" if "r \<notin> set (cs @ [f])" for r
    using that hd_or_in [of cs f] last_or_in [of cs f] by (cases "cs = []") (auto simp: xy)
  ultimately have ring: "clock_ring ?ft (cs @ [f])"
    using inv f(1,2) by (auto simp: clock_ring_def xy)
  have len: "sz_inc (length cs) = Suc (length cs)"
    using clock_ring_length [OF inv] by (simp add: sz_inc_small)
  have "clock_add f ft = do { clock_validate ?ft; Some ?ft }"
  proof (cases "cs = []")
    case True
    then have "(ft_frames ft)(f := (ft_frames ft f)\<lparr>clock_prev := f, clock_next := f\<rparr>) = ?h"
      by (auto simp: xy)
    with True show ?thesis
      using el mem f len D(2,3)
      by (simp add: clock_add_def frame_ops_defs clock_list_norm Let_def xy)
  next
    case False
    then have hand: "cl_hand (ft_clock ft) = x" using D(2) by (simp add: xy hd_or_nonempty)
    have l: "clock_prev (ft_frames ft x) = y"
      using clock_ring_next(2) [of ft "[]" "hd cs" "tl cs"] inv False
      by (cases cs) (simp_all add: xy last_or_def)
    have "x \<in> set cs" "y \<in> set cs" using False by (simp_all add: xy hd_or_in last_or_in)
    then have x: "0 < x" "x < ft_used ft" "0 < y" "y < ft_used ft" "x \<noteq> f" "y \<noteq> f"
      using D(8) f(3) by auto
    let ?ft1 = "upd_frame f (\<lambda>e. e\<lparr>clock_next := x\<rparr>) (upd_frame f (\<lambda>e. e\<lparr>clock_prev := y\<rparr>) ft)"
    let ?ft2 = "upd_frame x (\<lambda>e. e\<lparr>clock_prev := f\<rparr>) (upd_frame y (\<lambda>e. e\<lparr>clock_next := f\<rparr>) ?ft1)"
    let ?ft3 = "?ft2\<lparr>ft_clock := \<lparr>cl_hand = x, cl_length = Suc (length cs)\<rparr>\<rparr>"
    have "clock_add f ft = do { clock_validate ?ft3; Some ?ft3 }"
      using el mem f len D(3,6) False x l hand
      by (simp add: clock_add_def frame_ref_defs clock_list_norm Let_def)
    also have "?ft3 = ?ft"
      using x by (auto simp: upd_frame_def intro!: frames_clock_eqI)
    finally show ?thesis .
  qed
  then have "clock_add f ft = Some ?ft" using clock_validate_ok [OF ring] by simp
  moreover have "clock_only ft ?ft" by (simp add: clock_only_def cpayload_def)
  ultimately show ?thesis using ring by blast
qed

lemma clock_remove_refines:
  assumes inv: "clock_ring ft cs" and f: "f \<in> set cs"
  shows "\<exists>ft'. clock_remove f ft = Some ft' \<and> clock_ring ft' (remove1 f cs) \<and> clock_only ft ft'"
proof -
  note D = clock_ringD [OF inv]
  obtain xs ys where cs: "cs = xs @ f # ys" using f by (meson split_list)
  define p n where pn: "p = last_or (last_or f ys) xs" "n = hd_or ys (hd_or xs f)"
  have links: "clock_prev (ft_frames ft f) = p" "clock_next (ft_frames ft f) = n"
    using clock_ring_next inv unfolding cs pn by blast+
  have dist: "distinct (xs @ f # ys)" using D(4) cs by simp
  have fu: "0 < f" "f < ft_used ft" using D(8) [OF f] by auto
  have mem: "clock_is_member (ft_frames ft f)" using clock_ring_member [OF inv fu] f by simp
  have rem: "remove1 f cs = xs @ ys" using dist cs by (simp add: remove1_append)
  have len: "sz_dec (length cs) = length (xs @ ys)"
    using clock_ring_length [OF inv] cs by (simp add: sz_dec_pos)
  have pns: "xs @ ys \<noteq> [] \<Longrightarrow> p \<in> set (xs @ ys) \<and> n \<in> set (xs @ ys)"
    using last_or_in [of xs "last_or f ys"] last_or_in [of ys f] hd_or_in [of ys "hd_or xs f"] hd_or_in [of xs f]
    unfolding pn by (cases "xs = []"; cases "ys = []"; simp)
  have pnu: "0 < p" "p < ft_used ft" "0 < n" "n < ft_used ft" "xs @ ys \<noteq> [] \<Longrightarrow> p \<noteq> f \<and> n \<noteq> f"
    using pns D(8) [of p] D(8) [of n] fu dist unfolding cs by (cases "xs @ ys = []"; auto simp: pn)+
  let ?c = "\<lparr>cl_hand = hd_or (xs @ ys) 0, cl_length = length (xs @ ys)\<rparr>"
  let ?ft1 = "if xs @ ys = [] then ft else upd_frame n (\<lambda>e. e\<lparr>clock_prev := p\<rparr>) (upd_frame p (\<lambda>e. e\<lparr>clock_next := n\<rparr>) ft)"
  let ?ft2 = "upd_frame f (\<lambda>e. e\<lparr>clock_prev := 0, clock_next := 0\<rparr>) (?ft1\<lparr>ft_clock := ?c\<rparr>)"
  have run: "clock_remove f ft = do { clock_validate ?ft2; Some ?ft2 }"
  proof (cases "xs @ ys = []")
    case True
    then show ?thesis
      using mem fu links len D(3) by (simp add: clock_remove_def frame_ref_defs clock_list_norm Let_def cs pn)
  next
    case False
    then have l1: "length cs \<noteq> 1" using cs by auto
    have hand: "cl_hand (ft_clock ft) = hd_or xs f" using D(2) cs by simp
    have hf: "xs \<noteq> [] \<Longrightarrow> hd_or xs f \<noteq> f" using hd_or_in [of xs f] dist by auto
    have "clock_remove f ft = do { clock_validate ?ft2; Some ?ft2 }" if "xs = []"
      using that False mem fu links len D(3,6) l1 pnu hand
      by (simp add: clock_remove_def frame_ref_defs clock_list_norm clock_advance_hand_def Let_def
          hd_or_nonempty) (simp add: pn(2) hd_or_nonempty)
    moreover have "clock_remove f ft = do { clock_validate ?ft2; Some ?ft2 }" if "xs \<noteq> []"
      using that False mem fu links len D(3,6) l1 pnu hand hf
      by (simp add: clock_remove_def frame_ref_defs clock_list_norm Let_def hd_or_nonempty)
    ultimately show ?thesis by blast
  qed
  have ring: "clock_ring ?ft2 (xs @ ys)"
    unfolding clock_ring_def
  proof (intro conjI)
    show "ring (\<lambda>r. clock_prev (ft_frames ?ft2 r)) (\<lambda>r. clock_next (ft_frames ?ft2 r)) (xs @ ys)"
      by (rule ring_remove [OF D(1) [unfolded cs]]) (use dist links in \<open>auto simp: cs\<close>)
    show "\<forall>r>0. r < ft_used ?ft2 \<longrightarrow> r \<notin> set (xs @ ys) \<longrightarrow>
      clock_prev (ft_frames ?ft2 r) = 0 \<and> clock_next (ft_frames ?ft2 r) = 0"
      using inv pns unfolding clock_ring_def cs by auto
  qed (use inv cs in \<open>auto simp: clock_ring_def\<close>)
  moreover have "clock_only ft ?ft2" by (simp add: clock_only_def cpayload_def upd_frame_def)
  ultimately show ?thesis using run clock_validate_ok [OF ring] unfolding rem by auto
qed

lemma clock_remove_nonmember:
  assumes "clock_ring ft cs" "0 < f" "f < ft_used ft" "f \<notin> set cs"
  shows "clock_remove f ft = Some ft"
  using clock_ring_member [OF assms(1-3)] assms(4) by (simp add: clock_remove_def)

text \<open>After a frame is reconsidered it is on the ring exactly if it is eligible.\<close>

definition reconsidered :: "frame_table \<Rightarrow> frame_ref \<Rightarrow> frame_ref list \<Rightarrow> frame_ref list" where
  "reconsidered ft f cs =
     (if clock_is_eligible (ft_frames ft f) then if f \<in> set cs then cs else cs @ [f]
      else remove1 f cs)"

lemma clock_only_refl [simp]: "clock_only ft ft"
  by (simp add: clock_only_def)

lemma clock_reconsider_refines:
  assumes inv: "clock_ring ft cs" and f: "0 < f" "f < ft_used ft"
  shows "\<exists>ft'. clock_reconsider f ft = Some ft' \<and> clock_ring ft' (reconsidered ft f cs) \<and> clock_only ft ft'"
  using clock_add_refines [OF inv f] clock_remove_refines [OF inv, of f] inv clock_ring_member [OF inv f]
  by (auto simp: clock_reconsider_def reconsidered_def remove1_idem)

section \<open>Victim selection\<close>

definition referenced :: "frame \<Rightarrow> bool" where
  "referenced e \<longleftrightarrow> fr_flags e AND FRAME_FLAG_REFERENCED \<noteq> 0"

definition dirty :: "frame \<Rightarrow> bool" where
  "dirty e \<longleftrightarrow> fr_flags e AND FRAME_FLAG_DIRTY \<noteq> 0"

abbreviation elig :: "frame_table \<Rightarrow> frame_ref \<Rightarrow> bool" where
  "elig ft r \<equiv> clock_is_eligible (ft_frames ft r)"

abbreviation refd :: "frame_table \<Rightarrow> frame_ref \<Rightarrow> bool" where
  "refd ft r \<equiv> referenced (ft_frames ft r)"

abbreviation drty :: "frame_table \<Rightarrow> frame_ref \<Rightarrow> bool" where
  "drty ft r \<equiv> dirty (ft_frames ft r)"

text \<open>
  The choice as a search of the ring from the hand: an eligible frame that is neither
  referenced nor dirty, else a clean one (whose second chance is used up by the first
  rotation), else an unreferenced dirty one, else the first eligible one.
\<close>

definition victim_spec :: "frame_table \<Rightarrow> frame_ref list \<Rightarrow> frame_ref" where
  "victim_spec ft cs =
     (case List.find (\<lambda>r. elig ft r \<and> \<not> refd ft r \<and> \<not> drty ft r) cs of Some v \<Rightarrow> v | None \<Rightarrow>
      (case List.find (\<lambda>r. elig ft r \<and> \<not> drty ft r) cs of Some v \<Rightarrow> v | None \<Rightarrow>
      (case List.find (\<lambda>r. elig ft r \<and> \<not> refd ft r) cs of Some v \<Rightarrow> v | None \<Rightarrow>
        hd_or (filter (elig ft) cs) 0)))"

definition spayload :: "frame \<Rightarrow> frame" where
  "spayload e = e\<lparr>clock_prev := 0, clock_next := 0, fr_flags := fr_flags e AND NOT FRAME_FLAG_REFERENCED\<rparr>"

text \<open>A scan changes ring links and clears reference bits, and nothing else.\<close>

definition scan_only :: "frame_table \<Rightarrow> frame_table \<Rightarrow> bool" where
  "scan_only ft ft' \<longleftrightarrow>
     (\<forall>r. spayload (ft_frames ft' r) = spayload (ft_frames ft r)) \<and>
     same_tables ft ft'"

lemma and_flag_iff:
  "w AND FRAME_FLAG_EVICTABLE = 0 \<longleftrightarrow> \<not> bit w 0" "w AND FRAME_FLAG_PINNED = 0 \<longleftrightarrow> \<not> bit w 1"
  "w AND FRAME_FLAG_DIRTY = 0 \<longleftrightarrow> \<not> bit w 2" "w AND FRAME_FLAG_REFERENCED = 0 \<longleftrightarrow> \<not> bit w 3"
  for w :: u32
  by (simp_all add: flag_defs bit_iff_and_push_bit_not_eq_0 del: push_bit_of_1)

lemma bit_clear_referenced:
  "bit (w AND NOT FRAME_FLAG_REFERENCED) i \<longleftrightarrow> bit w i \<and> i \<noteq> 3" for w :: u32
proof -
  have "bit FRAME_FLAG_REFERENCED i \<longleftrightarrow> i = 3"
    unfolding FRAME_FLAG_REFERENCED_def bit_push_bit_iff by (auto simp: bit_1_iff)
  with bit_imp_le_length [of w i] show ?thesis by (auto simp: bit_simps)
qed

lemma spayload_eqD:
  assumes "spayload e = spayload e'"
  shows "clock_is_eligible e = clock_is_eligible e'" "dirty e = dirty e'" "sos_page e = sos_page e'"
    "fr_prev e = fr_prev e'" "fr_next e = fr_next e'" "fr_list_id e = fr_list_id e'"
    "fr_owner e = fr_owner e'" "swap_slot e = swap_slot e'"
proof -
  have fl: "fr_flags e AND NOT FRAME_FLAG_REFERENCED = fr_flags e' AND NOT FRAME_FLAG_REFERENCED"
    and rest: "sos_page e = sos_page e'" "fr_prev e = fr_prev e'" "fr_next e = fr_next e'"
    "fr_list_id e = fr_list_id e'" "fr_owner e = fr_owner e'" "swap_slot e = swap_slot e'"
    using assms by (cases e; cases e'; simp add: spayload_def)+
  have "bit (fr_flags e) i = bit (fr_flags e') i" if "i \<noteq> 3" for i
    using arg_cong [OF fl, of "\<lambda>w. bit w i"] that by (simp add: bit_clear_referenced)
  with rest show "clock_is_eligible e = clock_is_eligible e'" "dirty e = dirty e'"
    by (simp_all add: clock_is_eligible_def dirty_def and_flag_iff)
qed (use assms in \<open>cases e; cases e'; simp add: spayload_def\<close>)+

lemma scan_only_refl [simp]: "scan_only ft ft"
  by (simp add: scan_only_def)

lemma scan_only_trans: "scan_only ft ft' \<Longrightarrow> scan_only ft' ft'' \<Longrightarrow> scan_only ft ft''"
  by (simp add: scan_only_def same_tables_def)

lemma clock_only_scan:
  assumes "clock_only ft ft'"
  shows "scan_only ft ft'"
proof -
  have "spayload e = spayload e'" if "cpayload e = cpayload e'" for e e'
    using that by (cases e; cases e') (simp add: spayload_def cpayload_def)
  with assms show ?thesis unfolding clock_only_def scan_only_def by blast
qed

lemma scan_onlyD:
  assumes "scan_only ft ft'"
  shows "clock_is_eligible (ft_frames ft' r) = clock_is_eligible (ft_frames ft r)"
    "dirty (ft_frames ft' r) = dirty (ft_frames ft r)"
  using assms spayload_eqD(1,2) [of "ft_frames ft' r" "ft_frames ft r"] by (auto simp: scan_only_def)

lemma clock_only_referenced:
  assumes "clock_only ft ft'"
  shows "referenced (ft_frames ft' r) = referenced (ft_frames ft r)"
  using assms cpayload_eqD(5) [of "ft_frames ft' r" "ft_frames ft r"]
  by (auto simp: clock_only_def referenced_def)

text \<open>Moving the hand behind a member rotates the sequence.\<close>

lemma clock_advance_only: "clock_only ft (clock_advance_hand n ft)"
  by (simp add: clock_only_def clock_advance_hand_def)

lemma clock_advance_refines:
  assumes "clock_ring ft (xs @ v # ys)"
  shows "clock_ring (clock_advance_hand (clock_next (ft_frames ft v)) ft) (ys @ xs @ [v])"
  using assms clock_ring_next(1) [OF assms] ring_rotate [of _ _ "xs @ [v]" ys]
  by (auto simp: clock_ring_def clock_advance_hand_def)

definition clear_referenced :: "frame_ref \<Rightarrow> frame_table \<Rightarrow> frame_table" where
  "clear_referenced r = upd_frame r (\<lambda>e. e\<lparr>fr_flags := fr_flags e AND NOT FRAME_FLAG_REFERENCED\<rparr>)"

lemma clear_referenced_refines:
  assumes "clock_ring ft cs"
  shows "clock_ring (clear_referenced r ft) cs" "scan_only ft (clear_referenced r ft)"
    "\<not> referenced (ft_frames (clear_referenced r ft) r)"
    "q \<noteq> r \<Longrightarrow> referenced (ft_frames (clear_referenced r ft) q) = referenced (ft_frames ft q)"
proof -
  show "clock_ring (clear_referenced r ft) cs"
    using assms ring_cong [of cs "\<lambda>q. clock_prev (ft_frames ft q)"
      "\<lambda>q. clock_prev (ft_frames (clear_referenced r ft) q)" "\<lambda>q. clock_next (ft_frames ft q)"
      "\<lambda>q. clock_next (ft_frames (clear_referenced r ft) q)"]
    by (auto simp: clock_ring_def clear_referenced_def)
  show "scan_only ft (clear_referenced r ft)"
    by (simp add: scan_only_def spayload_def clear_referenced_def upd_frame_def and.assoc)
  show "\<not> referenced (ft_frames (clear_referenced r ft) r)"
    by (simp add: referenced_def clear_referenced_def and_flag_iff bit_clear_referenced)
qed (simp add: clear_referenced_def)

lemma clock_hand_ok:
  assumes "clock_ring ft (x # ys)"
  shows "cl_length (ft_clock ft) > 0" "frame_from_ref ft (cl_hand (ft_clock ft)) = Some x"
    "ref_from_frame ft x = Some x" "x \<noteq> 0"
  using clock_ringD(2,3,6) [OF assms] clock_ringD(8) [OF assms, of x]
  by (simp_all add: frame_ref_defs)

declare select_loop.simps(2) [simp del]

text \<open>One iteration at a frame that is not chosen.\<close>

lemma select_step:
  assumes inv: "clock_ring ft (x # ys)"
    and skip: "clock_is_eligible (ft_frames ft x) \<Longrightarrow> referenced (ft_frames ft x) \<or> dirty (ft_frames ft x)"
    and ne: "clock_is_eligible (ft_frames ft x) \<or> ys \<noteq> []"
  shows "\<exists>ft'. select_loop (Suc b) dc ft =
      select_loop b (if dc = 0 \<and> clock_is_eligible (ft_frames ft x) \<and> \<not> referenced (ft_frames ft x)
        then x else dc) ft' \<and>
    clock_ring ft' (ys @ (if clock_is_eligible (ft_frames ft x) then [x] else [])) \<and> scan_only ft ft' \<and>
    \<not> (clock_is_eligible (ft_frames ft x) \<and> referenced (ft_frames ft' x)) \<and>
    (\<forall>r. r \<noteq> x \<longrightarrow> referenced (ft_frames ft' r) = referenced (ft_frames ft r))"
proof (cases "clock_is_eligible (ft_frames ft x)")
  case False
  from clock_remove_refines [OF inv, of x] obtain ft' where ft': "clock_remove x ft = Some ft'"
    "clock_ring ft' ys" "clock_only ft ft'" by auto
  have "cl_length (ft_clock ft') \<noteq> 0" using clock_ringD(3) [OF ft'(2)] ne False by simp
  with False ft' show ?thesis
    using clock_hand_ok [OF inv] clock_only_scan clock_only_referenced
    by (auto simp: Let_def select_loop.simps(2))
next
  case el: True
  show ?thesis
  proof (cases "referenced (ft_frames ft x)")
    case True
    let ?ft = "clear_referenced x ft"
    let ?ft' = "clock_advance_hand (clock_next (ft_frames ?ft x)) ?ft"
    note C = clear_referenced_refines [OF inv, of x]
    have "clock_ring ?ft' (ys @ [x])" using clock_advance_refines [of ?ft "[]" x ys] C(1) by simp
    moreover have "scan_only ft ?ft'"
      using C(2) clock_only_scan [OF clock_advance_only] scan_only_trans by blast
    ultimately show ?thesis
      using True el clock_hand_ok [OF inv] C(3,4) clock_only_referenced [OF clock_advance_only]
      by (intro exI [of _ ?ft']) (simp add: Let_def referenced_def clear_referenced_def select_loop.simps(2))
  next
    case False
    let ?ft' = "clock_advance_hand (clock_next (ft_frames ft x)) ft"
    have "clock_ring ?ft' (ys @ [x])" using clock_advance_refines [of ft "[]" x ys] inv by simp
    with False el skip [OF el] show ?thesis
      using clock_hand_ok [OF inv] clock_only_referenced [OF clock_advance_only] clock_only_scan [OF clock_advance_only]
      by (intro exI [of _ ?ft']) (simp add: Let_def referenced_def dirty_def NULL_FRAME_def select_loop.simps(2))
  qed
qed

text \<open>A stretch of frames none of which is chosen.\<close>

lemma select_skip:
  assumes "clock_ring ft (xs @ ys)" "\<And>r. r \<in> set xs \<Longrightarrow> elig ft r \<Longrightarrow> refd ft r \<or> drty ft r"
    "ys @ filter (elig ft) xs \<noteq> []"
  shows "\<exists>ft'. select_loop (length xs + b) dc ft =
      select_loop b (if dc = 0 then hd_or (filter (\<lambda>r. elig ft r \<and> \<not> refd ft r) xs) 0 else dc) ft' \<and>
    clock_ring ft' (ys @ filter (elig ft) xs) \<and> scan_only ft ft' \<and>
    (\<forall>r \<in> set xs. elig ft r \<longrightarrow> \<not> refd ft' r) \<and> (\<forall>r. r \<notin> set xs \<longrightarrow> refd ft' r = refd ft r)"
  using assms
proof (induction xs arbitrary: ft ys dc)
  case Nil
  then show ?case by (intro exI [of _ ft]) simp
next
  case (Cons x xs)
  have inv: "clock_ring ft (x # (xs @ ys))" using Cons.prems(1) by simp
  have d: "x \<notin> set xs" "x \<noteq> 0" using clock_ringD(4) [OF inv] clock_hand_ok(4) [OF inv] by auto
  have ne: "elig ft x \<or> xs @ ys \<noteq> []" using Cons.prems(3) by (auto split: if_splits)
  let ?dc = "if dc = 0 \<and> elig ft x \<and> \<not> refd ft x then x else dc"
  let ?ys = "ys @ (if elig ft x then [x] else [])"
  obtain ft1 where ft1: "select_loop (Suc (length xs + b)) dc ft = select_loop (length xs + b) ?dc ft1"
    "clock_ring ft1 (xs @ ?ys)" "scan_only ft ft1" "\<not> (elig ft x \<and> refd ft1 x)"
    "\<And>r. r \<noteq> x \<Longrightarrow> refd ft1 r = refd ft r"
    using select_step [OF inv _ ne, of "length xs + b" dc] Cons.prems(2) by auto
  note S = scan_onlyD [OF ft1(3)]
  have rfx: "r \<in> set xs \<Longrightarrow> refd ft1 r = refd ft r" for r using ft1(5) d(1) by metis
  have "\<And>r. r \<in> set xs \<Longrightarrow> elig ft1 r \<Longrightarrow> refd ft1 r \<or> drty ft1 r"
    using Cons.prems(2) rfx S by simp
  moreover have "?ys @ filter (elig ft1) xs \<noteq> []" using Cons.prems(3) S by auto
  ultimately obtain ft2 where ft2: "select_loop (length xs + b) ?dc ft1 =
      select_loop b (if ?dc = 0 then hd_or (filter (\<lambda>r. elig ft1 r \<and> \<not> refd ft1 r) xs) 0 else ?dc) ft2"
    "clock_ring ft2 (?ys @ filter (elig ft1) xs)" "scan_only ft1 ft2"
    "\<And>r. r \<in> set xs \<Longrightarrow> elig ft1 r \<Longrightarrow> \<not> refd ft2 r" "\<And>r. r \<notin> set xs \<Longrightarrow> refd ft2 r = refd ft1 r"
    using Cons.IH [OF ft1(2)] by blast
  have fl: "filter (\<lambda>r. elig ft1 r \<and> \<not> refd ft1 r) xs = filter (\<lambda>r. elig ft r \<and> \<not> refd ft r) xs"
    using rfx S by (auto intro: filter_cong)
  have "select_loop (length (x # xs) + b) dc ft =
      select_loop b (if dc = 0 then hd_or (filter (\<lambda>r. elig ft r \<and> \<not> refd ft r) (x # xs)) 0 else dc) ft2"
    using ft1(1) ft2(1) d(2) by (simp add: fl)
  moreover have "clock_ring ft2 (ys @ filter (elig ft) (x # xs))" using ft2(2) S by (cases "elig ft x") simp_all
  ultimately show ?case
    using scan_only_trans [OF ft1(3) ft2(3)] ft1(4,5) ft2(4,5) S d(1)
    by (intro exI [of _ ft2]) auto
qed

lemma select_hit:
  assumes "clock_ring ft (v # ys)" "elig ft v" "\<not> refd ft v" "\<not> drty ft v"
  shows "\<exists>ft'. select_loop (Suc b) dc ft = Some (Inl v, ft') \<and> clock_ring ft' (ys @ [v]) \<and>
    scan_only ft ft' \<and> \<not> refd ft' v"
  using assms clock_hand_ok [OF assms(1)] clock_advance_refines [of ft "[]" v ys]
    clock_only_scan [OF clock_advance_only] clock_only_referenced [OF clock_advance_only]
  by (intro exI [of _ "clock_advance_hand (clock_next (ft_frames ft v)) ft"])
    (simp add: Let_def referenced_def dirty_def select_loop.simps(2))

lemma select_none:
  assumes "clock_ring ft xs" "\<And>r. r \<in> set xs \<Longrightarrow> \<not> elig ft r" "xs \<noteq> []"
  shows "\<exists>ft'. select_loop (length xs + b) dc ft = Some (Inl 0, ft') \<and> clock_ring ft' [] \<and> scan_only ft ft'"
proof -
  obtain ys x where xs: "xs = ys @ [x]" using assms(3) by (meson rev_exhaust)
  have f: "filter (elig ft) ys = []" using assms(2) xs by (simp add: filter_empty_conv)
  obtain ft1 where ft1: "select_loop (length ys + Suc b) dc ft = select_loop (Suc b) (if dc = 0 then
      hd_or (filter (\<lambda>r. elig ft r \<and> \<not> refd ft r) ys) 0 else dc) ft1"
    "clock_ring ft1 [x]" "scan_only ft ft1"
    using select_skip [of ft ys "[x]" "Suc b" dc] assms(1,2) f xs by auto
  obtain ft2 where ft2: "clock_remove x ft1 = Some ft2" "clock_ring ft2 []" "clock_only ft1 ft2"
    using clock_remove_refines [OF ft1(2), of x] by auto
  have "\<not> elig ft1 x" using assms(2) xs scan_onlyD [OF ft1(3)] by simp
  then have "select_loop (length ys + Suc b) dc ft = Some (Inl 0, ft2)"
    using ft1(1) ft2(1) clock_hand_ok [OF ft1(2)] clock_ringD(3) [OF ft2(2)]
    by (simp add: NULL_FRAME_def select_loop.simps(2))
  with ft2 xs scan_only_trans [OF ft1(3) clock_only_scan [OF ft2(3)]] show ?thesis by auto
qed

lemma select_dirty_rest:
  assumes "clock_ring ft cs" "\<And>r. r \<in> set cs \<Longrightarrow> elig ft r \<and> \<not> refd ft r \<and> drty ft r" "dc \<noteq> 0" "cs \<noteq> []"
  shows "\<exists>ft' cs'. select_loop b dc ft = Some (Inr dc, ft') \<and> clock_ring ft' cs' \<and> set cs' = set cs \<and>
    scan_only ft ft' \<and> (\<forall>r. refd ft' r = refd ft r)"
  using assms
proof (induction b arbitrary: ft cs)
  case (Suc b)
  obtain x ys where cs: "cs = x # ys" using Suc.prems(4) by (cases cs) auto
  obtain ft1 where ft1: "select_loop (Suc b) dc ft = select_loop b dc ft1"
    "clock_ring ft1 (ys @ [x])" "scan_only ft ft1" "\<not> refd ft1 x" "\<And>r. r \<noteq> x \<Longrightarrow> refd ft1 r = refd ft r"
    using select_step [of ft x ys b dc] Suc.prems cs by auto
  have all: "refd ft1 r = refd ft r" for r using ft1(4,5) Suc.prems(2) cs by (cases "r = x") auto
  obtain ft2 cs' where "select_loop b dc ft1 = Some (Inr dc, ft2)" "clock_ring ft2 cs'"
    "set cs' = set (ys @ [x])" "scan_only ft1 ft2" "\<forall>r. refd ft2 r = refd ft1 r"
    using Suc.IH [OF ft1(2) _ Suc.prems(3)] Suc.prems(2) all scan_onlyD [OF ft1(3)] cs by auto
  with ft1(1) all scan_only_trans [OF ft1(3)] cs show ?case
    by (intro exI [of _ ft2] exI [of _ cs']) (auto)
qed auto

lemma find_split:
  assumes "List.find P xs = Some v"
  shows "\<exists>ys zs. xs = ys @ v # zs \<and> P v \<and> (\<forall>y \<in> set ys. \<not> P y)"
proof -
  obtain i where i: "i < length xs" "P (xs ! i)" "v = xs ! i" "\<And>j. j < i \<Longrightarrow> \<not> P (xs ! j)"
    using assms by (auto simp: find_Some_iff)
  then have "\<forall>y \<in> set (take i xs). \<not> P y" by (auto simp: in_set_conv_nth)
  with i id_take_nth_drop [OF i(1)] show ?thesis by metis
qed

lemma find_hd_or: "List.find P xs = None \<longleftrightarrow> filter P xs = []" "List.find P xs = Some v \<Longrightarrow> hd_or (filter P xs) n = v"
  by (induction xs) (auto split: if_splits)

text \<open>The result of a search: what is returned, the ring it leaves, what it does not touch.\<close>

definition select_post :: "frame_table \<Rightarrow> frame_ref list \<Rightarrow> frame_ref \<Rightarrow> (frame_ref \<times> frame_table) option \<Rightarrow> bool" where
  "select_post ft cs v res \<longleftrightarrow>
     (\<exists>ft' cs'. res = Some (v, ft') \<and> clock_ring ft' cs' \<and> scan_only ft ft' \<and> set cs' \<subseteq> set cs \<and>
        (\<forall>r \<in> set cs. elig ft r \<longrightarrow> r \<in> set cs') \<and> last_or 0 cs' = v \<and> (v \<noteq> 0 \<longrightarrow> \<not> refd ft' v))"

text \<open>The part of \<^verbatim>\<open>clock_select_victim\<close> that follows its loop.\<close>

definition select_finish :: "(frame_ref + frame_ref) \<times> frame_table \<Rightarrow> (frame_ref \<times> frame_table) option" where
  "select_finish = (\<lambda>(res, ft). case res of
      Inl v \<Rightarrow> Some (v, ft)
    | Inr dirty_candidate \<Rightarrow>
        if dirty_candidate \<noteq> NULL_FRAME then do {
          chosen \<leftarrow> frame_from_ref ft dirty_candidate;
          Some (dirty_candidate, clock_advance_hand (clock_next (ft_frames ft chosen)) ft) }
        else Some (NULL_FRAME, ft))"

lemma clock_select_victim_loop:
  assumes "clock_ring ft cs" "cs \<noteq> []"
  shows "clock_select_victim ft = Option.bind (select_loop (length cs + length cs) 0 ft) select_finish"
proof -
  have "hd_or cs 0 \<noteq> 0" using hd_or_eq_default [OF clock_ringD(5) [OF assms(1)]] assms(2) by simp
  moreover have "length cs * 2 mod 2 ^ 64 = length cs + length cs"
    using clock_ring_length [OF assms(1)] by simp
  ultimately show ?thesis
    using clock_ringD(2,3) [OF assms(1)] assms(2)
    by (simp add: clock_select_victim_def select_finish_def NULL_FRAME_def)
qed

text \<open>An eligible clean frame is met unreferenced after a stretch that is skipped.\<close>

lemma select_hit_post:
  assumes inv: "clock_ring ft (xs @ v # ys)" and v: "elig ft v" "\<not> refd ft v" "\<not> drty ft v"
    and skip: "\<And>r. r \<in> set xs \<Longrightarrow> elig ft r \<Longrightarrow> refd ft r \<or> drty ft r"
  shows "select_post ft (xs @ v # ys) v (Option.bind (select_loop (length xs + Suc b) dc ft) select_finish)"
proof -
  obtain ft1 dc' where ft1: "select_loop (length xs + Suc b) dc ft = select_loop (Suc b) dc' ft1"
    "clock_ring ft1 (v # (ys @ filter (elig ft) xs))" "scan_only ft ft1" "refd ft1 v = refd ft v"
    using select_skip [OF inv skip, of "Suc b" dc] clock_ringD(4) [OF inv] by (auto)
  note S = scan_onlyD [OF ft1(3), of v]
  obtain ft2 where "select_loop (Suc b) dc' ft1 = Some (Inl v, ft2)"
    "clock_ring ft2 ((ys @ filter (elig ft) xs) @ [v])" "scan_only ft1 ft2" "\<not> refd ft2 v"
    using select_hit [OF ft1(2), of b dc'] S v ft1(4) by blast
  with ft1(1) scan_only_trans [OF ft1(3)] show ?thesis
    unfolding select_post_def
    by (intro exI [of _ ft2] exI [of _ "(ys @ filter (elig ft) xs) @ [v]"])
      (auto simp: select_finish_def)
qed

text \<open>When no clean frame is eligible the dirty candidate is returned.\<close>

lemma select_dirty_post:
  assumes inv: "clock_ring ft cs" and cs: "\<And>r. r \<in> set cs \<Longrightarrow> elig ft r \<and> \<not> refd ft r \<and> drty ft r"
    and dc: "dc \<in> set cs"
  shows "select_post ft cs dc (Option.bind (select_loop b dc ft) select_finish)"
proof -
  have dc0: "dc \<noteq> 0" "cs \<noteq> []" using clock_ringD(5) [OF inv] dc by (metis, auto)
  obtain ft1 cs1 where ft1: "select_loop b dc ft = Some (Inr dc, ft1)" "clock_ring ft1 cs1"
    "set cs1 = set cs" "scan_only ft ft1" "\<forall>r. refd ft1 r = refd ft r"
    using select_dirty_rest [OF inv cs dc0] by blast
  then obtain xs ys where cs1: "cs1 = xs @ dc # ys" using dc by (metis split_list)
  let ?ft = "clock_advance_hand (clock_next (ft_frames ft1 dc)) ft1"
  have u: "dc < ft_capacity ft1"
    using clock_ringD(6) [OF ft1(2)] clock_ringD(8) [OF ft1(2), of dc] cs1 by simp
  have r: "clock_ring ?ft (ys @ xs @ [dc])" using clock_advance_refines ft1(2) unfolding cs1 by blast
  show ?thesis
    unfolding select_post_def
  proof (intro exI [of _ ?ft] exI [of _ "ys @ xs @ [dc]"] conjI)
    show "Option.bind (select_loop b dc ft) select_finish = Some (dc, ?ft)"
      using ft1(1) u dc0 by (simp add: select_finish_def frame_ref_defs)
    show "scan_only ft ?ft"
      using scan_only_trans [OF ft1(4) clock_only_scan [OF clock_advance_only]] .
    show "dc \<noteq> 0 \<longrightarrow> \<not> refd ?ft dc"
      using ft1(5) cs [OF dc] clock_only_referenced [OF clock_advance_only] by simp
  qed (use r ft1(3) cs1 in auto)
qed

lemma select_post_shift:
  assumes "select_post ft1 cs1 v res" "scan_only ft ft1" "set cs1 = set (filter (elig ft) cs)"
  shows "select_post ft cs v res"
  using assms scan_only_trans [OF assms(2)] scan_onlyD [OF assms(2)]
  by (fastforce simp: select_post_def)

lemma find_filter: "List.find P (filter Q xs) = List.find (\<lambda>x. Q x \<and> P x) xs"
  by (induction xs) auto

lemma select_second_pass:
  assumes inv: "clock_ring ft cs" and skip: "\<And>r. r \<in> set cs \<Longrightarrow> elig ft r \<Longrightarrow> refd ft r \<or> drty ft r"
    and ne: "filter (elig ft) cs \<noteq> []"
  shows "select_post ft cs (victim_spec ft cs)
    (Option.bind (select_loop (length cs + length cs) 0 ft) select_finish)"
proof -
  let ?E = "filter (elig ft) cs" and ?U = "filter (\<lambda>r. elig ft r \<and> \<not> refd ft r) cs"
  have none: "List.find (\<lambda>r. elig ft r \<and> \<not> refd ft r \<and> \<not> drty ft r) cs = None"
    using skip by (auto simp: find_None_iff)
  obtain ft1 where ft1: "select_loop (length cs + length cs) 0 ft = select_loop (length cs) (hd_or ?U 0) ft1"
    "clock_ring ft1 ?E" "scan_only ft ft1" "\<And>r. r \<in> set ?E \<Longrightarrow> \<not> refd ft1 r"
    using select_skip [of ft cs "[]" "length cs" 0] inv skip ne by auto
  note S = scan_onlyD [OF ft1(3)]
  have le: "length ?E \<le> length cs" by simp
  show ?thesis
  proof (cases "List.find (\<lambda>r. elig ft r \<and> \<not> drty ft r) cs")
    case (Some v)
    then have "List.find (\<lambda>r. \<not> drty ft r) ?E = Some v" by (simp add: find_filter)
    then obtain xs ys where v: "?E = xs @ v # ys" "\<not> drty ft v" "\<And>r. r \<in> set xs \<Longrightarrow> drty ft r"
      by (auto dest!: find_split)
    have "v \<in> set ?E" unfolding v(1) by simp
    then have "elig ft v" by simp
    moreover obtain b where b: "length cs = length xs + Suc b"
      using le less_iff_Suc_add [of "length xs" "length cs"] unfolding v(1) by auto
    ultimately have "select_post ft1 ?E v
        (Option.bind (select_loop (length cs) (hd_or ?U 0) ft1) select_finish)"
      unfolding b v(1) using select_hit_post [of ft1 xs v ys] ft1(2,4) v S by auto
    with select_post_shift [OF _ ft1(3)] Some none ft1(1) show ?thesis by (simp add: victim_spec_def)
  next
    case None
    then have dirty: "elig ft1 r \<and> \<not> refd ft1 r \<and> drty ft1 r" if "r \<in> set ?E" for r
      using that ft1(4) [OF that] S by (auto simp: find_None_iff)
    show ?thesis
    proof (cases "List.find (\<lambda>r. elig ft r \<and> \<not> refd ft r) cs")
      case (Some v)
      then have v: "hd_or ?U 0 = v" "v \<in> set ?E" using find_hd_or(2) [OF Some] by (auto dest!: find_split)
      have "select_post ft1 ?E v (Option.bind (select_loop (length cs) v ft1) select_finish)"
        by (rule select_dirty_post [OF ft1(2) dirty v(2)])
      with select_post_shift [OF _ ft1(3)] v(1) Some None none ft1(1) show ?thesis by (simp add: victim_spec_def)
    next
      case none': None
      obtain x ys where E: "?E = x # ys" using ne by (cases ?E) auto
      obtain m where m: "length cs = Suc m" using ne by (cases cs) auto
      have U: "hd_or ?U 0 = 0" using none' by (simp add: find_hd_or(1))
      obtain ft2 where ft2: "select_loop (Suc m) 0 ft1 = select_loop m x ft2" "clock_ring ft2 (ys @ [x])"
        "scan_only ft1 ft2" "\<not> refd ft2 x" "\<And>r. r \<noteq> x \<Longrightarrow> refd ft2 r = refd ft1 r"
        using select_step [of ft1 x ys m 0] ft1(2) dirty E by auto
      have "elig ft2 r \<and> \<not> refd ft2 r \<and> drty ft2 r" if "r \<in> set (ys @ [x])" for r
        using that dirty [of r] ft2(4,5) scan_onlyD [OF ft2(3)] E by (cases "r = x") auto
      from select_dirty_post [OF ft2(2) this, of x m]
      have "select_post ft2 (ys @ [x]) x (Option.bind (select_loop m x ft2) select_finish)" by simp
      moreover have "set (ys @ [x]) = set ?E" unfolding E by auto
      ultimately have "select_post ft cs x (Option.bind (select_loop m x ft2) select_finish)"
        using select_post_shift scan_only_trans [OF ft1(3) ft2(3)] by blast
      then show ?thesis
        using ft1(1) ft2(1) E U m none none' None by (simp add: victim_spec_def)
    qed
  qed
qed

lemma clock_select_victim_post:
  assumes inv: "clock_ring ft cs"
  shows "select_post ft cs (victim_spec ft cs) (clock_select_victim ft)"
proof (cases "cs = []")
  case True
  with inv show ?thesis
    using clock_ringD(3) [OF inv]
    by (auto simp: select_post_def victim_spec_def clock_select_victim_def NULL_FRAME_def)
next
  case ne: False
  note run = clock_select_victim_loop [OF inv ne]
  let ?n = "length cs" and ?E = "filter (elig ft) cs"
  show ?thesis
  proof (cases "List.find (\<lambda>r. elig ft r \<and> \<not> refd ft r \<and> \<not> drty ft r) cs")
    case (Some v)
    then obtain xs ys where v: "cs = xs @ v # ys" "elig ft v" "\<not> refd ft v" "\<not> drty ft v"
      "\<And>r. r \<in> set xs \<Longrightarrow> elig ft r \<Longrightarrow> refd ft r \<or> drty ft r" by (auto dest!: find_split)
    have "?n + ?n = length xs + Suc (length ys + ?n)" using v(1) by simp
    from run [unfolded this] select_hit_post [OF inv [unfolded v(1)] v(2-5)] Some show ?thesis
      unfolding v(1) [symmetric] by (simp add: victim_spec_def)
  next
    case None
    then have skip: "elig ft r \<Longrightarrow> refd ft r \<or> drty ft r" if "r \<in> set cs" for r
      using that by (auto simp: find_None_iff)
    show ?thesis
    proof (cases "?E = []")
      case True
      then have no: "\<not> elig ft r" if "r \<in> set cs" for r using that by (auto simp: filter_empty_conv)
      then have "victim_spec ft cs = 0" using True None
        by (auto simp: victim_spec_def find_None_iff split: option.splits dest!: find_split)
      moreover obtain ft' where "select_loop (?n + ?n) 0 ft = Some (Inl 0, ft')" "clock_ring ft' []" "scan_only ft ft'"
        using select_none [OF inv no ne, of ?n 0] by blast
      ultimately show ?thesis
        unfolding select_post_def run using no
        by (intro exI [of _ ft'] exI [of _ "[]"]) (simp add: select_finish_def)
    next
      case False
      then show ?thesis
        using select_second_pass [OF inv skip False] None run by simp
    qed
  qed
qed

end
