(* ===== verification/Frame_Table.thy ===== *)
theory Frame_Table
  imports Clock_Ring
begin

text \<open>
  The allocator of \<^verbatim>\<open>sos/src/frame_table.c\<close>: growing the table, allocating and freeing
  frames, and evicting a frame through the page-out path.

  The code calls functions of other parts of the system: untyped memory and capability slots,
  the mapping code, the pagefile, the page-out worker and the virtual memory module. They are the
  fields of the record \<open>sos_env\<close>, which act on a state \<open>'e\<close> of their own; those that
  may call back into the frame table act on the pair of both states. The limit
  \<^verbatim>\<open>CONFIG_SOS_FRAME_LIMIT\<close> of the build is the parameter \<open>lim\<close> (0 for no limit).
\<close>

section \<open>Environment\<close>

type_synonym 'e st = "frame_table \<times> 'e"

record 'e sos_env =
  x_ut_alloc_4k_untyped :: "'e \<Rightarrow> nat option \<times> 'e"
  x_ut_cap :: "nat \<Rightarrow> 'e \<Rightarrow> cptr"
  x_ut_free :: "nat \<Rightarrow> 'e \<Rightarrow> 'e"
  x_cspace_alloc_slot :: "nat \<Rightarrow> 'e \<Rightarrow> cptr \<times> 'e"
  x_cspace_free_slot :: "nat \<Rightarrow> cptr \<Rightarrow> 'e \<Rightarrow> 'e"
  x_cspace_delete :: "nat \<Rightarrow> cptr \<Rightarrow> 'e \<Rightarrow> int \<times> 'e"
  x_untyped_retype :: "nat \<Rightarrow> cptr \<Rightarrow> cptr \<Rightarrow> 'e \<Rightarrow> int \<times> 'e"
  x_map_frame :: "nat \<Rightarrow> cptr \<Rightarrow> cptr \<Rightarrow> u64 \<Rightarrow> 'e \<Rightarrow> int \<times> 'e"
  x_pagefile_is_ready :: "'e \<Rightarrow> bool"
  x_pagefile_alloc_slot :: "frame_ref \<Rightarrow> 'e \<Rightarrow> u32 \<times> 'e"
  x_pagefile_free_slot :: "u32 \<Rightarrow> 'e \<Rightarrow> 'e"
  x_vm_pageout_prepare :: "frame_ref \<Rightarrow> u32 \<Rightarrow> 'e st \<Rightarrow> int \<times> 'e st"
  x_vm_pageout_finalise :: "frame_ref \<Rightarrow> u32 \<Rightarrow> 'e st \<Rightarrow> int \<times> 'e st"
  x_vm_pageout_abort :: "frame_ref \<Rightarrow> u32 \<Rightarrow> 'e st \<Rightarrow> int \<times> 'e st"
  x_pageout_submit :: "u32 \<Rightarrow> frame_ref \<Rightarrow> 'e \<Rightarrow> int \<times> 'e"
  x_pageout_poll_complete :: "'e \<Rightarrow> int \<times> frame_ref \<times> u32 \<times> 'e"
  x_bootstrap_poll_irqs :: "'e st \<Rightarrow> bool \<times> 'e st"
  x_yield :: "'e \<Rightarrow> 'e"
  x_morecore_free_bytes :: "'e \<Rightarrow> nat"
  x_heap_reserve_release :: "'e \<Rightarrow> bool \<times> 'e"

definition seL4_PageBits :: nat where "seL4_PageBits = 12"
definition seL4_CapNull :: cptr where "seL4_CapNull = 0"
definition SOS_FRAME_TABLE :: u64 where "SOS_FRAME_TABLE = 0x8100000000"
definition SOS_FRAME_DATA :: u64 where "SOS_FRAME_DATA = 0x8200000000"
definition sizeof_frame_t :: nat where "sizeof_frame_t = 64"
definition PAGEFILE_INVALID_SLOT :: u32 where "PAGEFILE_INVALID_SLOT = 0"
definition SOS_EAGAIN :: int where "SOS_EAGAIN = 11"
definition ENOMEM :: int where "ENOMEM = 12"

section \<open>Growing the table\<close>

definition frame_page :: "frame_ref \<Rightarrow> frame_table \<Rightarrow> cptr option" where
  "frame_page r ft = do { f \<leftarrow> frame_from_ref ft r; Some (sos_page (ft_frames ft f)) }"

definition frame_data :: "frame_ref \<Rightarrow> frame_table \<Rightarrow> u64 option" where
  "frame_data r ft = do {
     cassert (r \<noteq> NULL_FRAME);
     cassert (r < ft_capacity ft);
     Some (SOS_FRAME_DATA + of_nat r * 2 ^ seL4_PageBits) }"

definition alloc_frame_at :: "'e sos_env \<Rightarrow> u64 \<Rightarrow> 'e st \<Rightarrow> cptr \<times> 'e" where
  "alloc_frame_at X vaddr = (\<lambda>(ft, e).
     case x_ut_alloc_4k_untyped X e of
       (None, e) \<Rightarrow> (seL4_CapNull, e)
     | (Some ut, e) \<Rightarrow>
         (let (slot, e) = x_cspace_alloc_slot X (ft_cspace ft) e in
          if slot = seL4_CapNull then (seL4_CapNull, x_ut_free X ut e)
          else
            (let (err, e) = x_untyped_retype X (ft_cspace ft) (x_ut_cap X ut e) slot e in
             if err \<noteq> 0 then (seL4_CapNull, x_ut_free X ut (x_cspace_free_slot X (ft_cspace ft) slot e))
             else
               (let (err, e) = x_map_frame X (ft_cspace ft) slot (ft_vspace ft) vaddr e in
                if err \<noteq> 0 then
                  (let (_, e) = x_cspace_delete X (ft_cspace ft) slot e in
                   (seL4_CapNull, x_ut_free X ut (x_cspace_free_slot X (ft_cspace ft) slot e)))
                else (slot, e)))))"

definition bump_capacity :: "'e sos_env \<Rightarrow> nat \<Rightarrow> 'e st \<Rightarrow> int \<times> 'e st" where
  "bump_capacity X lim = (\<lambda>(ft, e).
     if lim \<noteq> 0 \<and> ft_capacity ft = lim then (-1, (ft, e))
     else
       (let vaddr = SOS_FRAME_TABLE + of_nat (ft_byte_length ft);
            (slot, e) = alloc_frame_at X vaddr (ft, e) in
        if slot = seL4_CapNull then (-1, (ft, e))
        else
          (let bytes = (ft_byte_length ft + 2 ^ seL4_PageBits) mod 2 ^ 64;
               cap = bytes div sizeof_frame_t;
               cap = (if lim \<noteq> 0 then min lim cap else cap) in
           (0, (ft\<lparr>ft_byte_length := bytes, ft_capacity := cap\<rparr>, e)))))"

definition fresh_frame :: "cptr \<Rightarrow> frame" where
  "fresh_frame page = \<lparr>sos_page = page, fr_prev = NULL_FRAME, fr_next = NULL_FRAME,
     fr_list_id = NO_LIST, fr_owner = FRAME_OWNER_KERNEL, fr_flags = 0, pin_count = 0,
     reserved16 = 0, swap_slot = 0, clock_prev = NULL_FRAME, clock_next = NULL_FRAME\<rparr>"

definition alloc_fresh_frame :: "'e sos_env \<Rightarrow> nat \<Rightarrow> 'e st \<Rightarrow> (frame_ref option \<times> 'e st) option" where
  "alloc_fresh_frame X lim = (\<lambda>(ft, e). do {
     cassert (ft_used ft \<le> ft_capacity ft);
     cassert (lim \<noteq> 0 \<longrightarrow> ft_capacity ft \<le> lim);
     let (rc, (ft, e)) = (if ft_used ft = ft_capacity ft then bump_capacity X lim (ft, e) else (0, (ft, e)));
     if rc \<noteq> 0 then Some (None, (ft, e))
     else do {
       cassert (ft_used ft < ft_capacity ft);
       let ft = (if ft_used ft = 0 then ft\<lparr>ft_used := ft_used ft + 1\<rparr> else ft);
       let f = ft_used ft;
       let ft = ft\<lparr>ft_used := ft_used ft + 1\<rparr>;
       r \<leftarrow> ref_from_frame ft f;
       vaddr \<leftarrow> frame_data r ft;
       let (page, e) = alloc_frame_at X vaddr (ft, e);
       if page = seL4_CapNull then Some (None, (ft\<lparr>ft_used := ft_used ft - 1\<rparr>, e))
       else Some (Some f, (upd_frame f (\<lambda>_. fresh_frame page) ft, e)) } })"

section \<open>Page-out\<close>

definition pageout_process_one_completion :: "'e sos_env \<Rightarrow> 'e st \<Rightarrow> int \<times> 'e st" where
  "pageout_process_one_completion X = (\<lambda>(ft, e).
     let (rc, r, slot, e) = x_pageout_poll_complete X e in
     if rc = - SOS_EAGAIN then (rc, (ft, e))
     else if rc \<noteq> 0 then
       (let e = x_pagefile_free_slot X slot e in
        if rc > 0 then (let (_, s) = x_vm_pageout_abort X r slot (ft, e) in (rc, s))
        else (rc, (ft, e)))
     else
       (let (rc, (ft, e)) = x_vm_pageout_finalise X r slot (ft, e) in
        if rc \<noteq> 0 then (rc, (ft, x_pagefile_free_slot X slot e))
        else (0, (ft, e))))"

fun pageout_wait_for_completion :: "'e sos_env \<Rightarrow> nat \<Rightarrow> 'e st \<Rightarrow> int \<times> 'e st" where
  "pageout_wait_for_completion X 0 s = (- SOS_EAGAIN, s)"
| "pageout_wait_for_completion X (Suc iters) s =
     (let (rc, (ft, e)) = pageout_process_one_completion X s in
      if rc = 0 then (0, (ft, e))
      else if rc \<noteq> - SOS_EAGAIN then (rc, (ft, e))
      else pageout_wait_for_completion X iters (ft, x_yield X e))"

text \<open>
  The two loops without a bound of their own: waiting for a completion, and submitting until a
  worker has room. Their value is \<open>None\<close> when they run for ever.
\<close>

definition max_enomem_retries :: nat where "max_enomem_retries = 128"

partial_function (option) wait_blocking_loop :: "'e sos_env \<Rightarrow> nat \<Rightarrow> 'e st \<Rightarrow> (int \<times> 'e st) option" where
  "wait_blocking_loop X enomem_count s =
     (let (rc, s) = pageout_process_one_completion X s in
      if rc = 0 then Some (0, s)
      else
        (let enomem_count = (if rc = - ENOMEM then enomem_count + 1 else enomem_count) in
         if rc \<noteq> - SOS_EAGAIN \<and> (rc \<noteq> - ENOMEM \<or> enomem_count \<ge> max_enomem_retries) then Some (rc, s)
         else
           (let (polled, (ft, e)) = x_bootstrap_poll_irqs X s in
            wait_blocking_loop X enomem_count (if polled then (ft, e) else (ft, x_yield X e)))))"

definition pageout_wait_blocking :: "'e sos_env \<Rightarrow> 'e st \<Rightarrow> (int \<times> 'e st) option" where
  "pageout_wait_blocking X s = wait_blocking_loop X 0 s"

partial_function (option) submit_loop ::
    "'e sos_env \<Rightarrow> u32 \<Rightarrow> frame_ref \<Rightarrow> frame_ref \<Rightarrow> 'e st \<Rightarrow> (int \<times> 'e st) option" where
  "submit_loop X slot victim f s =
     (case s of (ft, e) \<Rightarrow>
       (let (rc, e) = x_pageout_submit X slot victim e in
        if rc = 0 then Some (0, (ft, e))
        else if rc = - SOS_EAGAIN then
          (let (_, s) = pageout_wait_for_completion X 16 (ft, e) in submit_loop X slot victim f s)
        else
          (let ft = upd_frame f (\<lambda>fr. fr\<lparr>swap_slot := 0\<rparr>) ft;
               e = x_pagefile_free_slot X slot e in
           Option.bind (clock_reconsider f ft) (\<lambda>ft. Some (rc, (ft, e))))))"

definition pageout_frame :: "'e sos_env \<Rightarrow> frame_ref \<Rightarrow> 'e st \<Rightarrow> (int \<times> 'e st) option" where
  "pageout_frame X victim = (\<lambda>(ft, e).
     if victim = NULL_FRAME then Some (-1, (ft, e))
     else do {
       f \<leftarrow> frame_from_ref ft victim;
       ft \<leftarrow> clock_remove f ft;
       let (slot, e) = x_pagefile_alloc_slot X victim e;
       if slot = PAGEFILE_INVALID_SLOT then do {
         ft \<leftarrow> clock_reconsider f ft;
         Some (-1, (ft, e)) }
       else do {
         let (prep_rc, (ft, e)) = x_vm_pageout_prepare X victim slot (ft, e);
         if prep_rc \<noteq> 0 then do {
           let e = x_pagefile_free_slot X slot e;
           ft \<leftarrow> clock_reconsider f ft;
           Some (prep_rc, (ft, e)) }
         else submit_loop X slot victim f (upd_frame f (\<lambda>fr. fr\<lparr>swap_slot := slot\<rparr>) ft, e) } })"

definition evict_one_frame :: "'e sos_env \<Rightarrow> 'e st \<Rightarrow> (int \<times> 'e st) option" where
  "evict_one_frame X = (\<lambda>(ft, e). do {
     (victim, ft) \<leftarrow> clock_select_victim ft;
     if victim = NULL_FRAME then Some (-1, (ft, e))
     else pageout_frame X victim (ft, e) })"

section \<open>Marking and slots\<close>

definition frame_mark_dirty :: "frame_ref \<Rightarrow> frame_table \<Rightarrow> frame_table option" where
  "frame_mark_dirty r ft =
     (if r = NULL_FRAME then Some ft
      else do {
        f \<leftarrow> frame_from_ref ft r;
        Some (upd_frame f (\<lambda>e. e\<lparr>fr_flags := fr_flags e OR FRAME_FLAG_DIRTY\<rparr>) ft) })"

definition frame_mark_referenced :: "frame_ref \<Rightarrow> frame_table \<Rightarrow> frame_table option" where
  "frame_mark_referenced r ft =
     (if r = NULL_FRAME then Some ft
      else do {
        f \<leftarrow> frame_from_ref ft r;
        Some (upd_frame f (\<lambda>e. e\<lparr>fr_flags := fr_flags e OR FRAME_FLAG_REFERENCED\<rparr>) ft) })"

definition frame_clock_consider :: "frame_ref \<Rightarrow> frame_table \<Rightarrow> frame_table option" where
  "frame_clock_consider r ft =
     (if r = NULL_FRAME then Some ft
      else do { f \<leftarrow> frame_from_ref ft r; clock_reconsider f ft })"

definition frame_bind_slot :: "frame_ref \<Rightarrow> u32 \<Rightarrow> frame_table \<Rightarrow> (bool \<times> frame_table) option" where
  "frame_bind_slot r slot ft =
     (if r = NULL_FRAME \<or> slot = PAGEFILE_INVALID_SLOT then Some (False, ft)
      else do {
        f \<leftarrow> frame_from_ref ft r;
        if swap_slot (ft_frames ft f) \<noteq> 0 \<and> swap_slot (ft_frames ft f) \<noteq> slot then Some (False, ft)
        else Some (True, upd_frame f (\<lambda>e. e\<lparr>swap_slot := slot\<rparr>) ft) })"

definition frame_unbind_slot :: "frame_ref \<Rightarrow> frame_table \<Rightarrow> frame_table option" where
  "frame_unbind_slot r ft =
     (if r = NULL_FRAME then Some ft
      else do { f \<leftarrow> frame_from_ref ft r; Some (upd_frame f (\<lambda>e. e\<lparr>swap_slot := 0\<rparr>) ft) })"

section \<open>Allocating and freeing\<close>

definition frame_reserve :: "frame_table \<Rightarrow> nat" where
  "frame_reserve ft = max 32 (min 256 (ft_capacity ft div 10))"

text \<open>Taking a frame off the free list, leaving the reserve to the kernel.\<close>

definition take_free :: "frame_owner_t \<Rightarrow> nat \<Rightarrow> 'e st \<Rightarrow> (frame_ref option \<times> 'e st) option" where
  "take_free owner reserve = (\<lambda>(ft, e).
     if owner = FRAME_OWNER_KERNEL \<or> fl_length (ft_free ft) > reserve then do {
       (f, ft) \<leftarrow> pop_front Free_p ft;
       Some (f, (ft, e)) }
     else Some (None, (ft, e)))"

fun proactive_loop :: "'e sos_env \<Rightarrow> nat \<Rightarrow> nat \<Rightarrow> 'e st \<Rightarrow> 'e st option" where
  "proactive_loop X low_watermark 0 s = Some s"
| "proactive_loop X low_watermark (Suc evict_budget) s =
     (if fl_length (ft_free (fst s)) \<le> low_watermark then do {
        (rc, s) \<leftarrow> evict_one_frame X s;
        if rc \<noteq> 0 then Some s
        else do {
          (rc, s) \<leftarrow> pageout_wait_blocking X s;
          if rc \<noteq> 0 then Some s else proactive_loop X low_watermark evict_budget s } }
      else Some s)"

definition max_evict_retries :: nat where "max_evict_retries = 8"

text \<open>
  The eviction loop, which the function has twice. Its first argument is the number of failed
  attempts that are left; a successful eviction whose frame still is not obtained (the pop finds
  the list empty) repeats without using one up.
\<close>

partial_function (option) evict_loop ::
    "'e sos_env \<Rightarrow> frame_owner_t \<Rightarrow> nat \<Rightarrow> nat \<Rightarrow> 'e st \<Rightarrow> (frame_ref option \<times> 'e st) option" where
  "evict_loop X owner reserve attempts s =
     (if x_pagefile_is_ready X (snd s) \<and> attempts < max_evict_retries then
        Option.bind (evict_one_frame X s) (\<lambda>(rc, s).
          if rc = 0 then
            Option.bind (pageout_wait_blocking X s) (\<lambda>(rc, s).
              if rc \<noteq> 0 then evict_loop X owner reserve (attempts + 1) s
              else if fl_length (ft_free (fst s)) > reserve \<or> owner = FRAME_OWNER_KERNEL then
                Option.bind (pop_front Free_p (fst s)) (\<lambda>(fr, ft).
                  case fr of
                    Some f \<Rightarrow> Some (Some f, (ft, snd s))
                  | None \<Rightarrow> evict_loop X owner reserve attempts (ft, snd s))
              else Some (None, s))
          else Some (None, s))
      else Some (None, s))"

definition heap_critical_threshold :: nat where "heap_critical_threshold = 96 * 1024"

definition heap_preflight :: "'e sos_env \<Rightarrow> 'e \<Rightarrow> 'e" where
  "heap_preflight X e =
     (if x_pagefile_is_ready X e \<and> x_morecore_free_bytes X e < heap_critical_threshold
      then snd (x_heap_reserve_release X e) else e)"

text \<open>The last part of the function: an obtained frame is stamped and put on the allocated list.\<close>

definition hand_out :: "frame_owner_t \<Rightarrow> u32 \<Rightarrow> frame_ref \<Rightarrow> frame_table \<Rightarrow> (frame_ref \<times> frame_table) option" where
  "hand_out owner flags f ft = do {
     let ft = upd_frame f (\<lambda>fr. fr\<lparr>fr_owner := owner, fr_flags := flags,
         pin_count := (if flags AND FRAME_FLAG_PINNED \<noteq> 0 then 1 else 0), swap_slot := 0,
         clock_prev := NULL_FRAME, clock_next := NULL_FRAME\<rparr>) ft;
     ft \<leftarrow> push_back Allocated_p f ft;
     r \<leftarrow> ref_from_frame ft f;
     Some (r, ft) }"

definition alloc_frame :: "'e sos_env \<Rightarrow> nat \<Rightarrow> frame_owner_t \<Rightarrow> u32 \<Rightarrow> 'e st \<Rightarrow> (frame_ref \<times> 'e st) option" where
  "alloc_frame X lim owner flags s = do {
     let reserve = frame_reserve (fst s);
     let low_watermark = reserve + 96;
     (frame, s) \<leftarrow> take_free owner reserve s;
     (frame, s) \<leftarrow>
       (if frame = None \<and> x_pagefile_is_ready X (snd s) \<and>
           fl_length (ft_free (fst s)) \<le> low_watermark \<and> cl_length (ft_clock (fst s)) > 0
        then do {
          s \<leftarrow> proactive_loop X low_watermark (low_watermark - fl_length (ft_free (fst s)) + 1) s;
          take_free owner reserve s }
        else Some (frame, s));
     let s = (if frame = None then (fst s, heap_preflight X (snd s)) else s);
     (frame, s) \<leftarrow> (if frame = None then evict_loop X owner reserve 0 s else Some (frame, s));
     (frame, s) \<leftarrow> (if frame = None then alloc_fresh_frame X lim s else Some (frame, s));
     (frame, s) \<leftarrow>
       (if frame = None \<and> x_pagefile_is_ready X (snd s) then evict_loop X owner reserve 0 s
        else Some (frame, s));
     case frame of
       None \<Rightarrow> Some (NULL_FRAME, s)
     | Some f \<Rightarrow> do {
         (r, ft) \<leftarrow> hand_out owner flags f (fst s);
         Some (r, (ft, snd s)) } }"

definition free_frame :: "frame_ref \<Rightarrow> frame_table \<Rightarrow> frame_table option" where
  "free_frame r ft =
     (if r \<noteq> NULL_FRAME then do {
        f \<leftarrow> frame_from_ref ft r;
        ft \<leftarrow> clock_remove f ft;
        if fr_list_id (ft_frames ft f) = ALLOCATED_LIST then do {
          ft \<leftarrow> remove_frame Allocated_p f ft;
          let ft = upd_frame f (\<lambda>e. e\<lparr>fr_owner := FRAME_OWNER_KERNEL, fr_flags := 0,
              pin_count := 0, swap_slot := 0, clock_prev := NULL_FRAME, clock_next := NULL_FRAME\<rparr>) ft;
          push_front Free_p f ft }
        else Some ft }
      else Some ft)"

section \<open>Initialisation\<close>

fun seed_loop :: "'e sos_env \<Rightarrow> nat \<Rightarrow> nat \<Rightarrow> 'e st \<Rightarrow> 'e st option" where
  "seed_loop X lim 0 s = Some s"
| "seed_loop X lim (Suc n) s = do {
     (f, s) \<leftarrow> alloc_fresh_frame X lim s;
     case f of
       None \<Rightarrow> Some s
     | Some f \<Rightarrow> do {
         ft \<leftarrow> push_front Free_p f (fst s);
         seed_loop X lim n (ft, snd s) } }"

definition seed_limit :: "nat \<Rightarrow> nat" where
  "seed_limit lim =
     (if lim \<noteq> 0 then min 4096 (if lim div 2 = 0 then 1 else lim div 2) else 4096)"

definition frame_table_init :: "'e sos_env \<Rightarrow> nat \<Rightarrow> nat \<Rightarrow> cptr \<Rightarrow> 'e st \<Rightarrow> 'e st option" where
  "frame_table_init X lim cspace vspace = (\<lambda>(ft, e).
     seed_loop X lim (seed_limit lim)
       (ft\<lparr>ft_cspace := cspace, ft_vspace := vspace,
          ft_clock := \<lparr>cl_hand = NULL_FRAME, cl_length = 0\<rparr>\<rparr>, e))"

definition frame_table_cspace :: "frame_table \<Rightarrow> nat" where
  "frame_table_cspace ft = ft_cspace ft"

end
