(* ===== verification/Frame_Invariant.thy ===== *)
theory Frame_Invariant
  imports Frame_Table
begin

text \<open>
  The invariant of the frame table and its preservation by every operation of
  \<^verbatim>\<open>frame_table.c\<close>. Ghost arguments give the two lists, the clock ring and the entries in
  transit, which an operation holds in a local variable and which are on no list.
\<close>

section \<open>The invariant\<close>

definition limit_ok :: "nat \<Rightarrow> bool" where
  "limit_ok lim \<longleftrightarrow> 2 \<le> lim \<and> lim \<le> 2 ^ 20"

definition frame_inv :: "nat \<Rightarrow> frame_table \<Rightarrow> (list_ptr \<Rightarrow> frame_ref list) \<Rightarrow> frame_ref list \<Rightarrow> frame_ref set \<Rightarrow> bool" where
  "frame_inv lim ft L cs U \<longleftrightarrow>
     ft_lists ft L \<and> clock_ring ft cs \<and> set cs \<subseteq> set (L Allocated_p) \<and>
     U = {0<..<ft_used ft} - (set (L Free_p) \<union> set (L Allocated_p)) \<and>
     (\<forall>r \<in> set (L Free_p). fr_owner (ft_frames ft r) = FRAME_OWNER_KERNEL) \<and>
     limit_ok lim \<and> ft_byte_length ft mod 4096 = 0 \<and>
     ft_capacity ft = min lim (ft_byte_length ft div sizeof_frame_t)"

lemma frame_invD:
  assumes "frame_inv lim ft L cs U"
  shows "ft_lists ft L" "clock_ring ft cs" "set cs \<subseteq> set (L Allocated_p)" "limit_ok lim"
    "U = {0<..<ft_used ft} - (set (L Free_p) \<union> set (L Allocated_p))"
    "r \<in> set (L Free_p) \<Longrightarrow> fr_owner (ft_frames ft r) = FRAME_OWNER_KERNEL"
    "ft_capacity ft = min lim (ft_byte_length ft div sizeof_frame_t)" "ft_byte_length ft mod 4096 = 0"
    "ft_used ft \<le> ft_capacity ft" "ft_capacity ft \<le> lim"
  using assms by (auto simp: frame_inv_def ft_lists_def)

text \<open>The two structural parts depend on the list fields and on the ring fields only.\<close>

lemma ft_lists_frame:
  assumes "ft_lists ft L" "same_tables ft ft'"
    "\<And>r. fr_prev (ft_frames ft' r) = fr_prev (ft_frames ft r)"
    "\<And>r. fr_next (ft_frames ft' r) = fr_next (ft_frames ft r)"
    "\<And>r. fr_list_id (ft_frames ft' r) = fr_list_id (ft_frames ft r)"
  shows "ft_lists ft' L"
proof -
  have "get_list l ft' = get_list l ft" for l using assms(2) by (cases l) (simp_all add: same_tables_def)
  with assms show ?thesis by (simp add: ft_lists_def flist_def same_tables_def)
qed

lemma clock_ring_frame:
  assumes "clock_ring ft cs" "ft_used ft' = ft_used ft" "ft_capacity ft' = ft_capacity ft"
    "ft_clock ft' = ft_clock ft"
    "\<And>r. clock_prev (ft_frames ft' r) = clock_prev (ft_frames ft r)"
    "\<And>r. clock_next (ft_frames ft' r) = clock_next (ft_frames ft r)"
  shows "clock_ring ft' cs"
  using assms by (simp add: clock_ring_def)

lemma payload_eqD:
  assumes "payload e = payload e'"
  shows "fr_owner e = fr_owner e'" "fr_flags e = fr_flags e'" "clock_prev e = clock_prev e'"
    "clock_next e = clock_next e'" "swap_slot e = swap_slot e'" "sos_page e = sos_page e'"
    "pin_count e = pin_count e'"
  using assms by (cases e; cases e'; simp add: payload_def)+

lemma links_onlyD:
  assumes "links_only ft ft'"
  shows "fr_owner (ft_frames ft' r) = fr_owner (ft_frames ft r)"
    "fr_flags (ft_frames ft' r) = fr_flags (ft_frames ft r)"
    "swap_slot (ft_frames ft' r) = swap_slot (ft_frames ft r)"
    "sos_page (ft_frames ft' r) = sos_page (ft_frames ft r)"
    "pin_count (ft_frames ft' r) = pin_count (ft_frames ft r)"
    "ft_used ft' = ft_used ft" "ft_capacity ft' = ft_capacity ft" "ft_byte_length ft' = ft_byte_length ft"
    "clock_ring ft cs \<Longrightarrow> clock_ring ft' cs"
proof -
  have p: "payload (ft_frames ft' r) = payload (ft_frames ft r)" for r
    using assms by (simp add: links_only_def)
  have t: "ft_used ft' = ft_used ft" "ft_capacity ft' = ft_capacity ft"
      "ft_byte_length ft' = ft_byte_length ft" "ft_clock ft' = ft_clock ft"
    using assms by (simp_all add: links_only_def)
  note P = payload_eqD [OF p]
  show "fr_owner (ft_frames ft' r) = fr_owner (ft_frames ft r)"
    "fr_flags (ft_frames ft' r) = fr_flags (ft_frames ft r)"
    "swap_slot (ft_frames ft' r) = swap_slot (ft_frames ft r)"
    "sos_page (ft_frames ft' r) = sos_page (ft_frames ft r)"
    "pin_count (ft_frames ft' r) = pin_count (ft_frames ft r)"
    "ft_used ft' = ft_used ft" "ft_capacity ft' = ft_capacity ft" "ft_byte_length ft' = ft_byte_length ft"
    using P t by blast+
  show "clock_ring ft cs \<Longrightarrow> clock_ring ft' cs"
    by (rule clock_ring_frame) (use P t in auto)
qed

text \<open>Every entry in use is on the free list, on the allocated list or in transit.\<close>

lemma frame_inv_cases:
  assumes "frame_inv lim ft L cs U" "0 < r" "r < ft_used ft"
  obtains "r \<in> set (L Free_p)" "r \<notin> set (L Allocated_p)" "r \<notin> U" "r \<notin> set cs"
      "fr_list_id (ft_frames ft r) = FREE_LIST"
  | "r \<in> set (L Allocated_p)" "r \<notin> set (L Free_p)" "r \<notin> U" "fr_list_id (ft_frames ft r) = ALLOCATED_LIST"
  | "r \<in> U" "r \<notin> set (L Allocated_p)" "r \<notin> set (L Free_p)" "r \<notin> set cs"
proof -
  note I = frame_invD [OF assms(1)]
  note A = ft_listsD(11) [OF I(1), of r]
  have "r \<notin> set (L Free_p) \<or> r \<notin> set (L Allocated_p)" using ft_lists_disjoint [OF I(1)] by blast
  with A [of Free_p] A [of Allocated_p] I(3,5) assms(2,3) that show ?thesis
    by (cases "r \<in> set (L Free_p)"; cases "r \<in> set (L Allocated_p)") auto
qed

section \<open>Clock operations\<close>

lemma scan_only_keeps:
  assumes inv: "frame_inv lim ft L cs U" and scan: "scan_only ft ft'" and ring: "clock_ring ft' cs'"
    and sub: "set cs' \<subseteq> set (L Allocated_p)"
  shows "frame_inv lim ft' L cs' U"
proof -
  note I = frame_invD [OF inv]
  have t: "same_tables ft ft'" and p: "spayload (ft_frames ft' r) = spayload (ft_frames ft r)" for r
    using scan by (auto simp: scan_only_def)
  note P = spayload_eqD [OF p]
  have "ft_lists ft' L" by (rule ft_lists_frame [OF I(1) t]) (use P in auto)
  with inv ring sub t show ?thesis
    by (simp add: frame_inv_def same_tables_def P(6,7))
qed

lemma clock_remove_inv:
  assumes inv: "frame_inv lim ft L cs U" and f: "0 < f" "f < ft_used ft"
  shows "\<exists>ft'. clock_remove f ft = Some ft' \<and> frame_inv lim ft' L (remove1 f cs) U \<and> clock_only ft ft'"
proof (cases "f \<in> set cs")
  case True
  note I = frame_invD [OF inv]
  obtain ft' where ft': "clock_remove f ft = Some ft'" "clock_ring ft' (remove1 f cs)" "clock_only ft ft'"
    using clock_remove_refines [OF I(2) True] by blast
  moreover have "set (remove1 f cs) \<subseteq> set (L Allocated_p)" using I(3) by (meson notin_set_remove1 subset_iff)
  ultimately show ?thesis using scan_only_keeps [OF inv clock_only_scan] by blast
next
  case False
  then show ?thesis
    using clock_remove_nonmember [OF frame_invD(2) [OF inv] f] inv by (simp add: remove1_idem)
qed

lemma clock_reconsider_inv:
  assumes inv: "frame_inv lim ft L cs {}" and f: "0 < f" "f < ft_used ft"
  shows "\<exists>ft'. clock_reconsider f ft = Some ft' \<and> frame_inv lim ft' L (reconsidered ft f cs) {} \<and> clock_only ft ft'"
proof -
  note I = frame_invD [OF inv]
  obtain ft' where ft': "clock_reconsider f ft = Some ft'" "clock_ring ft' (reconsidered ft f cs)" "clock_only ft ft'"
    using clock_reconsider_refines [OF I(2) f] by blast
  have "f \<in> set (L Allocated_p)" if "clock_is_eligible (ft_frames ft f)"
    using inv f that I(6) [of f]
    by (cases rule: frame_inv_cases) (auto simp: clock_is_eligible_def split: if_splits)
  then have "set (reconsidered ft f cs) \<subseteq> set (L Allocated_p)"
    using I(3) by (auto simp: reconsidered_def dest: notin_set_remove1)
  with ft' show ?thesis using scan_only_keeps [OF inv clock_only_scan] by blast
qed

lemma clock_select_victim_inv:
  assumes inv: "frame_inv lim ft L cs {}"
  shows "\<exists>ft' cs'. clock_select_victim ft = Some (victim_spec ft cs, ft') \<and> frame_inv lim ft' L cs' {} \<and>
    scan_only ft ft' \<and> (victim_spec ft cs \<noteq> 0 \<longrightarrow> victim_spec ft cs \<in> set cs')"
proof -
  note I = frame_invD [OF inv]
  obtain ft' cs' where "clock_select_victim ft = Some (victim_spec ft cs, ft')" "clock_ring ft' cs'"
    "scan_only ft ft'" "set cs' \<subseteq> set cs" "last_or 0 cs' = victim_spec ft cs"
    using clock_select_victim_post [OF I(2)] unfolding select_post_def by blast
  moreover from this have "frame_inv lim ft' L cs' {}" using scan_only_keeps [OF inv] I(3) by blast
  moreover have "victim_spec ft cs \<noteq> 0 \<longrightarrow> victim_spec ft cs \<in> set cs'"
    using calculation last_or_in [of cs' 0] by (cases "cs' = []") auto
  ultimately show ?thesis by blast
qed

section \<open>List operations\<close>

lemma frame_inv_transit:
  assumes "frame_inv lim ft L cs U" "f \<in> U"
  shows "0 < f" "f < ft_used ft" "fr_list_id (ft_frames ft f) = NO_LIST" "f \<notin> set cs" "f \<notin> set (L l)"
    "clock_prev (ft_frames ft f) = 0" "clock_next (ft_frames ft f) = 0"
proof -
  note I = frame_invD [OF assms(1)]
  show f: "0 < f" "f < ft_used ft" and c: "f \<notin> set cs" and l: "f \<notin> set (L l)"
    using assms(2) I(3) unfolding I(5) by (auto, cases l, auto)
  have "f \<notin> set (L l')" for l' using assms(2) unfolding I(5) by (cases l') auto
  then show "fr_list_id (ft_frames ft f) = NO_LIST" using ft_lists_unlisted(1) [OF I(1) f] by blast
  show "clock_prev (ft_frames ft f) = 0" "clock_next (ft_frames ft f) = 0"
    using I(2) f c by (simp_all add: clock_ring_def)
qed

lemma links_only_keeps:
  assumes inv: "frame_inv lim ft L cs U" and links: "links_only ft ft'" and lists: "ft_lists ft' L'"
    and sub: "set cs \<subseteq> set (L' Allocated_p)"
    and free: "\<And>r. r \<in> set (L' Free_p) \<Longrightarrow> fr_owner (ft_frames ft r) = FRAME_OWNER_KERNEL"
    and U: "U' = {0<..<ft_used ft} - (set (L' Free_p) \<union> set (L' Allocated_p))"
  shows "frame_inv lim ft' L' cs U'"
  using inv lists sub free U links_onlyD [OF links] by (simp add: frame_inv_def)

lemma pop_free_inv:
  assumes inv: "frame_inv lim ft L cs U" and L: "L Free_p = x # ys"
  shows "\<exists>ft'. pop_front Free_p ft = Some (Some x, ft') \<and>
    frame_inv lim ft' (L(Free_p := ys)) cs (insert x U) \<and> links_only ft ft'"
proof -
  note I = frame_invD [OF inv]
  obtain ft' where ft': "pop_front Free_p ft = Some (Some x, ft')" "ft_lists ft' (L(Free_p := ys))" "links_only ft ft'"
    using pop_front_refines [OF I(1) L] by blast
  have "frame_inv lim ft' (L(Free_p := ys)) cs (insert x U)"
    by (rule links_only_keeps [OF inv ft'(3,2)])
      (use I(3,5,6) L ft_listsD(5) [OF I(1), of Free_p] ft_listsD(12) [OF I(1), of x Free_p]
        ft_lists_disjoint [OF I(1), of x Free_p Allocated_p] in auto)
  with ft' show ?thesis by blast
qed

lemma push_front_free_inv:
  assumes inv: "frame_inv lim ft L cs U" and f: "f \<in> U" "fr_owner (ft_frames ft f) = FRAME_OWNER_KERNEL"
  shows "\<exists>ft'. push_front Free_p f ft = Some ft' \<and>
    frame_inv lim ft' (L(Free_p := f # L Free_p)) cs (U - {f}) \<and> links_only ft ft'"
proof -
  note I = frame_invD [OF inv]
  obtain ft' where ft': "push_front Free_p f ft = Some ft'" "ft_lists ft' (L(Free_p := f # L Free_p))" "links_only ft ft'"
    using push_front_refines [OF I(1) frame_inv_transit(1-3) [OF inv f(1)]] by blast
  have "frame_inv lim ft' (L(Free_p := f # L Free_p)) cs (U - {f})"
    by (rule links_only_keeps [OF inv ft'(3,2)]) (use I(3,5,6) f(2) in auto)
  with ft' show ?thesis by blast
qed

lemma push_back_allocated_inv:
  assumes inv: "frame_inv lim ft L cs U" and f: "f \<in> U"
  shows "\<exists>ft'. push_back Allocated_p f ft = Some ft' \<and>
    frame_inv lim ft' (L(Allocated_p := L Allocated_p @ [f])) cs (U - {f}) \<and> links_only ft ft'"
proof -
  note I = frame_invD [OF inv]
  obtain ft' where ft': "push_back Allocated_p f ft = Some ft'"
    "ft_lists ft' (L(Allocated_p := L Allocated_p @ [f]))" "links_only ft ft'"
    using push_back_refines [OF I(1) frame_inv_transit(1-3) [OF inv f]] by blast
  have "frame_inv lim ft' (L(Allocated_p := L Allocated_p @ [f])) cs (U - {f})"
    by (rule links_only_keeps [OF inv ft'(3,2)]) (use I(3,5,6) in auto)
  with ft' show ?thesis by blast
qed

lemma remove_allocated_inv:
  assumes inv: "frame_inv lim ft L cs U" and f: "f \<in> set (L Allocated_p)" "f \<notin> set cs"
  shows "\<exists>ft'. remove_frame Allocated_p f ft = Some ft' \<and>
    frame_inv lim ft' (L(Allocated_p := remove1 f (L Allocated_p))) cs (insert f U) \<and> links_only ft ft'"
proof -
  note I = frame_invD [OF inv]
  obtain ft' where ft': "remove_frame Allocated_p f ft = Some ft'"
    "ft_lists ft' (L(Allocated_p := remove1 f (L Allocated_p)))" "links_only ft ft'"
    using remove_frame_refines [OF I(1) f(1)] by blast
  have "set (remove1 f (L Allocated_p)) = set (L Allocated_p) - {f}"
    using ft_listsD(5) [OF I(1)] by simp
  then have "frame_inv lim ft' (L(Allocated_p := remove1 f (L Allocated_p))) cs (insert f U)"
    by (intro links_only_keeps [OF inv ft'(3,2)])
      (use I(3,5,6) f ft_listsD(12) [OF I(1) f(1)] ft_lists_disjoint [OF I(1) f(1), of Free_p] in auto)
  with ft' show ?thesis by blast
qed

lemma upd_frame_inv:
  assumes inv: "frame_inv lim ft L cs U"
    and g: "fr_prev (g (ft_frames ft f)) = fr_prev (ft_frames ft f)"
      "fr_next (g (ft_frames ft f)) = fr_next (ft_frames ft f)"
      "fr_list_id (g (ft_frames ft f)) = fr_list_id (ft_frames ft f)"
      "clock_prev (g (ft_frames ft f)) = clock_prev (ft_frames ft f)"
      "clock_next (g (ft_frames ft f)) = clock_next (ft_frames ft f)"
      "f \<in> set (L Free_p) \<Longrightarrow> fr_owner (g (ft_frames ft f)) = FRAME_OWNER_KERNEL"
  shows "frame_inv lim (upd_frame f g ft) L cs U"
proof -
  note I = frame_invD [OF inv]
  have "ft_lists (upd_frame f g ft) L" by (rule ft_lists_frame [OF I(1)]) (use g in auto)
  moreover have "clock_ring (upd_frame f g ft) cs" by (rule clock_ring_frame [OF I(2)]) (use g in auto)
  ultimately show ?thesis using inv g(6) by (auto simp: frame_inv_def)
qed

section \<open>Allocating and freeing\<close>

lemma hand_out_inv:
  assumes inv: "frame_inv lim ft L cs U" and f: "f \<in> U"
  shows "\<exists>ft'. hand_out owner flags f ft = Some (f, ft') \<and>
    frame_inv lim ft' (L(Allocated_p := L Allocated_p @ [f])) cs (U - {f}) \<and>
    fr_owner (ft_frames ft' f) = owner \<and> fr_flags (ft_frames ft' f) = flags \<and>
    swap_slot (ft_frames ft' f) = 0 \<and> sos_page (ft_frames ft' f) = sos_page (ft_frames ft f) \<and>
    pin_count (ft_frames ft' f) = (if flags AND FRAME_FLAG_PINNED \<noteq> 0 then 1 else 0)"
proof -
  note T = frame_inv_transit [OF inv f]
  let ?ft = "upd_frame f (\<lambda>fr. fr\<lparr>fr_owner := owner, fr_flags := flags,
         pin_count := (if flags AND FRAME_FLAG_PINNED \<noteq> 0 then 1 else 0), swap_slot := 0,
         clock_prev := NULL_FRAME, clock_next := NULL_FRAME\<rparr>) ft"
  have "frame_inv lim ?ft L cs U"
    by (rule upd_frame_inv [OF inv]) (use T(5) [of Free_p] T(6,7) in \<open>auto simp: NULL_FRAME_def\<close>)
  then obtain ft' where ft': "push_back Allocated_p f ?ft = Some ft'"
    "frame_inv lim ft' (L(Allocated_p := L Allocated_p @ [f])) cs (U - {f})" "links_only ?ft ft'"
    using push_back_allocated_inv f by blast
  then show ?thesis
    using T(2) links_onlyD(1-5) [OF ft'(3), of f] links_onlyD(6) [OF ft'(3)]
    by (simp add: hand_out_def ref_from_frame_def)
qed

lemma free_frame_inv:
  assumes inv: "frame_inv lim ft L cs {}" and r: "r \<in> set (L Allocated_p)"
  shows "\<exists>ft'. free_frame r ft = Some ft' \<and>
    frame_inv lim ft' (L(Allocated_p := remove1 r (L Allocated_p), Free_p := r # L Free_p)) (remove1 r cs) {} \<and>
    fr_flags (ft_frames ft' r) = 0 \<and> swap_slot (ft_frames ft' r) = 0 \<and>
    sos_page (ft_frames ft' r) = sos_page (ft_frames ft r) \<and> ft_used ft' = ft_used ft"
proof -
  note I = frame_invD [OF inv]
  have r0: "0 < r" "r < ft_used ft" "r < ft_capacity ft" using ft_listsD(12) [OF I(1) r] I(9) by auto
  obtain ft1 where ft1: "clock_remove r ft = Some ft1" "frame_inv lim ft1 L (remove1 r cs) {}" "clock_only ft ft1"
    using clock_remove_inv [OF inv r0(1,2)] by blast
  have id: "fr_list_id (ft_frames ft1 r) = ALLOCATED_LIST"
    using ft_listsD(11) [OF frame_invD(1) [OF ft1(2)] r] by simp
  have "r \<notin> set (remove1 r cs)" using clock_ringD(4) [OF I(2)] by simp
  then obtain ft2 where ft2: "remove_frame Allocated_p r ft1 = Some ft2"
    "frame_inv lim ft2 (L(Allocated_p := remove1 r (L Allocated_p))) (remove1 r cs) {r}" "links_only ft1 ft2"
    using remove_allocated_inv [OF ft1(2) r] by auto
  let ?ft3 = "upd_frame r (\<lambda>e. e\<lparr>fr_owner := FRAME_OWNER_KERNEL, fr_flags := 0,
              pin_count := 0, swap_slot := 0, clock_prev := NULL_FRAME, clock_next := NULL_FRAME\<rparr>) ft2"
  have i3: "frame_inv lim ?ft3 (L(Allocated_p := remove1 r (L Allocated_p))) (remove1 r cs) {r}"
    by (rule upd_frame_inv [OF ft2(2)])
      (use frame_inv_transit(6,7) [OF ft2(2), of r] in \<open>auto simp: NULL_FRAME_def\<close>)
  obtain ft4 where ft4: "push_front Free_p r ?ft3 = Some ft4"
    "frame_inv lim ft4 (L(Allocated_p := remove1 r (L Allocated_p), Free_p := r # L Free_p)) (remove1 r cs) {}"
    "links_only ?ft3 ft4"
    using push_front_free_inv [OF i3, of r] by auto
  have "sos_page (ft_frames ft1 r) = sos_page (ft_frames ft r)"
    using ft1(3) by (intro cpayload_eqD(6)) (simp add: clock_only_def)
  moreover have "ft_used ft1 = ft_used ft" using ft1(3) by (simp add: clock_only_def same_tables_def)
  moreover have "free_frame r ft = Some ft4"
    using r0 ft1(1) ft2(1) ft4(1) id by (simp add: free_frame_def frame_ref_defs)
  ultimately show ?thesis
    using ft4(2) links_onlyD(1-5) [OF ft4(3), of r] links_onlyD(6) [OF ft4(3)]
      links_onlyD(1-5) [OF ft2(3), of r] links_onlyD(6) [OF ft2(3)] by simp
qed

lemma free_frame_refused:
  assumes inv: "frame_inv lim ft L cs {}" and r: "r \<in> set (L Free_p)"
  shows "free_frame r ft = Some ft"
proof -
  note I = frame_invD [OF inv]
  have r0: "0 < r" "r < ft_used ft" "r < ft_capacity ft" using ft_listsD(12) [OF I(1) r] I(9) by auto
  have "r \<notin> set cs" using ft_lists_disjoint [OF I(1) r, of Allocated_p] I(3) by auto
  with clock_remove_nonmember [OF I(2) r0(1,2)] r0 ft_listsD(11) [OF I(1) r] show ?thesis
    by (simp add: free_frame_def frame_ref_defs)
qed

section \<open>Growing\<close>

text \<open>A larger capacity, and entries added behind the used ones, keep the structure.\<close>

lemma frame_inv_capacity:
  assumes "frame_inv lim ft L cs U" "ft_used ft \<le> c" "b mod 4096 = 0" "c = min lim (b div sizeof_frame_t)"
  shows "frame_inv lim (ft\<lparr>ft_byte_length := b, ft_capacity := c\<rparr>) L cs U"
proof -
  let ?ft = "ft\<lparr>ft_byte_length := b, ft_capacity := c\<rparr>"
  have "c \<le> lim" "lim \<le> 2 ^ 20" using assms(4) frame_invD(4) [OF assms(1)] by (simp_all add: limit_ok_def)
  then have c: "c < 2 ^ 58" by simp
  have "get_list l ?ft = get_list l ft" for l by (cases l) simp_all
  then have "ft_lists ?ft L" using assms(1,2) c by (simp add: frame_inv_def ft_lists_def)
  moreover have "clock_ring ?ft cs" using assms(1,2) c by (simp add: frame_inv_def clock_ring_def)
  ultimately show ?thesis using assms by (simp add: frame_inv_def)
qed

lemma frame_inv_sentinel:
  assumes "frame_inv lim ft L cs U" "ft_used ft = 0" "1 \<le> ft_capacity ft"
  shows "frame_inv lim (ft\<lparr>ft_used := 1\<rparr>) L cs U"
proof -
  have "get_list l (ft\<lparr>ft_used := 1\<rparr>) = get_list l ft" for l by (cases l) simp_all
  moreover have "L l = []" for l using ft_listsD(6) [OF frame_invD(1) [OF assms(1)], of l] assms(2) by simp
  ultimately have "ft_lists (ft\<lparr>ft_used := 1\<rparr>) L" using assms by (simp add: frame_inv_def ft_lists_def)
  moreover have "clock_ring (ft\<lparr>ft_used := 1\<rparr>) cs" using assms by (auto simp: frame_inv_def clock_ring_def)
  ultimately show ?thesis using assms by (auto simp: frame_inv_def)
qed

lemma frame_inv_grow:
  assumes inv: "frame_inv lim ft L cs U" and u: "0 < ft_used ft" "ft_used ft < ft_capacity ft"
  shows "frame_inv lim (upd_frame (ft_used ft) (\<lambda>_. fresh_frame page) (ft\<lparr>ft_used := ft_used ft + 1\<rparr>)) L cs
    (insert (ft_used ft) U)"
proof -
  let ?n = "ft_used ft"
  let ?ft = "upd_frame ?n (\<lambda>_. fresh_frame page) (ft\<lparr>ft_used := ?n + 1\<rparr>)"
  note I = frame_invD [OF inv] and D = ft_listsD [OF frame_invD(1) [OF inv]]
  have nL: "?n \<notin> set (L l)" for l using D(12) [of ?n l] by blast
  then have nc: "?n \<notin> set cs" using I(3) by blast
  have gl: "get_list l ?ft = get_list l ft" for l by (cases l) simp_all
  have h: "r \<noteq> ?n \<Longrightarrow> ft_frames ?ft r = ft_frames ft r" for r by simp
  have seg: "dllseg (\<lambda>x. fr_prev (ft_frames ?ft x)) (\<lambda>x. fr_next (ft_frames ?ft x)) 0 (L l) 0" for l
    using D(8) [of l] nL by (subst dllseg_cong) (auto simp: upd_frame_def)
  have lists: "ft_lists ?ft L"
    unfolding ft_lists_def flist_def gl
    using D(1-5) D(12) seg nL I(1) u by (auto simp: ft_lists_def fresh_frame_def NULL_FRAME_def less_Suc_eq)
  have "ring (\<lambda>r. clock_prev (ft_frames ?ft r)) (\<lambda>r. clock_next (ft_frames ?ft r)) cs"
    using clock_ringD(1) [OF I(2)] nc by (subst ring_cong) (auto simp: upd_frame_def)
  then have "clock_ring ?ft cs"
    using I(2) u nc by (auto simp: clock_ring_def fresh_frame_def NULL_FRAME_def less_Suc_eq)
  with lists inv u nL show ?thesis by (auto simp: frame_inv_def)
qed

lemma bump_capacity_inv:
  assumes inv: "frame_inv lim ft L cs U" and full: "ft_used ft = ft_capacity ft"
    and run: "bump_capacity X lim (ft, e) = (rc, (ft', e'))"
  shows "if rc = 0 then frame_inv lim ft' L cs U \<and> ft_used ft' = ft_used ft \<and> ft_used ft < ft_capacity ft'
    else ft' = ft"
proof -
  note I = frame_invD [OF inv]
  let ?b = "(ft_byte_length ft + 4096) mod 2 ^ 64"
  consider "rc \<noteq> 0" "ft' = ft" | "rc = 0" "ft_capacity ft \<noteq> lim"
      "ft' = ft\<lparr>ft_byte_length := ?b, ft_capacity := min lim (?b div 64)\<rparr>"
    using run I(4) by (auto simp: bump_capacity_def Let_def seL4_PageBits_def sizeof_frame_t_def limit_ok_def
        split: if_splits prod.splits)
  then show ?thesis
  proof cases
    case 2
    have lt: "ft_byte_length ft div 64 < lim" using I(7) 2(2) by (simp add: sizeof_frame_t_def split: if_splits)
    moreover have "lim \<le> 2 ^ 20" using I(4) by (simp add: limit_ok_def)
    ultimately have b: "?b = ft_byte_length ft + 4096" by simp
    have "ft_used ft < min lim (?b div 64)" using full I(7) lt unfolding b by (simp add: sizeof_frame_t_def)
    moreover have "?b mod 4096 = 0" using I(8) unfolding b by simp
    ultimately show ?thesis
      using 2 frame_inv_capacity [OF inv, of "min lim (?b div 64)" ?b] by (simp add: sizeof_frame_t_def)
  qed simp
qed

lemma capacity_two:
  assumes "frame_inv lim ft L cs U" "0 < ft_capacity ft"
  shows "2 \<le> ft_capacity ft"
proof -
  note I = frame_invD [OF assms(1)]
  have "0 < ft_byte_length ft" using assms(2) I(7) by (auto simp: sizeof_frame_t_def)
  then have "4096 \<le> ft_byte_length ft" using I(8) by (metis dvd_eq_mod_eq_0 dvd_imp_le)
  then have "64 \<le> ft_byte_length ft div 64" by simp
  then show ?thesis using I(4,7) by (simp add: sizeof_frame_t_def limit_ok_def)
qed

text \<open>The two outcomes of the capacity check, and the run after it.\<close>

lemma alloc_fresh_frame_run:
  assumes inv: "frame_inv lim ft L cs U"
    and b: "(if ft_used ft = ft_capacity ft then bump_capacity X lim (ft, e) else (0, (ft, e))) = (rc, (ft1, e1))"
  shows "rc \<noteq> 0 \<Longrightarrow> alloc_fresh_frame X lim (ft, e) = Some (None, (ft, e1))"
    and "rc = 0 \<Longrightarrow> \<exists>ft2 v page e2. frame_inv lim ft2 L cs U \<and> ft_used ft2 = max 1 (ft_used ft) \<and>
      ft_used ft2 < ft_capacity ft2 \<and> alloc_frame_at X v (ft2\<lparr>ft_used := ft_used ft2 + 1\<rparr>, e1) = (page, e2) \<and>
      alloc_fresh_frame X lim (ft, e) =
        (if page = seL4_CapNull then Some (None, (ft2, e2))
         else Some (Some (ft_used ft2), (upd_frame (ft_used ft2) (\<lambda>_. fresh_frame page) (ft2\<lparr>ft_used := ft_used ft2 + 1\<rparr>), e2)))"
proof -
  note I = frame_invD [OF inv]
  have lim: "lim \<noteq> 0" using I(4) by (simp add: limit_ok_def)
  show "alloc_fresh_frame X lim (ft, e) = Some (None, (ft, e1))" if "rc \<noteq> 0"
    using b that I(9,10) bump_capacity_inv [OF inv, of X e rc ft1 e1]
    by (cases "ft_used ft = ft_capacity ft") (auto simp: alloc_fresh_frame_def)
  assume rc: "rc = 0"
  have i1: "frame_inv lim ft1 L cs U" and u1: "ft_used ft1 = ft_used ft" "ft_used ft1 < ft_capacity ft1"
    using b rc bump_capacity_inv [OF inv, of X e rc ft1 e1] inv I(9) by (auto split: if_splits)
  have c2: "2 \<le> ft_capacity ft1" using capacity_two [OF i1] u1(2) by simp
  define ft2 where "ft2 = (if ft_used ft1 = 0 then ft1\<lparr>ft_used := ft_used ft1 + 1\<rparr> else ft1)"
  have i2: "frame_inv lim ft2 L cs U"
    using frame_inv_sentinel [OF i1] i1 c2 by (simp add: ft2_def)
  have u2: "0 < ft_used ft2" "ft_used ft2 < ft_capacity ft2" "ft_used ft2 = max 1 (ft_used ft)"
    using u1 c2 by (auto simp: ft2_def)
  let ?ft3 = "ft2\<lparr>ft_used := ft_used ft2 + 1\<rparr>"
  let ?v = "SOS_FRAME_DATA + of_nat (ft_used ft2) * 2 ^ seL4_PageBits"
  obtain page e2 where a: "alloc_frame_at X ?v (?ft3, e1) = (page, e2)" by fastforce
  have "alloc_fresh_frame X lim (ft, e) =
    (if page = seL4_CapNull then Some (None, (ft2, e2))
     else Some (Some (ft_used ft2), (upd_frame (ft_used ft2) (\<lambda>_. fresh_frame page) ?ft3, e2)))"
    using I(9,10) b rc u1(2) u2(1,2) a
    by (simp add: alloc_fresh_frame_def ft2_def [symmetric] frame_data_def ref_from_frame_def NULL_FRAME_def)
      (simp add: Let_def)
  with i2 u2 a show "\<exists>ft2 v page e2. frame_inv lim ft2 L cs U \<and> ft_used ft2 = max 1 (ft_used ft) \<and>
      ft_used ft2 < ft_capacity ft2 \<and> alloc_frame_at X v (ft2\<lparr>ft_used := ft_used ft2 + 1\<rparr>, e1) = (page, e2) \<and>
      alloc_fresh_frame X lim (ft, e) =
        (if page = seL4_CapNull then Some (None, (ft2, e2))
         else Some (Some (ft_used ft2), (upd_frame (ft_used ft2) (\<lambda>_. fresh_frame page) (ft2\<lparr>ft_used := ft_used ft2 + 1\<rparr>), e2)))"
    by blast
qed

lemma alloc_fresh_frame_inv:
  assumes inv: "frame_inv lim ft L cs U"
  shows "\<exists>res ft' e'. alloc_fresh_frame X lim (ft, e) = Some (res, (ft', e')) \<and> ft_used ft \<le> ft_used ft' \<and>
    (case res of None \<Rightarrow> frame_inv lim ft' L cs U
     | Some f \<Rightarrow> ft_used ft \<le> f \<and> f < ft_used ft' \<and> frame_inv lim ft' L cs (insert f U) \<and>
         fr_owner (ft_frames ft' f) = FRAME_OWNER_KERNEL)"
proof -
  obtain rc ft1 e1 where b: "(if ft_used ft = ft_capacity ft then bump_capacity X lim (ft, e) else (0, (ft, e))) = (rc, (ft1, e1))"
    by (metis prod_cases3)
  show ?thesis
  proof (cases "rc = 0")
    case False
    with alloc_fresh_frame_run(1) [OF inv b] inv show ?thesis by simp
  next
    case True
    obtain ft2 page e2 where i2: "frame_inv lim ft2 L cs U" "ft_used ft2 = max 1 (ft_used ft)"
      "ft_used ft2 < ft_capacity ft2" and run: "alloc_fresh_frame X lim (ft, e) =
        (if page = seL4_CapNull then Some (None, (ft2, e2))
         else Some (Some (ft_used ft2), (upd_frame (ft_used ft2) (\<lambda>_. fresh_frame page) (ft2\<lparr>ft_used := ft_used ft2 + 1\<rparr>), e2)))"
      using alloc_fresh_frame_run(2) [OF inv b True] by blast
    from frame_inv_grow [OF i2(1) _ i2(3), of page] i2 run show ?thesis
      by (cases "page = seL4_CapNull") (auto simp: fresh_frame_def)
  qed
qed

text \<open>With memory available and the limit not reached, a frame is obtained.\<close>

lemma alloc_fresh_frame_succeeds:
  assumes inv: "frame_inv lim ft L cs U" and u: "ft_used ft < lim"
    and mem: "\<And>v s. fst (alloc_frame_at X v s) \<noteq> seL4_CapNull"
  shows "\<exists>f ft' e'. alloc_fresh_frame X lim (ft, e) = Some (Some f, (ft', e')) \<and>
    ft_used ft' = max 1 (ft_used ft) + 1"
proof -
  obtain rc ft1 e1 where b: "(if ft_used ft = ft_capacity ft then bump_capacity X lim (ft, e) else (0, (ft, e))) = (rc, (ft1, e1))"
    by (metis prod_cases3)
  have rc: "rc = 0"
  proof (cases "ft_used ft = ft_capacity ft")
    case True
    with b u mem [of "SOS_FRAME_TABLE + of_nat (ft_byte_length ft)" "(ft, e)"] show ?thesis
      by (auto simp: bump_capacity_def Let_def split: prod.splits if_splits)
  qed (use b in simp)
  obtain ft2 v page e2 where i2: "ft_used ft2 = max 1 (ft_used ft)"
      "alloc_frame_at X v (ft2\<lparr>ft_used := ft_used ft2 + 1\<rparr>, e1) = (page, e2)" and run: "alloc_fresh_frame X lim (ft, e) =
        (if page = seL4_CapNull then Some (None, (ft2, e2))
         else Some (Some (ft_used ft2), (upd_frame (ft_used ft2) (\<lambda>_. fresh_frame page) (ft2\<lparr>ft_used := ft_used ft2 + 1\<rparr>), e2)))"
    using alloc_fresh_frame_run(2) [OF inv b rc] by blast
  have "page \<noteq> seL4_CapNull" using mem [of v "(ft2\<lparr>ft_used := ft_used ft2 + 1\<rparr>, e1)"] i2(2) by simp
  with run i2(1) show ?thesis by simp
qed

section \<open>Page-out\<close>

definition frame_ok :: "nat \<Rightarrow> frame_table \<Rightarrow> bool" where
  "frame_ok lim ft \<longleftrightarrow> (\<exists>L cs. frame_inv lim ft L cs {})"

definition table_step :: "nat \<Rightarrow> frame_table \<Rightarrow> frame_table \<Rightarrow> bool" where
  "table_step lim ft ft' \<longleftrightarrow> (frame_ok lim ft \<longrightarrow> frame_ok lim ft' \<and> ft_used ft \<le> ft_used ft')"

text \<open>
  What the frame table relies on: the functions of other modules that may call back into it do so
  through its operations, so they keep its invariant.
\<close>

definition env_ok :: "nat \<Rightarrow> 'e sos_env \<Rightarrow> bool" where
  "env_ok lim X \<longleftrightarrow>
     (\<forall>r slot ft e.
        table_step lim ft (fst (snd (x_vm_pageout_prepare X r slot (ft, e)))) \<and>
        table_step lim ft (fst (snd (x_vm_pageout_finalise X r slot (ft, e)))) \<and>
        table_step lim ft (fst (snd (x_vm_pageout_abort X r slot (ft, e)))) \<and>
        table_step lim ft (fst (snd (x_bootstrap_poll_irqs X (ft, e)))))"

lemma table_step_refl [simp]: "table_step lim ft ft"
  by (simp add: table_step_def)

lemma table_step_trans: "table_step lim ft ft' \<Longrightarrow> table_step lim ft' ft'' \<Longrightarrow> table_step lim ft ft''"
  by (auto simp: table_step_def)

lemma env_okD:
  assumes "env_ok lim X"
  shows "x_vm_pageout_prepare X r slot (ft, e) = (rc, (ft', e')) \<Longrightarrow> table_step lim ft ft'"
    "x_vm_pageout_finalise X r slot (ft, e) = (rc, (ft', e')) \<Longrightarrow> table_step lim ft ft'"
    "x_vm_pageout_abort X r slot (ft, e) = (rc, (ft', e')) \<Longrightarrow> table_step lim ft ft'"
    "x_bootstrap_poll_irqs X (ft, e) = (b, (ft', e')) \<Longrightarrow> table_step lim ft ft'"
  using assms unfolding env_ok_def by (metis fst_conv snd_conv)+

lemma process_one_step:
  assumes "env_ok lim X" "pageout_process_one_completion X (ft, e) = (rc, (ft', e'))"
  shows "table_step lim ft ft'"
  using assms(2) env_okD [OF assms(1)]
  by (auto simp: pageout_process_one_completion_def Let_def split: prod.splits if_splits)

lemma wait_for_completion_step:
  assumes "env_ok lim X" "pageout_wait_for_completion X n (ft, e) = (rc, (ft', e'))"
  shows "table_step lim ft ft'"
  using assms(2)
proof (induction n arbitrary: ft e)
  case (Suc n)
  obtain rc1 ft1 e1 where p: "pageout_process_one_completion X (ft, e) = (rc1, (ft1, e1))" by (metis prod_cases3)
  note step = process_one_step [OF assms(1) p]
  from Suc.prems consider "ft' = ft1" | "pageout_wait_for_completion X n (ft1, x_yield X e1) = (rc, (ft', e'))"
    by (auto simp: p split: if_splits)
  then show ?case using step Suc.IH table_step_trans by cases blast+
qed simp

lemma wait_blocking_step:
  assumes run: "wait_blocking_loop X n s = Some res" and env: "env_ok lim X"
  shows "table_step lim (fst s) (fst (snd res))"
proof (rule mp [OF wait_blocking_loop.raw_induct
    [where P = "\<lambda>X n s res. env_ok lim X \<longrightarrow> table_step lim (fst s) (fst (snd res))", OF _ run] env], rule impI)
  fix rec :: "'a sos_env \<Rightarrow> nat \<Rightarrow> 'a st \<Rightarrow> (int \<times> 'a st) option" and X n s res
  assume IH: "\<And>X n s y. rec X n s = Some y \<Longrightarrow> env_ok lim X \<longrightarrow> table_step lim (fst s) (fst (snd y))"
    and env: "env_ok lim X"
    and body: "(let (rc, s) = pageout_process_one_completion X s in
      if rc = 0 then Some (0, s)
      else
        (let enomem_count = (if rc = - ENOMEM then n + 1 else n) in
         if rc \<noteq> - SOS_EAGAIN \<and> (rc \<noteq> - ENOMEM \<or> enomem_count \<ge> max_enomem_retries) then Some (rc, s)
         else
           (let (polled, (ft, e)) = x_bootstrap_poll_irqs X s in
            rec X enomem_count (if polled then (ft, e) else (ft, x_yield X e))))) = Some res"
  obtain ft e where s: "s = (ft, e)" by (cases s)
  obtain rc1 ft1 e1 where p: "pageout_process_one_completion X (ft, e) = (rc1, (ft1, e1))" by (metis prod_cases3)
  note step = process_one_step [OF env p]
  obtain b ft2 e2 where q: "x_bootstrap_poll_irqs X (ft1, e1) = (b, (ft2, e2))" by (metis prod_cases3)
  note step' = table_step_trans [OF step env_okD(4) [OF env q]]
  have "fst (snd res) = ft1 \<or> (\<exists>m e3. rec X m (ft2, e3) = Some res)"
    using body by (cases b) (auto simp: s p q Let_def split: if_splits)
  then show "table_step lim (fst s) (fst (snd res))"
  proof
    assume "\<exists>m e3. rec X m (ft2, e3) = Some res"
    with IH env have "table_step lim ft2 (fst (snd res))" by fastforce
    with step' table_step_trans show ?thesis by (fastforce simp: s)
  qed (use step in \<open>simp add: s\<close>)
qed

text \<open>Changing a swap slot, taking a frame off the ring and reconsidering it are steps of the table.\<close>

lemma swap_slot_step: "table_step lim ft (upd_frame f (\<lambda>fr. fr\<lparr>swap_slot := v\<rparr>) ft)"
proof -
  have "frame_inv lim (upd_frame f (\<lambda>fr. fr\<lparr>swap_slot := v\<rparr>) ft) L cs {}" if "frame_inv lim ft L cs {}" for L cs
    using that by (rule upd_frame_inv) (use frame_invD(6) [OF that] in auto)
  then show ?thesis by (auto simp: table_step_def frame_ok_def)
qed

lemma clock_only_used: "clock_only ft ft' \<Longrightarrow> ft_used ft' = ft_used ft"
  by (simp add: clock_only_def same_tables_def)

lemma clock_reconsider_step:
  assumes "0 < f" "f < ft_used ft" "frame_ok lim ft"
  shows "\<exists>ft'. clock_reconsider f ft = Some ft' \<and> table_step lim ft ft'"
proof -
  obtain L cs where inv: "frame_inv lim ft L cs {}" using assms(3) by (auto simp: frame_ok_def)
  obtain ft' cs' where ft': "clock_reconsider f ft = Some ft'" "frame_inv lim ft' L cs' {}" "clock_only ft ft'"
    using clock_reconsider_inv [OF inv assms(1,2)] by blast
  then have "table_step lim ft ft'" using clock_only_used [OF ft'(3)] by (auto simp: table_step_def frame_ok_def)
  with ft'(1) show ?thesis by blast
qed

lemma clock_remove_step:
  assumes "0 < f" "f < ft_used ft" "frame_ok lim ft"
  shows "\<exists>ft'. clock_remove f ft = Some ft' \<and> table_step lim ft ft'"
proof -
  obtain L cs where inv: "frame_inv lim ft L cs {}" using assms(3) by (auto simp: frame_ok_def)
  obtain ft' cs' where ft': "clock_remove f ft = Some ft'" "frame_inv lim ft' L cs' {}" "clock_only ft ft'"
    using clock_remove_inv [OF inv assms(1,2)] by blast
  then have "table_step lim ft ft'" using clock_only_used [OF ft'(3)] by (auto simp: table_step_def frame_ok_def)
  with ft'(1) show ?thesis by blast
qed

lemma submit_loop_step:
  assumes run: "submit_loop X slot victim f s = Some res" and env: "env_ok lim X"
    and f: "0 < f" "f < ft_used (fst s)" "frame_ok lim (fst s)"
  shows "table_step lim (fst s) (fst (snd res))"
proof (rule mp [OF submit_loop.raw_induct
    [where P = "\<lambda>X slot victim f s res. env_ok lim X \<and> 0 < f \<and> f < ft_used (fst s) \<and> frame_ok lim (fst s) \<longrightarrow>
      table_step lim (fst s) (fst (snd res))", OF _ run]], rule impI)
  show "env_ok lim X \<and> 0 < f \<and> f < ft_used (fst s) \<and> frame_ok lim (fst s)" using env f by simp
next
  fix rec :: "'a sos_env \<Rightarrow> u32 \<Rightarrow> frame_ref \<Rightarrow> frame_ref \<Rightarrow> 'a st \<Rightarrow> (int \<times> 'a st) option" and X slot victim f s res
  assume IH: "\<And>X slot victim f s y. rec X slot victim f s = Some y \<Longrightarrow>
      env_ok lim X \<and> 0 < f \<and> f < ft_used (fst s) \<and> frame_ok lim (fst s) \<longrightarrow> table_step lim (fst s) (fst (snd y))"
    and pre: "env_ok lim X \<and> 0 < f \<and> f < ft_used (fst s) \<and> frame_ok lim (fst s)"
    and body: "(case s of (ft, e) \<Rightarrow>
       (let (rc, e) = x_pageout_submit X slot victim e in
        if rc = 0 then Some (0, (ft, e))
        else if rc = - SOS_EAGAIN then
          (let (_, s) = pageout_wait_for_completion X 16 (ft, e) in rec X slot victim f s)
        else
          (let ft = upd_frame f (\<lambda>fr. fr\<lparr>swap_slot := 0\<rparr>) ft;
               e = x_pagefile_free_slot X slot e in
           Option.bind (clock_reconsider f ft) (\<lambda>ft. Some (rc, (ft, e)))))) = Some res"
  from pre have env: "env_ok lim X" and f: "0 < f" "f < ft_used (fst s)" "frame_ok lim (fst s)" by auto
  obtain ft e where s: "s = (ft, e)" by (cases s)
  obtain rc1 e1 where p: "x_pageout_submit X slot victim e = (rc1, e1)" by fastforce
  obtain rc2 ft2 e2 where q: "pageout_wait_for_completion X 16 (ft, e1) = (rc2, (ft2, e2))" by (metis prod_cases3)
  note step = wait_for_completion_step [OF env q]
  let ?ft = "upd_frame f (\<lambda>fr. fr\<lparr>swap_slot := 0\<rparr>) ft"
  note sw = swap_slot_step [of lim ft f 0]
  from body consider "fst (snd res) = ft" | "rec X slot victim f (ft2, e2) = Some res"
    | ft3 where "clock_reconsider f ?ft = Some ft3" "fst (snd res) = ft3"
    by (auto simp: s p q Let_def split: if_splits bind_split_asm)
  then show "table_step lim (fst s) (fst (snd res))"
  proof cases
    case 2
    have "f < ft_used (fst (ft2, e2))" "frame_ok lim (fst (ft2, e2))"
      using step f by (auto simp: table_step_def s)
    with IH [OF 2] env f(1) table_step_trans [OF step] show ?thesis by (simp add: s)
  next
    case 3
    have "frame_ok lim ?ft" "f < ft_used ?ft" using sw f by (auto simp: table_step_def s)
    with clock_reconsider_step [OF f(1)] 3 table_step_trans [OF sw] show ?thesis by (fastforce simp: s)
  qed (simp add: s)
qed

lemma pageout_frame_step:
  assumes env: "env_ok lim X" and ok: "frame_ok lim ft" and v: "0 < v" "v < ft_used ft"
    and run: "pageout_frame X v (ft, e) = Some (rc, (ft', e'))"
  shows "table_step lim ft ft'"
proof -
  have "v < ft_capacity ft" using ok v by (auto simp: frame_ok_def dest!: frame_invD(9))
  then have fr: "frame_from_ref ft v = Some v" using v by (simp add: frame_ref_defs)
  obtain ft1 where ft1: "clock_remove v ft = Some ft1" "table_step lim ft ft1"
    using clock_remove_step [OF v ok] by blast
  have ok1: "frame_ok lim ft1" "v < ft_used ft1" using ft1(2) ok v by (auto simp: table_step_def)
  obtain slot e1 where p: "x_pagefile_alloc_slot X v e = (slot, e1)" by fastforce
  obtain prc ft2 e2 where q: "x_vm_pageout_prepare X v slot (ft1, e1) = (prc, (ft2, e2))" by (metis prod_cases3)
  note st2 = env_okD(1) [OF env q]
  have ok2: "frame_ok lim ft2" "v < ft_used ft2" using st2 ok1 by (auto simp: table_step_def)
  let ?ft3 = "upd_frame v (\<lambda>fr. fr\<lparr>swap_slot := slot\<rparr>) ft2"
  note sw = swap_slot_step [of lim ft2 v slot]
  have ok3: "frame_ok lim ?ft3" "v < ft_used ?ft3" using sw ok2 by (auto simp: table_step_def)
  from run consider "clock_reconsider v ft1 = Some ft'" | "clock_reconsider v ft2 = Some ft'"
    | "submit_loop X slot v v (?ft3, e2) = Some (rc, (ft', e'))"
    using v(1) by (auto simp: pageout_frame_def fr ft1(1) p q NULL_FRAME_def Let_def
        split: if_splits bind_split_asm)
  then have "table_step lim ft1 ft'"
  proof cases
    case 1 then show ?thesis using clock_reconsider_step [OF v(1) ok1(2,1)] by auto
  next
    case 2 then show ?thesis using clock_reconsider_step [OF v(1) ok2(2,1)] table_step_trans [OF st2] by auto
  next
    case 3
    from submit_loop_step [OF 3 env v(1)] ok3 show ?thesis
      using table_step_trans [OF table_step_trans [OF st2 sw]] by simp
  qed
  with ft1(2) table_step_trans show ?thesis by blast
qed

lemma evict_one_frame_step:
  assumes env: "env_ok lim X" and run: "evict_one_frame X (ft, e) = Some (rc, (ft', e'))"
  shows "table_step lim ft ft'"
proof (cases "frame_ok lim ft")
  case True
  then obtain L cs where inv: "frame_inv lim ft L cs {}" by (auto simp: frame_ok_def)
  obtain ft1 cs1 where v: "clock_select_victim ft = Some (victim_spec ft cs, ft1)" "frame_inv lim ft1 L cs1 {}"
    "scan_only ft ft1" "victim_spec ft cs \<noteq> 0 \<longrightarrow> victim_spec ft cs \<in> set cs1"
    using clock_select_victim_inv [OF inv] by blast
  have step: "table_step lim ft ft1"
    using v(2,3) by (auto simp: table_step_def frame_ok_def scan_only_def same_tables_def)
  show ?thesis
  proof (cases "victim_spec ft cs = 0")
    case False
    then have "0 < victim_spec ft cs" "victim_spec ft cs < ft_used ft1"
      using v(4) clock_ringD(8) [OF frame_invD(2) [OF v(2)]] by auto
    moreover have "frame_ok lim ft1" using v(2) by (auto simp: frame_ok_def)
    moreover have "pageout_frame X (victim_spec ft cs) (ft1, e) = Some (rc, (ft', e'))"
      using v(1) run False by (simp add: evict_one_frame_def NULL_FRAME_def)
    ultimately show ?thesis using pageout_frame_step [OF env] table_step_trans [OF step] by blast
  qed (use run v step in \<open>simp add: evict_one_frame_def NULL_FRAME_def\<close>)
qed (simp add: table_step_def)

section \<open>Allocation\<close>

text \<open>
  A frame obtained during an allocation that started with \<open>u\<close> entries in use: the table is intact up
  to that frame, and for a user allocation the frame is new or the free list still holds the reserve.
\<close>

definition obtained :: "nat \<Rightarrow> frame_owner_t \<Rightarrow> nat \<Rightarrow> nat \<Rightarrow> frame_ref option \<Rightarrow> frame_table \<Rightarrow> bool" where
  "obtained lim owner reserve u res ft \<longleftrightarrow> u \<le> ft_used ft \<and>
     (case res of None \<Rightarrow> frame_ok lim ft
      | Some f \<Rightarrow> \<exists>L cs. frame_inv lim ft L cs {f} \<and>
          (owner = FRAME_OWNER_KERNEL \<or> u \<le> f \<or> reserve \<le> length (L Free_p)))"

lemma pop_free_obtained:
  assumes ok: "frame_ok lim ft" "u \<le> ft_used ft"
    and may: "owner = FRAME_OWNER_KERNEL \<or> fl_length (ft_free ft) > reserve"
  shows "\<exists>res ft'. pop_front Free_p ft = Some (res, ft') \<and> obtained lim owner reserve u res ft'"
proof -
  obtain L cs where inv: "frame_inv lim ft L cs {}" using ok(1) by (auto simp: frame_ok_def)
  note I = frame_invD [OF inv]
  show ?thesis
  proof (cases "L Free_p")
    case Nil
    with pop_front_empty [OF I(1)] ok show ?thesis by (auto simp: obtained_def)
  next
    case (Cons x ys)
    obtain ft' where ft': "pop_front Free_p ft = Some (Some x, ft')"
      "frame_inv lim ft' (L(Free_p := ys)) cs {x}" "links_only ft ft'"
      using pop_free_inv [OF inv Cons] by blast
    have "owner = FRAME_OWNER_KERNEL \<or> reserve \<le> length ys"
      using may ft_listsD(3) [OF I(1), of Free_p] Cons by auto
    moreover have "u \<le> ft_used ft'" using ok(2) links_onlyD(6) [OF ft'(3)] by simp
    ultimately show ?thesis using ft'(1,2) by (fastforce simp: obtained_def)
  qed
qed

lemma take_free_obtained:
  assumes "frame_ok lim ft" "u \<le> ft_used ft"
  shows "\<exists>res ft'. take_free owner reserve (ft, e) = Some (res, (ft', e)) \<and> obtained lim owner reserve u res ft'"
proof (cases "owner = FRAME_OWNER_KERNEL \<or> fl_length (ft_free ft) > reserve")
  case True
  with pop_free_obtained [OF assms True] show ?thesis by (auto simp: take_free_def)
qed (use assms in \<open>auto simp: take_free_def obtained_def\<close>)

lemma proactive_step:
  assumes env: "env_ok lim X"
  shows "proactive_loop X w n s = Some s' \<Longrightarrow> table_step lim (fst s) (fst s')"
proof (induction n arbitrary: s)
  case (Suc n)
  obtain ft e where s: "s = (ft, e)" by (cases s)
  show ?case
  proof (cases "fl_length (ft_free ft) \<le> w")
    case True
    with Suc.prems obtain rc ft1 e1 where v: "evict_one_frame X (ft, e) = Some (rc, (ft1, e1))"
      by (auto simp: s split: bind_split_asm)
    note step = evict_one_frame_step [OF env v]
    show ?thesis
    proof (cases "rc = 0")
      case r: True
      with Suc.prems True obtain rc2 s2 where w: "pageout_wait_blocking X (ft1, e1) = Some (rc2, s2)"
        by (auto simp: s v split: bind_split_asm)
      then have "table_step lim ft1 (fst s2)"
        using wait_blocking_step [OF _ env] by (fastforce simp: pageout_wait_blocking_def)
      note step2 = table_step_trans [OF step this]
      have "s' = s2 \<or> proactive_loop X w n s2 = Some s'"
        using Suc.prems True r by (auto simp: s v w split: if_splits)
      then show ?thesis using step2 Suc.IH [of s2] table_step_trans [OF step2] by (auto simp: s)
    qed (use Suc.prems True v step in \<open>auto simp: s\<close>)
  qed (use Suc.prems in \<open>simp add: s\<close>)
qed simp

lemma evict_loop_obtained:
  assumes run: "evict_loop X owner reserve n s = Some res" and env: "env_ok lim X"
    and ok: "frame_ok lim (fst s)" "u \<le> ft_used (fst s)"
  shows "obtained lim owner reserve u (fst res) (fst (snd res))"
proof (rule mp [OF evict_loop.raw_induct
    [where P = "\<lambda>X owner reserve n s res. env_ok lim X \<and> frame_ok lim (fst s) \<and> u \<le> ft_used (fst s) \<longrightarrow>
      obtained lim owner reserve u (fst res) (fst (snd res))", OF _ run]], rule impI)
  show "env_ok lim X \<and> frame_ok lim (fst s) \<and> u \<le> ft_used (fst s)" using env ok by simp
next
  fix rec :: "'a sos_env \<Rightarrow> frame_owner_t \<Rightarrow> nat \<Rightarrow> nat \<Rightarrow> 'a st \<Rightarrow> (frame_ref option \<times> 'a st) option"
    and X owner reserve n s res
  assume IH: "\<And>X owner reserve n s y. rec X owner reserve n s = Some y \<Longrightarrow>
      env_ok lim X \<and> frame_ok lim (fst s) \<and> u \<le> ft_used (fst s) \<longrightarrow>
      obtained lim owner reserve u (fst y) (fst (snd y))"
    and pre: "env_ok lim X \<and> frame_ok lim (fst s) \<and> u \<le> ft_used (fst s)"
    and body: "(if x_pagefile_is_ready X (snd s) \<and> n < max_evict_retries then
        Option.bind (evict_one_frame X s) (\<lambda>(rc, s).
          if rc = 0 then
            Option.bind (pageout_wait_blocking X s) (\<lambda>(rc, s).
              if rc \<noteq> 0 then rec X owner reserve (n + 1) s
              else if fl_length (ft_free (fst s)) > reserve \<or> owner = FRAME_OWNER_KERNEL then
                Option.bind (pop_front Free_p (fst s)) (\<lambda>(fr, ft).
                  case fr of
                    Some f \<Rightarrow> Some (Some f, (ft, snd s))
                  | None \<Rightarrow> rec X owner reserve n (ft, snd s))
              else Some (None, s))
          else Some (None, s))
      else Some (None, s)) = Some res"
  from pre have env: "env_ok lim X" and ok: "frame_ok lim (fst s)" "u \<le> ft_used (fst s)" by auto
  obtain ft e where s: "s = (ft, e)" by (cases s)
  show "obtained lim owner reserve u (fst res) (fst (snd res))"
  proof (cases "x_pagefile_is_ready X e \<and> n < max_evict_retries")
    case True
    with body obtain rc ft1 e1 where v: "evict_one_frame X (ft, e) = Some (rc, (ft1, e1))"
      by (auto simp: s split: bind_split_asm)
    have ok1: "frame_ok lim ft1" "u \<le> ft_used ft1"
      using evict_one_frame_step [OF env v] ok by (auto simp: table_step_def s)
    show ?thesis
    proof (cases "rc = 0")
      case r: True
      with body True obtain rc2 ft2 e2 where w: "pageout_wait_blocking X (ft1, e1) = Some (rc2, (ft2, e2))"
        by (auto simp: s v split: bind_split_asm)
      then have "table_step lim ft1 ft2"
        using wait_blocking_step [OF _ env] by (fastforce simp: pageout_wait_blocking_def)
      then have ok2: "frame_ok lim ft2" "u \<le> ft_used ft2" using ok1 by (auto simp: table_step_def)
      consider "rc2 \<noteq> 0" | "rc2 = 0" "owner = FRAME_OWNER_KERNEL \<or> fl_length (ft_free ft2) > reserve"
        | "rc2 = 0" "\<not> (owner = FRAME_OWNER_KERNEL \<or> fl_length (ft_free ft2) > reserve)" by blast
      then show ?thesis
      proof cases
        case 1
        then have "rec X owner reserve (n + 1) (ft2, e2) = Some res" using body True r by (simp add: s v w)
        with IH env ok2 show ?thesis by fastforce
      next
        case 2
        obtain fr ft3 where p: "pop_front Free_p ft2 = Some (fr, ft3)" "obtained lim owner reserve u fr ft3"
          using pop_free_obtained [OF ok2 2(2)] by blast
        show ?thesis
        proof (cases fr)
          case None
          have "rec X owner reserve n (ft3, e2) = Some res" using body True r 2 p(1) None by (simp add: s v w disj_commute)
          with IH env p(2) None show ?thesis by (fastforce simp: obtained_def)
        qed (use body True r 2 p in \<open>auto simp: s v w disj_commute\<close>)
      next
        case 3
        then show ?thesis using body True r ok2 by (auto simp: s v w obtained_def)
      qed
    qed (use body True v ok1 in \<open>auto simp: s obtained_def\<close>)
  qed (use body ok in \<open>auto simp: s obtained_def\<close>)
qed

lemma alloc_fresh_obtained:
  assumes "frame_ok lim ft" "u \<le> ft_used ft" "alloc_fresh_frame X lim (ft, e) = Some (res, (ft', e'))"
  shows "obtained lim owner reserve u res ft'"
proof -
  obtain L cs where inv: "frame_inv lim ft L cs {}" using assms(1) by (auto simp: frame_ok_def)
  from alloc_fresh_frame_inv [OF inv, of X e] assms(2,3) show ?thesis
    by (fastforce simp: obtained_def frame_ok_def split: option.splits)
qed

lemma obtained_None:
  "obtained lim owner reserve u None ft \<longleftrightarrow> frame_ok lim ft \<and> u \<le> ft_used ft"
  by (auto simp: obtained_def)

text \<open>A stage of the allocation: it runs when no frame has been obtained yet.\<close>

lemma obtained_stage:
  assumes "(if fr = None \<and> c then m else Some (fr, s)) = Some (fr', s')"
    and "obtained lim owner reserve u fr (fst s)"
    and "frame_ok lim (fst s) \<Longrightarrow> u \<le> ft_used (fst s) \<Longrightarrow> m = Some (fr', s') \<Longrightarrow>
      obtained lim owner reserve u fr' (fst s')"
  shows "obtained lim owner reserve u fr' (fst s')"
  using assms by (auto simp: obtained_None split: if_splits)

lemma alloc_frame_obtained:
  assumes env: "env_ok lim X" and ok: "frame_ok lim ft"
    and run: "alloc_frame X lim owner flags (ft, e) = Some (r, s')"
  shows "\<exists>res ft1. obtained lim owner (frame_reserve ft) (ft_used ft) res ft1 \<and>
    (case res of None \<Rightarrow> r = 0 \<and> fst s' = ft1 | Some f \<Rightarrow> hand_out owner flags f ft1 = Some (r, fst s'))"
proof -
  let ?R = "frame_reserve ft" and ?u = "ft_used ft"
  from run obtain f1 s1 f2 s2 f4 s4 f5 s5 f6 s6 where
    1: "take_free owner ?R (ft, e) = Some (f1, s1)" and
    2: "(if f1 = None \<and> x_pagefile_is_ready X (snd s1) \<and> fl_length (ft_free (fst s1)) \<le> ?R + 96 \<and>
          cl_length (ft_clock (fst s1)) > 0
        then Option.bind (proactive_loop X (?R + 96) (?R + 96 - fl_length (ft_free (fst s1)) + 1) s1) (take_free owner ?R)
        else Some (f1, s1)) = Some (f2, s2)" and
    4: "(if f2 = None then evict_loop X owner ?R 0 (if f2 = None then (fst s2, heap_preflight X (snd s2)) else s2)
        else Some (f2, if f2 = None then (fst s2, heap_preflight X (snd s2)) else s2)) = Some (f4, s4)" and
    5: "(if f4 = None then alloc_fresh_frame X lim s4 else Some (f4, s4)) = Some (f5, s5)" and
    6: "(if f5 = None \<and> x_pagefile_is_ready X (snd s5) then evict_loop X owner ?R 0 s5 else Some (f5, s5)) = Some (f6, s6)" and
    7: "(case f6 of None \<Rightarrow> Some (NULL_FRAME, s6)
        | Some f \<Rightarrow> Option.bind (hand_out owner flags f (fst s6)) (\<lambda>(r, ft). Some (r, (ft, snd s6)))) = Some (r, s')"
    unfolding alloc_frame_def Let_def fst_conv by (elim bind_pair_SomeE) blast
  note ob = obtained_stage [where lim = lim and owner = owner and reserve = ?R and u = ?u]
  have o1: "obtained lim owner ?R ?u f1 (fst s1)"
    using take_free_obtained [OF ok order_refl, of owner ?R e] 1 by auto
  have o2: "obtained lim owner ?R ?u f2 (fst s2)"
  proof (rule ob [OF 2 o1])
    assume a: "frame_ok lim (fst s1)" "?u \<le> ft_used (fst s1)"
    assume "Option.bind (proactive_loop X (?R + 96) (?R + 96 - fl_length (ft_free (fst s1)) + 1) s1) (take_free owner ?R) = Some (f2, s2)"
    then obtain ft3 e3 where p: "proactive_loop X (?R + 96) (?R + 96 - fl_length (ft_free (fst s1)) + 1) s1 = Some (ft3, e3)"
      "take_free owner ?R (ft3, e3) = Some (f2, s2)" by (elim bind_SomeE) auto
    with proactive_step [OF env p(1)] a have "frame_ok lim ft3" "?u \<le> ft_used ft3" by (auto simp: table_step_def)
    with take_free_obtained [of lim ft3 ?u owner ?R e3] p(2) show "obtained lim owner ?R ?u f2 (fst s2)" by auto
  qed
  have o4: "obtained lim owner ?R ?u f4 (fst s4)"
    using o2 4 evict_loop_obtained [OF _ env, of owner ?R 0 "(fst s2, heap_preflight X (snd s2))" "(f4, s4)" ?u]
    by (cases f2) (auto simp: obtained_None)
  have o5: "obtained lim owner ?R ?u f5 (fst s5)"
    using o4 5 alloc_fresh_obtained [of lim "fst s4" ?u X "snd s4" f5 "fst s5" "snd s5"]
    by (cases f4) (auto simp: obtained_None)
  have o6: "obtained lim owner ?R ?u f6 (fst s6)"
    by (rule ob [OF 6 o5]) (use evict_loop_obtained [OF _ env, of owner ?R 0 s5 "(f6, s6)" ?u] in auto)
  show ?thesis
    using o6 7 by (intro exI [of _ f6] exI [of _ "fst s6"])
      (auto simp: NULL_FRAME_def split: option.splits elim!: bind_pair_SomeE)
qed

end
