(* ===== verification/Frame_Spec.thy ===== *)
theory Frame_Spec
  imports Frame_Invariant
begin

text \<open>
  What the frame table promises: the properties of its lists, its clock, its allocator and its
  page-out path, stated over the definitions of \<open>Frame_Lists\<close>, \<open>Clock_Ring\<close> and
  \<open>Frame_Table\<close>. A small table with two user frames on the clock and two free frames serves as
  the concrete instance.
\<close>

section \<open>A concrete table\<close>

definition ex_frame :: "frame_ref \<Rightarrow> frame_ref \<Rightarrow> list_id_t \<Rightarrow> frame_owner_t \<Rightarrow> u32 \<Rightarrow> frame_ref \<Rightarrow> frame_ref \<Rightarrow> frame" where
  "ex_frame p n l ow fl cp cn = \<lparr>sos_page = 7, fr_prev = p, fr_next = n, fr_list_id = l, fr_owner = ow,
     fr_flags = fl, pin_count = 0, reserved16 = 0, swap_slot = 0, clock_prev = cp, clock_next = cn\<rparr>"

definition ex_ft :: frame_table where
  "ex_ft = \<lparr>ft_frames = (\<lambda>r.
       if r = 1 then ex_frame 0 2 ALLOCATED_LIST FRAME_OWNER_USER 9 2 2
       else if r = 2 then ex_frame 1 0 ALLOCATED_LIST FRAME_OWNER_USER 5 1 1
       else if r = 3 then ex_frame 0 4 FREE_LIST FRAME_OWNER_KERNEL 0 0 0
       else ex_frame 3 0 FREE_LIST FRAME_OWNER_KERNEL 0 0 0),
     ft_capacity = 64, ft_used = 5, ft_byte_length = 4096,
     ft_free = \<lparr>fl_list_id = FREE_LIST, fl_first = 3, fl_last = 4, fl_length = 2\<rparr>,
     ft_allocated = \<lparr>fl_list_id = ALLOCATED_LIST, fl_first = 1, fl_last = 2, fl_length = 2\<rparr>,
     ft_clock = \<lparr>cl_hand = 1, cl_length = 2\<rparr>, ft_cspace = 0, ft_vspace = 0\<rparr>"

fun ex_L :: "list_ptr \<Rightarrow> frame_ref list" where
  "ex_L Free_p = [3, 4]"
| "ex_L Allocated_p = [1, 2]"

lemma less_5_cases: "0 < r \<Longrightarrow> r < (5 :: nat) \<Longrightarrow> r = 1 \<or> r = 2 \<or> r = 3 \<or> r = 4"
  by auto

lemma ex_ft_lists: "ft_lists ex_ft ex_L"
proof -
  have "flist (ft_frames ex_ft) (get_list l ex_ft) (ex_L l) \<and> fl_list_id (get_list l ex_ft) = lid l \<and>
     set (ex_L l) \<subseteq> {0<..<ft_used ex_ft}" for l
    by (cases l) (simp_all add: flist_def ex_ft_def ex_frame_def)
  moreover have "fr_list_id (ft_frames ex_ft r) = lid l \<longleftrightarrow> r \<in> set (ex_L l)" if "0 < r" "r < 5" for r l
    using less_5_cases [OF that] by (cases l) (auto simp: ex_ft_def ex_frame_def)
  moreover have "fr_list_id (ft_frames ex_ft r) \<noteq> NO_LIST" for r
    by (simp add: ex_ft_def ex_frame_def)
  ultimately show ?thesis by (simp add: ft_lists_def ex_ft_def)
qed

lemma ex_ft_ring: "clock_ring ex_ft [1, 2]"
proof -
  have "clock_prev (ft_frames ex_ft r) = 0 \<and> clock_next (ft_frames ex_ft r) = 0" if "r \<noteq> 1" "r \<noteq> 2" for r
    using that by (simp add: ex_ft_def ex_frame_def)
  then show ?thesis by (simp add: clock_ring_def ring_def ex_ft_def ex_frame_def)
qed

lemma ex_ft_inv: "frame_inv 64 ex_ft ex_L [1, 2] {}"
  using ex_ft_lists ex_ft_ring
  by (auto simp: frame_inv_def limit_ok_def sizeof_frame_t_def ex_ft_def ex_frame_def)

text \<open>
  An environment in which memory and workers always have room. Finalising a page-out frees the
  frame, as the virtual memory module does for a frame that one of its pages holds.
\<close>

definition ex_free :: "frame_ref \<Rightarrow> frame_table \<Rightarrow> frame_table" where
  "ex_free r ft =
     (if 0 < r \<and> r < ft_used ft then (case free_frame r ft of Some ft' \<Rightarrow> ft' | None \<Rightarrow> ft) else ft)"

definition ex_env :: "bool \<Rightarrow> frame_ref sos_env" where
  "ex_env ready = \<lparr>x_ut_alloc_4k_untyped = (\<lambda>e. (Some 1, e)), x_ut_cap = (\<lambda>_ _. 1), x_ut_free = (\<lambda>_ e. e),
     x_cspace_alloc_slot = (\<lambda>_ e. (9, e)), x_cspace_free_slot = (\<lambda>_ _ e. e),
     x_cspace_delete = (\<lambda>_ _ e. (0, e)), x_untyped_retype = (\<lambda>_ _ _ e. (0, e)),
     x_map_frame = (\<lambda>_ _ _ _ e. (0, e)), x_pagefile_is_ready = (\<lambda>_. ready),
     x_pagefile_alloc_slot = (\<lambda>_ e. (6, e)), x_pagefile_free_slot = (\<lambda>_ e. e),
     x_vm_pageout_prepare = (\<lambda>_ _ s. (0, s)),
     x_vm_pageout_finalise = (\<lambda>r _ (ft, e). (0, (ex_free r ft, e))),
     x_vm_pageout_abort = (\<lambda>_ _ s. (0, s)),
     x_pageout_submit = (\<lambda>_ r _. (0, r)), x_pageout_poll_complete = (\<lambda>e. (0, e, 6, e)),
     x_bootstrap_poll_irqs = (\<lambda>s. (True, s)), x_yield = (\<lambda>e. e),
     x_morecore_free_bytes = (\<lambda>_. 0), x_heap_reserve_release = (\<lambda>e. (True, e))\<rparr>"

lemma ex_free_step: "table_step lim ft (ex_free r ft)"
proof (cases "frame_ok lim ft \<and> 0 < r \<and> r < ft_used ft")
  case True
  then obtain L cs where inv: "frame_inv lim ft L cs {}" and r: "0 < r" "r < ft_used ft" by (auto simp: frame_ok_def)
  show ?thesis
    using inv r
  proof (cases rule: frame_inv_cases)
    case 1
    with free_frame_refused [OF inv] r show ?thesis by (simp add: ex_free_def)
  next
    case 2
    with free_frame_inv [OF inv] r show ?thesis by (fastforce simp: ex_free_def table_step_def frame_ok_def)
  qed simp
qed (auto simp: ex_free_def table_step_def)

lemma ex_env_ok: "env_ok lim (ex_env ready)"
  by (simp add: env_ok_def ex_env_def ex_free_step)

section \<open>Allocation\<close>

text \<open>The stages after the first one are skipped when the free list serves the request.\<close>

lemma alloc_frame_fast:
  assumes inv: "frame_inv lim ft L cs {}" and L: "L Free_p = x # ys"
    and may: "owner = FRAME_OWNER_KERNEL \<or> frame_reserve ft \<le> length ys"
  shows "\<exists>ft'. alloc_frame X lim owner flags (ft, e) = Some (x, (ft', e)) \<and>
    frame_inv lim ft' (L(Free_p := ys, Allocated_p := L Allocated_p @ [x])) cs {} \<and>
    fr_owner (ft_frames ft' x) = owner \<and> fr_flags (ft_frames ft' x) = flags \<and>
    sos_page (ft_frames ft' x) = sos_page (ft_frames ft x)"
proof -
  obtain ft1 where ft1: "pop_front Free_p ft = Some (Some x, ft1)" "frame_inv lim ft1 (L(Free_p := ys)) cs {x}"
    "links_only ft ft1"
    using pop_free_inv [OF inv L] by blast
  have "owner = FRAME_OWNER_KERNEL \<or> frame_reserve ft < fl_length (ft_free ft)"
    using may ft_listsD(3) [OF frame_invD(1) [OF inv], of Free_p] L by auto
  then have t: "take_free owner (frame_reserve ft) (ft, e) = Some (Some x, (ft1, e))"
    using ft1(1) by (auto simp: take_free_def)
  obtain ft2 where ft2: "hand_out owner flags x ft1 = Some (x, ft2)"
    "frame_inv lim ft2 (L(Free_p := ys, Allocated_p := L Allocated_p @ [x])) cs {}"
    "fr_owner (ft_frames ft2 x) = owner" "fr_flags (ft_frames ft2 x) = flags"
    "sos_page (ft_frames ft2 x) = sos_page (ft_frames ft1 x)"
    using hand_out_inv [OF ft1(2), of x owner flags] by auto
  then show ?thesis
    using t links_onlyD(4) [OF ft1(3), of x] by (simp add: alloc_frame_def Let_def)
qed

text \<open>C1. An allocation that returns leaves an intact frame table. When it returns a frame, that frame
  is the last one of the allocated list, it is stamped with the requested owner and flags, it is bound to
  no pagefile slot and it is not on the clock; and an allocation that is not for the kernel either got a
  frame that was not in use before, or left at least the reserve on the free list.\<close>

theorem alloc_frame_post:
  assumes "env_ok lim X" "frame_ok lim ft"
    and "alloc_frame X lim owner flags (ft, e) = Some (r, (ft', e'))"
  shows "frame_ok lim ft' \<and>
    (r \<noteq> NULL_FRAME \<longrightarrow>
      (\<exists>L cs. frame_inv lim ft' L cs {} \<and> L Allocated_p \<noteq> [] \<and> last (L Allocated_p) = r \<and> r \<notin> set cs \<and>
        fr_owner (ft_frames ft' r) = owner \<and> fr_flags (ft_frames ft' r) = flags \<and>
        swap_slot (ft_frames ft' r) = 0 \<and>
        (owner \<noteq> FRAME_OWNER_KERNEL \<longrightarrow> ft_used ft \<le> r \<or> frame_reserve ft \<le> length (L Free_p))))"
proof -
  obtain res ft1 where ob: "obtained lim owner (frame_reserve ft) (ft_used ft) res ft1"
    and res: "case res of None \<Rightarrow> r = 0 \<and> ft' = ft1 | Some f \<Rightarrow> hand_out owner flags f ft1 = Some (r, ft')"
    using alloc_frame_obtained [OF assms] unfolding fst_conv by blast
  show ?thesis
  proof (cases res)
    case (Some f)
    then obtain L cs where inv: "frame_inv lim ft1 L cs {f}"
      and res': "owner = FRAME_OWNER_KERNEL \<or> ft_used ft \<le> f \<or> frame_reserve ft \<le> length (L Free_p)"
      using ob by (auto simp: obtained_def)
    let ?L = "L(Allocated_p := L Allocated_p @ [f])"
    have h: "r = f" "frame_inv lim ft' ?L cs {}" "fr_owner (ft_frames ft' f) = owner"
      "fr_flags (ft_frames ft' f) = flags" "swap_slot (ft_frames ft' f) = 0"
      using hand_out_inv [OF inv, of f owner flags] res Some by auto
    moreover have "f \<notin> set cs" using frame_inv_transit(4) [OF inv] by blast
    ultimately show ?thesis using res' by (auto simp: frame_ok_def intro!: exI [of _ ?L] exI [of _ cs])
  qed (use ob res in \<open>auto simp: obtained_None NULL_FRAME_def\<close>)
qed

theorem alloc_frame_post_witness:
  "\<exists>ft' e'. alloc_frame (ex_env True) 64 FRAME_OWNER_KERNEL 3 (ex_ft, 0) = Some (3, (ft', e')) \<and>
    frame_ok 64 ft' \<and> fr_flags (ft_frames ft' 3) = 3"
proof -
  have ok: "frame_ok 64 ex_ft" using ex_ft_inv by (auto simp: frame_ok_def)
  obtain ft' where run: "alloc_frame (ex_env True) 64 FRAME_OWNER_KERNEL 3 (ex_ft, 0) = Some (3, (ft', 0))"
    using alloc_frame_fast [OF ex_ft_inv, of 3 "[4]" FRAME_OWNER_KERNEL "ex_env True" 3 0] by auto
  from alloc_frame_post [OF ex_env_ok ok run] run show ?thesis by (auto simp: NULL_FRAME_def)
qed

text \<open>A request the free list can serve is served from its head: the frame moves to the end of the
  allocated list and keeps its page, the clock and the environment are untouched, and no assertion fails,
  whatever the state of the pagefile.\<close>

theorem alloc_frame_from_free_list:
  assumes "frame_inv lim ft L cs {}" "L Free_p = x # ys"
    and "owner = FRAME_OWNER_KERNEL \<or> frame_reserve ft \<le> length ys"
  shows "\<exists>ft'. alloc_frame X lim owner flags (ft, e) = Some (x, (ft', e)) \<and>
    frame_inv lim ft' (L(Free_p := ys, Allocated_p := L Allocated_p @ [x])) cs {} \<and>
    sos_page (ft_frames ft' x) = sos_page (ft_frames ft x)"
  using alloc_frame_fast [OF assms, of X flags e] by blast

theorem alloc_frame_from_free_list_witness:
  "\<exists>ft'. alloc_frame (ex_env False) 64 FRAME_OWNER_KERNEL 0 (ex_ft, 5) = Some (3, (ft', 5)) \<and>
    frame_ok 64 ft'"
  using alloc_frame_from_free_list [OF ex_ft_inv, of 3 "[4]" FRAME_OWNER_KERNEL "ex_env False" 0 5]
  by (auto simp: frame_ok_def)

text \<open>C3. Freeing an allocated frame takes it off the allocated list and off the clock, clears its flags
  and its pagefile slot, and puts it at the head of the free list; freeing it once more changes
  nothing.\<close>

theorem free_frame_once:
  assumes "frame_inv lim ft L cs {}" "r \<in> set (L Allocated_p)"
  shows "\<exists>ft'. free_frame r ft = Some ft' \<and>
    frame_inv lim ft' (L(Allocated_p := remove1 r (L Allocated_p), Free_p := r # L Free_p)) (remove1 r cs) {} \<and>
    fr_flags (ft_frames ft' r) = 0 \<and> swap_slot (ft_frames ft' r) = 0 \<and> free_frame r ft' = Some ft'"
proof -
  obtain ft' where ft': "free_frame r ft = Some ft'"
    "frame_inv lim ft' (L(Allocated_p := remove1 r (L Allocated_p), Free_p := r # L Free_p)) (remove1 r cs) {}"
    "fr_flags (ft_frames ft' r) = 0" "swap_slot (ft_frames ft' r) = 0"
    using free_frame_inv [OF assms] by blast
  moreover have "free_frame r ft' = Some ft'" by (rule free_frame_refused [OF ft'(2)]) simp
  ultimately show ?thesis by blast
qed

theorem free_frame_once_witness:
  "\<exists>ft'. free_frame 2 ex_ft = Some ft' \<and> free_frame 2 ft' = Some ft' \<and> clock_ring ft' [1]"
  using free_frame_once [OF ex_ft_inv, of 2] by (auto dest: frame_invD(2))

text \<open>A freed frame is the next one the kernel gets: allocating after freeing returns the same
  reference with the same page.\<close>

theorem free_then_alloc:
  assumes "frame_inv lim ft L cs {}" "r \<in> set (L Allocated_p)"
  shows "\<exists>ft1 ft2. free_frame r ft = Some ft1 \<and>
    alloc_frame X lim FRAME_OWNER_KERNEL flags (ft1, e) = Some (r, (ft2, e)) \<and>
    sos_page (ft_frames ft2 r) = sos_page (ft_frames ft r) \<and> frame_ok lim ft2"
proof -
  let ?L = "L(Allocated_p := remove1 r (L Allocated_p), Free_p := r # L Free_p)"
  obtain ft1 where ft1: "free_frame r ft = Some ft1" "frame_inv lim ft1 ?L (remove1 r cs) {}"
    "sos_page (ft_frames ft1 r) = sos_page (ft_frames ft r)"
    using free_frame_inv [OF assms] by blast
  have "?L Free_p = r # L Free_p" by simp
  from alloc_frame_fast [OF ft1(2) this, of FRAME_OWNER_KERNEL X flags e] ft1 show ?thesis
    unfolding frame_ok_def by auto
qed

theorem free_then_alloc_witness:
  "\<exists>ft1 ft2. free_frame 2 ex_ft = Some ft1 \<and>
    alloc_frame (ex_env False) 64 FRAME_OWNER_KERNEL 1 (ft1, 0) = Some (2, (ft2, 0)) \<and> frame_ok 64 ft2"
  using free_then_alloc [OF ex_ft_inv, of 2 "ex_env False" 1 0] by auto

section \<open>Growing and initialisation\<close>

text \<open>Getting a new frame never fails an assertion: the table keeps its invariant, in particular its
  capacity stays within the configured limit, and the frame it returns was not in use before.\<close>

theorem alloc_fresh_frame_bounded:
  assumes "frame_inv lim ft L cs U"
  shows "\<exists>res ft' e'. alloc_fresh_frame X lim (ft, e) = Some (res, (ft', e')) \<and>
    ft_capacity ft' \<le> lim \<and> ft_used ft' \<le> ft_capacity ft' \<and>
    (case res of None \<Rightarrow> frame_inv lim ft' L cs U
     | Some f \<Rightarrow> ft_used ft \<le> f \<and> frame_inv lim ft' L cs (insert f U))"
proof -
  obtain res ft' e' where "alloc_fresh_frame X lim (ft, e) = Some (res, (ft', e'))"
    "case res of None \<Rightarrow> frame_inv lim ft' L cs U
     | Some f \<Rightarrow> ft_used ft \<le> f \<and> f < ft_used ft' \<and> frame_inv lim ft' L cs (insert f U) \<and>
         fr_owner (ft_frames ft' f) = FRAME_OWNER_KERNEL"
    using alloc_fresh_frame_inv [OF assms, of X e] by blast
  then show ?thesis by (cases res) (auto dest: frame_invD(9,10))
qed

theorem alloc_fresh_frame_bounded_witness:
  "\<exists>res ft' e'. alloc_fresh_frame (ex_env False) 64 (ex_ft, 0) = Some (res, (ft', e')) \<and> ft_capacity ft' \<le> 64"
  using alloc_fresh_frame_bounded [OF ex_ft_inv, of "ex_env False" 0] by blast

lemma seed_loop_inv:
  assumes "frame_inv lim ft L cs {}"
  shows "\<exists>ft' e' zs L'. seed_loop X lim n (ft, e) = Some (ft', e') \<and> length zs \<le> n \<and>
    L' = L(Free_p := zs @ L Free_p) \<and> frame_inv lim ft' L' cs {} \<and>
    ((\<forall>v s. fst (alloc_frame_at X v s) \<noteq> seL4_CapNull) \<longrightarrow> max 1 (ft_used ft) + n \<le> lim \<longrightarrow> length zs = n)"
  using assms
proof (induction n arbitrary: ft e L)
  case 0
  then show ?case by (intro exI [of _ ft] exI [of _ e] exI [of _ "[]"]) simp
next
  case (Suc n)
  obtain res ft1 e1 where a: "alloc_fresh_frame X lim (ft, e) = Some (res, (ft1, e1))"
    "case res of None \<Rightarrow> frame_inv lim ft1 L cs {} | Some f \<Rightarrow> frame_inv lim ft1 L cs {f} \<and>
      fr_owner (ft_frames ft1 f) = FRAME_OWNER_KERNEL"
    using alloc_fresh_frame_inv [OF Suc.prems, of X e] by (auto split: option.splits)
  have ok: "res \<noteq> None \<and> ft_used ft1 = max 1 (ft_used ft) + 1"
    if "\<forall>v s. fst (alloc_frame_at X v s) \<noteq> seL4_CapNull" "max 1 (ft_used ft) + Suc n \<le> lim"
    using alloc_fresh_frame_succeeds [OF Suc.prems, of X e] that a(1) by auto
  show ?case
  proof (cases res)
    case None
    with a ok show ?thesis by (intro exI [of _ ft1] exI [of _ e1] exI [of _ "[]"] exI [of _ L]) auto
  next
    case (Some f)
    then obtain ft2 where ft2: "push_front Free_p f ft1 = Some ft2"
      "frame_inv lim ft2 (L(Free_p := f # L Free_p)) cs {}" "links_only ft1 ft2"
      using push_front_free_inv [of lim ft1 L cs "{f}" f] a(2) by auto
    from Suc.IH [OF ft2(2), of e1] obtain ft3 e3 zs where 3: "seed_loop X lim n (ft2, e1) = Some (ft3, e3)"
      "length zs \<le> n" "frame_inv lim ft3 (L(Free_p := zs @ f # L Free_p)) cs {}"
      "(\<forall>v s. fst (alloc_frame_at X v s) \<noteq> seL4_CapNull) \<longrightarrow> max 1 (ft_used ft2) + n \<le> lim \<longrightarrow> length zs = n"
      unfolding fun_upd_upd fun_upd_same by blast
    have len: "length (zs @ [f]) = Suc n" if "\<forall>v s. fst (alloc_frame_at X v s) \<noteq> seL4_CapNull" "max 1 (ft_used ft) + Suc n \<le> lim"
      using ok [OF that] that 3(4) links_onlyD(6) [OF ft2(3)] by auto
    have run: "seed_loop X lim (Suc n) (ft, e) = Some (ft3, e3)" using 3(1) a(1) ft2(1) Some by simp
    have eq: "L(Free_p := zs @ f # L Free_p) = L(Free_p := (zs @ [f]) @ L Free_p)" by simp
    have "length (zs @ [f]) \<le> Suc n" using 3(2) by simp
    with run eq 3(3) len show ?thesis by blast
  qed
qed

lemma static_inv:
  assumes "limit_ok lim"
  shows "frame_inv lim ((frame_table_static mem)\<lparr>ft_cspace := c, ft_vspace := v, ft_clock := \<lparr>cl_hand = NULL_FRAME, cl_length = 0\<rparr>\<rparr>) (\<lambda>_. []) [] {}"
    (is "frame_inv lim ?ft _ _ _")
proof -
  have "get_list l ?ft = get_list l (frame_table_static mem)" for l by (cases l) simp_all
  moreover have "flist h (get_list l (frame_table_static mem)) []" "fl_list_id (get_list l (frame_table_static mem)) = lid l" for h l
    by (cases l; simp add: flist_def frame_table_static_def)+
  ultimately have "ft_lists ?ft (\<lambda>_. [])" by (simp add: ft_lists_def frame_table_static_def)
  then show ?thesis
    using assms by (simp add: frame_inv_def clock_ring_def frame_table_static_def NULL_FRAME_def)
qed

text \<open>C6. Initialising the statically initialised table, whatever the memory of its array holds,
  establishes the invariant: nothing is allocated, the clock is empty, and at most the seed limit of frames
  (half the frame limit, at most 4096) is on the free list; with memory available it is exactly that many.\<close>

theorem frame_table_init_seeds:
  assumes "limit_ok lim"
  shows "\<exists>ft e' zs L. frame_table_init X lim cspace vspace (frame_table_static mem, e) = Some (ft, e') \<and>
    L Allocated_p = [] \<and> L Free_p = zs \<and> frame_inv lim ft L [] {} \<and> length zs \<le> seed_limit lim \<and>
    ((\<forall>v s. fst (alloc_frame_at X v s) \<noteq> seL4_CapNull) \<longrightarrow> length zs = seed_limit lim)"
proof -
  have room: "max 1 0 + seed_limit lim \<le> lim" using assms by (auto simp: limit_ok_def seed_limit_def)
  let ?ft = "(frame_table_static mem)\<lparr>ft_cspace := cspace, ft_vspace := vspace,
    ft_clock := \<lparr>cl_hand = NULL_FRAME, cl_length = 0\<rparr>\<rparr>"
  have "ft_used ?ft = 0" by (simp add: frame_table_static_def)
  with seed_loop_inv [OF static_inv [OF assms], of X "seed_limit lim" vspace cspace mem e] room
  obtain ft' e' zs where s: "seed_loop X lim (seed_limit lim) (?ft, e) = Some (ft', e')" "length zs \<le> seed_limit lim"
    "frame_inv lim ft' ((\<lambda>_. [])(Free_p := zs @ [])) [] {}"
    "(\<forall>v s. fst (alloc_frame_at X v s) \<noteq> seL4_CapNull) \<longrightarrow> length zs = seed_limit lim"
    by metis
  show ?thesis
    by (rule exI [of _ ft'], rule exI [of _ e'], rule exI [of _ zs], rule exI [of _ "(\<lambda>_. [])(Free_p := zs @ [])"])
      (use s in \<open>simp add: frame_table_init_def\<close>)
qed

theorem frame_table_init_seeds_witness:
  "\<exists>ft e' L. frame_table_init (ex_env False) 4 1 2 (frame_table_static (ft_frames ex_ft), 0) = Some (ft, e') \<and>
    frame_inv 4 ft L [] {} \<and> length (L Free_p) = 2"
proof -
  have l: "limit_ok 4" and s: "seed_limit 4 = 2" by (simp_all add: limit_ok_def seed_limit_def)
  have "fst (alloc_frame_at (ex_env False) v st) \<noteq> seL4_CapNull" for v st
    by (cases st) (simp add: alloc_frame_at_def ex_env_def seL4_CapNull_def)
  with frame_table_init_seeds [OF l, of "ex_env False" 1 2 "ft_frames ex_ft" 0] show ?thesis
    unfolding s by blast
qed

section \<open>The clock\<close>

text \<open>C2. The victim search returns exactly the frame the second-chance policy names: from the hand on, the
  first eligible frame that is neither referenced nor dirty, else the first clean one, else the first
  unreferenced one, else the first eligible one. The ring it leaves holds every eligible member, ends in the
  victim (the hand is behind it), and nothing but ring links and reference bits changes.\<close>

theorem clock_select_victim_policy:
  assumes "clock_ring ft cs"
  shows "\<exists>ft' cs'. clock_select_victim ft = Some (victim_spec ft cs, ft') \<and> clock_ring ft' cs' \<and>
    scan_only ft ft' \<and> set cs' \<subseteq> set cs \<and>
    (\<forall>r \<in> set cs. clock_is_eligible (ft_frames ft r) \<longrightarrow> r \<in> set cs') \<and> last_or 0 cs' = victim_spec ft cs"
  using clock_select_victim_post [OF assms] unfolding select_post_def by blast

theorem clock_select_victim_policy_witness:
  "\<exists>ft' cs'. clock_select_victim ex_ft = Some (1, ft') \<and> clock_ring ft' cs' \<and> last_or 0 cs' = 1"
proof -
  have "victim_spec ex_ft [1, 2] = 1"
    by (simp add: victim_spec_def clock_is_eligible_def referenced_def dirty_def and_flag_iff ex_ft_def ex_frame_def)
  with clock_select_victim_policy [OF ex_ft_ring] show ?thesis by auto
qed

lemma find_in: "List.find P xs = Some v \<Longrightarrow> v \<in> set xs \<and> P v"
  by (auto simp: find_Some_iff)

lemma victim_spec_quality:
  assumes "0 \<notin> set cs"
  shows "victim_spec ft cs = 0 \<longleftrightarrow> (\<forall>r \<in> set cs. \<not> elig ft r)"
    and "victim_spec ft cs \<noteq> 0 \<Longrightarrow> victim_spec ft cs \<in> set cs \<and> elig ft (victim_spec ft cs) \<and>
      (drty ft (victim_spec ft cs) \<longrightarrow> (\<forall>r \<in> set cs. elig ft r \<longrightarrow> drty ft r))"
proof -
  let ?v = "victim_spec ft cs"
  consider (clean) "?v \<in> set cs" "elig ft ?v" "\<not> drty ft ?v"
    | (dirty) "?v \<in> set cs" "elig ft ?v" "\<forall>r \<in> set cs. elig ft r \<longrightarrow> drty ft r"
    | (none) "?v = 0" "\<forall>r \<in> set cs. \<not> elig ft r"
  proof (cases "List.find (\<lambda>r. elig ft r \<and> \<not> drty ft r) cs")
    case (Some w)
    have "?v \<in> set cs \<and> elig ft ?v \<and> \<not> drty ft ?v"
    proof (cases "List.find (\<lambda>r. elig ft r \<and> \<not> refd ft r \<and> \<not> drty ft r) cs")
      case None
      with Some have "?v = w" by (simp add: victim_spec_def)
      with find_in [OF Some] show ?thesis by simp
    next
      case (Some u)
      then have "?v = u" by (simp add: victim_spec_def)
      with find_in [OF Some] show ?thesis by simp
    qed
    with clean show ?thesis by blast
  next
    case None
    then have d: "\<forall>r \<in> set cs. elig ft r \<longrightarrow> drty ft r" by (auto simp: find_None_iff)
    then have n: "List.find (\<lambda>r. elig ft r \<and> \<not> refd ft r \<and> \<not> drty ft r) cs = None" by (auto simp: find_None_iff)
    show ?thesis
    proof (cases "List.find (\<lambda>r. elig ft r \<and> \<not> refd ft r) cs")
      case (Some w)
      with find_in [OF Some] None n d dirty show ?thesis by (simp add: victim_spec_def)
    next
      case n2: None
      then have v: "?v = hd_or (filter (elig ft) cs) 0" using None n by (simp add: victim_spec_def)
      show ?thesis
      proof (cases "filter (elig ft) cs = []")
        case True
        with v none show ?thesis by (simp add: filter_empty_conv)
      next
        case False
        from hd_or_in [OF False, of 0] v dirty d show ?thesis by auto
      qed
    qed
  qed
  then show "?v = 0 \<longleftrightarrow> (\<forall>r \<in> set cs. \<not> elig ft r)"
    and "?v \<noteq> 0 \<Longrightarrow> ?v \<in> set cs \<and> elig ft ?v \<and> (drty ft ?v \<longrightarrow> (\<forall>r \<in> set cs. elig ft r \<longrightarrow> drty ft r))"
    using assms by (cases; metis)+
qed

text \<open>C4. The search gives up only when no member of the clock is eligible. A victim is an eligible member
  whose reference bit is clear afterwards, and it is dirty only if every eligible member is dirty.\<close>

theorem clock_select_victim_quality:
  assumes "clock_ring ft cs" "clock_select_victim ft = Some (v, ft')"
  shows "(v = NULL_FRAME \<longleftrightarrow> (\<forall>r \<in> set cs. \<not> clock_is_eligible (ft_frames ft r))) \<and>
    (v \<noteq> NULL_FRAME \<longrightarrow> v \<in> set cs \<and> clock_is_eligible (ft_frames ft v) \<and>
      fr_flags (ft_frames ft' v) AND FRAME_FLAG_REFERENCED = 0 \<and>
      (fr_flags (ft_frames ft v) AND FRAME_FLAG_DIRTY \<noteq> 0 \<longrightarrow>
        (\<forall>r \<in> set cs. clock_is_eligible (ft_frames ft r) \<longrightarrow> fr_flags (ft_frames ft r) AND FRAME_FLAG_DIRTY \<noteq> 0)))"
proof -
  have "v = victim_spec ft cs" "v \<noteq> 0 \<Longrightarrow> \<not> refd ft' v"
    using clock_select_victim_post [OF assms(1)] assms(2) by (auto simp: select_post_def)
  with victim_spec_quality [OF clock_ringD(5) [OF assms(1)], of ft] show ?thesis
    unfolding NULL_FRAME_def by (auto simp: referenced_def dirty_def)
qed

theorem clock_select_victim_quality_witness:
  "\<exists>v ft'. clock_select_victim ex_ft = Some (v, ft') \<and> v \<noteq> NULL_FRAME \<and>
    fr_flags (ft_frames ft' v) AND FRAME_FLAG_REFERENCED = 0"
proof -
  obtain v ft' where v: "clock_select_victim ex_ft = Some (v, ft')"
    using clock_select_victim_post [OF ex_ft_ring] by (auto simp: select_post_def)
  have "clock_is_eligible (ft_frames ex_ft 1)"
    by (simp add: clock_is_eligible_def and_flag_iff ex_ft_def ex_frame_def)
  with clock_select_victim_quality [OF ex_ft_ring v] v show ?thesis by auto
qed

section \<open>Eviction\<close>

lemma pageout_frame_returns:
  assumes env: "env_ok lim X" and ok: "frame_ok lim ft" and v: "0 < v" "v < ft_used ft"
    and sub: "\<And>slot r e. fst (x_pageout_submit X slot r e) \<noteq> - SOS_EAGAIN"
  shows "\<exists>rc s'. pageout_frame X v (ft, e) = Some (rc, s')"
proof -
  have "v < ft_capacity ft" using ok v by (auto simp: frame_ok_def dest!: frame_invD(9))
  then have fr: "frame_from_ref ft v = Some v" using v by (simp add: frame_ref_defs)
  obtain ft1 where ft1: "clock_remove v ft = Some ft1" "table_step lim ft ft1"
    using clock_remove_step [OF v ok] by blast
  have ok1: "frame_ok lim ft1" "v < ft_used ft1" using ft1(2) ok v by (auto simp: table_step_def)
  obtain slot e1 where p: "x_pagefile_alloc_slot X v e = (slot, e1)" by fastforce
  obtain prc ft2 e2 where q: "x_vm_pageout_prepare X v slot (ft1, e1) = (prc, (ft2, e2))" by (metis prod_cases3)
  have ok2: "frame_ok lim ft2" "v < ft_used ft2" using env_okD(1) [OF env q] ok1 by (auto simp: table_step_def)
  let ?ft3 = "upd_frame v (\<lambda>fr. fr\<lparr>swap_slot := slot\<rparr>) ft2"
  let ?ft4 = "upd_frame v (\<lambda>fr. fr\<lparr>swap_slot := 0\<rparr>) ?ft3"
  have ok4: "frame_ok lim ?ft4" "v < ft_used ?ft4"
    using table_step_trans [OF swap_slot_step [of lim ft2 v slot] swap_slot_step [of lim ?ft3 v 0]] ok2
    by (auto simp: table_step_def)
  obtain src e3 where r: "x_pageout_submit X slot v e2 = (src, e3)" by fastforce
  have src: "src \<noteq> - SOS_EAGAIN" using sub [of slot v e2] r by simp
  show ?thesis
    using clock_reconsider_step [OF v(1) ok1(2,1)] clock_reconsider_step [OF v(1) ok2(2,1)]
      clock_reconsider_step [OF v(1) ok4(2,1)] v(1) src
    by (auto simp: pageout_frame_def fr ft1(1) p q NULL_FRAME_def submit_loop.simps [of X slot v v] r Let_def)
qed

text \<open>C5. Evicting a frame keeps the invariant of the table; and where the page-out worker accepts or
  refuses a request outright, an eviction returns: no assertion of the frame table fails on the way, for
  every answer of the pagefile, the virtual memory module and the worker.\<close>

theorem evict_one_frame_returns:
  assumes "env_ok lim X" "frame_ok lim ft"
    and "\<And>slot r e. fst (x_pageout_submit X slot r e) \<noteq> - SOS_EAGAIN"
  shows "\<exists>rc ft' e'. evict_one_frame X (ft, e) = Some (rc, (ft', e')) \<and> frame_ok lim ft'"
proof -
  obtain L cs where inv: "frame_inv lim ft L cs {}" using assms(2) by (auto simp: frame_ok_def)
  obtain ft1 cs1 where v: "clock_select_victim ft = Some (victim_spec ft cs, ft1)" "frame_inv lim ft1 L cs1 {}"
    "victim_spec ft cs \<noteq> 0 \<longrightarrow> victim_spec ft cs \<in> set cs1"
    using clock_select_victim_inv [OF inv] by blast
  have "\<exists>rc s'. evict_one_frame X (ft, e) = Some (rc, s')"
  proof (cases "victim_spec ft cs = 0")
    case False
    then have "0 < victim_spec ft cs" "victim_spec ft cs < ft_used ft1"
      using v(3) clock_ringD(8) [OF frame_invD(2) [OF v(2)]] by auto
    moreover have "frame_ok lim ft1" using v(2) by (auto simp: frame_ok_def)
    ultimately show ?thesis
      using pageout_frame_returns [OF assms(1) _ _ _ assms(3), of ft1 "victim_spec ft cs" e] v(1) False
      by (simp add: evict_one_frame_def NULL_FRAME_def)
  qed (use v(1) in \<open>simp add: evict_one_frame_def NULL_FRAME_def\<close>)
  then obtain rc ft' e' where run: "evict_one_frame X (ft, e) = Some (rc, (ft', e'))" by auto
  with evict_one_frame_step [OF assms(1) run] assms(2) show ?thesis by (auto simp: table_step_def)
qed

theorem evict_one_frame_returns_witness:
  "\<exists>rc ft' e'. evict_one_frame (ex_env True) (ex_ft, 0) = Some (rc, (ft', e')) \<and> frame_ok 64 ft'"
proof -
  have "frame_ok 64 ex_ft" using ex_ft_inv by (auto simp: frame_ok_def)
  moreover have "fst (x_pageout_submit (ex_env True) slot r e) \<noteq> - SOS_EAGAIN" for slot r e
    by (simp add: ex_env_def SOS_EAGAIN_def)
  ultimately show ?thesis using evict_one_frame_returns [OF ex_env_ok, of 64 ex_ft True 0] by blast
qed

lemma wait_blocking_enomem:
  assumes "\<And>e. fst (x_pageout_poll_complete X e) = - ENOMEM" "n + k = max_enomem_retries" "0 < k"
  shows "\<exists>s'. wait_blocking_loop X n s = Some (- ENOMEM, s')"
  using assms(2,3)
proof (induction k arbitrary: n s)
  case (Suc k)
  obtain r slot e1 where "x_pageout_poll_complete X (snd s) = (- ENOMEM, r, slot, e1)"
    using assms(1) [of "snd s"] by (cases "x_pageout_poll_complete X (snd s)") auto
  then obtain s1 where p: "pageout_process_one_completion X s = (- ENOMEM, s1)"
    by (cases s) (simp add: pageout_process_one_completion_def Let_def ENOMEM_def SOS_EAGAIN_def)
  obtain b ft e where q: "x_bootstrap_poll_irqs X s1 = (b, (ft, e))" by (metis prod_cases3)
  show ?case
    using Suc p q by (subst wait_blocking_loop.simps, cases "k = 0"; cases b)
      (auto simp: ENOMEM_def SOS_EAGAIN_def max_enomem_retries_def Let_def)
qed simp

text \<open>Waiting for a page-out gives up: when every poll reports that memory has run out, the wait
  returns that error after 128 polls instead of spinning.\<close>

theorem pageout_wait_blocking_gives_up:
  assumes "\<And>e. fst (x_pageout_poll_complete X e) = - ENOMEM"
  shows "\<exists>s'. pageout_wait_blocking X s = Some (- ENOMEM, s')"
  using wait_blocking_enomem [OF assms, of 0 128 s] by (simp add: pageout_wait_blocking_def max_enomem_retries_def)

theorem pageout_wait_blocking_gives_up_witness:
  "\<exists>s'. pageout_wait_blocking ((ex_env True)\<lparr>x_pageout_poll_complete := (\<lambda>e. (- ENOMEM, 0, 0, e))\<rparr>) (ex_ft, 0) =
    Some (- ENOMEM, s')"
  by (rule pageout_wait_blocking_gives_up) simp

section \<open>Slots and addresses\<close>

text \<open>A frame is bound to at most one pagefile slot: binding succeeds exactly when the frame is unbound or
  bound to that slot, a second binding to another slot is refused and changes nothing, and after
  unbinding the frame can be bound again.\<close>

theorem frame_bind_slot_exclusive:
  assumes "r \<noteq> NULL_FRAME" "r < ft_capacity ft" "slot \<noteq> PAGEFILE_INVALID_SLOT"
    "slot' \<noteq> PAGEFILE_INVALID_SLOT" "slot' \<noteq> slot" "swap_slot (ft_frames ft r) = 0"
  shows "\<exists>ft1 ft2. frame_bind_slot r slot ft = Some (True, ft1) \<and> swap_slot (ft_frames ft1 r) = slot \<and>
    frame_bind_slot r slot ft1 = Some (True, ft1) \<and> frame_bind_slot r slot' ft1 = Some (False, ft1) \<and>
    frame_unbind_slot r ft1 = Some ft2 \<and> (\<exists>ft3. frame_bind_slot r slot' ft2 = Some (True, ft3))"
proof -
  have slot: "slot \<noteq> 0" using assms(3) by (simp add: PAGEFILE_INVALID_SLOT_def)
  show ?thesis
    using assms slot by (simp add: frame_bind_slot_def frame_unbind_slot_def frame_from_ref_def upd_frame_def)
qed

theorem frame_bind_slot_exclusive_witness:
  "\<exists>ft1. frame_bind_slot 1 6 ex_ft = Some (True, ft1) \<and> frame_bind_slot 1 7 ft1 = Some (False, ft1)"
  using frame_bind_slot_exclusive [of 1 ex_ft 6 7]
  by (auto simp: ex_ft_def ex_frame_def NULL_FRAME_def PAGEFILE_INVALID_SLOT_def)

text \<open>The data pages of different frames do not overlap, and for every frame limit the data region can hold
  they lie between the start of the region and the start of the metadata region behind it.\<close>

theorem frame_data_regions:
  assumes "limit_ok lim" "ft_capacity ft \<le> lim" "frame_data r ft = Some a" "frame_data q ft = Some b"
  shows "unat SOS_FRAME_DATA + unat (2 ^ seL4_PageBits :: u64) \<le> unat a \<and>
    unat a + unat (2 ^ seL4_PageBits :: u64) \<le> 0x8300000000 \<and>
    (r \<noteq> q \<longrightarrow> unat a + unat (2 ^ seL4_PageBits :: u64) \<le> unat b \<or> unat b + unat (2 ^ seL4_PageBits :: u64) \<le> unat a)"
proof -
  have pg: "(2 ^ seL4_PageBits :: u64) = 4096" by (simp add: seL4_PageBits_def)
  have addr: "unat c = 0x8200000000 + x * 4096 \<and> 0 < x \<and> x < 2 ^ 20" if "frame_data x ft = Some c" for x c
  proof -
    have x: "0 < x" "x < 2 ^ 20" and c: "c = SOS_FRAME_DATA + of_nat x * 4096"
      using that assms(1,2) by (auto simp: frame_data_def limit_ok_def NULL_FRAME_def pg split: if_splits)
    have "c = of_nat (0x8200000000 + x * 4096)" unfolding c by (simp add: SOS_FRAME_DATA_def)
    then have "unat c = (0x8200000000 + x * 4096) mod 2 ^ LENGTH(64)" by (simp only: unat_of_nat)
    with x show ?thesis by simp
  qed
  from addr [OF assms(3)] addr [OF assms(4)] show ?thesis
    by (auto simp: pg SOS_FRAME_DATA_def)
qed

theorem frame_data_regions_witness:
  "\<exists>a b. frame_data 1 ex_ft = Some a \<and> frame_data 2 ex_ft = Some b \<and>
    (unat a + unat (2 ^ seL4_PageBits :: u64) \<le> unat b \<or> unat b + unat (2 ^ seL4_PageBits :: u64) \<le> unat a)"
proof -
  have l: "limit_ok 64" "ft_capacity ex_ft \<le> 64" by (simp_all add: limit_ok_def ex_ft_def)
  obtain a b where ab: "frame_data 1 ex_ft = Some a" "frame_data 2 ex_ft = Some b"
    by (simp add: frame_data_def ex_ft_def NULL_FRAME_def)
  with frame_data_regions [OF l ab] show ?thesis by simp
qed

end
