(* ===== verification/Frame_Deque.thy ===== *)
theory Frame_Deque
  imports Frame_Spec
begin

text \<open>
  The contract of the two frame lists as an interface: a sequence with pushes at both ends and a pop at
  the front, over elements that are on no list. Clients of the interface get the order in which
  elements leave; both lists of the frame table provide it.
\<close>

section \<open>The interface\<close>

fun push_all :: "('a \<Rightarrow> 's \<Rightarrow> 's option) \<Rightarrow> 'a list \<Rightarrow> 's \<Rightarrow> 's option" where
  "push_all push [] s = Some s"
| "push_all push (x # xs) s = do { s \<leftarrow> push x s; push_all push xs s }"

fun drain :: "('s \<Rightarrow> ('a option \<times> 's) option) \<Rightarrow> nat \<Rightarrow> 's \<Rightarrow> ('a option list \<times> 's) option" where
  "drain pop 0 s = Some ([], s)"
| "drain pop (Suc n) s = do { (x, s) \<leftarrow> pop s; (xs, s) \<leftarrow> drain pop n s; Some (x # xs, s) }"

locale deque =
  fixes rel :: "'s \<Rightarrow> 'a list \<Rightarrow> bool" and free :: "'s \<Rightarrow> 'a \<Rightarrow> bool"
    and pushf :: "'a \<Rightarrow> 's \<Rightarrow> 's option" and pushb :: "'a \<Rightarrow> 's \<Rightarrow> 's option"
    and pop :: "'s \<Rightarrow> ('a option \<times> 's) option"
  assumes pushf: "rel s xs \<Longrightarrow> free s x \<Longrightarrow>
      \<exists>s'. pushf x s = Some s' \<and> rel s' (x # xs) \<and> (\<forall>y. free s' y \<longleftrightarrow> free s y \<and> y \<noteq> x)"
    and pushb: "rel s xs \<Longrightarrow> free s x \<Longrightarrow>
      \<exists>s'. pushb x s = Some s' \<and> rel s' (xs @ [x]) \<and> (\<forall>y. free s' y \<longleftrightarrow> free s y \<and> y \<noteq> x)"
    and pop_Cons: "rel s (x # xs) \<Longrightarrow> \<exists>s'. pop s = Some (Some x, s') \<and> rel s' xs"
    and pop_Nil: "rel s [] \<Longrightarrow> pop s = Some (None, s)"
begin

lemma push_all_back:
  "rel s xs \<Longrightarrow> distinct ys \<Longrightarrow> \<forall>y \<in> set ys. free s y \<Longrightarrow> \<exists>s'. push_all pushb ys s = Some s' \<and> rel s' (xs @ ys)"
proof (induction ys arbitrary: s xs)
  case (Cons y ys)
  obtain s1 where s1: "pushb y s = Some s1" "rel s1 (xs @ [y])" "\<forall>z. free s1 z \<longleftrightarrow> free s z \<and> z \<noteq> y"
    using pushb [OF Cons.prems(1)] Cons.prems(3) by fastforce
  have "\<forall>z \<in> set ys. free s1 z" using s1(3) Cons.prems(2,3) by auto
  from Cons.IH [OF s1(2) _ this] Cons.prems(2) s1(1) show ?case by auto
qed auto

lemma push_all_front:
  "rel s xs \<Longrightarrow> distinct ys \<Longrightarrow> \<forall>y \<in> set ys. free s y \<Longrightarrow> \<exists>s'. push_all pushf ys s = Some s' \<and> rel s' (rev ys @ xs)"
proof (induction ys arbitrary: s xs)
  case (Cons y ys)
  obtain s1 where s1: "pushf y s = Some s1" "rel s1 (y # xs)" "\<forall>z. free s1 z \<longleftrightarrow> free s z \<and> z \<noteq> y"
    using pushf [OF Cons.prems(1)] Cons.prems(3) by fastforce
  have "\<forall>z \<in> set ys. free s1 z" using s1(3) Cons.prems(2,3) by auto
  from Cons.IH [OF s1(2) _ this] Cons.prems(2) s1(1) show ?case by auto
qed auto

lemma drain_all:
  "rel s xs \<Longrightarrow> \<exists>s'. drain pop (length xs + n) s = Some (map Some xs @ replicate n None, s') \<and> rel s' []"
proof (induction xs arbitrary: s)
  case Nil
  then show ?case by (induction n) (auto simp: pop_Nil)
next
  case (Cons x xs)
  obtain s1 where "pop s = Some (Some x, s1)" "rel s1 xs" using pop_Cons [OF Cons.prems] by blast
  with Cons.IH show ?case by fastforce
qed

lemma first_in_first_out:
  assumes "rel s xs" "distinct ys" "\<forall>y \<in> set ys. free s y"
  shows "\<exists>s1 s2. push_all pushb ys s = Some s1 \<and>
    drain pop (length xs + length ys) s1 = Some (map Some (xs @ ys), s2) \<and> rel s2 []"
proof -
  obtain s1 where s1: "push_all pushb ys s = Some s1" "rel s1 (xs @ ys)" using push_all_back [OF assms] by blast
  with drain_all [OF s1(2), of 0] show ?thesis by auto
qed

lemma last_in_first_out:
  assumes "rel s xs" "distinct ys" "\<forall>y \<in> set ys. free s y"
  shows "\<exists>s1 s2. push_all pushf ys s = Some s1 \<and>
    drain pop (length ys + length xs) s1 = Some (map Some (rev ys @ xs), s2) \<and> rel s2 []"
proof -
  obtain s1 where s1: "push_all pushf ys s = Some s1" "rel s1 (rev ys @ xs)" using push_all_front [OF assms] by blast
  with drain_all [OF s1(2), of 0] show ?thesis by auto
qed

end

section \<open>The lists of the frame table\<close>

definition on_list :: "list_ptr \<Rightarrow> frame_table \<Rightarrow> frame_ref list \<Rightarrow> bool" where
  "on_list l ft xs \<longleftrightarrow> (\<exists>L. ft_lists ft L \<and> L l = xs)"

definition unlisted :: "frame_table \<Rightarrow> frame_ref \<Rightarrow> bool" where
  "unlisted ft f \<longleftrightarrow> 0 < f \<and> f < ft_used ft \<and> fr_list_id (ft_frames ft f) = NO_LIST"

lemma unlisted_iff:
  assumes "ft_lists ft L"
  shows "unlisted ft f \<longleftrightarrow> 0 < f \<and> f < ft_used ft \<and> (\<forall>l. f \<notin> set (L l))"
  using ft_lists_NO_LIST(1) [OF assms] ft_lists_unlisted(1) [OF assms] by (auto simp: unlisted_def)

lemma unlisted_push:
  assumes "ft_lists ft L" "ft_lists ft' (L(l := xs))" "links_only ft ft'" "set xs = insert f (set (L l))"
  shows "unlisted ft' y \<longleftrightarrow> unlisted ft y \<and> y \<noteq> f"
  using unlisted_iff [OF assms(1)] unlisted_iff [OF assms(2)] links_onlyD(6) [OF assms(3)] assms(4) by auto

lemma frame_list_deque:
  "deque (on_list l) unlisted (push_front l) (push_back l) (pop_front l)"
proof
  fix ft xs f assume "on_list l ft xs" and f: "unlisted ft f"
  then obtain L where L: "ft_lists ft L" "L l = xs" by (auto simp: on_list_def)
  obtain ft1 where 1: "push_front l f ft = Some ft1" "ft_lists ft1 (L(l := f # L l))" "links_only ft ft1"
    using push_front_refines [OF L(1)] f by (auto simp: unlisted_def)
  have "\<forall>y. unlisted ft1 y \<longleftrightarrow> unlisted ft y \<and> y \<noteq> f" using unlisted_push [OF L(1) 1(2,3)] by simp
  moreover have "on_list l ft1 (f # xs)" unfolding on_list_def using 1(2) L(2) by (metis fun_upd_same)
  ultimately show "\<exists>ft'. push_front l f ft = Some ft' \<and> on_list l ft' (f # xs) \<and>
      (\<forall>y. unlisted ft' y \<longleftrightarrow> unlisted ft y \<and> y \<noteq> f)"
    using 1(1) by blast
  obtain ft2 where 2: "push_back l f ft = Some ft2" "ft_lists ft2 (L(l := L l @ [f]))" "links_only ft ft2"
    using push_back_refines [OF L(1)] f by (auto simp: unlisted_def)
  have "\<forall>y. unlisted ft2 y \<longleftrightarrow> unlisted ft y \<and> y \<noteq> f" using unlisted_push [OF L(1) 2(2,3)] by simp
  moreover have "on_list l ft2 (xs @ [f])" unfolding on_list_def using 2(2) L(2) by (metis fun_upd_same)
  ultimately show "\<exists>ft'. push_back l f ft = Some ft' \<and> on_list l ft' (xs @ [f]) \<and>
      (\<forall>y. unlisted ft' y \<longleftrightarrow> unlisted ft y \<and> y \<noteq> f)"
    using 2(1) by blast
next
  fix ft x xs assume "on_list l ft (x # xs)"
  then obtain L where L: "ft_lists ft L" "L l = x # xs" by (auto simp: on_list_def)
  obtain ft' where "pop_front l ft = Some (Some x, ft')" "ft_lists ft' (L(l := xs))"
    using pop_front_refines [OF L] by blast
  then show "\<exists>ft'. pop_front l ft = Some (Some x, ft') \<and> on_list l ft' xs"
    unfolding on_list_def by (metis fun_upd_same)
next
  fix ft assume "on_list l ft []"
  then show "pop_front l ft = Some (None, ft)" using pop_front_empty by (auto simp: on_list_def)
qed

interpretation free_list: deque "on_list Free_p" unlisted "push_front Free_p" "push_back Free_p" "pop_front Free_p"
  by (rule frame_list_deque)

interpretation allocated_list: deque "on_list Allocated_p" unlisted "push_front Allocated_p"
    "push_back Allocated_p" "pop_front Allocated_p"
  by (rule frame_list_deque)

text \<open>Frames pushed to the front of the free list leave it last in, first out, before the frames that
  were there, and each exactly once; no assertion of the list operations fails.\<close>

theorem free_list_lifo:
  assumes "ft_lists ft L" "distinct fs"
    and "\<forall>f \<in> set fs. 0 < f \<and> f < ft_used ft \<and> fr_list_id (ft_frames ft f) = NO_LIST"
  shows "\<exists>ft1 ft2. push_all (push_front Free_p) fs ft = Some ft1 \<and>
    drain (pop_front Free_p) (length fs + length (L Free_p)) ft1 = Some (map Some (rev fs @ L Free_p), ft2)"
proof -
  have "on_list Free_p ft (L Free_p)" using assms(1) by (auto simp: on_list_def)
  moreover have "\<forall>f \<in> set fs. unlisted ft f" using assms(3) by (simp add: unlisted_def)
  ultimately show ?thesis using free_list.last_in_first_out [OF _ assms(2)] by blast
qed

theorem free_list_lifo_witness:
  "\<exists>ft0 ft1 ft2. pop_front Free_p ex_ft = Some (Some 3, ft0) \<and> push_all (push_front Free_p) [3] ft0 = Some ft1 \<and>
    drain (pop_front Free_p) 2 ft1 = Some ([Some 3, Some 4], ft2)"
proof -
  obtain ft0 where ft0: "pop_front Free_p ex_ft = Some (Some 3, ft0)" "ft_lists ft0 (ex_L(Free_p := [4]))"
    "fr_list_id (ft_frames ft0 3) = NO_LIST" "ft_used ft0 = 5"
    using pop_front_refines [OF ex_ft_lists, of Free_p 3 "[4]"] by (auto simp: links_only_def ex_ft_def)
  from free_list_lifo [OF ft0(2), of "[3]"] ft0 show ?thesis by (simp add: numeral_2_eq_2)
qed

text \<open>Frames appended to the allocated list stay in the order in which they were allocated, behind the
  frames that were there.\<close>

theorem allocated_list_fifo:
  assumes "ft_lists ft L" "distinct fs"
    and "\<forall>f \<in> set fs. 0 < f \<and> f < ft_used ft \<and> fr_list_id (ft_frames ft f) = NO_LIST"
  shows "\<exists>ft1 ft2. push_all (push_back Allocated_p) fs ft = Some ft1 \<and>
    drain (pop_front Allocated_p) (length (L Allocated_p) + length fs) ft1 =
      Some (map Some (L Allocated_p @ fs), ft2)"
proof -
  have "on_list Allocated_p ft (L Allocated_p)" using assms(1) by (auto simp: on_list_def)
  moreover have "\<forall>f \<in> set fs. unlisted ft f" using assms(3) by (simp add: unlisted_def)
  ultimately show ?thesis using allocated_list.first_in_first_out [OF _ assms(2)] by blast
qed

theorem allocated_list_fifo_witness:
  "\<exists>ft0 ft1 ft2. pop_front Free_p ex_ft = Some (Some 3, ft0) \<and> push_all (push_back Allocated_p) [3] ft0 = Some ft1 \<and>
    drain (pop_front Allocated_p) 3 ft1 = Some ([Some 1, Some 2, Some 3], ft2)"
proof -
  obtain ft0 where ft0: "pop_front Free_p ex_ft = Some (Some 3, ft0)" "ft_lists ft0 (ex_L(Free_p := [4]))"
    "fr_list_id (ft_frames ft0 3) = NO_LIST" "ft_used ft0 = 5"
    using pop_front_refines [OF ex_ft_lists, of Free_p 3 "[4]"] by (auto simp: links_only_def ex_ft_def)
  from allocated_list_fifo [OF ft0(2), of "[3]"] ft0 show ?thesis by (simp add: numeral_3_eq_3)
qed

text \<open>Removing a frame from the middle of the allocated list takes out that frame and keeps the order of
  the others; the fields of the frames that are not list links stay as they were.\<close>

theorem remove_frame_removes:
  assumes "ft_lists ft L" "f \<in> set (L Allocated_p)"
  shows "\<exists>ft'. remove_frame Allocated_p f ft = Some ft' \<and>
    ft_lists ft' (L(Allocated_p := remove1 f (L Allocated_p))) \<and>
    fr_list_id (ft_frames ft' f) = NO_LIST \<and> links_only ft ft'"
  by (rule remove_frame_refines [OF assms])

theorem remove_frame_removes_witness:
  "\<exists>ft'. remove_frame Allocated_p 1 ex_ft = Some ft' \<and> fl_first (ft_allocated ft') = 2"
proof -
  from remove_frame_removes [OF ex_ft_lists, of 1] obtain ft' where ft': "remove_frame Allocated_p 1 ex_ft = Some ft'"
    "ft_lists ft' (ex_L(Allocated_p := [2]))" by auto
  with ft_listsD(1) [OF ft'(2), of Allocated_p] show ?thesis by simp
qed

end
