(* ===== verification/Timer_Device.thy ===== *)
theory Timer_Device
  imports Sos_Prelude
begin

text \<open>
  The Meson timer device: \<^verbatim>\<open>libclock/src/device.c\<close> and \<^verbatim>\<open>device.h\<close>. The register block is a record. The
  counter registers of timer E change between accesses, so the function that reads them takes the
  contents of the block at each successive access.
\<close>

section \<open>Registers and configuration values\<close>

record meson_timer_reg_t =
  mux :: u32
  timer_a :: u32
  timer_b :: u32
  timer_c :: u32
  timer_d :: u32
  timer_e :: u32
  timer_e_hi :: u32

datatype timeout_id_t = MESON_TIMER_A | MESON_TIMER_B | MESON_TIMER_C | MESON_TIMER_D

datatype timestamp_timebase_t =
  TIMESTAMP_TIMEBASE_SYSTEM | TIMESTAMP_TIMEBASE_1_US | TIMESTAMP_TIMEBASE_10_US
| TIMESTAMP_TIMEBASE_100_US | TIMESTAMP_TIMEBASE_1_MS

datatype timeout_timebase_t =
  TIMEOUT_TIMEBASE_1_US | TIMEOUT_TIMEBASE_10_US | TIMEOUT_TIMEBASE_100_US | TIMEOUT_TIMEBASE_1_MS

fun timestamp_timebase_val :: "timestamp_timebase_t \<Rightarrow> u32" where
  "timestamp_timebase_val TIMESTAMP_TIMEBASE_SYSTEM = 0"
| "timestamp_timebase_val TIMESTAMP_TIMEBASE_1_US = 1"
| "timestamp_timebase_val TIMESTAMP_TIMEBASE_10_US = 2"
| "timestamp_timebase_val TIMESTAMP_TIMEBASE_100_US = 3"
| "timestamp_timebase_val TIMESTAMP_TIMEBASE_1_MS = 4"

fun timeout_timebase_val :: "timeout_timebase_t \<Rightarrow> u32" where
  "timeout_timebase_val TIMEOUT_TIMEBASE_1_US = 0"
| "timeout_timebase_val TIMEOUT_TIMEBASE_10_US = 1"
| "timeout_timebase_val TIMEOUT_TIMEBASE_100_US = 2"
| "timeout_timebase_val TIMEOUT_TIMEBASE_1_MS = 3"

definition TIMER_E_INPUT_CLK :: nat where "TIMER_E_INPUT_CLK = 8"
definition TIMESTAMP_TIMEBASE_MASK :: u32 where "TIMESTAMP_TIMEBASE_MASK = mask 3"
definition TIMEOUT_TIMEBASE_MASK :: u32 where "TIMEOUT_TIMEBASE_MASK = mask 2"

text \<open>The table of the four timeout timers: interrupt number, position of the clock field, and the numbers of
  the enable and mode bits.\<close>

record timeout_info_t =
  irq :: nat
  input_clk :: nat
  enable_bit :: nat
  mode_bit :: nat

fun timeouts :: "timeout_id_t \<Rightarrow> timeout_info_t" where
  "timeouts MESON_TIMER_A = \<lparr>irq = 42, input_clk = 0, enable_bit = 16, mode_bit = 12\<rparr>"
| "timeouts MESON_TIMER_B = \<lparr>irq = 43, input_clk = 2, enable_bit = 17, mode_bit = 13\<rparr>"
| "timeouts MESON_TIMER_C = \<lparr>irq = 38, input_clk = 4, enable_bit = 18, mode_bit = 14\<rparr>"
| "timeouts MESON_TIMER_D = \<lparr>irq = 61, input_clk = 6, enable_bit = 19, mode_bit = 15\<rparr>"

section \<open>Operations\<close>

definition configure_timestamp :: "timestamp_timebase_t \<Rightarrow> meson_timer_reg_t \<Rightarrow> meson_timer_reg_t" where
  "configure_timestamp timebase regs =
     (let m = mux regs;
          m = m AND NOT (push_bit TIMER_E_INPUT_CLK TIMESTAMP_TIMEBASE_MASK);
          m = m OR push_bit TIMER_E_INPUT_CLK (timestamp_timebase_val timebase)
      in regs\<lparr>mux := m\<rparr>)"

text \<open>\<open>timer k\<close> is the register block as the \<open>k\<close>-th access finds it.\<close>

definition read_timestamp :: "(nat \<Rightarrow> meson_timer_reg_t) \<Rightarrow> u64" where
  "read_timestamp timer =
     (let lo = ucast (timer_e (timer 0)) :: u64;
          hi = ucast (timer_e_hi (timer 1)) :: u64;
          new_lo = ucast (timer_e (timer 2)) :: u64;
          (lo, hi) = (if new_lo < lo then (new_lo, ucast (timer_e_hi (timer 3))) else (lo, hi))
      in push_bit 32 hi OR (lo AND mask 32))"

definition write_timeout :: "timeout_id_t \<Rightarrow> u16 \<Rightarrow> meson_timer_reg_t \<Rightarrow> meson_timer_reg_t" where
  "write_timeout timer value regs =
     (case timer of
        MESON_TIMER_A \<Rightarrow> regs\<lparr>timer_a := ucast value\<rparr>
      | MESON_TIMER_B \<Rightarrow> regs\<lparr>timer_b := ucast value\<rparr>
      | MESON_TIMER_C \<Rightarrow> regs\<lparr>timer_c := ucast value\<rparr>
      | MESON_TIMER_D \<Rightarrow> regs\<lparr>timer_d := ucast value\<rparr>)"

definition configure_timeout ::
    "timeout_id_t \<Rightarrow> bool \<Rightarrow> bool \<Rightarrow> timeout_timebase_t \<Rightarrow> u16 \<Rightarrow> meson_timer_reg_t \<Rightarrow> meson_timer_reg_t" where
  "configure_timeout timer enable periodic timebase timeout regs =
     (let info = timeouts timer;
          regs = regs\<lparr>mux := mux regs AND NOT (push_bit (enable_bit info) 1)\<rparr>
      in if \<not> enable then regs
         else
           let regs = write_timeout timer timeout regs;
               m = mux regs OR push_bit (enable_bit info) 1;
               m = (if periodic then m OR push_bit (mode_bit info) 1 else m AND NOT (push_bit (mode_bit info) 1));
               m = m AND NOT (push_bit (input_clk info) TIMEOUT_TIMEBASE_MASK);
               m = m OR push_bit (input_clk info) (timeout_timebase_val timebase)
           in regs\<lparr>mux := m\<rparr>)"

definition read_timeout :: "timeout_id_t \<Rightarrow> meson_timer_reg_t \<Rightarrow> u16" where
  "read_timeout timer regs =
     (let value = (case timer of
                     MESON_TIMER_A \<Rightarrow> timer_a regs
                   | MESON_TIMER_B \<Rightarrow> timer_b regs
                   | MESON_TIMER_C \<Rightarrow> timer_c regs
                   | MESON_TIMER_D \<Rightarrow> timer_d regs)
      in ucast (drop_bit 16 value))"

definition meson_timeout_irq :: "timeout_id_t \<Rightarrow> nat" where
  "meson_timeout_irq timer = irq (timeouts timer)"

section \<open>Reading the counter\<close>

text \<open>The block shows the 64-bit counter value \<open>c\<close>.\<close>

definition shows_counter :: "nat \<Rightarrow> meson_timer_reg_t \<Rightarrow> bool" where
  "shows_counter c r \<longleftrightarrow> unat (timer_e r) = c mod 2 ^ 32 \<and> unat (timer_e_hi r) = c div 2 ^ 32"

lemma timestamp_join:
  fixes lo hi :: u32
  shows "unat (push_bit 32 (ucast hi :: u64) OR ((ucast lo :: u64) AND mask 32)) = unat hi * 2 ^ 32 + unat lo"
proof -
  have m: "(ucast lo :: u64) AND mask 32 = ucast lo"
    by (rule bit_word_eqI) (auto simp: bit_simps dest: bit_imp_le_length)
  have "(push_bit 32 (ucast hi :: u64)) AND ucast lo = 0"
    by (rule bit_word_eqI) (auto simp: bit_simps dest: bit_imp_le_length)
  then have "push_bit 32 (ucast hi :: u64) OR ucast lo = push_bit 32 (ucast hi) + ucast lo"
    by (simp add: disjunctive_add_eq_or)
  moreover have "unat (push_bit 32 (ucast hi :: u64)) = unat hi * 2 ^ 32"
    using unsigned_less [of hi, where 'a = nat] by (simp add: push_bit_eq_mult unat_word_ariths)
  moreover have "unat hi * 2 ^ 32 + unat lo < 2 ^ 64"
    using unsigned_less [of hi, where 'a = nat] unsigned_less [of lo, where 'a = nat] by simp
  ultimately show ?thesis unfolding m by (simp add: unat_word_ariths)
qed

lemma one_wrap:
  fixes a b d B :: nat
  assumes "a \<le> b" "b \<le> d" "d < a + B" "0 < B"
  shows "b mod B < a mod B \<Longrightarrow> d div B = b div B" "\<not> b mod B < a mod B \<Longrightarrow> b div B = a div B"
proof -
  have le: "a div B \<le> b div B" "b div B \<le> d div B" using assms by (simp_all add: div_le_mono)
  have eq: "a = a div B * B + a mod B" "b = b div B * B + b mod B" "a mod B < B" "b mod B < B" using assms by simp_all
  have "a < a div B * B + B" using eq(1,3) by linarith
  then have "d < (a div B + 2) * B" using assms(3) by (simp add: algebra_simps)
  then have dA: "d div B \<le> a div B + 1" using less_mult_imp_div_less [of d "a div B + 2" B] by simp
  show "d div B = b div B" if "b mod B < a mod B"
  proof -
    have "a div B \<noteq> b div B" using eq(1,2) assms(1) that by (metis add_le_cancel_left not_le)
    with le dA show ?thesis by simp
  qed
  show "b div B = a div B" if "\<not> b mod B < a mod B"
  proof (rule ccontr)
    assume "b div B \<noteq> a div B"
    then have "(a div B + 1) * B \<le> b div B * B" using le by (intro mult_le_mono1) simp
    then have "a div B * B + B \<le> b div B * B" by simp
    then show False using eq that assms by linarith
  qed
qed

text \<open>C10. Reading the 64-bit counter in two halves is atomic: if the counter never goes back and advances by
  less than one wrap of its low half during the call, the result is a value the counter had at one of
  the accesses.\<close>

theorem read_timestamp_linearizable:
  assumes c: "\<And>k. k < 4 \<Longrightarrow> shows_counter (c k) (timer k)"
    and mono: "c 0 \<le> c 1" "c 1 \<le> c 2" "c 2 \<le> c 3" and slow: "c 3 < c 0 + 2 ^ 32"
  shows "unat (read_timestamp timer) = c 0 \<or> unat (read_timestamp timer) = c 2"
proof -
  let ?B = "2 ^ 32 :: nat"
  have cmp: "(ucast a :: u64) < ucast b \<longleftrightarrow> unat a < unat b" for a b :: u32
    by (simp add: word_less_nat_alt)
  have s: "unat (timer_e (timer 0)) = c 0 mod ?B" "unat (timer_e_hi (timer 1)) = c 1 div ?B"
    "unat (timer_e (timer 2)) = c 2 mod ?B" "unat (timer_e_hi (timer 3)) = c 3 div ?B"
    using c [of 0] c [of 1] c [of 2] c [of 3] by (simp_all add: shows_counter_def)
  show ?thesis
  proof (cases "c 2 mod ?B < c 0 mod ?B")
    case True
    then have "unat (read_timestamp timer) = c 3 div ?B * ?B + c 2 mod ?B"
      by (simp add: read_timestamp_def Let_def cmp s(1,3) timestamp_join s(4))
    moreover have "c 3 div ?B = c 2 div ?B"
      using one_wrap(1) [of "c 0" "c 2" "c 3" ?B] True mono slow by linarith
    ultimately show ?thesis by simp
  next
    case False
    then have "unat (read_timestamp timer) = c 1 div ?B * ?B + c 0 mod ?B"
      by (simp add: read_timestamp_def Let_def cmp s(1,3) timestamp_join s(2) del: One_nat_def)
    moreover have "c 1 div ?B = c 0 div ?B"
    proof (rule antisym)
      have "c 1 div ?B \<le> c 2 div ?B" using mono by (simp add: div_le_mono)
      also have "c 2 div ?B = c 0 div ?B"
        using one_wrap(2) [of "c 0" "c 2" "c 3" ?B] False mono slow by linarith
      finally show "c 1 div ?B \<le> c 0 div ?B" .
    qed (use mono in \<open>simp add: div_le_mono\<close>)
    ultimately show ?thesis by simp
  qed
qed

theorem read_timestamp_linearizable_witness:
  "unat (read_timestamp (\<lambda>k. [\<lparr>mux = 0, timer_a = 0, timer_b = 0, timer_c = 0, timer_d = 0, timer_e = 0xffffffff, timer_e_hi = 6\<rparr>,
      \<lparr>mux = 0, timer_a = 0, timer_b = 0, timer_c = 0, timer_d = 0, timer_e = 0xffffffff, timer_e_hi = 6\<rparr>,
      \<lparr>mux = 0, timer_a = 0, timer_b = 0, timer_c = 0, timer_d = 0, timer_e = 0, timer_e_hi = 7\<rparr>,
      \<lparr>mux = 0, timer_a = 0, timer_b = 0, timer_c = 0, timer_d = 0, timer_e = 3, timer_e_hi = 7\<rparr>] ! k))
    \<in> {7 * 2 ^ 32 - 1, 7 * 2 ^ 32}"
proof -
  let ?t = "\<lambda>k. [\<lparr>mux = 0, timer_a = 0, timer_b = 0, timer_c = 0, timer_d = 0, timer_e = 0xffffffff, timer_e_hi = 6\<rparr>,
      \<lparr>mux = 0, timer_a = 0, timer_b = 0, timer_c = 0, timer_d = 0, timer_e = 0xffffffff, timer_e_hi = 6\<rparr>,
      \<lparr>mux = 0, timer_a = 0, timer_b = 0, timer_c = 0, timer_d = 0, timer_e = 0, timer_e_hi = 7\<rparr>,
      \<lparr>mux = 0, timer_a = 0, timer_b = 0, timer_c = 0, timer_d = 0, timer_e = 3, timer_e_hi = 7\<rparr>] ! k"
  let ?c = "\<lambda>k. [7 * 2 ^ 32 - 1, 7 * 2 ^ 32 - 1, 7 * 2 ^ 32, 7 * 2 ^ 32 + 3 :: nat] ! k"
  have "shows_counter (?c k) (?t k)" if "k < 4" for k
  proof -
    from that consider "k = 0" | "k = 1" | "k = 2" | "k = 3" by linarith
    then show ?thesis by cases (simp_all add: shows_counter_def)
  qed
  from read_timestamp_linearizable [of ?c ?t, OF this] show ?thesis by simp
qed

section \<open>Configuring a timer\<close>

text \<open>The bits of the multiplexer register that belong to a timeout timer.\<close>

definition own_bits :: "timeout_id_t \<Rightarrow> nat set" where
  "own_bits t = {input_clk (timeouts t), input_clk (timeouts t) + 1, enable_bit (timeouts t), mode_bit (timeouts t)}"

lemma bit_push_one: "e < 32 \<Longrightarrow> bit (push_bit e 1 :: u32) n \<longleftrightarrow> n = e"
  unfolding bit_push_bit_iff bit_1_iff possible_bit_word by auto

lemma bit_push_mask2: "c + 1 < 32 \<Longrightarrow> bit (push_bit c (mask 2) :: u32) n \<longleftrightarrow> n = c \<or> n = c + 1"
  unfolding bit_push_bit_iff bit_mask_iff possible_bit_word by auto

lemma bit_timebase: "bit (timeout_timebase_val b) n \<Longrightarrow> n < 2"
proof -
  have "timeout_timebase_val b = take_bit 2 (timeout_timebase_val b)" by (cases b) simp_all
  moreover assume "bit (timeout_timebase_val b) n"
  ultimately have "bit (take_bit 2 (timeout_timebase_val b)) n" by simp
  then show "n < 2" unfolding bit_take_bit_iff by simp
qed

lemma bit_push_timebase:
  assumes "c + 1 < 32"
  shows "bit (push_bit c (timeout_timebase_val b)) n \<longleftrightarrow>
    n = c \<and> bit (timeout_timebase_val b) 0 \<or> n = c + 1 \<and> bit (timeout_timebase_val b) 1"
proof
  assume h: "bit (push_bit c (timeout_timebase_val b)) n"
  then have b: "c \<le> n" "bit (timeout_timebase_val b) (n - c)" unfolding bit_push_bit_iff by simp_all
  have "n - c = 0 \<or> n - c = 1" using bit_timebase [OF b(2)] by linarith
  with b show "n = c \<and> bit (timeout_timebase_val b) 0 \<or> n = c + 1 \<and> bit (timeout_timebase_val b) 1" by auto
qed (use assms in \<open>auto simp only: bit_push_bit_iff possible_bit_word diff_self_eq_0 add_diff_cancel_left' le_add1, simp_all\<close>)

lemma bit_mask_out: "bit (w AND NOT v :: u32) n \<longleftrightarrow> bit w n \<and> \<not> bit v n"
  unfolding bit_and_iff bit_not_iff using bit_imp_possible_bit by blast

lemma bit_configured:
  "bit (mux (configure_timeout t en per base cnt r)) n \<longleftrightarrow>
    (if n = enable_bit (timeouts t) then en
     else if \<not> en then bit (mux r) n
     else if n = mode_bit (timeouts t) then per
     else if n = input_clk (timeouts t) then bit (timeout_timebase_val base) 0
     else if n = input_clk (timeouts t) + 1 then bit (timeout_timebase_val base) 1
     else bit (mux r) n)"
proof -
  define e m c where info: "e = enable_bit (timeouts t)" "m = mode_bit (timeouts t)" "c = input_clk (timeouts t)"
  have ne: "e < 32" "m < 32" "c + 1 < 32" "e \<noteq> m" "e \<noteq> c" "e \<noteq> c + 1" "m \<noteq> c" "m \<noteq> c + 1"
    by (cases t; simp add: info)+
  define E M C V :: u32 where words: "E = push_bit e 1" "M = push_bit m 1" "C = push_bit c (mask 2)"
    "V = push_bit c (timeout_timebase_val base)"
  have bits: "bit E n \<longleftrightarrow> n = e" "bit M n \<longleftrightarrow> n = m" "bit C n \<longleftrightarrow> n = c \<or> n = c + 1"
    "bit V n \<longleftrightarrow> n = c \<and> bit (timeout_timebase_val base) 0 \<or> n = c + 1 \<and> bit (timeout_timebase_val base) 1"
    unfolding words by (simp_all only: bit_push_one bit_push_mask2 bit_push_timebase ne)
  have w: "mux (write_timeout t cnt q) = mux q" for q by (cases t) (simp_all add: write_timeout_def)
  have "mux (configure_timeout t en per base cnt r) =
      (if \<not> en then mux r AND NOT E
       else ((if per then (mux r AND NOT E OR E) OR M else (mux r AND NOT E OR E) AND NOT M) AND NOT C) OR V)"
    unfolding configure_timeout_def Let_def info [symmetric] TIMEOUT_TIMEBASE_MASK_def words [symmetric]
    by (simp add: w)
  then have "bit (mux (configure_timeout t en per base cnt r)) n \<longleftrightarrow>
      (if \<not> en then bit (mux r) n \<and> n \<noteq> e
       else ((if per then bit (mux r) n \<or> n = e \<or> n = m else (bit (mux r) n \<or> n = e) \<and> n \<noteq> m) \<and>
           \<not> (n = c \<or> n = c + 1)) \<or> bit V n)"
    by (simp only: bit_or_iff bit_mask_out bits(1-3) split: if_split) blast
  then show ?thesis unfolding info [symmetric] bits(4)
    using ne by (cases "n = e"; cases "n = m"; cases "n = c"; cases "n = c + 1") simp_all
qed

text \<open>Programming a timeout timer writes exactly its own fields: its enable bit follows the argument; when
  enabling, its mode bit and clock field are the requested ones and its count register holds the
  timeout; every multiplexer bit of another timer, the count registers of the others and timer E stay.\<close>

theorem configure_timeout_fields:
  "let r' = configure_timeout t en per base cnt r in
     bit (mux r') (enable_bit (timeouts t)) = en \<and>
     (en \<longrightarrow> bit (mux r') (mode_bit (timeouts t)) = per \<and>
       take_bit 2 (drop_bit (input_clk (timeouts t)) (mux r')) = timeout_timebase_val base) \<and>
     (\<forall>n. n \<notin> own_bits t \<longrightarrow> bit (mux r') n = bit (mux r) n) \<and>
     r'\<lparr>mux := mux r\<rparr> = (if en then write_timeout t cnt r else r)"
proof -
  let ?r = "configure_timeout t en per base cnt r"
  have field: "?r\<lparr>mux := mux r\<rparr> = (if en then write_timeout t cnt r else r)"
    by (cases t) (simp_all add: configure_timeout_def write_timeout_def Let_def)
  have clk: "take_bit 2 (drop_bit (input_clk (timeouts t)) (mux ?r)) = timeout_timebase_val base" if en
  proof (rule bit_word_eqI)
    fix n
    have ne: "input_clk (timeouts t) + n \<noteq> enable_bit (timeouts t)" "input_clk (timeouts t) + n \<noteq> mode_bit (timeouts t)"
      if "n < 2" using that by (cases t; simp)+
    consider "n = 0" | "n = 1" | "2 \<le> n" by linarith
    then show "bit (take_bit 2 (drop_bit (input_clk (timeouts t)) (mux ?r))) n = bit (timeout_timebase_val base) n"
      unfolding bit_take_bit_iff bit_drop_bit_eq comp_def bit_configured
      by cases (use that ne bit_timebase [of base n] in auto)
  qed
  have b: "bit (mux ?r) (enable_bit (timeouts t)) = en" "en \<Longrightarrow> bit (mux ?r) (mode_bit (timeouts t)) = per"
    unfolding bit_configured by (cases t; simp)+
  have "bit (mux ?r) n = bit (mux r) n" if "n \<notin> own_bits t" for n
    using that unfolding bit_configured own_bits_def by simp
  with field clk b show ?thesis unfolding Let_def by blast
qed

theorem configure_timeout_fields_witness:
  "bit (mux (configure_timeout MESON_TIMER_A True False TIMEOUT_TIMEBASE_1_MS 7
      \<lparr>mux = 0x2000f, timer_a = 0, timer_b = 3, timer_c = 0, timer_d = 0, timer_e = 0, timer_e_hi = 0\<rparr>)) 17"
proof -
  let ?r = "\<lparr>mux = 0x2000f, timer_a = 0, timer_b = 3, timer_c = 0, timer_d = 0, timer_e = 0, timer_e_hi = 0\<rparr>"
  have "17 \<notin> own_bits MESON_TIMER_A" by (simp add: own_bits_def)
  with configure_timeout_fields [of MESON_TIMER_A True False TIMEOUT_TIMEBASE_1_MS 7 ?r]
  have "bit (mux (configure_timeout MESON_TIMER_A True False TIMEOUT_TIMEBASE_1_MS 7 ?r)) 17 = bit (mux ?r) 17"
    unfolding Let_def by blast
  then show ?thesis by simp
qed

end
