(* ===== verification/Pqueue.thy ===== *)
theory Pqueue
  imports Sos_Prelude
begin

text \<open>
  The binary heap of \<^verbatim>\<open>libpqueue/src/pqueue.c\<close>. Elements are pointers to nodes the queue knows only
  through the callbacks it was created with, which read and write a store \<open>'s\<close>: they are the fields of
  the record \<open>pq_ops\<close>. Accesses to the element array outside its allocated part fail. The memory
  allocator's answers are arguments.

  The contract of the callbacks is the locale \<open>pq_callbacks\<close>; in it every operation is shown to keep
  the heap and the positions stored in the nodes, and to act on the set of queued elements.
\<close>

section \<open>Data\<close>

record ('a, 's) pq_ops =
  cmppri :: "u64 \<Rightarrow> u64 \<Rightarrow> bool"
  getpri :: "'a \<Rightarrow> 's \<Rightarrow> u64"
  setpri :: "'a \<Rightarrow> u64 \<Rightarrow> 's \<Rightarrow> 's"
  getpos :: "'a \<Rightarrow> 's \<Rightarrow> nat"
  setpos :: "'a \<Rightarrow> nat \<Rightarrow> 's \<Rightarrow> 's"

record 'a pqueue =
  pq_size :: nat
  pq_avail :: nat
  pq_step :: nat
  pq_d :: "nat \<Rightarrow> 'a"

definition pq_get :: "'a pqueue \<Rightarrow> nat \<Rightarrow> 'a option" where
  "pq_get q i = (if i < pq_avail q then Some (pq_d q i) else None)"

definition pq_set :: "'a pqueue \<Rightarrow> nat \<Rightarrow> 'a \<Rightarrow> 'a pqueue option" where
  "pq_set q i x = (if i < pq_avail q then Some (q\<lparr>pq_d := (pq_d q)(i := x)\<rparr>) else None)"

definition pq_left :: "nat \<Rightarrow> nat" where "pq_left i = i * 2"
definition pq_right :: "nat \<Rightarrow> nat" where "pq_right i = i * 2 + 1"
definition pq_parent :: "nat \<Rightarrow> nat" where "pq_parent i = i div 2"

section \<open>Operations\<close>

text \<open>The flags say whether each of the two allocations succeeds; \<open>mem\<close> is the memory obtained.\<close>

definition pqueue_init :: "bool \<Rightarrow> bool \<Rightarrow> (nat \<Rightarrow> 'a) \<Rightarrow> nat \<Rightarrow> 'a pqueue option" where
  "pqueue_init ok1 ok2 mem n =
     (if \<not> ok1 then None
      else if \<not> ok2 then None
      else Some \<lparr>pq_size = 1, pq_avail = n + 1, pq_step = n + 1, pq_d = mem\<rparr>)"

definition pqueue_size :: "'a pqueue \<Rightarrow> nat" where
  "pqueue_size q = pq_size q - 1"

function bubble_up_loop ::
    "('a, 's) pq_ops \<Rightarrow> u64 \<Rightarrow> nat \<Rightarrow> 'a pqueue \<Rightarrow> 's \<Rightarrow> (nat \<times> 'a pqueue \<times> 's) option" where
  "bubble_up_loop P moving_pri i q s =
     (if i > 1 then do {
        pn \<leftarrow> pq_get q (pq_parent i);
        if cmppri P (getpri P pn s) moving_pri then do {
          q \<leftarrow> pq_set q i pn;
          bubble_up_loop P moving_pri (pq_parent i) q (setpos P pn i s) }
        else Some (i, q, s) }
      else Some (i, q, s))"
  by pat_completeness auto
termination
  by (relation "measure (\<lambda>(P, mp, i, q, s). i)") (auto simp: pq_parent_def)

definition bubble_up :: "('a, 's) pq_ops \<Rightarrow> nat \<Rightarrow> 'a pqueue \<Rightarrow> 's \<Rightarrow> ('a pqueue \<times> 's) option" where
  "bubble_up P i q s = do {
     moving_node \<leftarrow> pq_get q i;
     (i, q, s) \<leftarrow> bubble_up_loop P (getpri P moving_node s) i q s;
     q \<leftarrow> pq_set q i moving_node;
     Some (q, setpos P moving_node i s) }"

definition maxchild :: "('a, 's) pq_ops \<Rightarrow> 'a pqueue \<Rightarrow> 's \<Rightarrow> nat \<Rightarrow> nat option" where
  "maxchild P q s i =
     (let child_node = pq_left i in
      if child_node \<ge> pq_size q then Some 0
      else if child_node + 1 < pq_size q then do {
        l \<leftarrow> pq_get q child_node;
        r \<leftarrow> pq_get q (child_node + 1);
        Some (if cmppri P (getpri P l s) (getpri P r s) then child_node + 1 else child_node) }
      else Some child_node)"

lemma maxchild_range:
  assumes "maxchild P q s i = Some c" "0 < c"
  shows "i < c" "c < pq_size q" "c div 2 = i"
  using assms by (auto simp: maxchild_def Let_def pq_left_def split: if_splits bind_split_asm)

lemma maxchild_measure: "maxchild P q s i = Some c \<Longrightarrow> 0 < c \<Longrightarrow> pq_size q - c < pq_size q - i"
  using maxchild_range(1,2) by (metis diff_less_mono2 less_trans)

function percolate_down_loop ::
    "('a, 's) pq_ops \<Rightarrow> u64 \<Rightarrow> nat \<Rightarrow> 'a pqueue \<Rightarrow> 's \<Rightarrow> (nat \<times> 'a pqueue \<times> 's) option" where
  "percolate_down_loop P moving_pri i q s = do {
     child_node \<leftarrow> maxchild P q s i;
     if child_node \<noteq> 0 then do {
       cn \<leftarrow> pq_get q child_node;
       if cmppri P moving_pri (getpri P cn s) then do {
         q \<leftarrow> pq_set q i cn;
         percolate_down_loop P moving_pri child_node q (setpos P cn i s) }
       else Some (i, q, s) }
     else Some (i, q, s) }"
  by pat_completeness auto
termination
  by (relation "measure (\<lambda>(P, mp, i, q, s). pq_size q - i)")
    (auto simp: pq_set_def split: if_splits intro!: maxchild_measure)

definition percolate_down :: "('a, 's) pq_ops \<Rightarrow> nat \<Rightarrow> 'a pqueue \<Rightarrow> 's \<Rightarrow> ('a pqueue \<times> 's) option" where
  "percolate_down P i q s = do {
     moving_node \<leftarrow> pq_get q i;
     (i, q, s) \<leftarrow> percolate_down_loop P (getpri P moving_node s) i q s;
     q \<leftarrow> pq_set q i moving_node;
     Some (q, setpos P moving_node i s) }"

text \<open>The flag says whether the array can be enlarged when it is full.\<close>

definition pqueue_insert :: "('a, 's) pq_ops \<Rightarrow> bool \<Rightarrow> 'a \<Rightarrow> 'a pqueue \<Rightarrow> 's \<Rightarrow> (int \<times> 'a pqueue \<times> 's) option" where
  "pqueue_insert P mem_ok d q s =
     (if pq_size q \<ge> pq_avail q \<and> \<not> mem_ok then Some (1, q, s)
      else do {
        let q = (if pq_size q \<ge> pq_avail q then q\<lparr>pq_avail := pq_size q + pq_step q\<rparr> else q);
        let i = pq_size q;
        let q = q\<lparr>pq_size := pq_size q + 1\<rparr>;
        q \<leftarrow> pq_set q i d;
        (q, s) \<leftarrow> bubble_up P i q s;
        Some (0, q, s) })"

definition pqueue_change_priority :: "('a, 's) pq_ops \<Rightarrow> u64 \<Rightarrow> 'a \<Rightarrow> 'a pqueue \<Rightarrow> 's \<Rightarrow> ('a pqueue \<times> 's) option" where
  "pqueue_change_priority P new_pri d q s =
     (let old_pri = getpri P d s;
          s = setpri P d new_pri s;
          posn = getpos P d s in
      if cmppri P old_pri new_pri then bubble_up P posn q s else percolate_down P posn q s)"

definition pqueue_remove :: "('a, 's) pq_ops \<Rightarrow> 'a \<Rightarrow> 'a pqueue \<Rightarrow> 's \<Rightarrow> (int \<times> 'a pqueue \<times> 's) option" where
  "pqueue_remove P d q s = do {
     let posn = getpos P d s;
     let q = q\<lparr>pq_size := pq_size q - 1\<rparr>;
     la \<leftarrow> pq_get q (pq_size q);
     q \<leftarrow> pq_set q posn la;
     mv \<leftarrow> pq_get q posn;
     (q, s) \<leftarrow> (if cmppri P (getpri P d s) (getpri P mv s) then bubble_up P posn q s
               else percolate_down P posn q s);
     Some (0, q, s) }"

definition pqueue_pop :: "('a, 's) pq_ops \<Rightarrow> 'a pqueue \<Rightarrow> 's \<Rightarrow> ('a option \<times> 'a pqueue \<times> 's) option" where
  "pqueue_pop P q s =
     (if pq_size q = 1 then Some (None, q, s)
      else do {
        head \<leftarrow> pq_get q 1;
        let q = q\<lparr>pq_size := pq_size q - 1\<rparr>;
        la \<leftarrow> pq_get q (pq_size q);
        q \<leftarrow> pq_set q 1 la;
        (q, s) \<leftarrow> percolate_down P 1 q s;
        Some (Some head, q, s) })"

definition pqueue_peek :: "'a pqueue \<Rightarrow> 'a option option" where
  "pqueue_peek q = (if pq_size q = 1 then Some None else do { d \<leftarrow> pq_get q 1; Some (Some d) })"

function subtree_is_valid :: "('a, 's) pq_ops \<Rightarrow> 'a pqueue \<Rightarrow> 's \<Rightarrow> nat \<Rightarrow> bool option" where
  "subtree_is_valid P q s pos =
     (if pos = 0 then None
      else do {
        ok \<leftarrow> (if pq_left pos < pq_size q then do {
                 p \<leftarrow> pq_get q pos;
                 c \<leftarrow> pq_get q (pq_left pos);
                 if cmppri P (getpri P p s) (getpri P c s) then Some False
                 else subtree_is_valid P q s (pq_left pos) }
               else Some True);
        if \<not> ok then Some False
        else if pq_right pos < pq_size q then do {
          p \<leftarrow> pq_get q pos;
          c \<leftarrow> pq_get q (pq_right pos);
          if cmppri P (getpri P p s) (getpri P c s) then Some False
          else subtree_is_valid P q s (pq_right pos) }
        else Some True })"
  by pat_completeness auto
termination
  by (relation "measure (\<lambda>(P, q, s, pos). pq_size q - pos)") (auto simp: pq_left_def pq_right_def)

definition pqueue_is_valid :: "('a, 's) pq_ops \<Rightarrow> 'a pqueue \<Rightarrow> 's \<Rightarrow> bool option" where
  "pqueue_is_valid P q s = subtree_is_valid P q s 1"

declare bubble_up_loop.simps [simp del] percolate_down_loop.simps [simp del] subtree_is_valid.simps [simp del]

section \<open>Heaps\<close>

text \<open>The contract of the callbacks: a comparison that is a strict weak order, and node fields that behave
  like fields.\<close>

locale pq_callbacks =
  fixes P :: "('a, 's) pq_ops"
  assumes cmp_asym: "cmppri P a b \<Longrightarrow> \<not> cmppri P b a"
    and cmp_neg_trans: "\<not> cmppri P a b \<Longrightarrow> \<not> cmppri P b c \<Longrightarrow> \<not> cmppri P a c"
    and getpri_setpos [simp]: "getpri P x (setpos P y i s) = getpri P x s"
    and getpos_setpos: "getpos P x (setpos P y i s) = (if x = y then i else getpos P x s)"
    and getpri_setpri: "getpri P x (setpri P y v s) = (if x = y then v else getpri P x s)"
    and getpos_setpri [simp]: "getpos P x (setpri P y v s) = getpos P x s"
begin

definition ordered :: "(nat \<Rightarrow> 'a) \<Rightarrow> 's \<Rightarrow> nat \<Rightarrow> bool" where
  "ordered D s k \<longleftrightarrow> \<not> cmppri P (getpri P (D (k div 2)) s) (getpri P (D k) s)"

definition heap :: "(nat \<Rightarrow> 'a) \<Rightarrow> 's \<Rightarrow> nat \<Rightarrow> bool" where
  "heap D s n \<longleftrightarrow> (\<forall>k. 1 < k \<longrightarrow> k < n \<longrightarrow> ordered D s k)"

text \<open>A heap but for the node at \<open>i\<close>, which may have to move up, or down.\<close>

definition heap_up :: "(nat \<Rightarrow> 'a) \<Rightarrow> 's \<Rightarrow> nat \<Rightarrow> nat \<Rightarrow> bool" where
  "heap_up D s n i \<longleftrightarrow> (\<forall>k. 1 < k \<longrightarrow> k < n \<longrightarrow> k \<noteq> i \<longrightarrow> ordered D s k) \<and>
     (\<forall>k. 1 < k \<longrightarrow> k < n \<longrightarrow> 1 < i \<longrightarrow> k div 2 = i \<longrightarrow>
        \<not> cmppri P (getpri P (D (i div 2)) s) (getpri P (D k) s))"

definition heap_down :: "(nat \<Rightarrow> 'a) \<Rightarrow> 's \<Rightarrow> nat \<Rightarrow> nat \<Rightarrow> bool" where
  "heap_down D s n i \<longleftrightarrow> (\<forall>k. 1 < k \<longrightarrow> k < n \<longrightarrow> k div 2 \<noteq> i \<longrightarrow> ordered D s k) \<and>
     (\<forall>k. 1 < k \<longrightarrow> k < n \<longrightarrow> 1 < i \<longrightarrow> k div 2 = i \<longrightarrow>
        \<not> cmppri P (getpri P (D (i div 2)) s) (getpri P (D k) s))"

definition positions :: "(nat \<Rightarrow> 'a) \<Rightarrow> 's \<Rightarrow> nat set \<Rightarrow> bool" where
  "positions D s I \<longleftrightarrow> (\<forall>k \<in> I. getpos P (D k) s = k)"

lemma heap_up_step:
  assumes h: "heap_up D s n i" and i: "1 < i" "i < n"
    and c: "cmppri P (getpri P (D (i div 2)) s) (getpri P (D i) s)"
  shows "heap_up (D(i := D (i div 2), i div 2 := D i)) s n (i div 2)"
proof -
  let ?p = "i div 2" and ?D = "D(i := D (i div 2), i div 2 := D i)"
  have p: "?p < i" "0 < ?p" "?p \<noteq> i" "i \<noteq> ?p" using i by auto
  have o: "1 < k \<Longrightarrow> k < n \<Longrightarrow> k \<noteq> i \<Longrightarrow> ordered D s k" for k using h by (simp add: heap_up_def)
  have nc: "\<not> cmppri P (getpri P (D i) s) (getpri P (D ?p) s)" using cmp_asym [OF c] .
  have sib: "\<not> cmppri P (getpri P (D i) s) (getpri P (D k) s)" if "1 < k" "k < n" "k \<noteq> i" "k div 2 = ?p" for k
    using cmp_neg_trans [OF nc] o [OF that(1-3)] that(4) by (simp add: ordered_def)
  have "ordered ?D s k" if k: "1 < k" "k < n" "k \<noteq> ?p" for k
  proof -
    consider "k = i" | "k \<noteq> i" "k div 2 = i" | "k \<noteq> i" "k div 2 = ?p" | "k \<noteq> i" "k div 2 \<noteq> i" "k div 2 \<noteq> ?p" by blast
    then show ?thesis
    proof cases
      case 1 then show ?thesis using nc p by (simp add: ordered_def)
    next
      case 2 then show ?thesis using h k i p by (simp add: ordered_def heap_up_def)
    next
      case 3 then show ?thesis using sib k p by (simp add: ordered_def)
    next
      case 4 then show ?thesis using o k p by (simp add: ordered_def)
    qed
  qed
  moreover have "\<not> cmppri P (getpri P (?D (?p div 2)) s) (getpri P (?D k) s)"
    if k: "1 < k" "k < n" "1 < ?p" "k div 2 = ?p" for k
  proof -
    have pp: "?p div 2 \<noteq> i" "?p div 2 \<noteq> ?p" "k \<noteq> ?p" using k p by auto
    have op: "\<not> cmppri P (getpri P (D (?p div 2)) s) (getpri P (D ?p) s)"
      using o [of ?p] k p i by (simp add: ordered_def)
    show ?thesis
    proof (cases "k = i")
      case True
      then show ?thesis using op pp p by simp
    next
      case False
      then have "\<not> cmppri P (getpri P (D ?p) s) (getpri P (D k) s)" using o [of k] k by (simp add: ordered_def)
      from cmp_neg_trans [OF op this] False pp show ?thesis by simp
    qed
  qed
  ultimately show ?thesis by (simp add: heap_up_def)
qed

lemma heap_up_stop:
  assumes "heap_up D s n i" "1 < i \<Longrightarrow> i < n \<Longrightarrow> ordered D s i"
  shows "heap D s n"
  using assms by (auto simp: heap_up_def heap_def)

lemma heap_down_step:
  assumes h: "heap_down D s n i" and i: "0 < i" and c: "c div 2 = i" "1 < c" "c < n"
    and less: "cmppri P (getpri P (D i) s) (getpri P (D c) s)"
    and max: "\<And>k. 1 < k \<Longrightarrow> k < n \<Longrightarrow> k div 2 = i \<Longrightarrow> \<not> cmppri P (getpri P (D c) s) (getpri P (D k) s)"
  shows "heap_down (D(i := D c, c := D i)) s n c"
proof -
  let ?D = "D(i := D c, c := D i)"
  have ic: "i < c" using c i by auto
  have o: "1 < k \<Longrightarrow> k < n \<Longrightarrow> k div 2 \<noteq> i \<Longrightarrow> ordered D s k" for k using h by (simp add: heap_down_def)
  have "ordered ?D s k" if k: "1 < k" "k < n" "k div 2 \<noteq> c" for k
  proof -
    consider "k = c" | "k \<noteq> c" "k div 2 = i" | "k = i" | "k \<noteq> c" "k div 2 \<noteq> i" "k \<noteq> i" by blast
    then show ?thesis
    proof cases
      case 1 then show ?thesis using cmp_asym [OF less] c ic by (simp add: ordered_def)
    next
      case 2
      then have "k \<noteq> i" using k by auto
      with 2 show ?thesis using max [of k] k ic by (simp add: ordered_def)
    next
      case 3
      then have "\<not> cmppri P (getpri P (D (i div 2)) s) (getpri P (D c) s)" using h c k by (simp add: heap_down_def)
      moreover have "i div 2 \<noteq> i" "i div 2 \<noteq> c" "i \<noteq> c" using 3 k ic by auto
      ultimately show ?thesis using 3 by (simp add: ordered_def)
    next
      case 4 then show ?thesis using o k by (simp add: ordered_def)
    qed
  qed
  moreover have "\<not> cmppri P (getpri P (?D (c div 2)) s) (getpri P (?D k) s)" if k: "1 < k" "k < n" "k div 2 = c" for k
  proof -
    have "ordered D s k" using o k ic by simp
    moreover have "k \<noteq> c" "k \<noteq> i" "i \<noteq> c" using k ic by auto
    ultimately show ?thesis using k c by (simp add: ordered_def)
  qed
  ultimately show ?thesis by (simp add: heap_down_def)
qed

end

text \<open>Exchanging two elements of an array.\<close>

lemma swap_props:
  assumes "i \<in> S" "p \<in> S" "inj_on D S"
  shows "inj_on (D(i := D p, p := D i)) S" "(D(i := D p, p := D i)) ` S = D ` S"
proof -
  show "inj_on (D(i := D p, p := D i)) S"
    using assms by (auto simp: inj_on_def)
  show "(D(i := D p, p := D i)) ` S = D ` S"
    using assms(1,2) by (auto simp: image_iff)
qed

lemma gap_props:
  fixes i n :: nat
  assumes inj: "inj_on D {1..<n + 1}" and i: "1 \<le> i" "i < n"
  shows "inj_on (D(i := D n)) {1..<n}" "(D(i := D n)) ` {1..<n} = D ` {1..<n + 1} - {D i}"
proof -
  define T where "T = {1..<n} - {i}"
  have S: "{1..<n + 1} = insert n (insert i T)" "{1..<n} = insert i T" using i by (auto simp: T_def)
  have T: "i \<notin> T" "n \<notin> T" "i \<noteq> n" using i by (auto simp: T_def)
  have "inj_on D (insert n (insert i T))" using inj unfolding S .
  then have D: "inj_on D T" "D n \<notin> D ` T" "D i \<notin> D ` T" "D n \<noteq> D i"
    using T by (simp_all add: Diff_triv insert_Diff_if)
  have "inj_on (D(i := D n)) (insert i T)" using D T by (fastforce simp: inj_on_def)
  then show "inj_on (D(i := D n)) {1..<n}" unfolding S .
  have "(D(i := D n)) ` insert i T = insert (D n) (D ` T)" using T by (auto simp: image_iff)
  moreover have "D ` insert n (insert i T) - {D i} = insert (D n) (D ` T)" using D by (auto simp: image_iff)
  ultimately show "(D(i := D n)) ` {1..<n} = D ` {1..<n + 1} - {D i}"
    unfolding S by simp
qed

context pq_callbacks
begin

lemma setpos_heap [simp]:
  "ordered D (setpos P x i s) k = ordered D s k" "heap D (setpos P x i s) n = heap D s n"
  "heap_up D (setpos P x i s) n j = heap_up D s n j" "heap_down D (setpos P x i s) n j = heap_down D s n j"
  by (simp_all add: ordered_def heap_def heap_up_def heap_down_def)

text \<open>
  A loop moves other nodes over the hole at \<open>i\<close>: \<open>D\<close> is the array with the moving node
  put into the hole.
\<close>

definition holed :: "(nat \<Rightarrow> 'a) \<Rightarrow> nat \<Rightarrow> 'a pqueue \<Rightarrow> 's \<Rightarrow> 'a set \<Rightarrow> bool" where
  "holed D i q s A \<longleftrightarrow> (\<forall>k. k \<noteq> i \<longrightarrow> pq_d q k = D k) \<and>
     1 \<le> i \<and> i < pq_size q \<and> pq_size q \<le> pq_avail q \<and> inj_on D {1..<pq_size q} \<and>
     D ` {1..<pq_size q} = A \<and> positions D s ({1..<pq_size q} - {i})"

lemma holed_move:
  assumes h: "holed D i q s A" and p: "p \<noteq> i" "1 \<le> p" "p < pq_size q"
  shows "holed (D(i := D p, p := D i)) p (q\<lparr>pq_d := (pq_d q)(i := D p)\<rparr>) (setpos P (D p) i s) A"
proof -
  let ?n = "pq_size q"
  define D' where "D' = D(i := D p, p := D i)"
  have i: "1 \<le> i" "i < ?n" and inj: "inj_on D {1..<?n}" and pos: "positions D s ({1..<?n} - {i})"
    and A: "D ` {1..<?n} = A"
    using h by (simp_all add: holed_def)
  have "getpos P (D' k) (setpos P (D p) i s) = k" if k: "k \<in> {1..<?n} - {p}" for k
  proof (cases "k = i")
    case True
    then show ?thesis using p(1) by (simp add: getpos_setpos D'_def)
  next
    case False
    then have "D k \<noteq> D p" using inj k p unfolding inj_on_def by (metis DiffD1 DiffD2 atLeastLessThan_iff singletonI)
    with False k pos p show ?thesis by (auto simp: getpos_setpos positions_def D'_def)
  qed
  then have "positions D' (setpos P (D p) i s) ({1..<?n} - {p})" by (simp add: positions_def)
  moreover have "inj_on D' {1..<?n}" "D' ` {1..<?n} = A"
    using swap_props [of i "{1..<?n}" p D] i p inj A unfolding D'_def by auto
  moreover have "\<forall>k. k \<noteq> p \<longrightarrow> ((pq_d q)(i := D p)) k = D' k" using h by (auto simp: holed_def D'_def)
  ultimately show ?thesis
    unfolding D'_def [symmetric] using h p by (simp add: holed_def)
qed

lemma holed_get: "holed D i q s A \<Longrightarrow> 1 \<le> k \<Longrightarrow> k < pq_size q \<Longrightarrow> k \<noteq> i \<Longrightarrow> pq_get q k = Some (D k)"
  by (simp add: holed_def pq_get_def)

lemma holed_set: "holed D i q s A \<Longrightarrow> pq_set q i x = Some (q\<lparr>pq_d := (pq_d q)(i := x)\<rparr>)"
  by (simp add: holed_def pq_set_def)

text \<open>The sifting loops write nothing to the store but positions.\<close>

inductive repos :: "'s \<Rightarrow> 's \<Rightarrow> bool" where
  repos_refl: "repos s s"
| repos_step: "repos s s' \<Longrightarrow> repos s (setpos P x i s')"

lemma repos_front: "repos (setpos P x i s) s' \<Longrightarrow> repos s s'"
  by (induction "setpos P x i s" s' rule: repos.induct) (auto intro: repos.intros)

lemma repos_obs: "repos s s' \<Longrightarrow> (\<And>x i s. f (setpos P x i s) = f s) \<Longrightarrow> f s' = f s"
  by (induction rule: repos.induct) simp_all

lemma repos_pri: "repos s s' \<Longrightarrow> getpri P x s' = getpri P x s"
  by (rule repos_obs) simp_all

definition same_frame :: "'a pqueue \<Rightarrow> 's \<Rightarrow> 'a pqueue \<Rightarrow> 's \<Rightarrow> bool" where
  "same_frame q s q' s' \<longleftrightarrow> pq_size q' = pq_size q \<and> pq_avail q' = pq_avail q \<and> pq_step q' = pq_step q \<and>
     repos s s'"

lemma same_frame_step:
  "same_frame (q\<lparr>pq_d := d\<rparr>) (setpos P x i s) q' s' \<Longrightarrow> same_frame q s q' s'"
  by (auto simp: same_frame_def dest: repos_front)

lemma bubble_up_loop_ok:
  assumes "holed D i q s A" "heap_up D s (pq_size q) i"
  shows "\<exists>D' j q' s'. bubble_up_loop P (getpri P (D i) s) i q s = Some (j, q', s') \<and> D' j = D i \<and>
    holed D' j q' s' A \<and> heap D' s' (pq_size q') \<and> same_frame q s q' s'"
  using assms
proof (induction i arbitrary: D q s rule: less_induct)
  case (less i)
  let ?p = "i div 2" and ?n = "pq_size q"
  have i: "1 \<le> i" "i < ?n" using less.prems(1) by (simp_all add: holed_def)
  show ?case
  proof (cases "1 < i \<and> cmppri P (getpri P (D ?p) s) (getpri P (D i) s)")
    case True
    then have p: "?p \<noteq> i" "1 \<le> ?p" "?p < ?n" "?p < i" using i by auto
    let ?q = "q\<lparr>pq_d := (pq_d q)(i := D ?p)\<rparr>" and ?s = "setpos P (D ?p) i s"
    let ?D = "D(i := D ?p, ?p := D i)"
    have "heap_up ?D s ?n ?p" by (rule heap_up_step [OF less.prems(2)]) (use True i in auto)
    then have "heap_up ?D ?s (pq_size ?q) ?p" by simp
    from less.IH [OF p(4) holed_move [OF less.prems(1) p(1-3)] this] obtain D' j q' s' where
      r: "bubble_up_loop P (getpri P (?D ?p) ?s) ?p ?q ?s = Some (j, q', s')" "D' j = ?D ?p" "holed D' j q' s' A"
        "heap D' s' (pq_size q')" "same_frame ?q ?s q' s'" by blast
    have "bubble_up_loop P (getpri P (D i) s) i q s = Some (j, q', s')"
      using True r(1) holed_get [OF less.prems(1) p(2,3,1)] holed_set [OF less.prems(1)]
      by (subst bubble_up_loop.simps) (simp add: pq_parent_def)
    with r same_frame_step [OF r(5)] show ?thesis by (metis fun_upd_same)
  next
    case False
    have "bubble_up_loop P (getpri P (D i) s) i q s = Some (i, q, s)"
    proof (cases "1 < i")
      case True
      then have p: "1 \<le> ?p" "?p < ?n" "?p \<noteq> i" using i by auto
      with True False holed_get [OF less.prems(1) p] show ?thesis
        by (subst bubble_up_loop.simps) (simp add: pq_parent_def)
    qed (subst bubble_up_loop.simps, simp)
    moreover have "heap D s ?n"
      by (rule heap_up_stop [OF less.prems(2)]) (use False in \<open>auto simp: ordered_def\<close>)
    ultimately show ?thesis using less.prems(1) by (auto simp: same_frame_def intro: repos_refl)
  qed
qed

lemma maxchild_ok:
  assumes h: "holed D i q s A"
  shows "\<exists>c. maxchild P q s i = Some c \<and>
    (c = 0 \<longrightarrow> (\<forall>k. 1 < k \<longrightarrow> k < pq_size q \<longrightarrow> k div 2 \<noteq> i)) \<and>
    (c \<noteq> 0 \<longrightarrow> c div 2 = i \<and> 1 < c \<and> c < pq_size q \<and> c \<noteq> i \<and>
      (\<forall>k. 1 < k \<longrightarrow> k < pq_size q \<longrightarrow> k div 2 = i \<longrightarrow> \<not> cmppri P (getpri P (D c) s) (getpri P (D k) s)))"
proof -
  have i: "1 \<le> i" "i < pq_size q" using h by (simp_all add: holed_def)
  have kids: "k div 2 = i \<longleftrightarrow> k = 2 * i \<or> k = 2 * i + 1" for k by auto
  have irr: "\<not> cmppri P a a" for a using cmp_asym by blast
  have g: "2 * i < pq_size q \<Longrightarrow> pq_get q (2 * i) = Some (D (2 * i))"
    "2 * i + 1 < pq_size q \<Longrightarrow> pq_get q (2 * i + 1) = Some (D (2 * i + 1))"
    using holed_get [OF h, of "2 * i"] holed_get [OF h, of "2 * i + 1"] i by auto
  show ?thesis
    using g i unfolding kids
    by (auto simp: maxchild_def Let_def pq_left_def mult.commute irr dest: cmp_asym)
qed

lemma percolate_down_loop_ok:
  assumes "holed D i q s A" "heap_down D s (pq_size q) i"
  shows "\<exists>D' j q' s'. percolate_down_loop P (getpri P (D i) s) i q s = Some (j, q', s') \<and> D' j = D i \<and>
    holed D' j q' s' A \<and> heap D' s' (pq_size q') \<and> same_frame q s q' s'"
  using assms
proof (induction "pq_size q - i" arbitrary: i D q s rule: less_induct)
  case less
  let ?n = "pq_size q"
  have i: "1 \<le> i" "i < ?n" using less.prems(1) by (simp_all add: holed_def)
  obtain c where c: "maxchild P q s i = Some c" "c = 0 \<Longrightarrow> (\<forall>k. 1 < k \<longrightarrow> k < ?n \<longrightarrow> k div 2 \<noteq> i)"
    "c \<noteq> 0 \<Longrightarrow> c div 2 = i \<and> 1 < c \<and> c < ?n \<and> c \<noteq> i"
    "\<And>k. c \<noteq> 0 \<Longrightarrow> 1 < k \<Longrightarrow> k < ?n \<Longrightarrow> k div 2 = i \<Longrightarrow> \<not> cmppri P (getpri P (D c) s) (getpri P (D k) s)"
    using maxchild_ok [OF less.prems(1)] by blast
  show ?case
  proof (cases "c \<noteq> 0 \<and> cmppri P (getpri P (D i) s) (getpri P (D c) s)")
    case True
    then have cc: "c div 2 = i" "1 < c" "c < ?n" "c \<noteq> i" "1 \<le> c" using c(3) by auto
    let ?q = "q\<lparr>pq_d := (pq_d q)(i := D c)\<rparr>" and ?s = "setpos P (D c) i s" and ?D = "D(i := D c, c := D i)"
    have "heap_down ?D s ?n c"
      by (rule heap_down_step [OF less.prems(2)]) (use True i cc c(4) in auto)
    then have hd: "heap_down ?D ?s (pq_size ?q) c" by simp
    have m: "pq_size ?q - c < ?n - i" using cc by auto
    from less.hyps [OF m holed_move [OF less.prems(1) cc(4,5,3)] hd] obtain D' j q' s' where
      r: "percolate_down_loop P (getpri P (?D c) ?s) c ?q ?s = Some (j, q', s')" "D' j = ?D c" "holed D' j q' s' A"
        "heap D' s' (pq_size q')" "same_frame ?q ?s q' s'" by blast
    have "percolate_down_loop P (getpri P (D i) s) i q s = Some (j, q', s')"
      using True r(1) c(1) holed_get [OF less.prems(1) cc(5,3,4)] holed_set [OF less.prems(1)]
      by (subst percolate_down_loop.simps) simp
    with r same_frame_step [OF r(5)] show ?thesis by (metis fun_upd_same)
  next
    case False
    have "percolate_down_loop P (getpri P (D i) s) i q s = Some (i, q, s)"
    proof (cases "c = 0")
      case True
      then show ?thesis using c(1) by (subst percolate_down_loop.simps) simp
    next
      case cz: False
      with holed_get [OF less.prems(1), of c] c(1,3) False show ?thesis
        by (subst percolate_down_loop.simps) simp
    qed
    moreover have "ordered D s k" if k: "1 < k" "k < ?n" for k
    proof (cases "k div 2 = i")
      case True
      with k c(2) have cz: "c \<noteq> 0" by blast
      with False have "\<not> cmppri P (getpri P (D i) s) (getpri P (D c) s)" by blast
      from cmp_neg_trans [OF this c(4) [OF cz k True]] show ?thesis using True by (simp add: ordered_def)
    qed (use less.prems(2) k in \<open>simp add: heap_down_def\<close>)
    ultimately show ?thesis using less.prems(1) by (auto simp: same_frame_def heap_def intro: repos_refl)
  qed
qed

section \<open>The queue as a set\<close>

definition pq_rep :: "'a pqueue \<Rightarrow> 's \<Rightarrow> 'a set \<Rightarrow> bool" where
  "pq_rep q s A \<longleftrightarrow> 1 \<le> pq_size q \<and> pq_size q \<le> pq_avail q \<and> 0 < pq_step q \<and>
     inj_on (pq_d q) {1..<pq_size q} \<and> pq_d q ` {1..<pq_size q} = A \<and>
     heap (pq_d q) s (pq_size q) \<and> positions (pq_d q) s {1..<pq_size q}"

lemma pq_rep_cong:
  assumes r: "pq_rep q s A"
    and eq: "\<And>x. x \<in> A \<Longrightarrow> getpri P x s' = getpri P x s" "\<And>x. x \<in> A \<Longrightarrow> getpos P x s' = getpos P x s"
  shows "pq_rep q s' A"
proof -
  have A: "pq_d q k \<in> A" if "1 \<le> k" "k < pq_size q" for k using r that by (auto simp: pq_rep_def)
  have "ordered (pq_d q) s' k = ordered (pq_d q) s k" if "1 < k" "k < pq_size q" for k
    using eq(1) [OF A [of k]] eq(1) [OF A [of "k div 2"]] that by (simp add: ordered_def)
  then show ?thesis using r eq(2) A by (auto simp: pq_rep_def heap_def positions_def)
qed

lemma loop_finish:
  assumes h: "holed D j q s A" "heap D s (pq_size q)" "0 < pq_step q"
  shows "\<exists>q'. pq_set q j (D j) = Some q' \<and> pq_rep q' (setpos P (D j) j s) A \<and> pq_size q' = pq_size q"
proof -
  let ?n = "pq_size q"
  have j: "1 \<le> j" "j < ?n" and inj: "inj_on D {1..<?n}" and pos: "positions D s ({1..<?n} - {j})"
    using h(1) by (simp_all add: holed_def)
  have d: "(pq_d q)(j := D j) = D" using h(1) by (auto simp: holed_def)
  have "getpos P (D k) (setpos P (D j) j s) = k" if "k \<in> {1..<?n}" for k
  proof (cases "k = j")
    case False
    then have "D k \<noteq> D j" using inj that j unfolding inj_on_def by auto
    with False that pos show ?thesis by (auto simp: getpos_setpos positions_def)
  qed (simp add: getpos_setpos)
  then have "positions D (setpos P (D j) j s) {1..<?n}" by (simp add: positions_def)
  with h show ?thesis unfolding holed_set [OF h(1)] d by (auto simp: pq_rep_def holed_def)
qed

lemma bubble_up_ok:
  assumes h: "holed (pq_d q) i q s A" "heap_up (pq_d q) s (pq_size q) i" "0 < pq_step q"
  shows "\<exists>q' s'. bubble_up P i q s = Some (q', s') \<and> pq_rep q' s' A \<and> repos s s'"
proof -
  obtain D' j q' s' where r: "bubble_up_loop P (getpri P (pq_d q i) s) i q s = Some (j, q', s')" "D' j = pq_d q i"
    "holed D' j q' s' A" "heap D' s' (pq_size q')" "same_frame q s q' s'"
    using bubble_up_loop_ok [OF h(1,2)] by blast
  have "pq_get q i = Some (pq_d q i)" using h(1) by (simp add: holed_def pq_get_def)
  with r loop_finish [OF r(3,4)] h(3) show ?thesis by (auto simp: bubble_up_def same_frame_def intro: repos_step)
qed

lemma percolate_down_ok:
  assumes h: "holed (pq_d q) i q s A" "heap_down (pq_d q) s (pq_size q) i" "0 < pq_step q"
  shows "\<exists>q' s'. percolate_down P i q s = Some (q', s') \<and> pq_rep q' s' A \<and> repos s s'"
proof -
  obtain D' j q' s' where r: "percolate_down_loop P (getpri P (pq_d q i) s) i q s = Some (j, q', s')" "D' j = pq_d q i"
    "holed D' j q' s' A" "heap D' s' (pq_size q')" "same_frame q s q' s'"
    using percolate_down_loop_ok [OF h(1,2)] by blast
  have "pq_get q i = Some (pq_d q i)" using h(1) by (simp add: holed_def pq_get_def)
  with r loop_finish [OF r(3,4)] h(3) show ?thesis by (auto simp: percolate_down_def same_frame_def intro: repos_step)
qed

text \<open>The root is the best element.\<close>

lemma heap_root:
  assumes h: "heap D s n" and k: "1 \<le> k" "k < n"
  shows "\<not> cmppri P (getpri P (D 1) s) (getpri P (D k) s)"
  using k
proof (induction k rule: less_induct)
  case (less k)
  show ?case
  proof (cases "k = 1")
    case True then show ?thesis using cmp_asym by auto
  next
    case False
    then have "k div 2 < k" "1 \<le> k div 2" "1 < k" using less.prems by auto
    moreover from this have "ordered D s k" using h less.prems by (simp add: heap_def)
    ultimately show ?thesis using less.IH [of "k div 2"] less.prems cmp_neg_trans
      unfolding ordered_def by (meson less_trans)
  qed
qed

text \<open>The last element takes the place of the removed one.\<close>

lemma fill_gap:
  assumes r: "pq_rep q s A" and i: "1 \<le> i" "i < n" and n: "pq_size q = n + 1"
    and q1: "q1 = q\<lparr>pq_size := n, pq_d := (pq_d q)(i := pq_d q n)\<rparr>"
  shows "holed (pq_d q1) i q1 s (A - {pq_d q i})"
    "cmppri P (getpri P (pq_d q i) s) (getpri P (pq_d q n) s) \<Longrightarrow> heap_up (pq_d q1) s n i"
    "\<not> cmppri P (getpri P (pq_d q i) s) (getpri P (pq_d q n) s) \<Longrightarrow> heap_down (pq_d q1) s n i"
proof -
  let ?D = "pq_d q" and ?D1 = "(pq_d q)(i := pq_d q n)"
  have rr: "n + 1 \<le> pq_avail q" "inj_on ?D {1..<n+1}" "?D ` {1..<n+1} = A" "heap ?D s (n+1)" "positions ?D s {1..<n+1}"
    using r n by (simp_all add: pq_rep_def)
  have o: "\<not> cmppri P (getpri P (?D (k div 2)) s) (getpri P (?D k) s)" if "1 < k" "k \<le> n" for k
    using rr(4) that by (simp add: heap_def ordered_def)
  have "inj_on ?D1 {1..<n}" "?D1 ` {1..<n} = A - {?D i}"
    using gap_props [OF rr(2) i] rr(3) by simp_all
  moreover have "positions ?D1 s ({1..<n} - {i})" using rr(5) by (simp add: positions_def)
  ultimately show "holed (pq_d q1) i q1 s (A - {pq_d q i})"
    using i rr(1) by (simp add: holed_def q1)
  have up: "\<not> cmppri P (getpri P (?D (i div 2)) s) (getpri P (?D k) s)" if "1 < k" "k < n" "1 < i" "k div 2 = i" for k
    using cmp_neg_trans [OF o [of i] o [of k, unfolded that(4)]] that i by simp
  show "heap_up (pq_d q1) s n i" if c: "cmppri P (getpri P (?D i) s) (getpri P (?D n) s)"
  proof -
    have "\<not> cmppri P (getpri P (?D n) s) (getpri P (?D k) s)" if "1 < k" "k < n" "k div 2 = i" for k
      using cmp_neg_trans [OF cmp_asym [OF c]] o [of k] that by simp
    with up o i show ?thesis by (auto simp: heap_up_def ordered_def q1)
  qed
  show "heap_down (pq_d q1) s n i" if c: "\<not> cmppri P (getpri P (?D i) s) (getpri P (?D n) s)"
  proof -
    have "\<not> cmppri P (getpri P (?D (i div 2)) s) (getpri P (?D n) s)" if "1 < i"
      using cmp_neg_trans [OF o [of i] c] that i by simp
    with up o i show ?thesis by (auto simp: heap_down_def ordered_def q1)
  qed
qed

text \<open>Dropping the last element moves nothing.\<close>

lemma drop_last:
  assumes r: "pq_rep q s A" and n: "pq_size q = n + 1" "1 \<le> n"
  shows "\<exists>q' s'. percolate_down P n (q\<lparr>pq_size := n, pq_d := (pq_d q)(n := pq_d q n)\<rparr>) s = Some (q', s') \<and>
    pq_rep q' s' (A - {pq_d q n}) \<and> repos s s'"
proof -
  let ?q = "q\<lparr>pq_size := n\<rparr>" and ?D = "pq_d q"
  have rr: "n + 1 \<le> pq_avail q" "inj_on ?D {1..<n+1}" "?D ` {1..<n+1} = A" "heap ?D s (n+1)" "positions ?D s {1..<n+1}"
    using r n by (simp_all add: pq_rep_def)
  have "{1..<n+1} = insert n {1..<n}" using n by auto
  with rr(2) have ins: "inj_on ?D (insert n {1..<n})" by simp
  then have inj: "inj_on ?D {1..<n}" and nn: "?D n \<notin> ?D ` {1..<n}" unfolding inj_on_insert by simp_all
  have "A = insert (?D n) (?D ` {1..<n})" using rr(3) \<open>{1..<n+1} = insert n {1..<n}\<close> by simp
  with nn have A: "?D ` {1..<n} = A - {?D n}" by blast
  have "?D k \<noteq> ?D n" if "k \<in> {1..<n}" for k using nn imageI [OF that, of ?D] by metis
  then have "positions ?D (setpos P (?D n) n s) {1..<n}" using rr(5) by (simp add: positions_def getpos_setpos)
  moreover have "heap ?D s n" using rr(4) by (simp add: heap_def)
  ultimately have "pq_rep ?q (setpos P (?D n) n s) (A - {?D n})"
    using r A inj n rr(1) by (simp add: pq_rep_def)
  moreover have "maxchild P ?q s n = Some 0" by (simp add: maxchild_def pq_left_def)
  ultimately show ?thesis using rr(1)
    by (simp add: percolate_down_def percolate_down_loop.simps [of P _ n] pq_get_def pq_set_def repos_step [OF repos_refl])
qed

lemma pqueue_remove_ok:
  assumes r: "pq_rep q s A" and x: "x \<in> A"
  shows "\<exists>q' s'. pqueue_remove P x q s = Some (0, q', s') \<and> pq_rep q' s' (A - {x}) \<and>
    repos s s'"
proof -
  obtain i n where i: "1 \<le> i" "i \<le> n" "pq_d q i = x" "pq_size q = n + 1" "getpos P x s = i" "n < pq_avail q"
    "0 < pq_step q"
  proof -
    from r x have "x \<in> pq_d q ` {1..<pq_size q}" by (simp add: pq_rep_def)
    then obtain i where "i \<in> {1..<pq_size q}" "pq_d q i = x" by blast
    with r that [of i "pq_size q - 1"] show thesis by (auto simp: pq_rep_def positions_def)
  qed
  let ?q1 = "q\<lparr>pq_size := n, pq_d := (pq_d q)(i := pq_d q n)\<rparr>"
  let ?c = "cmppri P (getpri P (pq_d q i) s) (getpri P (pq_d q n) s)"
  have run: "pqueue_remove P x q s = do {
      (q, s) \<leftarrow> (if ?c then bubble_up P i ?q1 s else percolate_down P i ?q1 s); Some (0, q, s) }"
    using i by (simp add: pqueue_remove_def pq_get_def pq_set_def Let_def)
  show ?thesis
  proof (cases "i = n")
    case True
    then have "\<not> ?c" using cmp_asym by blast
    with drop_last [OF r i(4)] i True show ?thesis unfolding run by auto
  next
    case False
    then have "i < n" using i by simp
    note g = fill_gap [OF r i(1) this i(4) refl]
    have sz: "pq_size ?q1 = n" "0 < pq_step ?q1" using i by simp_all
    show ?thesis
    proof (cases ?c)
      case True
      from bubble_up_ok [OF g(1) _ sz(2), unfolded sz, OF g(2) [OF True]] True i(3) show ?thesis unfolding run by auto
    next
      case nc: False
      from percolate_down_ok [OF g(1) _ sz(2), unfolded sz, OF g(3) [OF nc]] nc i(3) show ?thesis unfolding run by auto
    qed
  qed
qed

lemma pqueue_pop_ok:
  assumes r: "pq_rep q s A" and x: "A \<noteq> {}"
  shows "\<exists>m q' s'. pqueue_pop P q s = Some (Some m, q', s') \<and> m \<in> A \<and>
    (\<forall>y \<in> A. \<not> cmppri P (getpri P m s) (getpri P y s)) \<and>
    pq_rep q' s' (A - {m}) \<and> repos s s'"
proof -
  obtain n where n: "1 \<le> n" "pq_size q = n + 1" "n < pq_avail q" "0 < pq_step q"
  proof -
    have "pq_size q \<noteq> 1" "1 \<le> pq_size q" "pq_size q \<le> pq_avail q" "0 < pq_step q"
      using r x by (auto simp: pq_rep_def)
    then show thesis using that [of "pq_size q - 1"] by auto
  qed
  have A: "pq_d q 1 \<in> A" using r n by (auto simp: pq_rep_def)
  have best: "\<not> cmppri P (getpri P (pq_d q 1) s) (getpri P (pq_d q k) s)" if "1 \<le> k" "k < n + 1" for k
    using heap_root [of "pq_d q" s "pq_size q" k] that r n by (simp add: pq_rep_def)
  then have best': "\<forall>y \<in> A. \<not> cmppri P (getpri P (pq_d q 1) s) (getpri P y s)" using r n by (auto simp: pq_rep_def)
  let ?q1 = "q\<lparr>pq_size := n, pq_d := (pq_d q)(1 := pq_d q n)\<rparr>"
  have run: "pqueue_pop P q s = do { (q', s') \<leftarrow> percolate_down P 1 ?q1 s; Some (Some (pq_d q 1), q', s') }"
    using n by (simp add: pqueue_pop_def pq_get_def pq_set_def)
  have "\<exists>q' s'. percolate_down P 1 ?q1 s = Some (q', s') \<and> pq_rep q' s' (A - {pq_d q 1}) \<and>
    repos s s'"
  proof (cases "n = 1")
    case True then show ?thesis using drop_last [OF r n(2)] by simp
  next
    case False
    then have "1 < n" using n by simp
    note g = fill_gap [OF r _ this n(2) refl]
    have sz: "pq_size ?q1 = n" "0 < pq_step ?q1" using n by simp_all
    show ?thesis using percolate_down_ok [OF g(1) _ sz(2), unfolded sz, OF _ g(3)] best [of n] n by simp
  qed
  with A best' show ?thesis unfolding run by auto
qed

lemma pqueue_peek_ok:
  assumes r: "pq_rep q s A"
  shows "\<exists>r. pqueue_peek q = Some r \<and> (r = None \<longleftrightarrow> A = {}) \<and>
    (\<forall>m. r = Some m \<longrightarrow> m \<in> A \<and> (\<forall>y \<in> A. \<not> cmppri P (getpri P m s) (getpri P y s)))"
proof (cases "pq_size q = 1")
  case True
  then show ?thesis using r by (auto simp: pqueue_peek_def pq_rep_def)
next
  case False
  then have n: "1 < pq_size q" "1 < pq_avail q" using r by (auto simp: pq_rep_def)
  have "\<not> cmppri P (getpri P (pq_d q 1) s) (getpri P (pq_d q k) s)" if "1 \<le> k" "k < pq_size q" for k
    using heap_root [of "pq_d q" s "pq_size q" k] that r by (simp add: pq_rep_def)
  then show ?thesis using r n by (auto simp: pqueue_peek_def pq_get_def pq_rep_def)
qed

lemma pqueue_insert_ok:
  assumes r: "pq_rep q s A" and x: "x \<notin> A" and m: "mem_ok \<or> pq_size q < pq_avail q"
  shows "\<exists>q' s'. pqueue_insert P mem_ok x q s = Some (0, q', s') \<and> pq_rep q' s' (insert x A) \<and>
    repos s s'"
proof -
  let ?n = "pq_size q"
  let ?q = "q\<lparr>pq_avail := if pq_size q \<ge> pq_avail q then pq_size q + pq_step q else pq_avail q,
    pq_size := ?n + 1, pq_d := (pq_d q)(?n := x)\<rparr>"
  have rr: "1 \<le> ?n" "0 < pq_step q" "?n \<le> pq_avail q" "inj_on (pq_d q) {1..<?n}" "pq_d q ` {1..<?n} = A"
    "heap (pq_d q) s ?n" "positions (pq_d q) s {1..<?n}"
    using r by (simp_all add: pq_rep_def)
  have run: "pqueue_insert P mem_ok x q s = do { (q, s) \<leftarrow> bubble_up P ?n ?q s; Some (0, q, s) }"
    using m rr(2) by (auto simp: pqueue_insert_def pq_set_def Let_def)
  have S: "{1..<?n + 1} = insert ?n {1..<?n}" using rr(1) by auto
  have same: "((pq_d q)(?n := x)) ` {1..<?n} = A" using rr(5) by simp
  have "inj_on ((pq_d q)(?n := x)) {1..<?n}" using inj_on_cong [of "{1..<?n}" "(pq_d q)(?n := x)" "pq_d q"] rr(4) by simp
  then have "inj_on ((pq_d q)(?n := x)) {1..<?n + 1}" using x same unfolding S inj_on_insert by simp
  moreover have "((pq_d q)(?n := x)) ` {1..<?n + 1} = insert x A" unfolding S image_insert same by simp
  moreover have "positions ((pq_d q)(?n := x)) s ({1..<?n + 1} - {?n})" using rr(7) by (simp add: positions_def)
  ultimately have h: "holed (pq_d ?q) ?n ?q s (insert x A)" using rr by (simp add: holed_def)
  have hu: "heap_up (pq_d ?q) s (pq_size ?q) ?n" using rr(6) by (auto simp: heap_up_def heap_def ordered_def)
  from bubble_up_ok [OF h hu] rr(2) show ?thesis unfolding run by auto
qed

lemma pqueue_insert_full:
  "pq_avail q \<le> pq_size q \<Longrightarrow> pqueue_insert P False x q s = Some (1, q, s)"
  by (simp add: pqueue_insert_def)

lemma pqueue_size_ok: "pq_rep q s A \<Longrightarrow> pqueue_size q = card A"
  using card_image [of "pq_d q" "{1..<pq_size q}"] by (auto simp: pq_rep_def pqueue_size_def)

lemma pq_rep_init: "pqueue_init True True mem n = Some q \<Longrightarrow> pq_rep q s {}"
  by (auto simp: pqueue_init_def pq_rep_def heap_def positions_def)

lemma pqueue_change_priority_ok:
  assumes r: "pq_rep q s A" and x: "x \<in> A"
  shows "\<exists>q' s'. pqueue_change_priority P v x q s = Some (q', s') \<and> pq_rep q' s' A \<and>
    repos (setpri P x v s) s'"
proof -
  let ?n = "pq_size q" and ?D = "pq_d q" and ?s = "setpri P x v s"
  have rr: "1 \<le> ?n" "0 < pq_step q" "?n \<le> pq_avail q" "inj_on ?D {1..<?n}" "?D ` {1..<?n} = A"
    "heap ?D s ?n" "positions ?D s {1..<?n}"
    using r by (simp_all add: pq_rep_def)
  obtain i where i: "1 \<le> i" "i < ?n" "?D i = x" "getpos P x s = i"
    using x rr(5,7) by (auto simp: positions_def image_iff)
  have ne: "?D k = x \<longleftrightarrow> k = i" if "1 \<le> k" "k < ?n" for k
    using inj_on_eq_iff [OF rr(4), of k i] that i by simp
  have o: "\<not> cmppri P (getpri P (?D (k div 2)) s) (getpri P (?D k) s)" if "1 < k" "k < ?n" for k
    using rr(6) that by (simp add: heap_def ordered_def)
  have pri: "getpri P (?D k) ?s = (if k = i then v else getpri P (?D k) s)" if "1 \<le> k" "k < ?n" for k
    using ne [OF that] by (simp add: getpri_setpri)
  have pp: "1 \<le> k div 2 \<and> k div 2 < ?n \<and> k div 2 \<noteq> k" if "1 < k" "k < ?n" for k using that by auto
  have up: "\<not> cmppri P (getpri P (?D (i div 2)) ?s) (getpri P (?D k) ?s)" if "1 < k" "k < ?n" "1 < i" "k div 2 = i" for k
    using cmp_neg_trans [OF o [of i] o [of k, unfolded that(4)]] that i pp [of i] pp [of k] pri by simp
  have h: "holed ?D i q ?s A" using rr i by (simp add: holed_def positions_def)
  show ?thesis
  proof (cases "cmppri P (getpri P x s) v")
    case True
    have "ordered ?D ?s k" if k: "1 < k" "k < ?n" "k \<noteq> i" for k
      using cmp_neg_trans [OF cmp_asym [OF True], of "getpri P (?D k) s"] o [OF k(1,2)] pp [OF k(1,2)] k pri i
      by (auto simp: ordered_def)
    with up have "heap_up ?D ?s ?n i" by (simp add: heap_up_def)
    from bubble_up_ok [OF h this rr(2)] True i show ?thesis
      by (auto simp: pqueue_change_priority_def getpri_setpri)
  next
    case False
    have "ordered ?D ?s k" if k: "1 < k" "k < ?n" "k div 2 \<noteq> i" for k
      using cmp_neg_trans [OF _ False, of "getpri P (?D (k div 2)) s"] o [OF k(1,2)] pp [OF k(1,2)] k pri i
      by (auto simp: ordered_def)
    with up have "heap_down ?D ?s ?n i" by (simp add: heap_down_def)
    from percolate_down_ok [OF h this rr(2)] False i show ?thesis
      by (auto simp: pqueue_change_priority_def getpri_setpri)
  qed
qed

text \<open>The debugging check decides the heap property. A node is below \<open>pos\<close> if some number of parent steps
  leads from it to \<open>pos\<close>.\<close>

definition below :: "nat \<Rightarrow> nat \<Rightarrow> bool" where
  "below pos k \<longleftrightarrow> (\<exists>j. k div 2 ^ Suc j = pos)"

lemma below_step: "below pos k \<longleftrightarrow> k div 2 = pos \<or> below (2 * pos) k \<or> below (2 * pos + 1) k"
proof -
  have kids: "m div 2 = pos \<longleftrightarrow> m = 2 * pos \<or> m = 2 * pos + 1" for m :: nat by auto
  have "k div 2 ^ Suc (Suc j) = pos \<longleftrightarrow> k div 2 ^ Suc j = 2 * pos \<or> k div 2 ^ Suc j = 2 * pos + 1" for j
    using kids [of "k div 2 ^ Suc j"] by (simp only: power_Suc2 [of 2 "Suc j"] div_mult2_eq)
  moreover have "below pos k \<longleftrightarrow> k div 2 ^ Suc 0 = pos \<or> (\<exists>j. k div 2 ^ Suc (Suc j) = pos)"
    unfolding below_def by (metis not0_implies_Suc)
  ultimately show ?thesis by (auto simp: below_def)
qed

lemma below_bound:
  assumes "0 < pos" "below pos k"
  shows "2 * pos \<le> k"
proof -
  obtain j where j: "k div 2 ^ Suc j = pos" using assms(2) by (auto simp: below_def)
  have "pos = k div 2 div 2 ^ j" using j by (simp add: div_mult2_eq)
  then have "pos \<le> k div 2" by simp
  then show ?thesis by simp
qed

lemma below_root: "1 < k \<Longrightarrow> below 1 k"
proof (induction k rule: less_induct)
  case (less k)
  show ?case
  proof (cases "k div 2 = 1")
    case True then show ?thesis using below_step [of 1 k] by blast
  next
    case False
    then have "1 < k div 2" "k div 2 < k" using less.prems by auto
    from less.IH [OF this(2,1)] obtain j where "k div 2 div 2 ^ Suc j = 1" by (auto simp: below_def)
    then have "k div 2 ^ Suc (Suc j) = 1" by (metis div_mult2_eq power_Suc)
    then show ?thesis unfolding below_def by blast
  qed
qed

lemma subtree_is_valid_ok:
  assumes "pq_size q \<le> pq_avail q" "0 < pos" "pos < pq_size q"
  shows "subtree_is_valid P q s pos = Some (\<forall>k. below pos k \<longrightarrow> k < pq_size q \<longrightarrow> ordered (pq_d q) s k)"
  using assms
proof (induction "pq_size q - pos" arbitrary: pos rule: less_induct)
  case less
  let ?n = "pq_size q"
  let ?V = "\<lambda>pos. \<forall>k. below pos k \<longrightarrow> k < ?n \<longrightarrow> ordered (pq_d q) s k"
  let ?o = "ordered (pq_d q) s"
  have L: "2 * pos < ?n \<Longrightarrow> subtree_is_valid P q s (2 * pos) = Some (?V (2 * pos))"
    and R: "2 * pos + 1 < ?n \<Longrightarrow> subtree_is_valid P q s (2 * pos + 1) = Some (?V (2 * pos + 1))"
    using less.hyps [of "2 * pos"] less.hyps [of "2 * pos + 1"] less.prems by auto
  have out: "?n \<le> 2 * pos \<Longrightarrow> ?V (2 * pos)" "?n \<le> 2 * pos + 1 \<Longrightarrow> ?V (2 * pos + 1)"
    using below_bound [of "2 * pos"] below_bound [of "2 * pos + 1"] less.prems by fastforce+
  have kids: "k div 2 = pos \<longleftrightarrow> k = 2 * pos \<or> k = 2 * pos + 1" for k by auto
  have V: "?V pos \<longleftrightarrow> (2 * pos < ?n \<longrightarrow> ?o (2 * pos)) \<and> ?V (2 * pos) \<and> (2 * pos + 1 < ?n \<longrightarrow> ?o (2 * pos + 1)) \<and> ?V (2 * pos + 1)"
    unfolding below_step [of pos] kids by blast
  have g: "2 * pos < ?n \<Longrightarrow> pq_get q (2 * pos) = Some (pq_d q (2 * pos))"
    "2 * pos + 1 < ?n \<Longrightarrow> pq_get q (2 * pos + 1) = Some (pq_d q (2 * pos + 1))" "pq_get q pos = Some (pq_d q pos)"
    using less.prems by (auto simp: pq_get_def)
  have c: "cmppri P (getpri P (pq_d q pos) s) (getpri P (pq_d q (2 * pos)) s) \<longleftrightarrow> \<not> ?o (2 * pos)"
    "cmppri P (getpri P (pq_d q pos) s) (getpri P (pq_d q (2 * pos + 1)) s) \<longleftrightarrow> \<not> ?o (2 * pos + 1)"
    by (simp_all add: ordered_def)
  have lr: "pq_left pos = 2 * pos" "pq_right pos = 2 * pos + 1" by (simp_all add: pq_left_def pq_right_def)
  show ?case
    unfolding V subtree_is_valid.simps [of P q s pos] lr
    using L R out g less.prems by (cases "2 * pos < ?n"; cases "2 * pos + 1 < ?n") (simp_all add: c del: One_nat_def)
qed

lemma pqueue_is_valid_ok:
  assumes "1 < pq_size q" "pq_size q \<le> pq_avail q"
  shows "pqueue_is_valid P q s = Some (heap (pq_d q) s (pq_size q))"
proof -
  have "(\<forall>k. below 1 k \<longrightarrow> k < pq_size q \<longrightarrow> ordered (pq_d q) s k) \<longleftrightarrow> heap (pq_d q) s (pq_size q)"
    using below_root below_bound [of 1] by (force simp: heap_def)
  then show ?thesis using subtree_is_valid_ok [of q 1 s] assms by (simp add: pqueue_is_valid_def)
qed

end

end
