(* ===== verification/Timer_Clock.thy ===== *)
theory Timer_Clock
  imports Timer_Device Pqueue
begin

text \<open>
  The clock driver \<^verbatim>\<open>libclock/src/clock.c\<close>. A timeout is a node of a store addressed by its pointer; the
  driver's state holds the store, which addresses are allocated, the table of timeouts (the identifier of a
  timeout is its index there), the queue by deadline of \<^verbatim>\<open>libpqueue\<close>, and the device registers. The answers of the
  memory allocator are arguments. A callback is a function on the driver's state and the rest of the system,
  because callbacks call the driver.
\<close>

section \<open>Data\<close>

record timeout_t =
  to_id :: nat
  to_deadline :: u64
  to_callback :: nat
  to_pos :: nat
  to_data :: nat

type_synonym timeout_mem = "nat \<Rightarrow> timeout_t"

record delay =
  start_count :: u16
  timer_base :: timeout_timebase_t

record clock =
  ck_regs :: "nat option"
  ck_dev :: meson_timer_reg_t
  ck_queue :: "nat pqueue option"
  ck_timeouts :: "nat option list option"
  ck_num :: nat
  ck_running :: bool
  ck_mem :: timeout_mem
  ck_live :: "nat \<Rightarrow> bool"

definition INITIAL_TIMEOUTS :: nat where "INITIAL_TIMEOUTS = 10"
definition TIMER_REG_START :: nat where "TIMER_REG_START = 0x940"

definition CLOCK_R_OK :: int where "CLOCK_R_OK = 0"
definition CLOCK_R_UINT :: int where "CLOCK_R_UINT = - 1"
definition CLOCK_R_FAIL :: int where "CLOCK_R_FAIL = - 3"

text \<open>The code \<open>CLOCK_R_UINT\<close> as the unsigned 32-bit result of \<open>register_timer\<close>.\<close>

definition REGISTER_FAILED :: nat where "REGISTER_FAILED = 2 ^ 32 - 1"

section \<open>The callbacks of the queue\<close>

definition cmp_pri :: "u64 \<Rightarrow> u64 \<Rightarrow> bool" where
  "cmp_pri nxt cur \<longleftrightarrow> nxt > cur"

definition get_pri :: "nat \<Rightarrow> timeout_mem \<Rightarrow> u64" where
  "get_pri a m = to_deadline (m a)"

definition set_pri :: "nat \<Rightarrow> u64 \<Rightarrow> timeout_mem \<Rightarrow> timeout_mem" where
  "set_pri a pri m = m(a := (m a)\<lparr>to_deadline := pri\<rparr>)"

definition get_pos :: "nat \<Rightarrow> timeout_mem \<Rightarrow> nat" where
  "get_pos a m = to_pos (m a)"

definition set_pos :: "nat \<Rightarrow> nat \<Rightarrow> timeout_mem \<Rightarrow> timeout_mem" where
  "set_pos a pos m = m(a := (m a)\<lparr>to_pos := pos\<rparr>)"

definition timer_pq_ops :: "(nat, timeout_mem) pq_ops" where
  "timer_pq_ops = \<lparr>cmppri = cmp_pri, getpri = get_pri, setpri = set_pri, getpos = get_pos, setpos = set_pos\<rparr>"

section \<open>Operations\<close>

definition get_time :: "(nat \<Rightarrow> meson_timer_reg_t) \<Rightarrow> clock \<Rightarrow> u64 option" where
  "get_time vol c =
     (if \<not> ck_running c then Some 0
      else do { cassert (ck_regs c \<noteq> None); Some (read_timestamp vol) })"

definition is_timer_running :: "clock \<Rightarrow> bool" where
  "is_timer_running c = ck_running c"

definition set_timeout :: "bool \<Rightarrow> timeout_timebase_t \<Rightarrow> u16 \<Rightarrow> clock \<Rightarrow> clock option" where
  "set_timeout enable base count c = do {
     cassert (ck_regs c \<noteq> None);
     Some (c\<lparr>ck_dev := configure_timeout MESON_TIMER_A enable False base count (ck_dev c)\<rparr>) }"

definition delay_to_16 :: "u64 \<Rightarrow> delay" where
  "delay_to_16 us =
     (if drop_bit 16 us = 0 then \<lparr>start_count = ucast us, timer_base = TIMEOUT_TIMEBASE_1_US\<rparr>
      else
        let us = us div 10 in
        if drop_bit 16 us = 0 then \<lparr>start_count = ucast us, timer_base = TIMEOUT_TIMEBASE_10_US\<rparr>
        else
          let us = us div 10 in
          if drop_bit 16 us = 0 then \<lparr>start_count = ucast us, timer_base = TIMEOUT_TIMEBASE_100_US\<rparr>
          else
            let us = us div 10 in
            if drop_bit 16 us = 0 then \<lparr>start_count = ucast us, timer_base = TIMEOUT_TIMEBASE_1_MS\<rparr>
            else \<lparr>start_count = 0xffff, timer_base = TIMEOUT_TIMEBASE_1_MS\<rparr>)"

definition remove_timer :: "nat \<Rightarrow> clock \<Rightarrow> (int \<times> clock) option" where
  "remove_timer tid c =
     (case ck_timeouts c of
        None \<Rightarrow> Some (CLOCK_R_UINT, c)
      | Some T \<Rightarrow>
          if tid \<ge> ck_num c then Some (CLOCK_R_FAIL, c)
          else do {
            entry \<leftarrow> arr_get T tid;
            case entry of
              None \<Rightarrow> Some (CLOCK_R_FAIL, c)
            | Some a \<Rightarrow> do {
                q \<leftarrow> ck_queue c;
                cassert (ck_live c a);
                (success, q, m) \<leftarrow> pqueue_remove timer_pq_ops a q (ck_mem c);
                let c = c\<lparr>ck_queue := Some q, ck_mem := m\<rparr>;
                if success \<noteq> 0 then Some (CLOCK_R_FAIL, c)
                else Some (CLOCK_R_OK, c\<lparr>ck_live := (ck_live c)(a := False), ck_timeouts := Some (T[tid := None])\<rparr>) } })"

lemma remove_timer_num: "remove_timer tid c = Some (r, c') \<Longrightarrow> ck_num c' = ck_num c"
  by (auto simp: remove_timer_def Let_def elim!: c_elims split: option.splits if_splits)

function stop_loop :: "nat \<Rightarrow> clock \<Rightarrow> (int \<times> clock) option" where
  "stop_loop i c =
     (if i < ck_num c then do {
        T \<leftarrow> ck_timeouts c;
        entry \<leftarrow> arr_get T i;
        case entry of
          None \<Rightarrow> stop_loop (i + 1) c
        | Some a \<Rightarrow> do {
            cassert (ck_live c a);
            rc \<leftarrow> remove_timer (to_id (ck_mem c a)) c;
            if fst rc \<noteq> CLOCK_R_OK then Some (CLOCK_R_FAIL, snd rc)
            else stop_loop (i + 1) (snd rc) } }
      else Some (CLOCK_R_OK, c))"
  by pat_completeness auto
termination
  by (relation "measure (\<lambda>(i, c). ck_num c - i)") (auto dest: remove_timer_num)

declare stop_loop.simps [simp del]

definition stop_timer :: "clock \<Rightarrow> (int \<times> clock) option" where
  "stop_timer c =
     (if \<not> ck_running c then Some (CLOCK_R_OK, c)
      else do {
        let c = c\<lparr>ck_running := False\<rparr>;
        c \<leftarrow> set_timeout False TIMEOUT_TIMEBASE_1_MS 0 c;
        (r, c) \<leftarrow> stop_loop 0 c;
        if r \<noteq> CLOCK_R_OK then Some (CLOCK_R_FAIL, c)
        else do {
          cassert (ck_queue c \<noteq> None);
          Some (CLOCK_R_OK, c\<lparr>ck_timeouts := None, ck_queue := None, ck_regs := None, ck_num := 0\<rparr>) } })"

text \<open>The three flags are the answers to the allocations of the queue, its array and the table; \<open>junk\<close> is the
  initial content of the queue's array.\<close>

definition start_timer :: "bool \<Rightarrow> bool \<Rightarrow> bool \<Rightarrow> (nat \<Rightarrow> nat) \<Rightarrow> nat \<Rightarrow> clock \<Rightarrow> (int \<times> clock) option" where
  "start_timer ok_q ok_d ok_t junk timer_vaddr c = do {
     (ret, c) \<leftarrow> (if ck_running c then stop_timer c else Some (CLOCK_R_OK, c));
     if ret \<noteq> CLOCK_R_OK then Some (ret, c)
     else do {
       let c = c\<lparr>ck_regs := Some (timer_vaddr + TIMER_REG_START)\<rparr>;
       let c = c\<lparr>ck_dev := configure_timestamp TIMESTAMP_TIMEBASE_1_US (ck_dev c)\<rparr>;
       let c = c\<lparr>ck_dev := (ck_dev c)\<lparr>timer_e := 0\<rparr>\<rparr>;
       let c = c\<lparr>ck_queue := pqueue_init ok_q ok_d junk INITIAL_TIMEOUTS\<rparr>;
       if ck_queue c = None then do {
         (_, c) \<leftarrow> stop_timer c;
         Some (CLOCK_R_FAIL, c) }
       else if \<not> ok_t then do {
         (_, c) \<leftarrow> stop_timer (c\<lparr>ck_timeouts := None\<rparr>);
         Some (CLOCK_R_FAIL, c) }
       else Some (CLOCK_R_OK, c\<lparr>ck_timeouts := Some (replicate INITIAL_TIMEOUTS None),
         ck_num := INITIAL_TIMEOUTS, ck_running := True\<rparr>) } }"

fun find_slot :: "nat option list \<Rightarrow> nat \<Rightarrow> nat \<Rightarrow> nat option option" where
  "find_slot T i 0 = Some None"
| "find_slot T i (Suc n) = do {
     entry \<leftarrow> arr_get T i;
     if entry = None then Some (Some i) else find_slot T (i + 1) n }"

definition clk_peek :: "clock \<Rightarrow> nat option option" where
  "clk_peek c = (case ck_queue c of None \<Rightarrow> Some None | Some q \<Rightarrow> pqueue_peek q)"

definition clk_insert :: "bool \<Rightarrow> nat \<Rightarrow> clock \<Rightarrow> (int \<times> clock) option" where
  "clk_insert mem_ok a c =
     (case ck_queue c of
        None \<Rightarrow> Some (1, c)
      | Some q \<Rightarrow> do {
          (r, q, m) \<leftarrow> pqueue_insert timer_pq_ops mem_ok a q (ck_mem c);
          Some (r, c\<lparr>ck_queue := Some q, ck_mem := m\<rparr>) })"

text \<open>The answers of the allocator to \<open>register_timer\<close>: the address of the new node, whether the table and the
  queue can grow, and what the new entry of a grown table holds.\<close>

record register_mem =
  rm_node :: "nat option"
  rm_table :: bool
  rm_junk :: "nat option"
  rm_queue :: bool

definition grow_table :: "register_mem \<Rightarrow> clock \<Rightarrow> (nat option \<times> clock) option" where
  "grow_table rm c = do {
     T \<leftarrow> ck_timeouts c;
     slot \<leftarrow> find_slot T 0 (ck_num c);
     case slot of
       Some i \<Rightarrow> Some (Some i, c)
     | None \<Rightarrow>
         if \<not> rm_table rm then Some (None, c\<lparr>ck_timeouts := None\<rparr>)
         else do {
           cassert (ck_num c + 1 < 2 ^ 31);
           Some (Some (ck_num c), c\<lparr>ck_timeouts := Some (T @ [rm_junk rm]), ck_num := ck_num c + 1\<rparr>) } }"

definition register_timer ::
    "(nat \<Rightarrow> meson_timer_reg_t) \<Rightarrow> register_mem \<Rightarrow> u64 \<Rightarrow> nat \<Rightarrow> nat \<Rightarrow> clock \<Rightarrow> (nat \<times> clock) option" where
  "register_timer vol rm dly callback data c =
     (if \<not> ck_running c then Some (REGISTER_FAILED, c)
      else do {
        now \<leftarrow> get_time vol c;
        let timeout_timestamp = now + dly;
        if timeout_timestamp < now then Some (REGISTER_FAILED, c)
        else case rm_node rm of
          None \<Rightarrow> Some (REGISTER_FAILED, c)
        | Some a \<Rightarrow> do {
            let c = c\<lparr>ck_live := (ck_live c)(a := True),
              ck_mem := (ck_mem c)(a := (ck_mem c a)\<lparr>to_deadline := timeout_timestamp, to_callback := callback, to_data := data\<rparr>)\<rparr>;
            (slot, c) \<leftarrow> grow_table rm c;
            case slot of
              None \<Rightarrow> Some (REGISTER_FAILED, c)
            | Some i \<Rightarrow> do {
                let c = c\<lparr>ck_mem := (ck_mem c)(a := (ck_mem c a)\<lparr>to_id := i\<rparr>)\<rparr>;
                (success, c) \<leftarrow> clk_insert (rm_queue rm) a c;
                if success \<noteq> 0 then Some (REGISTER_FAILED, c\<lparr>ck_live := (ck_live c)(a := False)\<rparr>)
                else do {
                  T \<leftarrow> ck_timeouts c;
                  T \<leftarrow> arr_set T i (Some a);
                  let c = c\<lparr>ck_timeouts := Some T\<rparr>;
                  earliest \<leftarrow> clk_peek c;
                  c \<leftarrow> (case earliest of
                          None \<Rightarrow> Some c
                        | Some e \<Rightarrow>
                            if to_id (ck_mem c e) = to_id (ck_mem c a)
                            then let d = delay_to_16 (to_deadline (ck_mem c a) - now)
                                 in set_timeout True (timer_base d) (start_count d) c
                            else Some c);
                  Some (to_id (ck_mem c a), c) } } } })"

text \<open>A callback gets its identifier and data and acts on the driver and the rest of the system, \<open>'e\<close>.\<close>

type_synonym 'e timer_callbacks = "nat \<Rightarrow> nat \<Rightarrow> nat \<Rightarrow> clock \<times> 'e \<Rightarrow> (clock \<times> 'e) option"

partial_function (option) irq_loop ::
    "'e timer_callbacks \<Rightarrow> u64 \<Rightarrow> nat option \<Rightarrow> clock \<Rightarrow> 'e \<Rightarrow> (int \<times> nat option \<times> clock \<times> 'e) option" where
  "irq_loop cb now earliest c e =
     (case earliest of
        None \<Rightarrow> Some (CLOCK_R_OK, None, c, e)
      | Some a \<Rightarrow> do {
          cassert (ck_live c a);
          if to_deadline (ck_mem c a) \<le> now then do {
            (c, e) \<leftarrow> cb (to_callback (ck_mem c a)) (to_id (ck_mem c a)) (to_data (ck_mem c a)) (c, e);
            cassert (ck_live c a);
            (success, c) \<leftarrow> remove_timer (to_id (ck_mem c a)) c;
            if success \<noteq> CLOCK_R_OK then Some (CLOCK_R_FAIL, None, c, e)
            else do {
              earliest \<leftarrow> clk_peek c;
              irq_loop cb now earliest c e } }
          else Some (CLOCK_R_OK, Some a, c, e) })"

text \<open>\<open>ack\<close> is the system call that acknowledges the interrupt.\<close>

definition timer_irq ::
    "'e timer_callbacks \<Rightarrow> ('e \<Rightarrow> 'e) \<Rightarrow> (nat \<Rightarrow> meson_timer_reg_t) \<Rightarrow> clock \<Rightarrow> 'e \<Rightarrow> (int \<times> clock \<times> 'e) option" where
  "timer_irq cb ack vol c e =
     (if \<not> ck_running c then Some (CLOCK_R_UINT, c, e)
      else do {
        now \<leftarrow> get_time vol c;
        earliest \<leftarrow> clk_peek c;
        (r, earliest, c, e) \<leftarrow> irq_loop cb now earliest c e;
        if r \<noteq> CLOCK_R_OK then Some (CLOCK_R_FAIL, c, e)
        else do {
          c \<leftarrow> (case earliest of
                  Some a \<Rightarrow> let d = delay_to_16 (to_deadline (ck_mem c a) - now)
                            in set_timeout True (timer_base d) (start_count d) c
                | None \<Rightarrow> set_timeout False TIMEOUT_TIMEBASE_1_MS 0 c);
          Some (CLOCK_R_OK, c, ack e) } })"

end
