(* ===== verification/Timer_Clock_Proofs.thy ===== *)
theory Timer_Clock_Proofs
  imports Timer_Clock
begin

text \<open>
  The invariant of the clock driver and the behaviour of its operations. The laws of the queue's callbacks are
  discharged here for the callbacks of \<^verbatim>\<open>clock.c\<close>, so the lemmas on the queue apply to the driver.
\<close>

section \<open>The queue of the driver\<close>

lemmas pri_defs = timer_pq_ops_def cmp_pri_def get_pri_def set_pri_def get_pos_def set_pos_def

interpretation timer_pq: pq_callbacks timer_pq_ops
  by unfold_locales (auto simp: pri_defs)

lemma timer_ops_sel [simp]:
  "cmppri timer_pq_ops p r \<longleftrightarrow> r < p" "getpri timer_pq_ops a m = to_deadline (m a)"
  "getpos timer_pq_ops a m = to_pos (m a)"
  by (simp_all add: pri_defs)

text \<open>Two stores that differ in positions only.\<close>

definition same_fields :: "timeout_mem \<Rightarrow> timeout_mem \<Rightarrow> bool" where
  "same_fields m m' \<longleftrightarrow> (\<forall>a. to_id (m' a) = to_id (m a) \<and> to_deadline (m' a) = to_deadline (m a) \<and>
     to_callback (m' a) = to_callback (m a) \<and> to_data (m' a) = to_data (m a))"

lemma repos_same_fields:
  assumes "timer_pq.repos m m'"
  shows "same_fields m m'"
proof -
  have s: "(\<lambda>a. ((setpos timer_pq_ops x i s) a)\<lparr>to_pos := 0\<rparr>) = (\<lambda>a. (s a)\<lparr>to_pos := 0\<rparr>)" for x i s
    by (auto simp: pri_defs)
  from timer_pq.repos_obs [of m m' "\<lambda>m. (\<lambda>a. (m a)\<lparr>to_pos := 0\<rparr>)", OF assms s]
  have eq: "(m' a)\<lparr>to_pos := 0\<rparr> = (m a)\<lparr>to_pos := 0\<rparr>" for a by meson
  have "to_id ((m' a)\<lparr>to_pos := 0\<rparr>) = to_id ((m a)\<lparr>to_pos := 0\<rparr>)"
    "to_deadline ((m' a)\<lparr>to_pos := 0\<rparr>) = to_deadline ((m a)\<lparr>to_pos := 0\<rparr>)"
    "to_callback ((m' a)\<lparr>to_pos := 0\<rparr>) = to_callback ((m a)\<lparr>to_pos := 0\<rparr>)"
    "to_data ((m' a)\<lparr>to_pos := 0\<rparr>) = to_data ((m a)\<lparr>to_pos := 0\<rparr>)" for a
    by (simp_all only: eq)
  then show ?thesis by (simp add: same_fields_def)
qed

section \<open>The invariant\<close>

definition nodes :: "nat option list \<Rightarrow> nat set" where
  "nodes T = {a. Some a \<in> set T}"

definition indexed :: "(nat \<Rightarrow> bool) \<Rightarrow> timeout_mem \<Rightarrow> nat option list \<Rightarrow> bool" where
  "indexed live m T \<longleftrightarrow> (\<forall>i < length T. \<forall>a. T ! i = Some a \<longrightarrow> live a \<and> to_id (m a) = i)"

definition clock_up :: "clock \<Rightarrow> nat pqueue \<Rightarrow> nat option list \<Rightarrow> bool" where
  "clock_up c q T \<longleftrightarrow> ck_queue c = Some q \<and> ck_timeouts c = Some T \<and> ck_num c = length T \<and> length T < 2 ^ 31 \<and>
     ck_regs c \<noteq> None \<and> indexed (ck_live c) (ck_mem c) T \<and> timer_pq.pq_rep q (ck_mem c) (nodes T)"

definition clock_inv :: "clock \<Rightarrow> bool" where
  "clock_inv c \<longleftrightarrow> (if ck_running c then \<exists>q T. clock_up c q T else ck_timeouts c = None)"

lemma nodesI: "i < length T \<Longrightarrow> T ! i = Some a \<Longrightarrow> a \<in> nodes T"
  by (auto simp: nodes_def in_set_conv_nth)

lemma nodesE:
  assumes "a \<in> nodes T"
  obtains i where "i < length T" "T ! i = Some a"
  using assms by (auto simp: nodes_def in_set_conv_nth)

lemma nodes_insert: "i < length T \<Longrightarrow> T ! i = None \<Longrightarrow> nodes (T[i := Some a]) = insert a (nodes T)"
  by (auto simp: nodes_def in_set_conv_nth nth_list_update split: if_splits) (metis option.distinct(1))

lemma nodes_remove:
  assumes ix: "indexed live m T" and i: "i < length T" "T ! i = Some a"
  shows "nodes (T[i := None]) = nodes T - {a}"
proof (intro set_eqI iffI)
  fix b assume "b \<in> nodes (T[i := None])"
  then obtain j where j: "j < length T" "T[i := None] ! j = Some b" by (auto elim!: nodesE)
  then have "j \<noteq> i" "T ! j = Some b" using i by (auto simp: nth_list_update split: if_splits)
  moreover from this ix i j have "a \<noteq> b" unfolding indexed_def by blast
  ultimately show "b \<in> nodes T - {a}" using nodesI [of j T b] j by auto
next
  fix b assume b: "b \<in> nodes T - {a}"
  then obtain j where j: "j < length T" "T ! j = Some b" by (auto elim!: nodesE)
  then have "j \<noteq> i" using b i by auto
  then show "b \<in> nodes (T[i := None])" using nodesI [of j "T[i := None]" b] j by simp
qed

lemma indexed_remove:
  "indexed live m T \<Longrightarrow> i < length T \<Longrightarrow> T ! i = Some a \<Longrightarrow> same_fields m m' \<Longrightarrow>
    indexed (live(a := False)) m' (T[i := None])"
  unfolding indexed_def same_fields_def by (auto simp: nth_list_update split: if_splits) metis

section \<open>Removing\<close>

lemma remove_timer_up:
  assumes up: "clock_up c q T" and i: "i < length T" "T ! i = Some a"
  shows "\<exists>q' m'. remove_timer i c = Some (CLOCK_R_OK, c\<lparr>ck_queue := Some q', ck_mem := m',
        ck_live := (ck_live c)(a := False), ck_timeouts := Some (T[i := None])\<rparr>) \<and>
      clock_up (c\<lparr>ck_queue := Some q', ck_mem := m', ck_live := (ck_live c)(a := False),
        ck_timeouts := Some (T[i := None])\<rparr>) q' (T[i := None]) \<and> same_fields (ck_mem c) m'"
proof -
  have u: "ck_queue c = Some q" "ck_timeouts c = Some T" "ck_num c = length T"
    "indexed (ck_live c) (ck_mem c) T" "timer_pq.pq_rep q (ck_mem c) (nodes T)"
    using up by (simp_all add: clock_up_def)
  have live: "ck_live c a" using u(4) i by (simp add: indexed_def)
  obtain q' m' where r: "pqueue_remove timer_pq_ops a q (ck_mem c) = Some (0, q', m')"
    "timer_pq.pq_rep q' m' (nodes T - {a})" "timer_pq.repos (ck_mem c) m'"
    using timer_pq.pqueue_remove_ok [OF u(5) nodesI [OF i]] by blast
  have "remove_timer i c = Some (CLOCK_R_OK, c\<lparr>ck_queue := Some q', ck_mem := m',
      ck_live := (ck_live c)(a := False), ck_timeouts := Some (T[i := None])\<rparr>)"
    using u i live r(1) by (simp add: remove_timer_def arr_get_def)
  with up r indexed_remove [OF u(4) i repos_same_fields [OF r(3)]] nodes_remove [OF u(4) i] repos_same_fields [OF r(3)]
  show ?thesis by (auto simp: clock_up_def)
qed

lemma remove_timer_refused:
  assumes up: "clock_up c q T" and i: "length T \<le> i \<or> T ! i = None"
  shows "remove_timer i c = Some (CLOCK_R_FAIL, c)"
  using assms by (auto simp: remove_timer_def clock_up_def arr_get_def)

section \<open>Stopping\<close>

lemma stop_loop_up:
  assumes "clock_up c q T" "i \<le> length T" "\<forall>j < i. T ! j = None"
  shows "\<exists>c' q'. stop_loop i c = Some (CLOCK_R_OK, c') \<and> clock_up c' q' (replicate (length T) None) \<and>
    ck_running c' = ck_running c \<and> ck_dev c' = ck_dev c \<and> ck_live c' = (\<lambda>a. ck_live c a \<and> a \<notin> nodes T)"
  using assms
proof (induction "length T - i" arbitrary: i c q T)
  case 0
  then have n: "i = length T" "ck_num c = length T" by (simp_all add: clock_up_def)
  have T: "T = replicate (length T) None" using 0(4) n by (intro nth_equalityI) auto
  then have "nodes T = {}" unfolding nodes_def by (metis (no_types, lifting) Collect_empty_eq in_set_replicate option.distinct(1))
  with n T 0(2) show ?case by (subst stop_loop.simps) auto
next
  case (Suc n)
  have num: "ck_num c = length T" "ck_timeouts c = Some T" using Suc.prems(1) by (simp_all add: clock_up_def)
  have i: "i < length T" using Suc.hyps(2) by simp
  show ?case
  proof (cases "T ! i")
    case None
    have "\<forall>j < i + 1. T ! j = None" using Suc.prems(3) None less_Suc_eq by auto
    from Suc.hyps(1) [OF _ Suc.prems(1) _ this] Suc.hyps(2) i None num show ?thesis
      by (subst stop_loop.simps) (auto simp: arr_get_def)
  next
    case (Some a)
    obtain q' m' c' where r: "remove_timer i c = Some (CLOCK_R_OK, c')"
      "c' = c\<lparr>ck_queue := Some q', ck_mem := m', ck_live := (ck_live c)(a := False), ck_timeouts := Some (T[i := None])\<rparr>"
      "clock_up c' q' (T[i := None])"
      using remove_timer_up [OF Suc.prems(1) i Some] by blast
    have ix: "indexed (ck_live c) (ck_mem c) T" using Suc.prems(1) by (simp add: clock_up_def)
    then have a: "ck_live c a" "to_id (ck_mem c a) = i" using i Some by (simp_all add: indexed_def)
    have "\<forall>j < i + 1. T[i := None] ! j = None" using Suc.prems(3) i by (auto simp: nth_list_update less_Suc_eq)
    moreover have "n = length (T[i := None]) - (i + 1)" using Suc.hyps(2) by simp
    ultimately obtain c'' q'' where
      "stop_loop (i + 1) c' = Some (CLOCK_R_OK, c'')" "clock_up c'' q'' (replicate (length T) None)"
      "ck_running c'' = ck_running c'" "ck_dev c'' = ck_dev c'" "ck_live c'' = (\<lambda>b. ck_live c' b \<and> b \<notin> nodes (T[i := None]))"
      using Suc.hyps(1) [OF _ r(3), of "i + 1"] i by auto
    moreover from this(1) have "stop_loop i c = Some (CLOCK_R_OK, c'')"
      using i num Some a r(1) by (subst stop_loop.simps) (simp add: arr_get_def)
    ultimately show ?thesis using r(2) nodes_remove [OF ix i Some] nodesI [OF i Some] by auto
  qed
qed

lemma stop_timer_up:
  assumes up: "clock_up c q T" and run: "ck_running c"
  shows "\<exists>c'. stop_timer c = Some (CLOCK_R_OK, c') \<and> \<not> ck_running c' \<and> ck_timeouts c' = None \<and> ck_queue c' = None \<and>
    ck_dev c' = configure_timeout MESON_TIMER_A False False TIMEOUT_TIMEBASE_1_MS 0 (ck_dev c) \<and>
    ck_live c' = (\<lambda>a. ck_live c a \<and> a \<notin> nodes T)"
proof -
  let ?c = "c\<lparr>ck_running := False, ck_dev := configure_timeout MESON_TIMER_A False False TIMEOUT_TIMEBASE_1_MS 0 (ck_dev c)\<rparr>"
  have "clock_up ?c q T" "ck_regs c \<noteq> None" using up by (simp_all add: clock_up_def)
  from stop_loop_up [OF this(1), of 0] obtain c' q' where
    r: "stop_loop 0 ?c = Some (CLOCK_R_OK, c')" "clock_up c' q' (replicate (length T) None)"
      "ck_running c' = ck_running ?c" "ck_dev c' = ck_dev ?c" "ck_live c' = (\<lambda>a. ck_live ?c a \<and> a \<notin> nodes T)" by auto
  have "stop_timer c = Some (CLOCK_R_OK, c'\<lparr>ck_timeouts := None, ck_queue := None, ck_regs := None, ck_num := 0\<rparr>)"
    using run \<open>ck_regs c \<noteq> None\<close> r(1,2) by (simp add: stop_timer_def set_timeout_def clock_up_def)
  with r show ?thesis by simp
qed

section \<open>Registering\<close>

lemma find_slot_spec:
  "i + n = length T \<Longrightarrow> \<exists>r. find_slot T i n = Some r \<and>
    (case r of Some k \<Rightarrow> i \<le> k \<and> k < length T \<and> T ! k = None
     | None \<Rightarrow> \<forall>j. i \<le> j \<longrightarrow> j < length T \<longrightarrow> T ! j \<noteq> None)"
proof (induction n arbitrary: i)
  case (Suc n)
  then have i: "i < length T" "i + 1 + n = length T" by simp_all
  from Suc.IH [OF i(2)] obtain r where r: "find_slot T (i + 1) n = Some r"
    "case r of Some k \<Rightarrow> i + 1 \<le> k \<and> k < length T \<and> T ! k = None
     | None \<Rightarrow> \<forall>j. i + 1 \<le> j \<longrightarrow> j < length T \<longrightarrow> T ! j \<noteq> None" by blast
  show ?case
  proof (cases "T ! i = None")
    case True then show ?thesis using i by (simp add: arr_get_def)
  next
    case False
    have "T ! j \<noteq> None" if "r = None" "i \<le> j" "j < length T" for j
      using r(2) that False by (cases "j = i") auto
    with r False i show ?thesis by (auto simp: arr_get_def split: option.splits)
  qed
qed simp

lemma grow_table_up:
  assumes T: "ck_timeouts c = Some T" "ck_num c = length T" "length T < 2 ^ 31"
    and room: "None \<in> set T \<or> rm_table rm \<and> length T + 1 < 2 ^ 31"
  shows "\<exists>i T0 T2. grow_table rm c = Some (Some i, c\<lparr>ck_timeouts := Some T2, ck_num := length T2\<rparr>) \<and>
    (T0 = T \<or> T0 = T @ [None]) \<and> length T2 = length T0 \<and> length T0 < 2 ^ 31 \<and>
    i < length T0 \<and> T0 ! i = None \<and> (\<forall>x. T2[i := x] = T0[i := x])"
proof -
  obtain r where r: "find_slot T 0 (length T) = Some r" "case r of Some k \<Rightarrow> k < length T \<and> T ! k = None
     | None \<Rightarrow> \<forall>j < length T. T ! j \<noteq> None"
    using find_slot_spec [of 0 "length T" T] by (auto split: option.splits)
  show ?thesis
  proof (cases r)
    case (Some k)
    then have "grow_table rm c = Some (Some k, c\<lparr>ck_timeouts := Some T, ck_num := length T\<rparr>)"
      using r(1) T by (simp add: grow_table_def)
    with Some r(2) T show ?thesis by auto
  next
    case None
    then have "None \<notin> set T" using r(2) by (auto simp: in_set_conv_nth)
    with room have g: "rm_table rm" "length T + 1 < 2 ^ 31" by auto
    then have "grow_table rm c = Some (Some (length T), c\<lparr>ck_timeouts := Some (T @ [rm_junk rm]), ck_num := length (T @ [rm_junk rm])\<rparr>)"
      using r(1) None T by (simp add: grow_table_def)
    moreover have "\<forall>x. (T @ [rm_junk rm])[length T := x] = (T @ [None])[length T := x]" by simp
    moreover have "length T < length (T @ [None])" "(T @ [None]) ! length T = None" by simp_all
    ultimately show ?thesis using g(2)
      by (intro exI [of _ "length T"] exI [of _ "T @ [None]"] exI [of _ "T @ [rm_junk rm]"]) auto
  qed
qed

lemma indexed_insert:
  assumes "indexed live m T" "T0 = T \<or> T0 = T @ [None]" "i < length T0" "T0 ! i = None" "a \<notin> nodes T"
    and m: "to_id (m' a) = i" "\<And>b. b \<noteq> a \<Longrightarrow> to_id (m' b) = to_id (m b)"
  shows "indexed (live(a := True)) m' (T0[i := Some a])" "nodes T0 = nodes T"
proof -
  show n: "nodes T0 = nodes T" using assms(2) by (auto simp: nodes_def)
  have "indexed live m T0" using assms(1,2) by (auto simp: indexed_def nth_append less_Suc_eq split: if_splits)
  moreover have "b \<noteq> a" if "j < length T0" "T0 ! j = Some b" for j b using nodesI [OF that] n assms(5) by auto
  ultimately show "indexed (live(a := True)) m' (T0[i := Some a])"
    using assms(3,4) m unfolding indexed_def by (auto simp: nth_list_update split: if_splits)
qed

lemma register_timer_up:
  fixes vol dly defines "now \<equiv> read_timestamp vol"
  assumes up: "clock_up c q T" and run: "ck_running c" and ov: "\<not> now + dly < now"
    and a: "rm_node rm = Some a" "\<not> ck_live c a" and mem: "rm_queue rm"
    and room: "None \<in> set T \<or> rm_table rm \<and> length T + 1 < 2 ^ 31"
  shows "\<exists>i T0 q' c'. register_timer vol rm dly callback data c = Some (i, c') \<and>
    (T0 = T \<or> T0 = T @ [None]) \<and> i < length T0 \<and> T0 ! i = None \<and> clock_up c' q' (T0[i := Some a]) \<and> ck_running c' \<and>
    ck_live c' = (ck_live c)(a := True) \<and>
    same_fields ((ck_mem c)(a := \<lparr>to_id = i, to_deadline = now + dly, to_callback = callback, to_pos = 0, to_data = data\<rparr>)) (ck_mem c') \<and>
    ((\<forall>b \<in> nodes T. now + dly < to_deadline (ck_mem c b)) \<longrightarrow>
      ck_dev c' = configure_timeout MESON_TIMER_A True False (timer_base (delay_to_16 dly)) (start_count (delay_to_16 dly)) (ck_dev c)) \<and>
    ((\<exists>b \<in> nodes T. to_deadline (ck_mem c b) < now + dly) \<longrightarrow> ck_dev c' = ck_dev c)"
proof -
  define n0 where "n0 = (ck_mem c a)\<lparr>to_deadline := now + dly, to_callback := callback, to_data := data\<rparr>"
  define c1 where "c1 = c\<lparr>ck_live := (ck_live c)(a := True), ck_mem := (ck_mem c)(a := n0)\<rparr>"
  have u: "ck_queue c = Some q" "ck_timeouts c = Some T" "ck_num c = length T" "length T < 2 ^ 31" "ck_regs c \<noteq> None"
    "indexed (ck_live c) (ck_mem c) T" "timer_pq.pq_rep q (ck_mem c) (nodes T)"
    using up by (simp_all add: clock_up_def)
  have aT: "a \<notin> nodes T" using u(6) a(2) by (auto simp: indexed_def elim!: nodesE)
  obtain i T0 T2 where g: "grow_table rm c1 = Some (Some i, c1\<lparr>ck_timeouts := Some T2, ck_num := length T2\<rparr>)"
    "T0 = T \<or> T0 = T @ [None]" "length T2 = length T0" "length T0 < 2 ^ 31" "i < length T0" "T0 ! i = None"
    "\<And>x. T2[i := x] = T0[i := x]"
  proof -
    have "ck_timeouts c1 = Some T" "ck_num c1 = length T" using u by (simp_all add: c1_def)
    from grow_table_up [OF this u(4) room] that show thesis by blast
  qed
  define m2 where "m2 = (ck_mem c)(a := n0\<lparr>to_id := i\<rparr>)"
  have "timer_pq.pq_rep q m2 (nodes T)"
    by (rule timer_pq.pq_rep_cong [OF u(7)]) (use aT in \<open>auto simp: m2_def pri_defs\<close>)
  then obtain q' m' where ins: "pqueue_insert timer_pq_ops True a q m2 = Some (0, q', m')"
    "timer_pq.pq_rep q' m' (insert a (nodes T))" "timer_pq.repos m2 m'"
    using timer_pq.pqueue_insert_ok [OF _ aT, of q m2 True] by blast
  note sf = repos_same_fields [OF ins(3)]
  have f: "to_id (m' a) = i" "to_deadline (m' a) = now + dly" "\<And>b. b \<noteq> a \<Longrightarrow> to_id (m' b) = to_id (ck_mem c b)"
    "\<And>b. b \<noteq> a \<Longrightarrow> to_deadline (m' b) = to_deadline (ck_mem c b)"
    using sf by (simp_all add: same_fields_def m2_def n0_def)
  note ix = indexed_insert [OF u(6) g(2,5,6) aT f(1,3)]
  define c3 where "c3 = c\<lparr>ck_live := (ck_live c)(a := True), ck_mem := m', ck_queue := Some q',
    ck_timeouts := Some (T0[i := Some a]), ck_num := length T0\<rparr>"
  have up3: "clock_up c3 q' (T0[i := Some a])"
    using ix ins(2) u g(4) nodes_insert [OF g(5,6)] by (simp add: clock_up_def c3_def)
  obtain m where m: "pqueue_peek q' = Some (Some m)" "m \<in> insert a (nodes T)"
    "\<And>y. y \<in> insert a (nodes T) \<Longrightarrow> \<not> to_deadline (m' y) < to_deadline (m' m)"
    using timer_pq.pqueue_peek_ok [OF ins(2)] by auto
  have own: "to_id (m' m) = to_id (m' a) \<longleftrightarrow> m = a"
  proof
    assume e: "to_id (m' m) = to_id (m' a)"
    have nd: "nodes (T0[i := Some a]) = insert a (nodes T)" using nodes_insert [OF g(5,6)] ix(2) by simp
    from m(2) obtain j where j: "j < length T0" "T0[i := Some a] ! j = Some m" by (metis nd nodesE length_list_update)
    then have "to_id (m' m) = j" using ix(1) by (simp add: indexed_def)
    then show "m = a" using e f(1) j by simp
  qed simp
  let ?d = "delay_to_16 dly"
  define c4 where "c4 = (if m = a then c3\<lparr>ck_dev := configure_timeout MESON_TIMER_A True False (timer_base ?d) (start_count ?d) (ck_dev c)\<rparr> else c3)"
  have "register_timer vol rm dly callback data c = Some (i, c4)"
    using run u ov a mem g ins(1) m(1) own f(1,2) unfolding now_def [symmetric]
    by (simp add: register_timer_def get_time_def clk_insert_def clk_peek_def arr_set_def set_timeout_def Let_def
        c1_def c3_def c4_def n0_def m2_def now_def [symmetric])
  moreover have "clock_up c4 q' (T0[i := Some a])" using up3 by (simp add: clock_up_def c4_def)
  moreover have "ck_running c4" "ck_live c4 = (ck_live c)(a := True)" "ck_mem c4 = m'"
    using run by (simp_all add: c4_def c3_def)
  moreover have "ck_dev c4 = (if m = a then configure_timeout MESON_TIMER_A True False (timer_base ?d) (start_count ?d) (ck_dev c) else ck_dev c)"
    by (simp add: c4_def c3_def)
  moreover have "m = a" if "\<forall>b \<in> nodes T. now + dly < to_deadline (ck_mem c b)"
    using m(2) m(3) [of a] that f(2) f(4) [of m] by (cases "m = a") auto
  moreover have "m \<noteq> a" if "\<exists>b \<in> nodes T. to_deadline (ck_mem c b) < now + dly"
  proof
    assume "m = a"
    from that obtain b where b: "b \<in> nodes T" "to_deadline (ck_mem c b) < now + dly" by blast
    then show False using m(3) [of b] f(2) f(4) [of b] aT \<open>m = a\<close> by (cases "b = a") auto
  qed
  moreover have "same_fields ((ck_mem c)(a := \<lparr>to_id = i, to_deadline = now + dly, to_callback = callback, to_pos = 0, to_data = data\<rparr>)) m'"
    using sf by (simp add: same_fields_def m2_def n0_def)
  ultimately show ?thesis using g(2,5,6) by auto
qed

section \<open>Serving interrupts\<close>

text \<open>Callbacks that leave the driver alone, and what they do to the rest of the system.\<close>

definition quiet :: "'e timer_callbacks \<Rightarrow> (nat \<Rightarrow> nat \<Rightarrow> nat \<Rightarrow> 'e \<Rightarrow> 'e) \<Rightarrow> bool" where
  "quiet cb act \<longleftrightarrow> (\<forall>f i d c e. cb f i d (c, e) = Some (c, act f i d e))"

definition run_callbacks :: "(nat \<Rightarrow> nat \<Rightarrow> nat \<Rightarrow> 'e \<Rightarrow> 'e) \<Rightarrow> timeout_mem \<Rightarrow> nat list \<Rightarrow> 'e \<Rightarrow> 'e" where
  "run_callbacks act m as e = fold (\<lambda>a. act (to_callback (m a)) (to_id (m a)) (to_data (m a))) as e"

definition pending :: "u64 \<Rightarrow> timeout_mem \<Rightarrow> nat option \<Rightarrow> nat option" where
  "pending now m x = (case x of None \<Rightarrow> None | Some a \<Rightarrow> if to_deadline (m a) \<le> now then None else Some a)"

lemma pending_simps [simp]: "pending now m None = None"
  "pending now m (Some a) = (if to_deadline (m a) \<le> now then None else Some a)"
  by (simp_all add: pending_def)

lemma same_fields_cong:
  assumes "same_fields m m'"
  shows "run_callbacks act m' = run_callbacks act m" "pending now m' = pending now m"
  using assms unfolding run_callbacks_def pending_def same_fields_def by (auto simp: fun_eq_iff split: option.splits)

lemma finite_nodes: "finite (nodes T)"
proof -
  have "nodes T = {a. Some a \<in> set T}" by (simp add: nodes_def)
  also have "\<dots> \<subseteq> the ` set T" by force
  finally show ?thesis by (rule finite_subset) simp
qed

lemma clk_peek_up:
  assumes "clock_up c q T"
  obtains (none) "clk_peek c = Some None" "nodes T = {}"
  | (some) a where "clk_peek c = Some (Some a)" "a \<in> nodes T" "\<And>b. b \<in> nodes T \<Longrightarrow> to_deadline (ck_mem c a) \<le> to_deadline (ck_mem c b)"
proof -
  have "ck_queue c = Some q" "timer_pq.pq_rep q (ck_mem c) (nodes T)" using assms by (simp_all add: clock_up_def)
  with timer_pq.pqueue_peek_ok [OF this(2)] that show thesis
    by (auto simp: clk_peek_def not_less)
qed

text \<open>The outcome of the service loop at the state \<open>c\<close> with table \<open>T\<close>: the nodes \<open>as\<close> were served in order.\<close>

definition served :: "u64 \<Rightarrow> clock \<Rightarrow> nat option list \<Rightarrow> nat list \<Rightarrow> clock \<Rightarrow> bool" where
  "served now c T as c' \<longleftrightarrow>
     distinct as \<and> set as = {a \<in> nodes T. to_deadline (ck_mem c a) \<le> now} \<and>
     sorted (map (\<lambda>a. to_deadline (ck_mem c a)) as) \<and>
     (\<exists>q'. clock_up c' q' (map (pending now (ck_mem c)) T)) \<and> same_fields (ck_mem c) (ck_mem c') \<and>
     ck_running c' = ck_running c \<and> ck_dev c' = ck_dev c \<and> ck_live c' = (\<lambda>a. ck_live c a \<and> a \<notin> set as)"

lemma same_fields_trans: "same_fields m m' \<Longrightarrow> same_fields m' m'' \<Longrightarrow> same_fields m m''"
  by (simp add: same_fields_def)

lemma served_none:
  assumes up: "clock_up c q T" and late: "\<And>b. b \<in> nodes T \<Longrightarrow> now < to_deadline (ck_mem c b)"
  shows "served now c T [] c"
proof -
  have "map (pending now (ck_mem c)) T = T"
  proof (rule nth_equalityI)
    fix i assume "i < length (map (pending now (ck_mem c)) T)"
    then show "map (pending now (ck_mem c)) T ! i = T ! i"
      using late [OF nodesI [of i T]] by (cases "T ! i") (auto simp: not_le)
  qed simp
  then show ?thesis using up late by (auto simp: served_def same_fields_def not_le)
qed

lemma served_step:
  assumes up: "clock_up c q T" and i: "i < length T" "T ! i = Some a" and due: "to_deadline (ck_mem c a) \<le> now"
    and min: "\<And>b. b \<in> nodes T \<Longrightarrow> to_deadline (ck_mem c a) \<le> to_deadline (ck_mem c b)"
    and c': "c' = c\<lparr>ck_queue := Some q', ck_mem := m', ck_live := (ck_live c)(a := False), ck_timeouts := Some (T[i := None])\<rparr>"
    and sf: "same_fields (ck_mem c) m'" and rest: "served now c' (T[i := None]) as c''"
  shows "served now c T (a # as) c''"
proof -
  have ix: "indexed (ck_live c) (ck_mem c) T" using up by (simp add: clock_up_def)
  note nd = nodes_remove [OF ix i]
  have dl: "to_deadline (m' b) = to_deadline (ck_mem c b)" for b using sf by (simp add: same_fields_def)
  have pd: "pending now m' = pending now (ck_mem c)" by (rule same_fields_cong [OF sf])
  have "map (pending now (ck_mem c)) (T[i := None]) = map (pending now (ck_mem c)) T"
    using i due by (intro nth_equalityI) (auto simp: nth_list_update)
  with rest nodesI [OF i] due min same_fields_trans [OF sf] show ?thesis
    by (auto simp: served_def c' nd dl pd)
qed

lemma irq_loop_up:
  assumes cb: "quiet cb act"
  shows "clock_up c q T \<Longrightarrow> clk_peek c = Some x \<Longrightarrow>
    \<exists>as r c'. irq_loop cb now x c e = Some (CLOCK_R_OK, r, c', run_callbacks act (ck_mem c) as e) \<and>
      served now c T as c' \<and> clk_peek c' = Some r"
proof (induction "card (nodes T)" arbitrary: c q T x e rule: less_induct)
  case less
  note up = less.prems(1)
  have ix: "indexed (ck_live c) (ck_mem c) T" using up by (simp add: clock_up_def)
  from up show ?case
  proof (cases rule: clk_peek_up)
    case none
    then have "x = None" using less.prems(2) by simp
    moreover have "served now c T [] c" by (rule served_none [OF up]) (simp add: none)
    ultimately show ?thesis using less.prems(2)
      by (intro exI [of _ "[]"]) (subst irq_loop.simps, simp add: run_callbacks_def)
  next
    case (some a)
    then have x: "x = Some a" using less.prems(2) by simp
    from some(2) obtain i where i: "i < length T" "T ! i = Some a" by (rule nodesE)
    then have live: "ck_live c a" "to_id (ck_mem c a) = i" using ix by (simp_all add: indexed_def)
    show ?thesis
    proof (cases "to_deadline (ck_mem c a) \<le> now")
      case False
      have "served now c T [] c" by (rule served_none [OF up]) (use False some(3) in \<open>force simp: not_le\<close>)
      with False x live less.prems(2) show ?thesis
        by (intro exI [of _ "[]"]) (subst irq_loop.simps, simp add: run_callbacks_def)
    next
      case True
      obtain q' m' c' where c': "c' = c\<lparr>ck_queue := Some q', ck_mem := m', ck_live := (ck_live c)(a := False), ck_timeouts := Some (T[i := None])\<rparr>"
        and r: "remove_timer i c = Some (CLOCK_R_OK, c')" "clock_up c' q' (T[i := None])" "same_fields (ck_mem c) m'"
        using remove_timer_up [OF up i] by blast
      have "card (nodes (T[i := None])) < card (nodes T)"
        unfolding nodes_remove [OF ix i] by (rule card_Diff1_less [OF finite_nodes some(2)])
      moreover obtain y where y: "clk_peek c' = Some y" using r(2) by (cases rule: clk_peek_up) auto
      ultimately obtain as z c'' where l: "irq_loop cb now y c' (run_callbacks act (ck_mem c) [a] e) =
          Some (CLOCK_R_OK, z, c'', run_callbacks act (ck_mem c') as (run_callbacks act (ck_mem c) [a] e))"
        "served now c' (T[i := None]) as c''" "clk_peek c'' = Some z"
        using less.hyps [OF _ r(2), of y "run_callbacks act (ck_mem c) [a] e"] by blast
      have "run_callbacks act (ck_mem c') = run_callbacks act (ck_mem c)"
        using same_fields_cong(1) [OF r(3)] by (simp add: c')
      then have "irq_loop cb now x c e = Some (CLOCK_R_OK, z, c'', run_callbacks act (ck_mem c) (a # as) e)"
        using l(1) x True live r(1) y cb by (subst irq_loop.simps) (simp add: quiet_def run_callbacks_def)
      with l(3) served_step [OF up i True some(3) c' r(3) l(2)] show ?thesis by blast
    qed
  qed
qed

end
