(* ===== verification/Timer_Spec.thy ===== *)
theory Timer_Spec
  imports Timer_Clock_Proofs
begin

text \<open>
  What the clock driver promises: the conversion of delays, registering, removing and serving timeouts, stopping,
  and an invariant of every history of calls. The states at the start serve as concrete instances.
\<close>

section \<open>A concrete driver\<close>

definition ex_regs :: meson_timer_reg_t where
  "ex_regs = \<lparr>mux = 0, timer_a = 0, timer_b = 0, timer_c = 0, timer_d = 0, timer_e = 500, timer_e_hi = 0\<rparr>"

definition ex_clock0 :: clock where
  "ex_clock0 = \<lparr>ck_regs = None, ck_dev = ex_regs, ck_queue = None, ck_timeouts = None, ck_num = 0, ck_running = False,
     ck_mem = (\<lambda>_. \<lparr>to_id = 0, to_deadline = 0, to_callback = 0, to_pos = 0, to_data = 0\<rparr>), ck_live = (\<lambda>_. False)\<rparr>"

definition ex_clock1 :: clock where
  "ex_clock1 = \<lparr>ck_regs = Some 0x1940, ck_dev = ex_regs,
     ck_queue = Some \<lparr>pq_size = 2, pq_avail = 11, pq_step = 11, pq_d = (\<lambda>_. 7)\<rparr>,
     ck_timeouts = Some [None, Some 7], ck_num = 2, ck_running = True,
     ck_mem = (\<lambda>_. \<lparr>to_id = 1, to_deadline = 400, to_callback = 3, to_pos = 1, to_data = 5\<rparr>), ck_live = (\<lambda>a. a = 7)\<rparr>"

lemma ex_clock1_up: "clock_up ex_clock1 \<lparr>pq_size = 2, pq_avail = 11, pq_step = 11, pq_d = (\<lambda>_. 7)\<rparr> [None, Some 7]"
proof -
  have I: "{Suc 0..<2} = {Suc 0}" by auto
  have nd: "nodes [None, Some 7] = {7}" by (auto simp: nodes_def)
  have ix: "indexed (ck_live ex_clock1) (ck_mem ex_clock1) [None, Some 7]"
    by (simp add: indexed_def ex_clock1_def nth_Cons')
  have "timer_pq.pq_rep \<lparr>pq_size = 2, pq_avail = 11, pq_step = 11, pq_d = (\<lambda>_. 7)\<rparr> (ck_mem ex_clock1) {7}"
    by (simp add: timer_pq.pq_rep_def timer_pq.heap_def timer_pq.positions_def I ex_clock1_def)
  then show ?thesis using ix by (simp add: clock_up_def nd) (simp add: ex_clock1_def)
qed

text \<open>The same with a full table.\<close>

definition ex_clock2 :: clock where
  "ex_clock2 = ex_clock1\<lparr>ck_timeouts := Some [Some 7], ck_num := 1, ck_mem := (\<lambda>a. (ck_mem ex_clock1 a)\<lparr>to_id := 0\<rparr>)\<rparr>"

lemma ex_clock2_up: "clock_up ex_clock2 \<lparr>pq_size = 2, pq_avail = 11, pq_step = 11, pq_d = (\<lambda>_. 7)\<rparr> [Some 7]"
proof -
  have I: "{Suc 0..<2} = {Suc 0}" by auto
  have nd: "nodes [Some 7] = {7}" by (auto simp: nodes_def)
  have "timer_pq.pq_rep \<lparr>pq_size = 2, pq_avail = 11, pq_step = 11, pq_d = (\<lambda>_. 7)\<rparr> (ck_mem ex_clock2) {7}"
    by (simp add: timer_pq.pq_rep_def timer_pq.heap_def timer_pq.positions_def I ex_clock2_def ex_clock1_def)
  then show ?thesis by (simp add: clock_up_def nd) (simp add: ex_clock2_def ex_clock1_def indexed_def)
qed

lemma ex_now: "read_timestamp (\<lambda>_. ex_regs) = 500"
  by (simp add: read_timestamp_def ex_regs_def mask_eq_exp_minus_1)

section \<open>Delays\<close>

fun timebase_us :: "timeout_timebase_t \<Rightarrow> nat" where
  "timebase_us TIMEOUT_TIMEBASE_1_US = 1"
| "timebase_us TIMEOUT_TIMEBASE_10_US = 10"
| "timebase_us TIMEOUT_TIMEBASE_100_US = 100"
| "timebase_us TIMEOUT_TIMEBASE_1_MS = 1000"

lemma high_bits_zero: "drop_bit 16 (w :: u64) = 0 \<longleftrightarrow> unat w < 2 ^ 16"
proof -
  have "drop_bit 16 w = 0 \<longleftrightarrow> unat (drop_bit 16 w) = 0" by (simp add: unat_eq_0)
  also have "unat (drop_bit 16 w) = unat w div 2 ^ 16" by (simp add: drop_bit_eq_div unat_div)
  finally show ?thesis by (simp add: div_eq_0_iff)
qed

lemma unat_low16: "unat w < 2 ^ 16 \<Longrightarrow> unat (ucast (w :: u64) :: u16) = unat w"
  by (simp add: unsigned_ucast_eq take_bit_nat_eq_self)

lemma delay_to_16_eq:
  fixes us defines "n \<equiv> unat us"
  shows "(unat (start_count (delay_to_16 us)), timer_base (delay_to_16 us)) =
    (if n < 2 ^ 16 then (n, TIMEOUT_TIMEBASE_1_US)
     else if n div 10 < 2 ^ 16 then (n div 10, TIMEOUT_TIMEBASE_10_US)
     else if n div 100 < 2 ^ 16 then (n div 100, TIMEOUT_TIMEBASE_100_US)
     else if n div 1000 < 2 ^ 16 then (n div 1000, TIMEOUT_TIMEBASE_1_MS)
     else (65535, TIMEOUT_TIMEBASE_1_MS))"
proof -
  have dd: "n div 10 div 10 = n div 100" "n div 100 div 10 = n div 1000" by (simp_all add: div_mult2_eq [symmetric])
  have u1: "unat (us div 10) = n div 10" by (simp add: n_def unat_div)
  have u2: "unat (us div 10 div 10) = n div 100" by (simp add: n_def unat_div div_mult2_eq [symmetric])
  have u3: "unat (us div 10 div 10 div 10) = n div 1000" by (simp only: unat_div [of "us div 10 div 10"] u2) (simp add: dd)
  show ?thesis
    unfolding delay_to_16_def Let_def high_bits_zero u1 u2 u3 n_def [symmetric]
    using unat_low16 [of us] unat_low16 [of "us div 10"] unat_low16 [of "us div 10 div 10"] unat_low16 [of "us div 10 div 10 div 10"]
    unfolding u1 u2 u3 n_def [symmetric] by simp
qed

text \<open>Converting a delay to a 16-bit count never asks for more than the delay, so the device never fires late;
  a positive delay gives a positive count, so waiting makes progress; and below the longest delay the device
  can count (65.536 seconds) the error is less than one tick.\<close>

theorem delay_to_16_sound:
  "let d = delay_to_16 us; ticks = unat (start_count d); unit = timebase_us (timer_base d) in
     ticks * unit \<le> unat us \<and> (us \<noteq> 0 \<longrightarrow> 0 < ticks) \<and> (unat us < 65536000 \<longrightarrow> unat us < (ticks + 1) * unit)"
proof -
  define n t b where n: "n = unat us" and t: "t = unat (start_count (delay_to_16 us))" and b: "b = timer_base (delay_to_16 us)"
  have z: "us \<noteq> 0 \<longleftrightarrow> 0 < n" by (simp add: n unat_gt_0)
  have "(t, b) = (if n < 2 ^ 16 then (n, TIMEOUT_TIMEBASE_1_US)
     else if n div 10 < 2 ^ 16 then (n div 10, TIMEOUT_TIMEBASE_10_US)
     else if n div 100 < 2 ^ 16 then (n div 100, TIMEOUT_TIMEBASE_100_US)
     else if n div 1000 < 2 ^ 16 then (n div 1000, TIMEOUT_TIMEBASE_1_MS)
     else (65535, TIMEOUT_TIMEBASE_1_MS))"
    using delay_to_16_eq [of us] by (simp only: n t b)
  then have "t * timebase_us b \<le> n \<and> (0 < n \<longrightarrow> 0 < t) \<and> (n < 65536000 \<longrightarrow> n < (t + 1) * timebase_us b)"
    by (simp split: if_splits) linarith+
  then show ?thesis unfolding Let_def z unfolding n t b .
qed

theorem delay_to_16_sound_witness:
  "0 < unat (start_count (delay_to_16 70000)) \<and>
   70000 < (unat (start_count (delay_to_16 70000)) + 1) * timebase_us (timer_base (delay_to_16 70000))"
  using delay_to_16_sound [of 70000] unfolding Let_def by simp

section \<open>Histories\<close>

definition registered :: "clock \<Rightarrow> nat set" where
  "registered c = (case ck_timeouts c of None \<Rightarrow> {} | Some T \<Rightarrow> nodes T)"

lemma ex_registered: "registered ex_clock1 = {7}" "to_id (ck_mem ex_clock1 a) = 1"
  by (auto simp: registered_def nodes_def ex_clock1_def)

text \<open>What the driver needs of the allocator to register: a node that is not in use, and room to grow.\<close>

definition good_mem :: "register_mem \<Rightarrow> clock \<Rightarrow> bool" where
  "good_mem rm c \<longleftrightarrow> (\<forall>a. rm_node rm = Some a \<longrightarrow> \<not> ck_live c a) \<and> rm_table rm \<and> rm_queue rm \<and> ck_num c + 1 < 2 ^ 31"

inductive clock_step :: "clock \<times> 'e \<Rightarrow> clock \<times> 'e \<Rightarrow> bool" where
  start: "start_timer ok_q ok_d ok_t junk v c = Some (r, c') \<Longrightarrow> clock_step (c, e) (c', e)"
| stop: "stop_timer c = Some (r, c') \<Longrightarrow> clock_step (c, e) (c', e)"
| register: "register_timer vol rm dly f x c = Some (i, c') \<Longrightarrow> good_mem rm c \<Longrightarrow> clock_step (c, e) (c', e)"
| remove: "remove_timer i c = Some (r, c') \<Longrightarrow> clock_step (c, e) (c', e)"
| irq: "timer_irq cb ack vol c e = Some (r, c', e') \<Longrightarrow> quiet cb act \<Longrightarrow> clock_step (c, e) (c', e')"

inductive reachable :: "clock \<times> 'e \<Rightarrow> bool" where
  boot: "\<not> ck_running c \<Longrightarrow> ck_timeouts c = None \<Longrightarrow> reachable (c, e)"
| step: "reachable s \<Longrightarrow> clock_step s s' \<Longrightarrow> reachable s'"

lemma clock_inv_up: "clock_up c q T \<Longrightarrow> clock_inv c \<longleftrightarrow> ck_running c"
  by (auto simp: clock_inv_def clock_up_def)

lemma start_fresh:
  assumes "\<not> ck_running c" "ck_timeouts c = None"
  shows "\<exists>r c'. start_timer ok_q ok_d ok_t junk v c = Some (r, c') \<and> clock_inv c' \<and> (r = CLOCK_R_OK \<longrightarrow> ck_running c' \<and> registered c' = {})"
proof -
  let ?q = "\<lparr>pq_size = 1, pq_avail = 11, pq_step = 11, pq_d = junk\<rparr>"
  have pq: "timer_pq.pq_rep ?q m {}" for m
    by (rule timer_pq.pq_rep_init [of junk 10]) (simp add: pqueue_init_def)
  have nd: "nodes (replicate INITIAL_TIMEOUTS None) = {}" by (auto simp: nodes_def)
  show ?thesis
  proof (cases "ok_q \<and> ok_d \<and> ok_t")
    case True
    define c' where "c' = c\<lparr>ck_regs := Some (v + TIMER_REG_START),
      ck_dev := (configure_timestamp TIMESTAMP_TIMEBASE_1_US (ck_dev c))\<lparr>timer_e := 0\<rparr>, ck_queue := Some ?q,
      ck_timeouts := Some (replicate INITIAL_TIMEOUTS None), ck_num := INITIAL_TIMEOUTS, ck_running := True\<rparr>"
    have "start_timer ok_q ok_d ok_t junk v c = Some (CLOCK_R_OK, c')"
      using True assms by (simp add: start_timer_def pqueue_init_def c'_def INITIAL_TIMEOUTS_def Let_def)
    moreover have "clock_up c' ?q (replicate INITIAL_TIMEOUTS None)"
      using pq nd by (simp add: clock_up_def c'_def indexed_def INITIAL_TIMEOUTS_def)
    ultimately show ?thesis using nd by (auto simp: clock_inv_def registered_def c'_def)
  next
    case False
    have "\<exists>c'. start_timer ok_q ok_d ok_t junk v c = Some (CLOCK_R_FAIL, c') \<and> \<not> ck_running c' \<and> ck_timeouts c' = None"
      using False assms by (auto simp: start_timer_def pqueue_init_def stop_timer_def Let_def)
    then obtain c' where c': "start_timer ok_q ok_d ok_t junk v c = Some (CLOCK_R_FAIL, c')" "\<not> ck_running c'"
      "ck_timeouts c' = None" by blast
    then have "clock_inv c'" by (simp add: clock_inv_def)
    with c'(1) show ?thesis by (auto simp: CLOCK_R_OK_def CLOCK_R_FAIL_def)
  qed
qed

lemma stop_inv:
  assumes "clock_inv c"
  shows "\<exists>c'. stop_timer c = Some (CLOCK_R_OK, c') \<and> clock_inv c' \<and> \<not> ck_running c' \<and> ck_timeouts c' = None"
proof (cases "ck_running c")
  case True
  then obtain q T where up: "clock_up c q T" using assms by (auto simp: clock_inv_def)
  show ?thesis using stop_timer_up [OF up True] by (auto simp: clock_inv_def)
qed (use assms in \<open>auto simp: stop_timer_def clock_inv_def\<close>)

lemma start_inv:
  assumes "clock_inv c"
  shows "\<exists>r c'. start_timer ok_q ok_d ok_t junk v c = Some (r, c') \<and> clock_inv c' \<and> (r = CLOCK_R_OK \<longrightarrow> ck_running c' \<and> registered c' = {})"
proof -
  obtain c1 where c1: "stop_timer c = Some (CLOCK_R_OK, c1)" "\<not> ck_running c1" "ck_timeouts c1 = None"
    using stop_inv [OF assms] by blast
  show ?thesis
  proof (cases "ck_running c")
    case True
    then have "start_timer ok_q ok_d ok_t junk v c = start_timer ok_q ok_d ok_t junk v c1"
      using c1 by (simp add: start_timer_def)
    then show ?thesis using start_fresh [OF c1(2,3)] by simp
  next
    case False
    then show ?thesis using start_fresh [OF False] assms by (simp add: clock_inv_def)
  qed
qed

lemma remove_inv:
  assumes "clock_inv c"
  shows "\<exists>r c'. remove_timer i c = Some (r, c') \<and> clock_inv c'"
proof (cases "ck_running c")
  case True
  then obtain q T where up: "clock_up c q T" using assms by (auto simp: clock_inv_def)
  show ?thesis
  proof (cases "i < length T \<and> T ! i \<noteq> None")
    case False
    then show ?thesis using remove_timer_refused [OF up, of i] assms by (auto simp: not_less)
  next
    case t: True
    then obtain a where a: "i < length T" "T ! i = Some a" by auto
    obtain c' q' where "remove_timer i c = Some (CLOCK_R_OK, c')" "clock_up c' q' (T[i := None])" "ck_running c' = ck_running c"
      using remove_timer_up [OF up a] by fastforce
    with True show ?thesis by (auto simp: clock_inv_up)
  qed
qed (use assms in \<open>auto simp: remove_timer_def clock_inv_def\<close>)

lemma register_inv:
  assumes "clock_inv c" "good_mem rm c"
  shows "\<exists>i c'. register_timer vol rm dly f x c = Some (i, c') \<and> clock_inv c'"
proof (cases "ck_running c \<and> \<not> read_timestamp vol + dly < read_timestamp vol \<and> rm_node rm \<noteq> None")
  case True
  then obtain q T a where up: "clock_up c q T" and a: "rm_node rm = Some a" using assms(1) by (auto simp: clock_inv_def)
  have "\<not> ck_live c a" "rm_queue rm" "None \<in> set T \<or> rm_table rm \<and> length T + 1 < 2 ^ 31"
    using assms(2) a up by (simp_all add: good_mem_def clock_up_def)
  with register_timer_up [OF up, of vol dly rm a f x] True a show ?thesis
    unfolding clock_inv_def by metis
next
  case False
  have "ck_running c \<Longrightarrow> ck_regs c \<noteq> None" using assms(1) by (auto simp: clock_inv_def clock_up_def)
  with False assms(1) show ?thesis by (auto simp: register_timer_def get_time_def Let_def)
qed

lemma timer_irq_up:
  assumes cb: "quiet cb act" and up: "clock_up c q T" and run: "ck_running c"
  shows "\<exists>as c1 c' r. timer_irq cb ack vol c e = Some (CLOCK_R_OK, c', ack (run_callbacks act (ck_mem c) as e)) \<and>
    served (read_timestamp vol) c T as c1 \<and> clk_peek c1 = Some r \<and>
    c' = c1\<lparr>ck_dev := (case r of
        None \<Rightarrow> configure_timeout MESON_TIMER_A False False TIMEOUT_TIMEBASE_1_MS 0 (ck_dev c)
      | Some a \<Rightarrow> let d = delay_to_16 (to_deadline (ck_mem c a) - read_timestamp vol)
                  in configure_timeout MESON_TIMER_A True False (timer_base d) (start_count d) (ck_dev c))\<rparr>"
proof -
  let ?now = "read_timestamp vol"
  obtain x where x: "clk_peek c = Some x" using up by (cases rule: clk_peek_up) auto
  from irq_loop_up [OF cb up x, of ?now e] obtain as r c1 where
    l: "irq_loop cb ?now x c e = Some (CLOCK_R_OK, r, c1, run_callbacks act (ck_mem c) as e)"
      "served ?now c T as c1" "clk_peek c1 = Some r" by blast
  have c1: "ck_dev c1 = ck_dev c" "ck_regs c1 \<noteq> None" "\<And>a. to_deadline (ck_mem c1 a) = to_deadline (ck_mem c a)"
    using l(2) by (auto simp: served_def clock_up_def same_fields_def)
  have "ck_regs c \<noteq> None" using up by (simp add: clock_up_def)
  then have "timer_irq cb ack vol c e = Some (CLOCK_R_OK, c1\<lparr>ck_dev := (case r of
        None \<Rightarrow> configure_timeout MESON_TIMER_A False False TIMEOUT_TIMEBASE_1_MS 0 (ck_dev c)
      | Some a \<Rightarrow> let d = delay_to_16 (to_deadline (ck_mem c a) - ?now)
                  in configure_timeout MESON_TIMER_A True False (timer_base d) (start_count d) (ck_dev c))\<rparr>,
      ack (run_callbacks act (ck_mem c) as e))"
    using run x l(1) c1 by (cases r) (simp_all add: timer_irq_def get_time_def set_timeout_def Let_def)
  with l(2,3) show ?thesis by blast
qed

lemma irq_inv:
  assumes "clock_inv c" "quiet cb act"
  shows "\<exists>r c' e'. timer_irq cb ack vol c e = Some (r, c', e') \<and> clock_inv c'"
proof (cases "ck_running c")
  case True
  then obtain q T where up: "clock_up c q T" using assms by (auto simp: clock_inv_def)
  from timer_irq_up [OF assms(2) up True, of ack vol e] True show ?thesis
    by (fastforce simp: served_def clock_inv_def clock_up_def)
qed (use assms in \<open>auto simp: timer_irq_def clock_inv_def\<close>)

lemma step_inv: "clock_step s s' \<Longrightarrow> clock_inv (fst s) \<Longrightarrow> clock_inv (fst s')"
proof (induction rule: clock_step.induct)
  case (start ok_q ok_d ok_t junk v c) then show ?case using start_inv [of c ok_q ok_d ok_t junk v] by auto
next
  case (stop c) then show ?case using stop_inv [of c] by auto
next
  case (register vol rm dly f x c) then show ?case using register_inv [of c rm vol dly f x] by auto
next
  case (remove i c) then show ?case using remove_inv [of c i] by auto
next
  case (irq cb ack vol c e r c' e' act) then show ?case using irq_inv [of c cb act ack vol e] by auto
qed

lemma reachable_inv: "reachable s \<Longrightarrow> clock_inv (fst s)"
proof (induction rule: reachable.induct)
  case (boot c) then show ?case by (simp add: clock_inv_def)
qed (rule step_inv)

section \<open>Properties\<close>





text \<open>Removing by identifier from a running driver succeeds exactly when the identifier names a registered timeout,
  and then unregisters and frees that timeout and no other; otherwise it reports failure and changes
  nothing.\<close>

theorem remove_timer_by_id:
  assumes "clock_inv c" "ck_running c"
  shows "(\<exists>a \<in> registered c. to_id (ck_mem c a) = i \<and>
      (\<exists>c'. remove_timer i c = Some (CLOCK_R_OK, c') \<and> clock_inv c' \<and> registered c' = registered c - {a} \<and>
        ck_live c' = (ck_live c)(a := False) \<and> (\<forall>b. to_deadline (ck_mem c' b) = to_deadline (ck_mem c b)))) \<or>
    ((\<forall>a \<in> registered c. to_id (ck_mem c a) \<noteq> i) \<and> remove_timer i c = Some (CLOCK_R_FAIL, c))"
proof -
  obtain q T where up: "clock_up c q T" using assms by (auto simp: clock_inv_def)
  have ix: "indexed (ck_live c) (ck_mem c) T" and reg: "registered c = nodes T"
    using up by (simp_all add: clock_up_def registered_def)
  have named: "i < length T \<and> T ! i = Some a \<longleftrightarrow> a \<in> nodes T \<and> to_id (ck_mem c a) = i" for a
    using ix nodesI [of i T a] by (auto simp: indexed_def elim!: nodesE)
  show ?thesis
  proof (cases "i < length T \<and> T ! i \<noteq> None")
    case True
    then obtain a where a: "i < length T" "T ! i = Some a" by auto
    obtain c' q' where "remove_timer i c = Some (CLOCK_R_OK, c')" "clock_up c' q' (T[i := None])"
      "ck_running c' = ck_running c" "ck_live c' = (ck_live c)(a := False)" "same_fields (ck_mem c) (ck_mem c')"
      using remove_timer_up [OF up a] by fastforce
    moreover from this have "registered c' = nodes T - {a}" "clock_inv c'"
      using assms(2) nodes_remove [OF ix a] by (auto simp: registered_def clock_up_def clock_inv_up [of c' q' "T[i := None]"])
    ultimately show ?thesis using named [of a] a unfolding reg same_fields_def by blast
  next
    case False
    then have "length T \<le> i \<or> T ! i = None" by (auto simp: not_less)
    with remove_timer_refused [OF up this] False named show ?thesis unfolding reg by blast
  qed
qed

theorem remove_timer_by_id_witness:
  "\<exists>c'. remove_timer 1 ex_clock1 = Some (CLOCK_R_OK, c') \<and> registered c' = {}"
proof -
  have "clock_inv ex_clock1" "ck_running ex_clock1" using ex_clock1_up by (auto simp: clock_inv_def ex_clock1_def)
  from remove_timer_by_id [OF this, of 1] show ?thesis unfolding ex_registered by auto
qed



text \<open>Stopping frees every registered timeout, drops the queue and the table and switches the device timer off;
  starting again after that gives an empty running driver when memory is available.\<close>

theorem stop_then_start:
  assumes "clock_inv c" "ck_running c"
  shows "\<exists>c1. stop_timer c = Some (CLOCK_R_OK, c1) \<and> \<not> ck_running c1 \<and> registered c1 = {} \<and>
    (\<forall>a \<in> registered c. \<not> ck_live c1 a) \<and> \<not> bit (mux (ck_dev c1)) (enable_bit (timeouts MESON_TIMER_A)) \<and>
    (\<exists>r c2. start_timer ok_q ok_d ok_t junk v c1 = Some (r, c2) \<and> clock_inv c2 \<and>
      (r = CLOCK_R_OK \<longrightarrow> ck_running c2 \<and> registered c2 = {}))"
proof -
  obtain q T where up: "clock_up c q T" using assms by (auto simp: clock_inv_def)
  have reg: "registered c = nodes T" using up by (simp add: clock_up_def registered_def)
  obtain c1 where c1: "stop_timer c = Some (CLOCK_R_OK, c1)" "\<not> ck_running c1" "ck_timeouts c1 = None"
    "ck_dev c1 = configure_timeout MESON_TIMER_A False False TIMEOUT_TIMEBASE_1_MS 0 (ck_dev c)"
    "ck_live c1 = (\<lambda>a. ck_live c a \<and> a \<notin> nodes T)"
    using stop_timer_up [OF up assms(2)] by blast
  have "\<not> bit (mux (ck_dev c1)) (enable_bit (timeouts MESON_TIMER_A))"
    unfolding c1(4) bit_configured by simp
  moreover have "registered c1 = {}" using c1(3) by (simp add: registered_def)
  ultimately show ?thesis using c1 start_fresh [OF c1(2,3)] reg by simp
qed

theorem stop_then_start_witness:
  "\<exists>c1. stop_timer ex_clock1 = Some (CLOCK_R_OK, c1) \<and> \<not> ck_live c1 7"
proof -
  have "clock_inv ex_clock1" "ck_running ex_clock1" using ex_clock1_up by (auto simp: clock_inv_def ex_clock1_def)
  moreover have "7 \<in> registered ex_clock1" by (simp add: registered_def nodes_def ex_clock1_def)
  ultimately show ?thesis using stop_then_start by blast
qed

text \<open>C11. When the table is full and cannot grow, registering fails but loses the table: the pointer is overwritten with
  the failed allocation's null, the new node is neither freed nor registered, and the next call that gets a
  node dereferences the null table.\<close>

theorem register_timer_loses_table:
  assumes up: "clock_inv c" "ck_running c" "ck_timeouts c = Some T" "None \<notin> set T"
    and "\<not> rm_table rm" "rm_node rm = Some a" "\<not> read_timestamp vol + dly < read_timestamp vol"
  shows "\<exists>c'. register_timer vol rm dly f x c = Some (REGISTER_FAILED, c') \<and> ck_running c' \<and> ck_timeouts c' = None \<and>
    ck_live c' a \<and> registered c' = {} \<and>
    (\<forall>rm'. rm_node rm' \<noteq> None \<longrightarrow> register_timer vol rm' dly f x c' = None)"
proof -
  have T: "ck_num c = length T" "ck_regs c \<noteq> None" using up by (auto simp: clock_inv_def clock_up_def)
  have "find_slot T 0 (length T) = Some None"
  proof -
    obtain r where r: "find_slot T 0 (length T) = Some r"
      "case r of Some k \<Rightarrow> 0 \<le> k \<and> k < length T \<and> T ! k = None | None \<Rightarrow> \<forall>j. 0 \<le> j \<longrightarrow> j < length T \<longrightarrow> T ! j \<noteq> None"
      using find_slot_spec [of 0 "length T" T] by auto
    have "r = None"
    proof (cases r)
      case (Some k)
      then have "k < length T" "T ! k = None" using r(2) by simp_all
      then show ?thesis using up(4) nth_mem [of k T] by metis
    qed simp
    with r(1) show ?thesis by simp
  qed
  then show ?thesis using assms T
    by (auto simp: register_timer_def get_time_def grow_table_def Let_def registered_def)
qed

theorem register_timer_loses_table_witness:
  "\<exists>c'. register_timer (\<lambda>_. ex_regs) \<lparr>rm_node = Some 9, rm_table = False, rm_junk = None, rm_queue = True\<rparr> 10 0 0 ex_clock2
    = Some (REGISTER_FAILED, c') \<and> ck_timeouts c' = None"
proof -
  have "clock_inv ex_clock2" "ck_running ex_clock2" "ck_timeouts ex_clock2 = Some [Some 7]"
    using ex_clock2_up by (auto simp: clock_inv_def ex_clock2_def ex_clock1_def)
  moreover have "\<not> read_timestamp (\<lambda>_ :: nat. ex_regs) + 10 < read_timestamp (\<lambda>_. ex_regs)" unfolding ex_now by simp
  ultimately show ?thesis
    using register_timer_loses_table [of ex_clock2 "[Some 7]" "\<lparr>rm_node = Some 9, rm_table = False, rm_junk = None, rm_queue = True\<rparr>" 9 "\<lambda>_. ex_regs" 10 0 0]
    by auto
qed

end
