(* ===== verification/Pqueue_Spec.thy ===== *)
theory Pqueue_Spec
  imports Timer_Spec
begin

text \<open>
  What the priority queue of \<^verbatim>\<open>libpqueue\<close> promises to any client whose callbacks keep their contract, stated over the
  set of queued elements. The witnesses use the clock driver's queue.
\<close>

lemma ex_queue_rep: "pq_callbacks.pq_rep timer_pq_ops \<lparr>pq_size = 2, pq_avail = 11, pq_step = 11, pq_d = (\<lambda>_. 7)\<rparr> (ck_mem ex_clock1) {7}"
proof -
  have "nodes [None, Some 7] = {7}" by (auto simp: nodes_def)
  then show ?thesis using ex_clock1_up by (simp add: clock_up_def)
qed

text \<open>Popping a queue that holds the elements \<open>A\<close> returns an element that no element of \<open>A\<close> beats and leaves a queue that
  holds the others.\<close>

theorem pqueue_pop_best:
  assumes "pq_callbacks P" "pq_callbacks.pq_rep P q s A" "A \<noteq> {}"
  shows "\<exists>m q' s'. pqueue_pop P q s = Some (Some m, q', s') \<and> m \<in> A \<and>
    (\<forall>y \<in> A. \<not> cmppri P (getpri P m s) (getpri P y s)) \<and> pq_callbacks.pq_rep P q' s' (A - {m}) \<and>
    (\<forall>y. getpri P y s' = getpri P y s)"
proof -
  obtain m q' s' where p: "pqueue_pop P q s = Some (Some m, q', s')" "m \<in> A"
    "\<forall>y \<in> A. \<not> cmppri P (getpri P m s) (getpri P y s)" "pq_callbacks.pq_rep P q' s' (A - {m})" "pq_callbacks.repos P s s'"
    using pq_callbacks.pqueue_pop_ok [OF assms] by blast
  have "\<forall>y. getpri P y s' = getpri P y s" using pq_callbacks.repos_pri [OF assms(1) p(5)] by simp
  with p(1-4) show ?thesis by (intro exI conjI)
qed

theorem pqueue_pop_best_witness:
  "\<exists>m q' s'. pqueue_pop timer_pq_ops \<lparr>pq_size = 2, pq_avail = 11, pq_step = 11, pq_d = (\<lambda>_. 7)\<rparr> (ck_mem ex_clock1) =
    Some (Some m, q', s') \<and> m \<in> {7}"
  using pqueue_pop_best [OF timer_pq.pq_callbacks_axioms ex_queue_rep insert_not_empty] by (elim exE conjE) (intro exI conjI)

text \<open>Any queued element can be removed; the queue then holds the others. An inserted element is added, unless the
  array is full and cannot grow, when the queue is unchanged and the call reports failure.\<close>

theorem pqueue_insert_remove:
  assumes "pq_callbacks P" "pq_callbacks.pq_rep P q s A" "x \<notin> A"
  shows "(mem_ok \<or> pq_size q < pq_avail q \<longrightarrow> (\<exists>q1 s1. pqueue_insert P mem_ok x q s = Some (0, q1, s1) \<and>
      pq_callbacks.pq_rep P q1 s1 (insert x A) \<and> pqueue_size q1 = pqueue_size q + 1 \<and>
      (\<forall>y \<in> insert x A. \<exists>q2 s2. pqueue_remove P y q1 s1 = Some (0, q2, s2) \<and> pq_callbacks.pq_rep P q2 s2 (insert x A - {y})))) \<and>
    (\<not> mem_ok \<and> pq_size q \<ge> pq_avail q \<longrightarrow> pqueue_insert P mem_ok x q s = Some (1, q, s))"
proof -
  have fin: "finite A" using assms(2) unfolding pq_callbacks.pq_rep_def [OF assms(1)] by auto
  show ?thesis
  proof (intro conjI impI)
    assume "mem_ok \<or> pq_size q < pq_avail q"
    from pq_callbacks.pqueue_insert_ok [OF assms this] obtain q1 s1 where
      i: "pqueue_insert P mem_ok x q s = Some (0, q1, s1)" "pq_callbacks.pq_rep P q1 s1 (insert x A)" by blast
    have "pqueue_size q1 = pqueue_size q + 1"
      using pq_callbacks.pqueue_size_ok [OF assms(1,2)] pq_callbacks.pqueue_size_ok [OF assms(1) i(2)] assms(3) fin by simp
    moreover have "\<forall>y \<in> insert x A. \<exists>q2 s2. pqueue_remove P y q1 s1 = Some (0, q2, s2) \<and> pq_callbacks.pq_rep P q2 s2 (insert x A - {y})"
      using pq_callbacks.pqueue_remove_ok [OF assms(1) i(2)] by blast
    ultimately show "\<exists>q1 s1. pqueue_insert P mem_ok x q s = Some (0, q1, s1) \<and>
      pq_callbacks.pq_rep P q1 s1 (insert x A) \<and> pqueue_size q1 = pqueue_size q + 1 \<and>
      (\<forall>y \<in> insert x A. \<exists>q2 s2. pqueue_remove P y q1 s1 = Some (0, q2, s2) \<and> pq_callbacks.pq_rep P q2 s2 (insert x A - {y}))"
      using i by blast
  qed (use pq_callbacks.pqueue_insert_full [OF assms(1)] in auto)
qed

theorem pqueue_insert_remove_witness:
  "\<exists>q1 s1. pqueue_insert timer_pq_ops False 8 \<lparr>pq_size = 2, pq_avail = 11, pq_step = 11, pq_d = (\<lambda>_. 7)\<rparr> (ck_mem ex_clock1) =
    Some (0, q1, s1) \<and> pqueue_size q1 = 2"
  using pqueue_insert_remove [OF timer_pq.pq_callbacks_axioms ex_queue_rep, of 8 False] by (auto simp: pqueue_size_def)

text \<open>The library's own validity check decides the heap order: on a non-empty queue it returns true exactly when no
  element beats its parent.\<close>

theorem pqueue_is_valid_decides:
  assumes "pq_callbacks P" "1 < pq_size q" "pq_size q \<le> pq_avail q"
  shows "pqueue_is_valid P q s = Some (\<forall>k. 1 < k \<longrightarrow> k < pq_size q \<longrightarrow>
    \<not> cmppri P (getpri P (pq_d q (pq_parent k)) s) (getpri P (pq_d q k) s))"
  using pq_callbacks.pqueue_is_valid_ok [OF assms, of s]
  unfolding pq_callbacks.heap_def [OF assms(1)] pq_callbacks.ordered_def [OF assms(1)] pq_parent_def .

theorem pqueue_is_valid_decides_witness:
  "pqueue_is_valid timer_pq_ops \<lparr>pq_size = 3, pq_avail = 11, pq_step = 11, pq_d = id\<rparr>
     (\<lambda>a. \<lparr>to_id = 0, to_deadline = (if a = 1 then 9 else 4), to_callback = 0, to_pos = a, to_data = 0\<rparr>) = Some False"
proof -
  let ?q = "\<lparr>pq_size = 3, pq_avail = 11, pq_step = 11, pq_d = id\<rparr>"
  let ?s = "\<lambda>a :: nat. \<lparr>to_id = 0, to_deadline = (if a = 1 then 9 else 4), to_callback = 0, to_pos = a, to_data = 0\<rparr>"
  have "pqueue_is_valid timer_pq_ops ?q ?s = Some (\<forall>k. 1 < k \<longrightarrow> k < pq_size ?q \<longrightarrow>
    \<not> cmppri timer_pq_ops (getpri timer_pq_ops (pq_d ?q (pq_parent k)) ?s) (getpri timer_pq_ops (pq_d ?q k) ?s))"
    by (rule pqueue_is_valid_decides [OF timer_pq.pq_callbacks_axioms]) simp_all
  moreover have "\<not> (\<forall>k. 1 < k \<longrightarrow> k < pq_size ?q \<longrightarrow>
    \<not> cmppri timer_pq_ops (getpri timer_pq_ops (pq_d ?q (pq_parent k)) ?s) (getpri timer_pq_ops (pq_d ?q k) ?s))"
    by (simp add: pq_parent_def) (rule exI [of _ 2], simp)
  ultimately show ?thesis by simp
qed

end
