(* ===== verification/Cspace.thy ===== *)
theory Cspace
  imports Bitfield
begin

text \<open>
  The capability space library: \<^verbatim>\<open>libsel4cspace/src/cspace.c\<close> and \<^verbatim>\<open>cspace.h\<close>. Kernel invocations and the allocation
  functions a client gives to a capability space are parameters that act on an abstract system
  state \<open>'e\<close>. The bookkeeping frames are values of the record \<open>bot_lvl_node\<close>; null pointers to arrays are
  empty lists and null handles are 0.

  A slot allocation may need memory for bookkeeping, which takes reserve slots (the watermark) that the
  allocation then refills by calling itself; the recursion is kept as in the code.
\<close>

section \<open>Kernel interface\<close>

datatype seL4_ObjectType =
  seL4_UntypedObject | seL4_CapTableObject | seL4_EndpointObject | seL4_NotificationObject | seL4_ReplyObject
| seL4_TCBObject | seL4_SchedContextObject | seL4_ARM_SmallPageObject | seL4_ARM_LargePageObject
| seL4_ARM_PageTableObject | seL4_ARM_PageDirectoryObject | seL4_ARM_PageUpperDirectoryObject | seL4_ARM_VSpaceObject

text \<open>
  Results are error codes, 0 for no error. The arguments are those of the invocations: retype takes the untyped, type,
  size, root, index, depth, offset and number of objects; the operations on slots take root, index and depth of the
  destination and, where there is one, of the source, then rights and badge. The last two fields are the rights
  value with all rights and the encoding of a guard and its size as capability data, both generated
  with the kernel.
\<close>

record 'e kernel =
  k_Untyped_Retype :: "nat \<Rightarrow> seL4_ObjectType \<Rightarrow> nat \<Rightarrow> nat \<Rightarrow> nat \<Rightarrow> nat \<Rightarrow> nat \<Rightarrow> nat \<Rightarrow> 'e \<Rightarrow> nat \<times> 'e"
  k_CNode_Delete :: "nat \<Rightarrow> nat \<Rightarrow> nat \<Rightarrow> 'e \<Rightarrow> nat \<times> 'e"
  k_CNode_Revoke :: "nat \<Rightarrow> nat \<Rightarrow> nat \<Rightarrow> 'e \<Rightarrow> nat \<times> 'e"
  k_CNode_Copy :: "nat \<Rightarrow> nat \<Rightarrow> nat \<Rightarrow> nat \<Rightarrow> nat \<Rightarrow> nat \<Rightarrow> nat \<Rightarrow> 'e \<Rightarrow> nat \<times> 'e"
  k_CNode_Mint :: "nat \<Rightarrow> nat \<Rightarrow> nat \<Rightarrow> nat \<Rightarrow> nat \<Rightarrow> nat \<Rightarrow> nat \<Rightarrow> nat \<Rightarrow> 'e \<Rightarrow> nat \<times> 'e"
  k_CNode_Move :: "nat \<Rightarrow> nat \<Rightarrow> nat \<Rightarrow> nat \<Rightarrow> nat \<Rightarrow> nat \<Rightarrow> 'e \<Rightarrow> nat \<times> 'e"
  k_CNode_Mutate :: "nat \<Rightarrow> nat \<Rightarrow> nat \<Rightarrow> nat \<Rightarrow> nat \<Rightarrow> nat \<Rightarrow> nat \<Rightarrow> 'e \<Rightarrow> nat \<times> 'e"
  k_IRQControl_GetTrigger :: "nat \<Rightarrow> nat \<Rightarrow> int \<Rightarrow> nat \<Rightarrow> nat \<Rightarrow> nat \<Rightarrow> 'e \<Rightarrow> nat \<times> 'e"
  k_AllRights :: nat
  k_CNode_CapData_new :: "nat \<Rightarrow> nat \<Rightarrow> nat"

definition seL4_NoError :: nat where "seL4_NoError = 0"
definition seL4_CapNull :: nat where "seL4_CapNull = 0"
definition seL4_WordBits :: nat where "seL4_WordBits = 64"
definition seL4_PageBits :: nat where "seL4_PageBits = 12"
definition seL4_SlotBits :: nat where "seL4_SlotBits = 5"

section \<open>Constants and data\<close>

definition MAPPING_SLOTS :: nat where "MAPPING_SLOTS = 3"
definition WATERMARK_SLOTS :: nat where "WATERMARK_SLOTS = MAPPING_SLOTS + 1"
definition CNODE_SIZE_BITS :: nat where "CNODE_SIZE_BITS = 12"
definition CNODE_SLOT_BITS :: "nat \<Rightarrow> nat" where "CNODE_SLOT_BITS x = x - seL4_SlotBits"
definition CNODE_SLOTS :: "nat \<Rightarrow> nat" where "CNODE_SLOTS x = 2 ^ CNODE_SLOT_BITS x"
definition BITFIELD_SIZE :: "nat \<Rightarrow> nat" where "BITFIELD_SIZE x = CNODE_SLOTS x div seL4_WordBits"

text \<open>A bottom level record is 24 bytes, so a page holds 169 of them beside the three words of its header.\<close>

definition BOT_LVL_PER_NODE :: nat where "BOT_LVL_PER_NODE = (4096 - 8 * 3) div 24"

definition NODE_INDEX :: "nat \<Rightarrow> nat" where "NODE_INDEX cptr = cptr div CNODE_SLOTS CNODE_SIZE_BITS div BOT_LVL_PER_NODE"
definition CNODE_INDEX :: "nat \<Rightarrow> nat" where "CNODE_INDEX cptr = cptr div CNODE_SLOTS CNODE_SIZE_BITS mod BOT_LVL_PER_NODE"
definition TOP_LVL_INDEX :: "nat \<Rightarrow> nat" where "TOP_LVL_INDEX cptr = cptr div 2 ^ CNODE_SLOT_BITS CNODE_SIZE_BITS"
definition BOT_LVL_INDEX :: "nat \<Rightarrow> nat" where "BOT_LVL_INDEX cptr = cptr mod 2 ^ CNODE_SLOT_BITS CNODE_SIZE_BITS"

record bot_lvl =
  bl_bf :: "u64 list"
  bl_untyped :: nat

record bot_lvl_node =
  bn_n_cnodes :: nat
  bn_untyped :: nat
  bn_frame :: nat
  bn_cnodes :: "bot_lvl list"

text \<open>Mapping a frame takes the frame, the reserve slots and the flags of those in use, and returns whether it
  succeeded and the new flags; allocating returns the handle and the capability.\<close>

record 'e cspace_alloc =
  ca_map_frame :: "nat \<Rightarrow> nat list \<Rightarrow> u64 \<Rightarrow> 'e \<Rightarrow> bool \<times> u64 \<times> 'e"
  ca_alloc_4k_ut :: "'e \<Rightarrow> (nat \<times> nat) option \<times> 'e"
  ca_free_4k_ut :: "nat \<Rightarrow> 'e \<Rightarrow> 'e"

record cspace =
  cs_root_cnode :: nat
  cs_two_level :: bool
  cs_top_lvl_size_bits :: nat
  cs_top_bf :: "u64 list"
  cs_bot_lvl_nodes :: "bot_lvl_node option list"
  cs_n_bot_lvl_nodes :: nat
  cs_untyped :: nat
  cs_watermark :: "nat list"

section \<open>Retyping and bookkeeping\<close>

definition cspace_untyped_retype ::
    "'e kernel \<Rightarrow> cspace \<Rightarrow> nat \<Rightarrow> nat \<Rightarrow> seL4_ObjectType \<Rightarrow> nat \<Rightarrow> 'e \<Rightarrow> nat \<times> 'e" where
  "cspace_untyped_retype K cs ut target type size_bits e =
     (if cs_two_level cs then
        let cnode = target div 2 ^ CNODE_SLOT_BITS CNODE_SIZE_BITS in
        k_Untyped_Retype K ut type size_bits (cs_root_cnode cs) cnode
          (seL4_WordBits - CNODE_SLOT_BITS CNODE_SIZE_BITS) (target mod CNODE_SLOTS CNODE_SIZE_BITS) 1 e
      else k_Untyped_Retype K ut type size_bits (cs_root_cnode cs) 0 0 target 1 e)"

definition cspace_delete :: "'e kernel \<Rightarrow> cspace \<Rightarrow> nat \<Rightarrow> 'e \<Rightarrow> nat \<times> 'e" where
  "cspace_delete K cs cptr e = k_CNode_Delete K (cs_root_cnode cs) cptr seL4_WordBits e"

definition cspace_revoke :: "'e kernel \<Rightarrow> cspace \<Rightarrow> nat \<Rightarrow> 'e \<Rightarrow> nat \<times> 'e" where
  "cspace_revoke K cs cptr e = k_CNode_Revoke K (cs_root_cnode cs) cptr seL4_WordBits e"

definition cspace_copy :: "'e kernel \<Rightarrow> cspace \<Rightarrow> nat \<Rightarrow> cspace \<Rightarrow> nat \<Rightarrow> nat \<Rightarrow> 'e \<Rightarrow> nat \<times> 'e" where
  "cspace_copy K dest dest_cptr src src_cptr rights e =
     k_CNode_Copy K (cs_root_cnode dest) dest_cptr seL4_WordBits (cs_root_cnode src) src_cptr seL4_WordBits rights e"

definition cspace_mint :: "'e kernel \<Rightarrow> cspace \<Rightarrow> nat \<Rightarrow> cspace \<Rightarrow> nat \<Rightarrow> nat \<Rightarrow> nat \<Rightarrow> 'e \<Rightarrow> nat \<times> 'e" where
  "cspace_mint K dest dest_cptr src src_cptr rights badge e =
     k_CNode_Mint K (cs_root_cnode dest) dest_cptr seL4_WordBits (cs_root_cnode src) src_cptr seL4_WordBits rights badge e"

definition cspace_move :: "'e kernel \<Rightarrow> cspace \<Rightarrow> nat \<Rightarrow> cspace \<Rightarrow> nat \<Rightarrow> 'e \<Rightarrow> nat \<times> 'e" where
  "cspace_move K dest dest_cptr src src_cptr e =
     k_CNode_Move K (cs_root_cnode dest) dest_cptr seL4_WordBits (cs_root_cnode src) src_cptr seL4_WordBits e"

definition cspace_mutate :: "'e kernel \<Rightarrow> cspace \<Rightarrow> nat \<Rightarrow> cspace \<Rightarrow> nat \<Rightarrow> nat \<Rightarrow> 'e \<Rightarrow> nat \<times> 'e" where
  "cspace_mutate K dest dest_cptr src src_cap badge e =
     k_CNode_Mutate K (cs_root_cnode dest) dest_cptr seL4_WordBits (cs_root_cnode src) src_cap seL4_WordBits badge e"

definition cspace_irq_control_get :: "'e kernel \<Rightarrow> cspace \<Rightarrow> nat \<Rightarrow> nat \<Rightarrow> nat \<Rightarrow> int \<Rightarrow> 'e \<Rightarrow> nat \<times> 'e" where
  "cspace_irq_control_get K dest cptr irq_cap irq level e =
     k_IRQControl_GetTrigger K irq_cap irq level (cs_root_cnode dest) cptr seL4_WordBits e"

definition retype_helper ::
    "'e kernel \<Rightarrow> 'e cspace_alloc \<Rightarrow> cspace \<Rightarrow> seL4_ObjectType \<Rightarrow> nat \<Rightarrow> 'e \<Rightarrow> nat option \<times> 'e" where
  "retype_helper K A cs type cptr e =
     (case ca_alloc_4k_ut A e of
        (None, e) \<Rightarrow> (None, e)
      | (Some (untyped, ut_cptr), e) \<Rightarrow>
          let size = (if type = seL4_CapTableObject then CNODE_SLOT_BITS seL4_PageBits else seL4_PageBits) in
          (case cspace_untyped_retype K cs ut_cptr cptr type size e of
             (err, e) \<Rightarrow> if err \<noteq> seL4_NoError then (None, ca_free_4k_ut A untyped e) else (Some untyped, e)))"

definition empty_node :: bot_lvl_node where
  "empty_node = \<lparr>bn_n_cnodes = 0, bn_untyped = 0, bn_frame = 0,
     bn_cnodes = replicate BOT_LVL_PER_NODE \<lparr>bl_bf = [0, 0], bl_untyped = 0\<rparr>\<rparr>"

definition init_bot_lvl_node :: "nat \<Rightarrow> nat \<Rightarrow> nat \<Rightarrow> cspace \<Rightarrow> cspace option" where
  "init_bot_lvl_node node untyped frame cs = do {
     nodes \<leftarrow> arr_set (cs_bot_lvl_nodes cs) node (Some (empty_node\<lparr>bn_n_cnodes := 0, bn_untyped := untyped, bn_frame := frame\<rparr>));
     Some (cs\<lparr>cs_bot_lvl_nodes := nodes, cs_n_bot_lvl_nodes := cs_n_bot_lvl_nodes cs + 1\<rparr>) }"

text \<open>A node through its pointer, which must not be null.\<close>

definition get_node :: "cspace \<Rightarrow> nat \<Rightarrow> bot_lvl_node option" where
  "get_node cs i = do { p \<leftarrow> arr_get (cs_bot_lvl_nodes cs) i; p }"

definition set_node :: "nat \<Rightarrow> bot_lvl_node \<Rightarrow> cspace \<Rightarrow> cspace option" where
  "set_node i nd cs = do { nodes \<leftarrow> arr_set (cs_bot_lvl_nodes cs) i (Some nd); Some (cs\<lparr>cs_bot_lvl_nodes := nodes\<rparr>) }"

definition add_cnode ::
    "'e kernel \<Rightarrow> 'e cspace_alloc \<Rightarrow> nat \<Rightarrow> cspace \<Rightarrow> 'e \<Rightarrow> (bool \<times> cspace \<times> 'e) option" where
  "add_cnode K A cptr cs e = do {
     let node = NODE_INDEX cptr;
     nd \<leftarrow> get_node cs node;
     let cnode = CNODE_INDEX cptr;
     if bn_n_cnodes nd \<le> cnode then
       case ca_alloc_4k_ut A e of
         (r, e) \<Rightarrow> do {
           bl \<leftarrow> arr_get (bn_cnodes nd) cnode;
           cnodes \<leftarrow> arr_set (bn_cnodes nd) cnode (bl\<lparr>bl_untyped := (case r of None \<Rightarrow> 0 | Some (h, c) \<Rightarrow> h)\<rparr>);
           let nd = nd\<lparr>bn_cnodes := cnodes\<rparr>;
           cs \<leftarrow> set_node node nd cs;
           case r of
             None \<Rightarrow> Some (False, cs, e)
           | Some (untyped, ut_cptr) \<Rightarrow>
               (case k_Untyped_Retype K ut_cptr seL4_CapTableObject (CNODE_SLOT_BITS CNODE_SIZE_BITS)
                       (cs_root_cnode cs) 0 0 (TOP_LVL_INDEX cptr) 1 e of
                  (err, e) \<Rightarrow>
                    if err \<noteq> 0 then Some (False, cs, ca_free_4k_ut A untyped e)
                    else do {
                      cs \<leftarrow> set_node node (nd\<lparr>bn_n_cnodes := bn_n_cnodes nd + 1\<rparr>) cs;
                      Some (True, cs, e) }) }
     else Some (True, cs, e) }"

definition ensure_levels ::
    "'e kernel \<Rightarrow> 'e cspace_alloc \<Rightarrow> nat \<Rightarrow> u64 \<Rightarrow> cspace \<Rightarrow> 'e \<Rightarrow> (bool \<times> u64 \<times> cspace \<times> 'e) option" where
  "ensure_levels K A cptr used cs e =
     (if \<not> cs_two_level cs then Some (True, used, cs, e)
      else
        let node = NODE_INDEX cptr;
            cspace_size = 2 ^ (CNODE_SLOT_BITS (cs_top_lvl_size_bits cs) + CNODE_SLOT_BITS CNODE_SIZE_BITS);
            limit = (cspace_size + BOT_LVL_PER_NODE - 1) div BOT_LVL_PER_NODE in
        if node \<ge> limit then Some (False, used, cs, e)
        else if cs_n_bot_lvl_nodes cs \<le> node then do {
          frame \<leftarrow> arr_get (cs_watermark cs) MAPPING_SLOTS;
          let used = used OR BIT MAPPING_SLOTS;
          case retype_helper K A cs seL4_ARM_SmallPageObject frame e of
            (None, e) \<Rightarrow> Some (False, used, cs, e)
          | (Some untyped, e) \<Rightarrow>
              (case ca_map_frame A frame (cs_watermark cs) used e of
                 (ok, used, e) \<Rightarrow>
                   if \<not> ok then do {
                     nodes \<leftarrow> arr_set (cs_bot_lvl_nodes cs) node None;
                     let cs = cs\<lparr>cs_bot_lvl_nodes := nodes\<rparr>;
                     case cspace_delete K cs frame e of
                       (_, e) \<Rightarrow> Some (False, used AND NOT (BIT MAPPING_SLOTS), cs, ca_free_4k_ut A untyped e) }
                   else do {
                     cs \<leftarrow> init_bot_lvl_node node untyped frame cs;
                     (ok, cs, e) \<leftarrow> add_cnode K A cptr cs e;
                     Some (ok, used, cs, e) }) }
        else do {
          (ok, cs, e) \<leftarrow> add_cnode K A cptr cs e;
          Some (ok, used, cs, e) })"

section \<open>Slots\<close>

text \<open>The part of an allocation that follows \<open>ensure_levels\<close>: take the first free slot of the bottom level.\<close>

definition take_bottom :: "nat \<Rightarrow> cspace \<Rightarrow> (nat \<times> cspace) option" where
  "take_bottom top_index cs = do {
     let cptr = top_index * 2 ^ CNODE_SLOT_BITS CNODE_SIZE_BITS;
     nd \<leftarrow> get_node cs (NODE_INDEX cptr);
     bl \<leftarrow> arr_get (bn_cnodes nd) (CNODE_INDEX cptr);
     bot_index \<leftarrow> bf_first_free (BITFIELD_SIZE CNODE_SIZE_BITS) (bl_bf bl);
     bf \<leftarrow> bf_set_bit (bl_bf bl) bot_index;
     cnodes \<leftarrow> arr_set (bn_cnodes nd) (CNODE_INDEX cptr) (bl\<lparr>bl_bf := bf\<rparr>);
     cs \<leftarrow> set_node (NODE_INDEX cptr) (nd\<lparr>bn_cnodes := cnodes\<rparr>) cs;
     nxt \<leftarrow> bf_first_free (BITFIELD_SIZE CNODE_SIZE_BITS) bf;
     cs \<leftarrow> (if nxt \<ge> CNODE_SLOTS CNODE_SIZE_BITS then do {
              top \<leftarrow> bf_set_bit (cs_top_bf cs) top_index;
              Some (cs\<lparr>cs_top_bf := top\<rparr>) }
            else Some cs);
     Some (cptr + bot_index, cs) }"

definition set_watermark :: "nat \<Rightarrow> nat \<Rightarrow> cspace \<Rightarrow> cspace option" where
  "set_watermark i v cs = do { w \<leftarrow> arr_set (cs_watermark cs) i v; Some (cs\<lparr>cs_watermark := w\<rparr>) }"

text \<open>Whether the bottom level of the slot still has to be built.\<close>

definition level_missing :: "nat \<Rightarrow> cspace \<Rightarrow> bool option" where
  "level_missing cptr cs =
     (if cs_n_bot_lvl_nodes cs \<le> NODE_INDEX cptr then Some True
      else do { nd \<leftarrow> get_node cs (NODE_INDEX cptr); Some (bn_n_cnodes nd \<le> CNODE_INDEX cptr) })"

text \<open>The loop of \<open>refill_watermark\<close> over the four reserve slots is written out, since it calls the allocation.\<close>

partial_function (option) cspace_alloc_slot ::
    "'e kernel \<Rightarrow> 'e cspace_alloc \<Rightarrow> cspace \<Rightarrow> 'e \<Rightarrow> (nat \<times> cspace \<times> 'e) option" where
  "cspace_alloc_slot K A cs e = do {
     top_index \<leftarrow> bf_first_free (BITFIELD_SIZE (cs_top_lvl_size_bits cs)) (cs_top_bf cs);
     if (cs_two_level cs \<and> top_index > CNODE_SLOTS (cs_top_lvl_size_bits cs)) \<or>
        top_index \<ge> CNODE_SLOTS (cs_top_lvl_size_bits cs) then Some (seL4_CapNull, cs, e)
     else if cs_two_level cs then do {
       missing \<leftarrow> level_missing (top_index * 2 ^ CNODE_SLOT_BITS CNODE_SIZE_BITS) cs;
       (ok, used, cs, e) \<leftarrow> (if missing then ensure_levels K A (top_index * 2 ^ CNODE_SLOT_BITS CNODE_SIZE_BITS) 0 cs e
                             else Some (True, 0, cs, e));
       if \<not> ok then Some (seL4_CapNull, cs, e)
       else do {
         (cptr, cs) \<leftarrow> take_bottom top_index cs;
         (cs, e) \<leftarrow> (if bit used 0 then do { (w, cs, e) \<leftarrow> cspace_alloc_slot K A cs e; cs \<leftarrow> set_watermark 0 w cs; Some (cs, e) } else Some (cs, e));
         (cs, e) \<leftarrow> (if bit used 1 then do { (w, cs, e) \<leftarrow> cspace_alloc_slot K A cs e; cs \<leftarrow> set_watermark 1 w cs; Some (cs, e) } else Some (cs, e));
         (cs, e) \<leftarrow> (if bit used 2 then do { (w, cs, e) \<leftarrow> cspace_alloc_slot K A cs e; cs \<leftarrow> set_watermark 2 w cs; Some (cs, e) } else Some (cs, e));
         (cs, e) \<leftarrow> (if bit used 3 then do { (w, cs, e) \<leftarrow> cspace_alloc_slot K A cs e; cs \<leftarrow> set_watermark 3 w cs; Some (cs, e) } else Some (cs, e));
         Some (cptr, cs, e) } }
     else do {
       top \<leftarrow> bf_set_bit (cs_top_bf cs) top_index;
       Some (top_index, cs\<lparr>cs_top_bf := top\<rparr>, e) } }"

definition refill_one :: "'e kernel \<Rightarrow> 'e cspace_alloc \<Rightarrow> u64 \<Rightarrow> nat \<Rightarrow> cspace \<Rightarrow> 'e \<Rightarrow> (cspace \<times> 'e) option" where
  "refill_one K A used i cs e =
     (if bit used i then do { (w, cs, e) \<leftarrow> cspace_alloc_slot K A cs e; cs \<leftarrow> set_watermark i w cs; Some (cs, e) }
      else Some (cs, e))"

definition refill_watermark :: "'e kernel \<Rightarrow> 'e cspace_alloc \<Rightarrow> u64 \<Rightarrow> cspace \<Rightarrow> 'e \<Rightarrow> (cspace \<times> 'e) option" where
  "refill_watermark K A used cs e = do {
     (cs, e) \<leftarrow> refill_one K A used 0 cs e;
     (cs, e) \<leftarrow> refill_one K A used 1 cs e;
     (cs, e) \<leftarrow> refill_one K A used 2 cs e;
     refill_one K A used 3 cs e }"

definition cspace_free_slot :: "nat \<Rightarrow> cspace \<Rightarrow> cspace option" where
  "cspace_free_slot cptr cs =
     (if cptr = seL4_CapNull then Some cs
      else if \<not> cs_two_level cs then
        if cptr > CNODE_SLOTS (cs_top_lvl_size_bits cs) then Some cs
        else do { top \<leftarrow> bf_clr_bit (cs_top_bf cs) cptr; Some (cs\<lparr>cs_top_bf := top\<rparr>) }
      else
        let limit = CNODE_SLOTS (cs_top_lvl_size_bits cs) * CNODE_SLOTS CNODE_SIZE_BITS in
        if cptr > limit then Some cs
        else do {
          top \<leftarrow> bf_clr_bit (cs_top_bf cs) (TOP_LVL_INDEX cptr);
          let cs = cs\<lparr>cs_top_bf := top\<rparr>;
          let node = NODE_INDEX cptr;
          if cs_n_bot_lvl_nodes cs > node then do {
            let cnode = CNODE_INDEX cptr;
            nd \<leftarrow> get_node cs node;
            if bn_n_cnodes nd > cnode then do {
              bl \<leftarrow> arr_get (bn_cnodes nd) cnode;
              bf \<leftarrow> bf_clr_bit (bl_bf bl) (BOT_LVL_INDEX cptr);
              cnodes \<leftarrow> arr_set (bn_cnodes nd) cnode (bl\<lparr>bl_bf := bf\<rparr>);
              set_node node (nd\<lparr>bn_cnodes := cnodes\<rparr>) cs }
            else Some cs }
          else Some cs })"

section \<open>Creating and destroying\<close>

text \<open>
  The loops of \<open>cspace_destroy\<close>: the untyped objects of the cnodes of a node, the nodes with their
  bookkeeping frames, and the cnodes in the top level. The second returns the variable \<open>last\<close>.
\<close>

fun free_cnodes :: "'e cspace_alloc \<Rightarrow> bot_lvl list \<Rightarrow> 'e \<Rightarrow> 'e" where
  "free_cnodes A [] e = e"
| "free_cnodes A (bl # bls) e = free_cnodes A bls (ca_free_4k_ut A (bl_untyped bl) e)"

fun free_nodes :: "'e kernel \<Rightarrow> 'e cspace_alloc \<Rightarrow> cspace \<Rightarrow> nat list \<Rightarrow> nat \<Rightarrow> 'e \<Rightarrow> (nat \<times> 'e) option" where
  "free_nodes K A cs [] lst e = Some (lst, e)"
| "free_nodes K A cs (i # is) lst e = do {
     nd \<leftarrow> get_node cs i;
     let n = bn_n_cnodes nd;
     if n > length (bn_cnodes nd) then None
     else do {
       let lst = (if n = 0 then lst else i * BOT_LVL_PER_NODE + (n - 1));
       let e = free_cnodes A (take n (bn_cnodes nd)) e;
       let e = ca_free_4k_ut A (bn_untyped nd) e;
       case cspace_delete K cs (bn_frame nd) e of
         (_, e) \<Rightarrow> free_nodes K A cs is lst e } }"

fun delete_cnodes :: "'e kernel \<Rightarrow> cspace \<Rightarrow> nat list \<Rightarrow> 'e \<Rightarrow> 'e" where
  "delete_cnodes K cs [] e = e"
| "delete_cnodes K cs (i # is) e =
     delete_cnodes K cs is (snd (k_CNode_Delete K (cs_root_cnode cs) i (seL4_WordBits - (CNODE_SIZE_BITS - seL4_SlotBits)) e))"

text \<open>The bootstrap capability space is \<open>boot\<close>, with the allocation functions \<open>B\<close>; those of the one destroyed are \<open>A\<close>.
  Freeing the arrays only ends their lives.\<close>

definition cspace_destroy ::
    "'e kernel \<Rightarrow> 'e cspace_alloc \<Rightarrow> 'e cspace_alloc \<Rightarrow> cspace \<Rightarrow> cspace \<Rightarrow> 'e \<Rightarrow> (cspace \<times> 'e) option" where
  "cspace_destroy K B A boot cs e = do {
     (lst, e) \<leftarrow> free_nodes K A cs [0..<cs_n_bot_lvl_nodes cs] 0 e;
     let e = (if cs_two_level cs then delete_cnodes K cs [0..<lst + 1] e else e);
     (boot, e) \<leftarrow> (if cs_root_cnode cs \<noteq> seL4_CapNull then
                     case cspace_delete K boot (cs_root_cnode cs) e of
                       (_, e) \<Rightarrow> do { boot \<leftarrow> cspace_free_slot (cs_root_cnode cs) boot; Some (boot, e) }
                   else Some (boot, e));
     Some (boot, if cs_untyped cs \<noteq> 0 then ca_free_4k_ut B (cs_untyped cs) e else e) }"

text \<open>The array of node pointers is allocated with room for as many pages as nodes are needed.\<close>

definition BOT_LVL_NODES :: "nat \<Rightarrow> nat" where
  "BOT_LVL_NODES x = (24 * CNODE_SLOTS x + 4095) div 4096"

definition fresh_cspace :: "bool \<Rightarrow> cspace" where
  "fresh_cspace two_level = \<lparr>cs_root_cnode = 0, cs_two_level = two_level, cs_top_lvl_size_bits = CNODE_SIZE_BITS,
     cs_top_bf = replicate (BITFIELD_SIZE CNODE_SIZE_BITS) 0,
     cs_bot_lvl_nodes = (if two_level then replicate (BOT_LVL_NODES CNODE_SIZE_BITS * 4096 div 8) None else []),
     cs_n_bot_lvl_nodes = 0, cs_untyped = 0, cs_watermark = replicate WATERMARK_SLOTS 0\<rparr>"

definition CSPACE_NOERROR :: int where "CSPACE_NOERROR = 0"
definition CSPACE_ERROR :: int where "CSPACE_ERROR = -1"

text \<open>
  Creation in the order of the code. Every failing exit first destroys the unfinished target; the result is
  the error code with the target and the bootstrap space. \<open>top_ok\<close> and \<open>nodes_ok\<close> are the answers of the two
  calls of the C allocator.
\<close>

definition create_fail ::
    "'e kernel \<Rightarrow> 'e cspace_alloc \<Rightarrow> 'e cspace_alloc \<Rightarrow> cspace \<Rightarrow> cspace \<Rightarrow> 'e \<Rightarrow> (int \<times> cspace \<times> cspace \<times> 'e) option" where
  "create_fail K B A boot target e = do {
     (boot, e) \<leftarrow> cspace_destroy K B A boot target e;
     Some (CSPACE_ERROR, target, boot, e) }"

definition create_slots ::
    "'e kernel \<Rightarrow> 'e cspace_alloc \<Rightarrow> nat \<Rightarrow> cspace \<Rightarrow> cspace \<Rightarrow> 'e \<Rightarrow> (int \<times> cspace \<times> cspace \<times> 'e) option" where
  "create_slots K A bot_lvl_node boot target e = do {
     (null, target, e) \<leftarrow> cspace_alloc_slot K A target e;
     if null \<noteq> seL4_CapNull then None
     else if cs_two_level target then do {
       (target, e) \<leftarrow> refill_watermark K A (mask WATERMARK_SLOTS) target e;
       (slot, target, e) \<leftarrow> cspace_alloc_slot K A target e;
       if slot = seL4_CapNull then None
       else case cspace_move K target slot boot bot_lvl_node e of
         (err, e) \<Rightarrow>
           if err \<noteq> seL4_NoError then None
           else do {
             nd \<leftarrow> get_node target 0;
             target \<leftarrow> set_node 0 (nd\<lparr>bn_frame := slot\<rparr>) target;
             boot \<leftarrow> cspace_free_slot bot_lvl_node boot;
             Some (CSPACE_NOERROR, target, boot, e) } }
     else Some (CSPACE_NOERROR, target, boot, e) }"

definition create_bottom ::
    "'e kernel \<Rightarrow> 'e cspace_alloc \<Rightarrow> 'e cspace_alloc \<Rightarrow> cspace \<Rightarrow> cspace \<Rightarrow> 'e \<Rightarrow> (int \<times> cspace \<times> cspace \<times> 'e) option" where
  "create_bottom K B A boot target e =
     (if \<not> cs_two_level target then create_slots K A 0 boot target e
      else do {
        (bot_lvl_node, boot, e) \<leftarrow> cspace_alloc_slot K B boot e;
        if bot_lvl_node = seL4_CapNull then create_fail K B A boot target e
        else case retype_helper K B boot seL4_ARM_SmallPageObject bot_lvl_node e of
          (untyped, e) \<Rightarrow> do {
            (mapped, boot, e) \<leftarrow> (case untyped of
               None \<Rightarrow> Some (False, boot, e)
             | Some _ \<Rightarrow>
                 (case ca_map_frame B bot_lvl_node (cs_watermark boot) 0 e of
                    (ok, used, e) \<Rightarrow> do { (boot, e) \<leftarrow> refill_watermark K B used boot e; Some (ok, boot, e) }));
            if \<not> mapped then do {
              (boot, e) \<leftarrow> cspace_destroy K B A boot target e;
              case cspace_delete K boot bot_lvl_node e of
                (_, e) \<Rightarrow> do { boot \<leftarrow> cspace_free_slot bot_lvl_node boot; Some (CSPACE_ERROR, target, boot, e) } }
            else do {
              target \<leftarrow> init_bot_lvl_node 0 (the untyped) bot_lvl_node target;
              create_slots K A bot_lvl_node boot target e } } })"

definition create_root ::
    "'e kernel \<Rightarrow> 'e cspace_alloc \<Rightarrow> 'e cspace_alloc \<Rightarrow> cspace \<Rightarrow> cspace \<Rightarrow> 'e \<Rightarrow> (int \<times> cspace \<times> cspace \<times> 'e) option" where
  "create_root K B A boot target e = do {
     (tmp, boot, e) \<leftarrow> cspace_alloc_slot K B boot e;
     if tmp = seL4_CapNull then create_fail K B A boot target e
     else case retype_helper K B boot seL4_CapTableObject tmp e of
       (None, e) \<Rightarrow> create_fail K B A boot target e
     | (Some untyped, e) \<Rightarrow> do {
         let target = target\<lparr>cs_untyped := untyped\<rparr>;
         let depth = seL4_WordBits - CNODE_SLOT_BITS CNODE_SIZE_BITS * (if cs_two_level target then 2 else 1);
         let guard = k_CNode_CapData_new K 0 depth;
         (root, boot, e) \<leftarrow> cspace_alloc_slot K B boot e;
         let target = target\<lparr>cs_root_cnode := root\<rparr>;
         if cs_root_cnode boot = seL4_CapNull then do {
           boot \<leftarrow> cspace_free_slot tmp boot;
           create_fail K B A boot target e }
         else case cspace_mint K boot (cs_root_cnode target) boot tmp (k_AllRights K) guard e of
           (err, e) \<Rightarrow>
             if err \<noteq> seL4_NoError then create_fail K B A boot target e
             else case cspace_delete K boot tmp e of
               (_, e) \<Rightarrow> do {
                 boot \<leftarrow> cspace_free_slot tmp boot;
                 create_bottom K B A boot target e } } }"

definition cspace_create ::
    "'e kernel \<Rightarrow> 'e cspace_alloc \<Rightarrow> 'e cspace_alloc \<Rightarrow> bool \<Rightarrow> bool \<Rightarrow> bool \<Rightarrow> cspace \<Rightarrow> 'e \<Rightarrow>
     (int \<times> cspace \<times> cspace \<times> 'e) option" where
  "cspace_create K B A two_level top_ok nodes_ok boot e = do {
     let target = fresh_cspace two_level;
     if \<not> top_ok then Some (CSPACE_ERROR, target\<lparr>cs_top_bf := [], cs_bot_lvl_nodes := []\<rparr>, boot, e)
     else if two_level \<and> \<not> nodes_ok then create_fail K B A boot (target\<lparr>cs_bot_lvl_nodes := []\<rparr>) e
     else create_root K B A boot target e }"

definition cspace_create_two_level ::
    "'e kernel \<Rightarrow> 'e cspace_alloc \<Rightarrow> 'e cspace_alloc \<Rightarrow> bool \<Rightarrow> bool \<Rightarrow> cspace \<Rightarrow> 'e \<Rightarrow> (int \<times> cspace \<times> cspace \<times> 'e) option" where
  "cspace_create_two_level K B A top_ok nodes_ok boot e = cspace_create K B A True top_ok nodes_ok boot e"

text \<open>A one level space has no allocation functions; it has no bottom level that would call them.\<close>

definition no_alloc :: "'e cspace_alloc" where
  "no_alloc = \<lparr>ca_map_frame = \<lambda>_ _ used e. (False, used, e), ca_alloc_4k_ut = \<lambda>e. (None, e), ca_free_4k_ut = \<lambda>_ e. e\<rparr>"

definition cspace_create_one_level ::
    "'e kernel \<Rightarrow> 'e cspace_alloc \<Rightarrow> bool \<Rightarrow> cspace \<Rightarrow> 'e \<Rightarrow> (int \<times> cspace \<times> cspace \<times> 'e) option" where
  "cspace_create_one_level K B top_ok boot e = cspace_create K B no_alloc False top_ok True boot e"

end
