(* ===== verification/Cspace_Slots.thy ===== *)
theory Cspace_Slots
  imports Cspace
begin

text \<open>
  Correctness of the slot allocator of the capability space library: the invariant of a two-level capability
  space, the set of slots in use, and what allocating and freeing do to it.
\<close>

section \<open>Index arithmetic\<close>

lemma cspace_consts [simp]:
  "CNODE_SLOT_BITS CNODE_SIZE_BITS = 7" "CNODE_SLOTS CNODE_SIZE_BITS = 128" "BITFIELD_SIZE CNODE_SIZE_BITS = 2"
  "BOT_LVL_PER_NODE = 169" "MAPPING_SLOTS = 3"
  by (simp_all add: CNODE_SLOT_BITS_def CNODE_SIZE_BITS_def seL4_SlotBits_def CNODE_SLOTS_def BITFIELD_SIZE_def
      seL4_WordBits_def BOT_LVL_PER_NODE_def MAPPING_SLOTS_def)

lemma index_top [simp]:
  "NODE_INDEX (t * 128) = t div 169" "CNODE_INDEX (t * 128) = t mod 169" "TOP_LVL_INDEX (t * 128) = t"
  by (simp_all add: NODE_INDEX_def CNODE_INDEX_def TOP_LVL_INDEX_def)

lemma index_slot:
  assumes "b < 128"
  shows "NODE_INDEX (t * 128 + b) = t div 169" "CNODE_INDEX (t * 128 + b) = t mod 169"
    "TOP_LVL_INDEX (t * 128 + b) = t" "BOT_LVL_INDEX (t * 128 + b) = b"
  using assms by (simp_all add: NODE_INDEX_def CNODE_INDEX_def TOP_LVL_INDEX_def BOT_LVL_INDEX_def)

lemma top_eq: "s div 169 = t div 169 \<Longrightarrow> s mod 169 = t mod 169 \<Longrightarrow> s = (t :: nat)"
  by (metis div_mult_mod_eq)

section \<open>The invariant\<close>

definition wf_node :: "bot_lvl_node \<Rightarrow> bool" where
  "wf_node nd \<longleftrightarrow> length (bn_cnodes nd) = 169 \<and> bn_n_cnodes nd \<le> 169 \<and>
     (\<forall>i < 169. length (bl_bf (bn_cnodes nd ! i)) = 2) \<and>
     (\<forall>i < 169. bn_n_cnodes nd \<le> i \<longrightarrow> bl_bf (bn_cnodes nd ! i) = [0, 0])"

definition node_bot :: "bot_lvl_node option \<Rightarrow> nat \<Rightarrow> bot_lvl option" where
  "node_bot p i = (case p of None \<Rightarrow> None | Some nd \<Rightarrow> if i < bn_n_cnodes nd then Some (bn_cnodes nd ! i) else None)"

text \<open>The bottom level record of a top level index, if its cnode has been created.\<close>

definition cnode_at :: "cspace \<Rightarrow> nat \<Rightarrow> bot_lvl option" where
  "cnode_at cs t = (if t div 169 < cs_n_bot_lvl_nodes cs then node_bot (cs_bot_lvl_nodes cs ! (t div 169)) (t mod 169) else None)"

definition full :: "bot_lvl \<Rightarrow> bool" where
  "full bl \<longleftrightarrow> bf_bits (bl_bf bl) = {..<128}"

definition cs_shape :: "cspace \<Rightarrow> bool" where
  "cs_shape cs \<longleftrightarrow> cs_two_level cs \<and> 11 \<le> cs_top_lvl_size_bits cs \<and>
     length (cs_top_bf cs) = BITFIELD_SIZE (cs_top_lvl_size_bits cs) \<and>
     CNODE_SLOTS (cs_top_lvl_size_bits cs) \<le> 169 * length (cs_bot_lvl_nodes cs) \<and>
     cs_n_bot_lvl_nodes cs \<le> length (cs_bot_lvl_nodes cs) \<and> length (cs_watermark cs) = 4 \<and>
     (\<forall>i < cs_n_bot_lvl_nodes cs. \<exists>nd. cs_bot_lvl_nodes cs ! i = Some nd \<and> wf_node nd)"

definition cs_inv :: "cspace \<Rightarrow> bool" where
  "cs_inv cs \<longleftrightarrow> cs_shape cs \<and>
     (\<forall>t < CNODE_SLOTS (cs_top_lvl_size_bits cs).
        t \<in> bf_bits (cs_top_bf cs) \<longleftrightarrow> (\<exists>bl. cnode_at cs t = Some bl \<and> full bl))"

definition slots :: "cspace \<Rightarrow> nat set" where
  "slots cs = {t * 128 + b | t b. \<exists>bl. cnode_at cs t = Some bl \<and> b \<in> bf_bits (bl_bf bl)}"

lemma top_slots_64:
  assumes "11 \<le> k"
  shows "CNODE_SLOTS k = 64 * BITFIELD_SIZE k" "0 < CNODE_SLOTS k"
proof -
  obtain j where "k = 11 + j" using assms by (metis le_Suc_ex)
  then show "CNODE_SLOTS k = 64 * BITFIELD_SIZE k" "0 < CNODE_SLOTS k"
    by (simp_all add: CNODE_SLOTS_def BITFIELD_SIZE_def CNODE_SLOT_BITS_def seL4_SlotBits_def seL4_WordBits_def power_add)
qed

lemma wf_nodeD:
  "wf_node nd \<Longrightarrow> length (bn_cnodes nd) = 169" "wf_node nd \<Longrightarrow> bn_n_cnodes nd \<le> 169"
  "wf_node nd \<Longrightarrow> i < 169 \<Longrightarrow> length (bl_bf (bn_cnodes nd ! i)) = 2"
  "wf_node nd \<Longrightarrow> i < 169 \<Longrightarrow> bn_n_cnodes nd \<le> i \<Longrightarrow> bl_bf (bn_cnodes nd ! i) = [0, 0]"
  by (simp_all add: wf_node_def)

lemma shape_node:
  assumes "cs_shape cs" "i < cs_n_bot_lvl_nodes cs"
  obtains nd where "get_node cs i = Some nd" "cs_bot_lvl_nodes cs ! i = Some nd" "wf_node nd" "i < length (cs_bot_lvl_nodes cs)"
  using assms by (force simp: cs_shape_def get_node_def arr_get_def)

lemma bot_SomeD:
  assumes "cs_shape cs" "cnode_at cs t = Some bl"
  obtains nd where "t div 169 < cs_n_bot_lvl_nodes cs" "get_node cs (t div 169) = Some nd" "wf_node nd"
    "t mod 169 < bn_n_cnodes nd" "bl = bn_cnodes nd ! (t mod 169)" "t mod 169 < length (bn_cnodes nd)" "length (bl_bf bl) = 2"
proof -
  have lt: "t div 169 < cs_n_bot_lvl_nodes cs" using assms(2) by (simp add: cnode_at_def split: if_splits)
  obtain nd where nd: "get_node cs (t div 169) = Some nd" "cs_bot_lvl_nodes cs ! (t div 169) = Some nd" "wf_node nd"
    using shape_node [OF assms(1) lt] by blast
  then show thesis using that [of nd] lt assms(2) wf_nodeD [OF nd(3)] by (auto simp: cnode_at_def node_bot_def split: if_splits)
qed

text \<open>Writing a node that exists.\<close>

lemma set_node_bot:
  assumes sh: "cs_shape cs" and i: "i < cs_n_bot_lvl_nodes cs" and nd: "wf_node nd"
  shows "\<exists>cs'. set_node i nd cs = Some cs' \<and> cs' = cs\<lparr>cs_bot_lvl_nodes := (cs_bot_lvl_nodes cs)[i := Some nd]\<rparr> \<and>
    cs_shape cs' \<and> (\<forall>t. cnode_at cs' t = (if t div 169 = i then node_bot (Some nd) (t mod 169) else cnode_at cs t))"
proof -
  have "i < length (cs_bot_lvl_nodes cs)" using sh i by (simp add: cs_shape_def)
  then show ?thesis using sh i nd
    by (auto simp: set_node_def arr_set_def cs_shape_def cnode_at_def nth_list_update)
qed

lemma update_bot:
  assumes sh: "cs_shape cs" and b: "cnode_at cs t = Some bl" and l: "length (bl_bf bl') = 2" and nd: "get_node cs (t div 169) = Some nd"
  shows "\<exists>ns. set_node (t div 169) (nd\<lparr>bn_cnodes := (bn_cnodes nd)[t mod 169 := bl']\<rparr>) cs = Some (cs\<lparr>cs_bot_lvl_nodes := ns\<rparr>) \<and>
    cs_shape (cs\<lparr>cs_bot_lvl_nodes := ns\<rparr>) \<and> cnode_at (cs\<lparr>cs_bot_lvl_nodes := ns\<rparr>) = (cnode_at cs)(t := Some bl') \<and>
    length ns = length (cs_bot_lvl_nodes cs)"
proof -
  obtain nd' where n: "t div 169 < cs_n_bot_lvl_nodes cs" "get_node cs (t div 169) = Some nd'" "wf_node nd'"
    "t mod 169 < bn_n_cnodes nd'" "bl = bn_cnodes nd' ! (t mod 169)" "t mod 169 < length (bn_cnodes nd')"
    using bot_SomeD [OF sh b] by metis
  then have eq: "nd' = nd" using nd by simp
  let ?nd = "nd\<lparr>bn_cnodes := (bn_cnodes nd)[t mod 169 := bl']\<rparr>"
  have wf: "wf_node ?nd" using n(3,4) l unfolding eq by (auto simp: wf_node_def nth_list_update)
  have raw: "cs_bot_lvl_nodes cs ! (t div 169) = Some nd" using nd by (auto simp: get_node_def arr_get_def split: if_splits)
  from set_node_bot [OF sh n(1) wf] obtain cs' where s: "set_node (t div 169) ?nd cs = Some cs'"
    "cs' = cs\<lparr>cs_bot_lvl_nodes := (cs_bot_lvl_nodes cs)[t div 169 := Some ?nd]\<rparr>" "cs_shape cs'"
    "\<And>u. cnode_at cs' u = (if u div 169 = t div 169 then node_bot (Some ?nd) (u mod 169) else cnode_at cs u)" by blast
  have "cnode_at cs' = (cnode_at cs)(t := Some bl')"
  proof
    fix u
    consider "u = t" | "u \<noteq> t" "u div 169 = t div 169" "u mod 169 \<noteq> t mod 169" | "u div 169 \<noteq> t div 169"
      using top_eq [of u t] by blast
    then show "cnode_at cs' u = ((cnode_at cs)(t := Some bl')) u"
    proof cases
      case 1 then show ?thesis using n(4,6) eq by (simp add: s(4) node_bot_def)
    next
      case 2 then show ?thesis using n(1) raw by (simp add: s(4) node_bot_def cnode_at_def [of cs])
    next
      case 3 then show ?thesis by (auto simp: s(4))
    qed
  qed
  with s show ?thesis by auto
qed

text \<open>What a change of one bottom level record does to the slots in use.\<close>

lemma bot_len: "cs_shape cs \<Longrightarrow> cnode_at cs t = Some bl \<Longrightarrow> length (bl_bf bl) = 2"
  using bot_SomeD by metis

lemma slots_iff:
  assumes sh: "cs_shape cs"
  shows "x \<in> slots cs \<longleftrightarrow> (\<exists>bl. cnode_at cs (x div 128) = Some bl \<and> x mod 128 \<in> bf_bits (bl_bf bl))"
proof
  assume "x \<in> slots cs"
  then obtain t b bl where e: "x = t * 128 + b" "cnode_at cs t = Some bl" "b \<in> bf_bits (bl_bf bl)" by (auto simp: slots_def)
  have "b < 128" using bf_bits_bound [OF e(3)] bot_len [OF sh e(2)] by simp
  then have "x div 128 = t" "x mod 128 = b" using e(1) by simp_all
  then show "\<exists>bl. cnode_at cs (x div 128) = Some bl \<and> x mod 128 \<in> bf_bits (bl_bf bl)" using e by blast
next
  assume "\<exists>bl. cnode_at cs (x div 128) = Some bl \<and> x mod 128 \<in> bf_bits (bl_bf bl)"
  moreover have "x = x div 128 * 128 + x mod 128" by simp
  ultimately show "x \<in> slots cs" unfolding slots_def by blast
qed

lemma slots_update:
  assumes sh: "cs_shape cs" "cs_shape cs'" and b: "cnode_at cs t = Some bl" "cnode_at cs' = (cnode_at cs)(t := Some bl')" and i: "i < 128"
  shows "bf_bits (bl_bf bl') = insert i (bf_bits (bl_bf bl)) \<Longrightarrow> slots cs' = insert (t * 128 + i) (slots cs)"
    "bf_bits (bl_bf bl') = bf_bits (bl_bf bl) - {i} \<Longrightarrow> slots cs' = slots cs - {t * 128 + i}"
proof -
  have x: "x = t * 128 + i \<longleftrightarrow> x div 128 = t \<and> x mod 128 = i" for x using i by auto
  have s': "x \<in> slots cs' \<longleftrightarrow> (if x div 128 = t then x mod 128 \<in> bf_bits (bl_bf bl') else x \<in> slots cs)" for x
    unfolding slots_iff [OF sh(1)] slots_iff [OF sh(2)] b(2) by simp
  have s: "x div 128 = t \<Longrightarrow> x \<in> slots cs \<longleftrightarrow> x mod 128 \<in> bf_bits (bl_bf bl)" for x
    unfolding slots_iff [OF sh(1)] using b(1) by auto
  show "slots cs' = insert (t * 128 + i) (slots cs)" if e: "bf_bits (bl_bf bl') = insert i (bf_bits (bl_bf bl))"
  proof (rule set_eqI)
    fix x show "x \<in> slots cs' \<longleftrightarrow> x \<in> insert (t * 128 + i) (slots cs)"
      unfolding s' insert_iff x e using s [of x] by (cases "x div 128 = t") simp_all
  qed
  show "slots cs' = slots cs - {t * 128 + i}" if e: "bf_bits (bl_bf bl') = bf_bits (bl_bf bl) - {i}"
  proof (rule set_eqI)
    fix x show "x \<in> slots cs' \<longleftrightarrow> x \<in> slots cs - {t * 128 + i}"
      unfolding s' Diff_iff singleton_iff x e using s [of x] by (cases "x div 128 = t") simp_all
  qed
qed

section \<open>Taking a slot of an existing cnode\<close>

lemma first_free_cases:
  assumes "length bf = 2"
  obtains k where "bf_first_free 2 bf = Some k" "k \<notin> bf_bits bf" "\<forall>j < k. j \<in> bf_bits bf"
    "k \<le> 128" "128 \<le> k \<longleftrightarrow> bf_bits bf = {..<128}"
proof -
  obtain k where k: "bf_first_free 2 bf = Some k" "k \<le> 128" "\<forall>j < k. j \<in> bf_bits bf" "k \<notin> bf_bits bf"
    using bf_first_free_least [of 2 bf] assms by auto
  have "bf_bits bf \<subseteq> {..<128}" using bf_bits_bound [of _ bf] assms by auto
  with k have "128 \<le> k \<longleftrightarrow> bf_bits bf = {..<128}" by (auto simp: not_le)
  with k that show thesis by blast
qed

text \<open>The fields an allocation leaves alone.\<close>

definition cs_frame :: "cspace \<Rightarrow> cspace \<Rightarrow> bool" where
  "cs_frame cs cs' \<longleftrightarrow> cs_root_cnode cs' = cs_root_cnode cs \<and> cs_two_level cs' = cs_two_level cs \<and>
     cs_top_lvl_size_bits cs' = cs_top_lvl_size_bits cs \<and> cs_untyped cs' = cs_untyped cs \<and>
     length (cs_bot_lvl_nodes cs') = length (cs_bot_lvl_nodes cs)"

definition top_slots :: "cspace \<Rightarrow> nat" where
  "top_slots cs = CNODE_SLOTS (cs_top_lvl_size_bits cs)"

lemma cs_invI:
  assumes "cs_shape cs" "\<And>t. t < top_slots cs \<Longrightarrow> t \<in> bf_bits (cs_top_bf cs) \<longleftrightarrow> (\<exists>bl. cnode_at cs t = Some bl \<and> full bl)"
  shows "cs_inv cs"
  using assms by (simp add: cs_inv_def top_slots_def)

lemma shape_top [simp]:
  "bf_set_bit (cs_top_bf cs) t = Some bf \<Longrightarrow> cs_shape (cs\<lparr>cs_top_bf := bf\<rparr>) = cs_shape cs"
  "cnode_at (cs\<lparr>cs_top_bf := bf\<rparr>) = cnode_at cs" "cnode_at (cs\<lparr>cs_watermark := w\<rparr>) = cnode_at cs"
  by (auto simp: cs_shape_def cnode_at_def bf_set_bit_eq fun_eq_iff split: if_splits)

lemma take_bottom_ok:
  assumes inv: "cs_inv cs" and t: "t < top_slots cs" "t \<notin> bf_bits (cs_top_bf cs)" and b: "cnode_at cs t = Some bl"
  shows "\<exists>i cs' bl'. take_bottom t cs = Some (t * 128 + i, cs') \<and> i < 128 \<and> i \<notin> bf_bits (bl_bf bl) \<and> (\<forall>j < i. j \<in> bf_bits (bl_bf bl)) \<and> cs_inv cs' \<and>
    slots cs' = insert (t * 128 + i) (slots cs) \<and> t * 128 + i \<notin> slots cs \<and>
    cnode_at cs' = (cnode_at cs)(t := Some bl') \<and> bf_bits (bl_bf bl') = insert i (bf_bits (bl_bf bl)) \<and>
    bf_bits (cs_top_bf cs') = (if full bl' then insert t (bf_bits (cs_top_bf cs)) else bf_bits (cs_top_bf cs)) \<and>
    cs_watermark cs' = cs_watermark cs \<and> cs_frame cs cs' \<and> cs_n_bot_lvl_nodes cs' = cs_n_bot_lvl_nodes cs"
proof -
  have sh: "cs_shape cs" and iff: "\<And>u. u < top_slots cs \<Longrightarrow> u \<in> bf_bits (cs_top_bf cs) \<longleftrightarrow> (\<exists>bl. cnode_at cs u = Some bl \<and> full bl)"
    using inv by (simp_all add: cs_inv_def top_slots_def)
  have nf: "\<not> full bl" using iff [OF t(1)] t(2) b by blast
  obtain nd where nd: "get_node cs (t div 169) = Some nd" "bl = bn_cnodes nd ! (t mod 169)" "t mod 169 < length (bn_cnodes nd)"
    "length (bl_bf bl) = 2" using bot_SomeD [OF sh b] by metis
  obtain i where i: "bf_first_free 2 (bl_bf bl) = Some i" "i \<notin> bf_bits (bl_bf bl)" "i < 128" "\<forall>j < i. j \<in> bf_bits (bl_bf bl)"
    using first_free_cases [OF nd(4)] nf by (metis full_def le_neq_implies_less)
  obtain bf where bf: "bf_set_bit (bl_bf bl) i = Some bf" "length bf = 2" "bf_bits bf = insert i (bf_bits (bl_bf bl))"
    using bf_set_bit_bits [of i "bl_bf bl"] i nd(4) by auto
  let ?bl = "bl\<lparr>bl_bf := bf\<rparr>"
  obtain ns where ns: "set_node (t div 169) (nd\<lparr>bn_cnodes := (bn_cnodes nd)[t mod 169 := ?bl]\<rparr>) cs = Some (cs\<lparr>cs_bot_lvl_nodes := ns\<rparr>)"
    "cs_shape (cs\<lparr>cs_bot_lvl_nodes := ns\<rparr>)" "cnode_at (cs\<lparr>cs_bot_lvl_nodes := ns\<rparr>) = (cnode_at cs)(t := Some ?bl)"
    "length ns = length (cs_bot_lvl_nodes cs)"
    using update_bot [OF sh b _ nd(1), of ?bl] bf(2) by auto
  define c1 where "c1 = cs\<lparr>cs_bot_lvl_nodes := ns\<rparr>"
  obtain nxt where nxt: "bf_first_free 2 bf = Some nxt" "128 \<le> nxt \<longleftrightarrow> full ?bl"
    using first_free_cases [OF bf(2)] by (metis full_def bot_lvl.select_convs(1) bot_lvl.surjective bot_lvl.update_convs(1))
  have "t < 64 * length (cs_top_bf cs)" using t(1) sh top_slots_64 [of "cs_top_lvl_size_bits cs"] by (simp add: cs_shape_def top_slots_def)
  then obtain top where top: "bf_set_bit (cs_top_bf cs) t = Some top" "bf_bits top = insert t (bf_bits (cs_top_bf cs))"
    using bf_set_bit_bits by blast
  define c2 where "c2 = (if full ?bl then c1\<lparr>cs_top_bf := top\<rparr> else c1)"
  have c1: "cs_shape c1" "cnode_at c1 = (cnode_at cs)(t := Some ?bl)" "cs_top_bf c1 = cs_top_bf cs" using ns by (simp_all add: c1_def)
  have run: "take_bottom t cs = Some (t * 128 + i, c2)"
    using nd i bf(1) ns(1) nxt top(1) by (simp add: take_bottom_def arr_get_def arr_set_def Let_def c1_def [symmetric] c2_def c1(3))
  have sh2: "cs_shape c2" "cnode_at c2 = (cnode_at cs)(t := Some ?bl)"
    using c1 top(1) shape_top(1) [of c1 t top] by (simp_all add: c2_def)
  have tb: "bf_bits (cs_top_bf c2) = (if full ?bl then insert t (bf_bits (cs_top_bf cs)) else bf_bits (cs_top_bf cs))"
    using top(2) by (simp add: c2_def c1(3))
  have fr: "cs_frame cs c2" "cs_watermark c2 = cs_watermark cs" "top_slots c2 = top_slots cs" "cs_n_bot_lvl_nodes c2 = cs_n_bot_lvl_nodes cs"
    using ns(4) by (simp_all add: cs_frame_def c2_def c1_def top_slots_def)
  have "cs_inv c2"
    by (rule cs_invI [OF sh2(1)]) (use iff t(2) in \<open>auto simp: fr(3) tb sh2(2)\<close>)
  moreover have "slots c2 = insert (t * 128 + i) (slots cs)"
    using slots_update(1) [OF sh sh2(1) b sh2(2) i(3)] bf(3) by simp
  moreover have "t * 128 + i \<notin> slots cs" using slots_iff [OF sh, of "t * 128 + i"] b i by auto
  ultimately show ?thesis using run i(2-4) bf(3) sh2(2) tb fr by (intro exI [of _ i] exI [of _ c2] exI [of _ ?bl]) simp
qed

section \<open>Allocating\<close>

lemma cspace_alloc_slot_unfold:
  "cspace_alloc_slot K A cs e = do {
     top_index \<leftarrow> bf_first_free (BITFIELD_SIZE (cs_top_lvl_size_bits cs)) (cs_top_bf cs);
     if top_index \<ge> top_slots cs then Some (seL4_CapNull, cs, e)
     else if cs_two_level cs then do {
       missing \<leftarrow> level_missing (top_index * 128) cs;
       (ok, used, cs, e) \<leftarrow> (if missing then ensure_levels K A (top_index * 128) 0 cs e else Some (True, 0, cs, e));
       if \<not> ok then Some (seL4_CapNull, cs, e)
       else do {
         (cptr, cs) \<leftarrow> take_bottom top_index cs;
         (cs, e) \<leftarrow> refill_watermark K A used cs e;
         Some (cptr, cs, e) } }
     else do {
       top \<leftarrow> bf_set_bit (cs_top_bf cs) top_index;
       Some (top_index, cs\<lparr>cs_top_bf := top\<rparr>, e) } }"
proof -
  have or: "(b \<and> n < k) \<or> n \<le> k \<longleftrightarrow> n \<le> (k :: nat)" for b n k by auto
  show ?thesis
    unfolding refill_watermark_def refill_one_def top_slots_def
    by (subst cspace_alloc_slot.simps) (simp add: or split_def cong: if_cong)
qed

lemma top_first:
  assumes "cs_shape cs"
  obtains t where "bf_first_free (BITFIELD_SIZE (cs_top_lvl_size_bits cs)) (cs_top_bf cs) = Some t" "t \<le> top_slots cs"
    "\<And>j. j < t \<Longrightarrow> j \<in> bf_bits (cs_top_bf cs)" "t \<notin> bf_bits (cs_top_bf cs)"
proof -
  have l: "BITFIELD_SIZE (cs_top_lvl_size_bits cs) = length (cs_top_bf cs)" "top_slots cs = 64 * length (cs_top_bf cs)"
    using assms top_slots_64 [of "cs_top_lvl_size_bits cs"] by (simp_all add: cs_shape_def top_slots_def)
  from bf_first_free_least [OF l(1)] that show thesis unfolding l by blast
qed

lemma top_first_eq:
  assumes "cs_shape cs" "\<And>j. j < t \<Longrightarrow> j \<in> bf_bits (cs_top_bf cs)" "t \<notin> bf_bits (cs_top_bf cs)"
  shows "bf_first_free (BITFIELD_SIZE (cs_top_lvl_size_bits cs)) (cs_top_bf cs) = Some t"
proof -
  obtain u where u: "bf_first_free (BITFIELD_SIZE (cs_top_lvl_size_bits cs)) (cs_top_bf cs) = Some u"
    "\<And>j. j < u \<Longrightarrow> j \<in> bf_bits (cs_top_bf cs)" "u \<notin> bf_bits (cs_top_bf cs)"
    using top_first [OF assms(1)] by blast
  have "u = t" using u(2) [of t] u(3) assms(2) [of u] assms(3) by (cases u t rule: linorder_cases) auto
  with u(1) show ?thesis by simp
qed

lemma level_missing_eq:
  assumes sh: "cs_shape cs"
  shows "level_missing (t * 128) cs = Some (cnode_at cs t = None)"
proof (cases "t div 169 < cs_n_bot_lvl_nodes cs")
  case True
  from shape_node [OF sh this] obtain nd where "get_node cs (t div 169) = Some nd" "cs_bot_lvl_nodes cs ! (t div 169) = Some nd" by blast
  with True show ?thesis by (auto simp: level_missing_def cnode_at_def node_bot_def)
qed (simp add: level_missing_def cnode_at_def)

lemma refill_none [simp]: "refill_watermark K A 0 cs e = Some (cs, e)"
  by (simp add: refill_watermark_def refill_one_def)

text \<open>A state whose first cnode with free slots is \<open>t\<close>, with more than \<open>k\<close> of them.\<close>

definition ready :: "cspace \<Rightarrow> nat \<Rightarrow> nat \<Rightarrow> bool" where
  "ready cs t k \<longleftrightarrow> cs_inv cs \<and> t < top_slots cs \<and> (\<forall>j < t. j \<in> bf_bits (cs_top_bf cs)) \<and>
     (\<exists>bl. cnode_at cs t = Some bl \<and> card (bf_bits (bl_bf bl)) + k < 128)"

lemma card_not_full: "card (bf_bits (bl_bf bl)) < 128 \<Longrightarrow> \<not> full bl"
  by (metis card_lessThan full_def less_irrefl)

lemma below_slots:
  assumes inv: "cs_inv cs" and t: "t < top_slots cs" "\<And>j. j < t \<Longrightarrow> j \<in> bf_bits (cs_top_bf cs)"
    and b: "cnode_at cs t = Some bl" "\<forall>j < i. j \<in> bf_bits (bl_bf bl)" and i: "i < 128" and y: "y < t * 128 + i"
  shows "y \<in> slots cs"
proof -
  have sh: "cs_shape cs" using inv by (simp add: cs_inv_def)
  have "y = y div 128 * 128 + y mod 128" "y mod 128 < 128" by simp_all
  then consider "y div 128 < t" | "y div 128 = t" "y mod 128 < i" using y i by (cases "y div 128" t rule: linorder_cases) (linarith | simp)+
  then show ?thesis
  proof cases
    case 1
    then obtain bl' where "cnode_at cs (y div 128) = Some bl'" "full bl'"
      using inv t(2) [OF 1] t(1) by (auto simp: cs_inv_def top_slots_def)
    then show ?thesis using slots_iff [OF sh, of y] by (simp add: full_def)
  next
    case 2 then show ?thesis using slots_iff [OF sh, of y] b by simp
  qed
qed

lemma ready_take:
  assumes r: "ready cs t k"
  shows "\<exists>x cs'. take_bottom t cs = Some (x, cs') \<and> cs_inv cs' \<and> (0 < k \<longrightarrow> ready cs' t (k - 1)) \<and>
    slots cs' = insert x (slots cs) \<and> x \<notin> slots cs \<and> cs_watermark cs' = cs_watermark cs \<and> cs_frame cs cs' \<and>
    x < top_slots cs * 128 \<and> (\<forall>y < x. y \<in> slots cs)"
proof -
  obtain bl where inv: "cs_inv cs" and t: "t < top_slots cs" "\<And>j. j < t \<Longrightarrow> j \<in> bf_bits (cs_top_bf cs)"
    and b: "cnode_at cs t = Some bl" "card (bf_bits (bl_bf bl)) + k < 128" using r by (auto simp: ready_def)
  have nt: "t \<notin> bf_bits (cs_top_bf cs)" using inv t(1) b card_not_full [of bl] by (auto simp: cs_inv_def top_slots_def)
  obtain i cs' bl' where i: "i < 128" "\<forall>j < i. j \<in> bf_bits (bl_bf bl)" and tk: "take_bottom t cs = Some (t * 128 + i, cs')" "i \<notin> bf_bits (bl_bf bl)" "cs_inv cs'"
    "slots cs' = insert (t * 128 + i) (slots cs)" "t * 128 + i \<notin> slots cs" "cnode_at cs' = (cnode_at cs)(t := Some bl')"
    "bf_bits (bl_bf bl') = insert i (bf_bits (bl_bf bl))"
    "bf_bits (cs_top_bf cs') = (if full bl' then insert t (bf_bits (cs_top_bf cs)) else bf_bits (cs_top_bf cs))"
    "cs_watermark cs' = cs_watermark cs" "cs_frame cs cs'"
    using take_bottom_ok [OF inv t(1) nt b(1)] by blast
  have "top_slots cs' = top_slots cs" using tk(10) by (simp add: cs_frame_def top_slots_def)
  then have "0 < k \<longrightarrow> ready cs' t (k - 1)" using tk t b by (auto simp: ready_def)
  moreover have "t * 128 + i < top_slots cs * 128" using t(1) i(1) by simp
  moreover have "y \<in> slots cs" if "y < t * 128 + i" for y using below_slots [OF inv t b(1) i(2,1) that] .
  ultimately show ?thesis using tk by blast
qed

lemma ready_alloc:
  assumes r: "ready cs t k"
  shows "\<exists>x cs'. cspace_alloc_slot K A cs e = Some (x, cs', e) \<and> cs_inv cs' \<and> (0 < k \<longrightarrow> ready cs' t (k - 1)) \<and>
    slots cs' = insert x (slots cs) \<and> x \<notin> slots cs \<and> cs_watermark cs' = cs_watermark cs \<and> cs_frame cs cs' \<and>
    x < top_slots cs * 128 \<and> (\<forall>y < x. y \<in> slots cs)"
proof -
  obtain bl where inv: "cs_inv cs" and t: "t < top_slots cs" "\<And>j. j < t \<Longrightarrow> j \<in> bf_bits (cs_top_bf cs)"
    and b: "cnode_at cs t = Some bl" "card (bf_bits (bl_bf bl)) + k < 128" using r by (auto simp: ready_def)
  have sh: "cs_shape cs" "cs_two_level cs" using inv by (simp_all add: cs_inv_def cs_shape_def)
  have nt: "t \<notin> bf_bits (cs_top_bf cs)" using inv t(1) b card_not_full [of bl] by (auto simp: cs_inv_def top_slots_def)
  obtain x cs' where tk: "take_bottom t cs = Some (x, cs')" "cs_inv cs'" "0 < k \<longrightarrow> ready cs' t (k - 1)"
    "slots cs' = insert x (slots cs)" "x \<notin> slots cs" "cs_watermark cs' = cs_watermark cs" "cs_frame cs cs'" "x < top_slots cs * 128" "\<forall>y < x. y \<in> slots cs"
    using ready_take [OF r] by blast
  have "cspace_alloc_slot K A cs e = Some (x, cs', e)"
    using top_first_eq [OF sh(1) t(2) nt] t(1) sh(2) level_missing_eq [OF sh(1)] b(1) tk(1)
    by (subst cspace_alloc_slot_unfold) simp
  with tk show ?thesis by blast
qed

text \<open>A refill that took new slots for the reserve positions \<open>I\<close>.\<close>

definition refilled :: "nat set \<Rightarrow> cspace \<Rightarrow> cspace \<Rightarrow> bool" where
  "refilled I cs cs' \<longleftrightarrow> cs_frame cs cs' \<and> slots cs' = slots cs \<union> (!) (cs_watermark cs') ` I \<and>
     (\<forall>i \<in> I. cs_watermark cs' ! i \<notin> slots cs) \<and> (\<forall>i. i \<notin> I \<longrightarrow> cs_watermark cs' ! i = cs_watermark cs ! i)"

lemma refilled_trans:
  assumes "refilled I cs cs'" "refilled J cs' cs''" "I \<inter> J = {}"
  shows "refilled (I \<union> J) cs cs''"
proof -
  have "(!) (cs_watermark cs'') ` I = (!) (cs_watermark cs') ` I"
    using assms by (intro image_cong) (auto simp: refilled_def)
  moreover have "\<forall>i \<in> I. cs_watermark cs'' ! i = cs_watermark cs' ! i" using assms by (auto simp: refilled_def)
  ultimately show ?thesis using assms by (auto simp: refilled_def cs_frame_def image_Un)
qed

lemma watermark_ready:
  assumes "ready cs t k" "length w = 4"
  shows "ready (cs\<lparr>cs_watermark := w\<rparr>) t k"
proof -
  have "cs_shape (cs\<lparr>cs_watermark := w\<rparr>)" using assms by (simp add: ready_def cs_inv_def cs_shape_def)
  then show ?thesis using assms(1) by (auto simp: ready_def cs_inv_def top_slots_def)
qed

lemma refill_one_ready:
  assumes r: "ready cs t (Suc k)" and i: "i < 4"
  shows "\<exists>cs'. refill_one K A used i cs e = Some (cs', e) \<and> ready cs' t k \<and> refilled (if bit used i then {i} else {}) cs cs'"
proof (cases "bit used i")
  case True
  obtain x c1 where a: "cspace_alloc_slot K A cs e = Some (x, c1, e)" "ready c1 t k" "slots c1 = insert x (slots cs)"
    "x \<notin> slots cs" "cs_watermark c1 = cs_watermark cs" "cs_frame cs c1"
    using ready_alloc [OF r, of K A e] by auto
  define c2 where "c2 = c1\<lparr>cs_watermark := (cs_watermark c1)[i := x]\<rparr>"
  have wl: "length (cs_watermark c1) = 4" using a(2) by (simp add: ready_def cs_inv_def cs_shape_def)
  have same: "cnode_at c2 = cnode_at c1" "slots c2 = slots c1" by (simp_all add: c2_def slots_def)
  have "ready c2 t k" unfolding c2_def by (rule watermark_ready [OF a(2)]) (simp add: wl)
  moreover have "refilled {i} cs c2"
    using a(3-6) i wl same(2) by (auto simp: refilled_def c2_def cs_frame_def nth_list_update)
  moreover have "refill_one K A used i cs e = Some (c2, e)"
    using True a(1) i wl by (simp add: refill_one_def set_watermark_def arr_set_def c2_def)
  ultimately show ?thesis using True by auto
next
  case False
  have "ready cs t k" using r unfolding ready_def by auto
  then show ?thesis using False by (simp add: refill_one_def refilled_def cs_frame_def)
qed

lemma refill_ready:
  assumes r: "ready cs t 4"
  shows "\<exists>cs'. refill_watermark K A used cs e = Some (cs', e) \<and> cs_inv cs' \<and> refilled {i. i < 4 \<and> bit used i} cs cs'"
proof -
  let ?I = "\<lambda>i. if bit used i then {i} else {}"
  obtain c0 where c0: "refill_one K A used 0 cs e = Some (c0, e)" "ready c0 t 3" "refilled (?I 0) cs c0"
    using refill_one_ready [of cs t 3 0 K A used e] r by auto
  obtain c1 where c1: "refill_one K A used 1 c0 e = Some (c1, e)" "ready c1 t 2" "refilled (?I 1) c0 c1"
    using refill_one_ready [of c0 t 2 1 K A used e] c0(2) by auto
  obtain c2 where c2: "refill_one K A used 2 c1 e = Some (c2, e)" "ready c2 t 1" "refilled (?I 2) c1 c2"
    using refill_one_ready [of c1 t 1 2 K A used e] c1(2) by (auto simp: numeral_2_eq_2)
  obtain c3 where c3: "refill_one K A used 3 c2 e = Some (c3, e)" "ready c3 t 0" "refilled (?I 3) c2 c3"
    using refill_one_ready [of c2 t 0 3 K A used e] c2(2) by auto
  have "refilled (?I 0 \<union> ?I 1 \<union> ?I 2 \<union> ?I 3) cs c3"
    by (intro refilled_trans [OF _ c3(3)] refilled_trans [OF _ c2(3)] refilled_trans [OF c0(3) c1(3)]) auto
  moreover have "?I 0 \<union> ?I 1 \<union> ?I 2 \<union> ?I 3 = {i. i < 4 \<and> bit used i}"
  proof -
    have i4: "i < 4 \<longleftrightarrow> i = 0 \<or> i = 1 \<or> i = 2 \<or> i = 3" for i :: nat by linarith
    show ?thesis unfolding i4 by (auto simp del: One_nat_def split: if_splits) (metis neq0_conv)
  qed
  moreover have "refill_watermark K A used cs e = Some (c3, e)"
    using c0(1) c1(1) c2(1) c3(1) by (simp add: refill_watermark_def)
  moreover have "cs_inv c3" using c3(2) by (simp add: ready_def)
  ultimately show ?thesis by auto
qed

section \<open>Building levels\<close>

lemma bf_bits_zero [simp]: "bf_bits [0, 0] = {}"
  by (auto simp: bf_bits_def nth_Cons' split: if_splits)

text \<open>The relation of a state to the one before when only the cnode \<open>t\<close> was added, or nothing.\<close>

definition built :: "bool \<Rightarrow> nat \<Rightarrow> cspace \<Rightarrow> cspace \<Rightarrow> bool" where
  "built ok t cs cs' \<longleftrightarrow> cs_inv cs' \<and> cs_frame cs cs' \<and> cs_top_bf cs' = cs_top_bf cs \<and> cs_watermark cs' = cs_watermark cs \<and>
     slots cs' = slots cs \<and>
     (if ok then \<exists>bl. cnode_at cs' = (cnode_at cs)(t := Some bl) \<and> bl_bf bl = [0, 0] else cnode_at cs' = cnode_at cs)"

lemma built_refl: "cs_inv cs \<Longrightarrow> built False t cs cs"
  by (simp add: built_def cs_frame_def)

lemma builtI:
  assumes inv: "cs_inv cs" and t: "cnode_at cs t = None" and sh: "cs_shape cs'"
    and fr: "cs_frame cs cs'" "cs_top_bf cs' = cs_top_bf cs" "cs_watermark cs' = cs_watermark cs"
    and b: "if ok then \<exists>bl. cnode_at cs' = (cnode_at cs)(t := Some bl) \<and> bl_bf bl = [0, 0] else cnode_at cs' = cnode_at cs"
  shows "built ok t cs cs'"
proof -
  have sh0: "cs_shape cs" using inv by (simp add: cs_inv_def)
  have empty: "bl_bf bl = [0, 0] \<Longrightarrow> \<not> full bl" for bl by (rule card_not_full) simp
  have "cs_inv cs'"
  proof (rule cs_invI [OF sh])
    fix u assume "u < top_slots cs'"
    then have "u \<in> bf_bits (cs_top_bf cs) \<longleftrightarrow> (\<exists>bl. cnode_at cs u = Some bl \<and> full bl)"
      using inv fr(1) by (simp add: cs_inv_def top_slots_def cs_frame_def)
    then show "u \<in> bf_bits (cs_top_bf cs') \<longleftrightarrow> (\<exists>bl. cnode_at cs' u = Some bl \<and> full bl)"
      unfolding fr(2) using b t empty by (cases "u = t") (auto split: if_splits)
  qed
  moreover have "slots cs' = slots cs"
    using b t unfolding set_eq_iff slots_iff [OF sh] slots_iff [OF sh0] by (auto split: if_splits)
  ultimately show ?thesis using fr b by (simp add: built_def)
qed

lemma add_cnode_ok:
  assumes inv: "cs_inv cs" and t: "cnode_at cs t = None" and lt: "t div 169 < cs_n_bot_lvl_nodes cs"
    and nd: "get_node cs (t div 169) = Some nd" "bn_n_cnodes nd = t mod 169"
  shows "\<exists>ok cs' e'. add_cnode K A (t * 128) cs e = Some (ok, cs', e') \<and> built ok t cs cs'"
proof -
  have sh: "cs_shape cs" using inv by (simp add: cs_inv_def)
  have raw: "cs_bot_lvl_nodes cs ! (t div 169) = Some nd" using nd by (auto simp: get_node_def arr_get_def split: if_splits)
  have wf: "wf_node nd" using shape_node [OF sh lt] nd(1) by (metis option.inject)
  have ti: "t mod 169 < length (bn_cnodes nd)" using wf_nodeD(1) [OF wf] by simp
  obtain r e1 where r: "ca_alloc_4k_ut A e = (r, e1)" by fastforce
  let ?bl = "(bn_cnodes nd ! (t mod 169))\<lparr>bl_untyped := (case r of None \<Rightarrow> 0 | Some (h, c) \<Rightarrow> h)\<rparr>"
  define nd1 where "nd1 = nd\<lparr>bn_cnodes := (bn_cnodes nd)[t mod 169 := ?bl]\<rparr>"
  have z: "bl_bf ?bl = [0, 0]" using wf_nodeD(4) [OF wf, of "t mod 169"] nd(2) by simp
  have wf1: "wf_node nd1" "wf_node (nd1\<lparr>bn_n_cnodes := t mod 169 + 1\<rparr>)"
    using wf z nd(2) by (auto simp: wf_node_def nd1_def nth_list_update)
  obtain c1 where c1: "set_node (t div 169) nd1 cs = Some c1"
    "c1 = cs\<lparr>cs_bot_lvl_nodes := (cs_bot_lvl_nodes cs)[t div 169 := Some nd1]\<rparr>" "cs_shape c1"
    "\<And>u. cnode_at c1 u = (if u div 169 = t div 169 then node_bot (Some nd1) (u mod 169) else cnode_at cs u)"
    using set_node_bot [OF sh lt wf1(1)] by blast
  have b1: "cnode_at c1 = cnode_at cs"
    using lt raw by (auto simp: fun_eq_iff c1(4) cnode_at_def [of cs] node_bot_def nd1_def nd(2))
  have lt1: "t div 169 < cs_n_bot_lvl_nodes c1" using lt c1(2) by simp
  obtain c2 where c2: "set_node (t div 169) (nd1\<lparr>bn_n_cnodes := t mod 169 + 1\<rparr>) c1 = Some c2"
    "c2 = c1\<lparr>cs_bot_lvl_nodes := (cs_bot_lvl_nodes c1)[t div 169 := Some (nd1\<lparr>bn_n_cnodes := t mod 169 + 1\<rparr>)]\<rparr>" "cs_shape c2"
    "\<And>u. cnode_at c2 u = (if u div 169 = t div 169 then node_bot (Some (nd1\<lparr>bn_n_cnodes := t mod 169 + 1\<rparr>)) (u mod 169) else cnode_at c1 u)"
    using set_node_bot [OF c1(3) lt1 wf1(2)] by blast
  have b2: "cnode_at c2 = (cnode_at cs)(t := Some ?bl)"
  proof
    fix u
    consider "u = t" | "u \<noteq> t" "u div 169 = t div 169" "u mod 169 \<noteq> t mod 169" | "u div 169 \<noteq> t div 169" using top_eq [of u t] by blast
    then show "cnode_at c2 u = ((cnode_at cs)(t := Some ?bl)) u"
    proof cases
      case 1 then show ?thesis using ti by (simp add: c2(4) node_bot_def nd1_def)
    next
      case 2 then show ?thesis using lt raw nd(2) by (auto simp: c2(4) cnode_at_def [of cs] node_bot_def nd1_def)
    next
      case 3 then show ?thesis by (auto simp: c2(4) b1)
    qed
  qed
  have "built False t cs c1" by (rule builtI [OF inv t c1(3)]) (simp_all add: c1(2) cs_frame_def b1 [unfolded c1(2)])
  moreover have "built True t cs c2"
    by (rule builtI [OF inv t c2(3)]) (use b2 z in \<open>auto simp: c2(2) c1(2) cs_frame_def\<close>)
  ultimately show ?thesis
    using nd r ti c1(1) c2(1) unfolding add_cnode_def Let_def
    by (cases r) (auto simp: arr_get_def arr_set_def nd1_def [symmetric] nd1_def split: prod.splits)
qed

lemma new_node_ok:
  assumes inv: "cs_inv cs" and n: "cs_n_bot_lvl_nodes cs = m" "m < length (cs_bot_lvl_nodes cs)"
  shows "\<exists>cs'. init_bot_lvl_node m u f cs = Some cs' \<and> cs_inv cs' \<and> cs_frame cs cs' \<and> cs_top_bf cs' = cs_top_bf cs \<and>
    cs_watermark cs' = cs_watermark cs \<and> slots cs' = slots cs \<and> cnode_at cs' = cnode_at cs \<and> cs_n_bot_lvl_nodes cs' = m + 1 \<and>
    (\<exists>nd. get_node cs' m = Some nd \<and> bn_n_cnodes nd = 0)"
proof -
  have sh: "cs_shape cs" using inv by (simp add: cs_inv_def)
  let ?nd = "empty_node\<lparr>bn_n_cnodes := 0, bn_untyped := u, bn_frame := f\<rparr>"
  define c1 where "c1 = cs\<lparr>cs_bot_lvl_nodes := (cs_bot_lvl_nodes cs)[m := Some ?nd], cs_n_bot_lvl_nodes := m + 1\<rparr>"
  have wf: "wf_node ?nd" by (simp add: wf_node_def empty_node_def)
  have c1: "cs_shape c1" using sh n wf by (auto simp: cs_shape_def c1_def nth_list_update less_Suc_eq)
  have b: "cnode_at c1 = cnode_at cs"
    using n by (auto simp: fun_eq_iff cnode_at_def c1_def node_bot_def empty_node_def nth_list_update)
  have "cs_inv c1" using inv c1 b by (simp add: cs_inv_def) (simp add: c1_def)
  moreover have "slots c1 = slots cs" by (simp add: slots_def b)
  moreover have "get_node c1 m = Some ?nd" using n by (simp add: get_node_def arr_get_def c1_def)
  moreover have "init_bot_lvl_node m u f cs = Some c1" using n by (simp add: init_bot_lvl_node_def arr_set_def c1_def)
  ultimately show ?thesis using b by (auto simp: c1_def cs_frame_def)
qed

lemma built_trans:
  assumes "cs_frame cs c1" "cs_top_bf c1 = cs_top_bf cs" "cs_watermark c1 = cs_watermark cs" "slots c1 = slots cs"
    "cnode_at c1 = cnode_at cs" "built ok t c1 c2"
  shows "built ok t cs c2"
  using assms by (auto simp: built_def cs_frame_def)

lemma pred_index:
  assumes "0 < (t :: nat)"
  shows "t mod 169 \<noteq> 0 \<Longrightarrow> (t - 1) div 169 = t div 169 \<and> (t - 1) mod 169 = t mod 169 - 1"
    "t mod 169 = 0 \<Longrightarrow> (t - 1) div 169 + 1 = t div 169"
proof -
  define q r where "q = t div 169" and "r = t mod 169"
  have t: "t = 169 * q + r" "r < 169" by (simp_all add: q_def r_def)
  show "(t - 1) div 169 = t div 169 \<and> (t - 1) mod 169 = t mod 169 - 1" if "t mod 169 \<noteq> 0"
  proof -
    have "t - 1 = 169 * q + (r - 1)" "r - 1 < 169" using t that by (simp_all add: r_def)
    then show ?thesis unfolding q_def [symmetric] r_def [symmetric] by simp
  qed
  show "(t - 1) div 169 + 1 = t div 169" if "t mod 169 = 0"
  proof -
    have "r = 0" "0 < q" using t that assms by (auto simp: r_def)
    then have "t - 1 = 169 * (q - 1) + 168" using t by (cases q) auto
    then have "(t - 1) div 169 = q - 1" by simp
    then show ?thesis using \<open>0 < q\<close> unfolding q_def [symmetric] by simp
  qed
qed

lemma ensure_levels_ok:
  assumes inv: "cs_inv cs" and t: "t < top_slots cs" "\<forall>j < t. j \<in> bf_bits (cs_top_bf cs)" "cnode_at cs t = None"
  shows "\<exists>ok used cs' e'. ensure_levels K A (t * 128) 0 cs e = Some (ok, used, cs', e') \<and> built ok t cs cs'"
proof -
  have sh: "cs_shape cs" "cs_two_level cs" "length (cs_watermark cs) = 4" and len: "top_slots cs \<le> 169 * length (cs_bot_lvl_nodes cs)"
    using inv by (simp_all add: cs_inv_def cs_shape_def top_slots_def)
  have prev: "(t - 1) div 169 < cs_n_bot_lvl_nodes cs \<and> (\<forall>nd. get_node cs ((t - 1) div 169) = Some nd \<longrightarrow> (t - 1) mod 169 < bn_n_cnodes nd)"
    if "0 < t"
  proof -
    have "t - 1 \<in> bf_bits (cs_top_bf cs)" "t - 1 < top_slots cs" using t that by simp_all
    then obtain bl where "cnode_at cs (t - 1) = Some bl" using inv by (auto simp: cs_inv_def top_slots_def)
    from bot_SomeD [OF sh(1) this] show ?thesis by (metis option.inject)
  qed
  define m where "m = t div 169"
  have bound: "m < (2 ^ (CNODE_SLOT_BITS (cs_top_lvl_size_bits cs) + 7) + 169 - 1) div 169"
  proof -
    have "t < 2 ^ (CNODE_SLOT_BITS (cs_top_lvl_size_bits cs) + 7)"
      using t(1) by (simp add: top_slots_def CNODE_SLOTS_def power_add)
    then show ?thesis unfolding m_def by (simp add: div_less_iff_less_mult) 
  qed
  have ml: "m < length (cs_bot_lvl_nodes cs)" using t(1) len by (simp add: m_def div_less_iff_less_mult)
  show ?thesis
  proof (cases "cs_n_bot_lvl_nodes cs \<le> m")
    case False
    then have lt: "t div 169 < cs_n_bot_lvl_nodes cs" by (simp add: m_def)
    obtain nd where nd: "get_node cs (t div 169) = Some nd" "cs_bot_lvl_nodes cs ! (t div 169) = Some nd"
      using shape_node [OF sh(1) lt] by blast
    have "t mod 169 \<le> bn_n_cnodes nd"
    proof (cases "t mod 169 = 0")
      case nz: False
      then have "0 < t" by (cases t) auto
      then have "t mod 169 - 1 < bn_n_cnodes nd" using prev nd(1) pred_index(1) [OF _ nz] by metis
      then show ?thesis by linarith
    qed simp
    moreover have "bn_n_cnodes nd \<le> t mod 169" using t(3) lt nd(2) by (auto simp: cnode_at_def node_bot_def split: if_splits)
    ultimately have "bn_n_cnodes nd = t mod 169" by simp
    from add_cnode_ok [OF inv t(3) lt nd(1) this, of K A e] False bound sh(2) show ?thesis
      by (fastforce simp: ensure_levels_def Let_def m_def)
  next
    case True
    have m0: "cs_n_bot_lvl_nodes cs = m" "t mod 169 = 0"
    proof -
      have "t mod 169 = 0 \<and> cs_n_bot_lvl_nodes cs = m"
      proof (cases "t = 0")
        case False
        then show ?thesis using prev pred_index [of t] True by (cases "t mod 169 = 0") (auto simp: m_def)
      qed (use True in \<open>simp add: m_def\<close>)
      then show "cs_n_bot_lvl_nodes cs = m" "t mod 169 = 0" by simp_all
    qed
    have bot_none: "cs_shape (cs\<lparr>cs_bot_lvl_nodes := (cs_bot_lvl_nodes cs)[m := None]\<rparr>)"
      "cnode_at (cs\<lparr>cs_bot_lvl_nodes := (cs_bot_lvl_nodes cs)[m := None]\<rparr>) = cnode_at cs"
      using sh(1) m0(1) by (auto simp: cs_shape_def cnode_at_def fun_eq_iff nth_list_update)
    then have lost: "built False t cs (cs\<lparr>cs_bot_lvl_nodes := (cs_bot_lvl_nodes cs)[m := None]\<rparr>)"
      by (intro builtI [OF inv t(3)]) (simp_all add: cs_frame_def)
    obtain r e1 where r: "retype_helper K A cs seL4_ARM_SmallPageObject (cs_watermark cs ! 3) e = (r, e1)" by fastforce
    show ?thesis
    proof (cases r)
      case None
      then show ?thesis using r True bound sh built_refl [OF inv, of t]
        by (auto simp: ensure_levels_def Let_def m_def arr_get_def)
    next
      case (Some u)
      obtain ok used e2 where mf: "ca_map_frame A (cs_watermark cs ! 3) (cs_watermark cs) (0 OR BIT 3) e1 = (ok, used, e2)"
        by (metis prod_cases3)
      obtain c1 nd where c1: "init_bot_lvl_node m u (cs_watermark cs ! 3) cs = Some c1" "cs_inv c1" "cs_frame cs c1"
        "cs_top_bf c1 = cs_top_bf cs" "cs_watermark c1 = cs_watermark cs" "slots c1 = slots cs" "cnode_at c1 = cnode_at cs"
        "cs_n_bot_lvl_nodes c1 = m + 1" "get_node c1 m = Some nd" "bn_n_cnodes nd = 0"
        using new_node_ok [OF inv m0(1) ml] by blast
      obtain ok2 c2 e3 where a: "add_cnode K A (t * 128) c1 e2 = Some (ok2, c2, e3)" "built ok2 t c1 c2"
        using add_cnode_ok [of c1 t nd K A e2] c1 t(3) m0(2) by (auto simp: m_def)
      note b = built_trans [OF c1(3-7) a(2)]
      have "ensure_levels K A (t * 128) 0 cs e = (if ok then Some (ok2, used, c2, e3)
          else Some (False, used AND NOT (BIT 3), cs\<lparr>cs_bot_lvl_nodes := (cs_bot_lvl_nodes cs)[m := None]\<rparr>,
            ca_free_4k_ut A u (snd (cspace_delete K (cs\<lparr>cs_bot_lvl_nodes := (cs_bot_lvl_nodes cs)[m := None]\<rparr>) (cs_watermark cs ! 3) e2))))"
        using r Some mf True bound sh c1(1) a(1) ml
        by (simp add: ensure_levels_def Let_def m_def [symmetric] arr_get_def arr_set_def split_def)
      then show ?thesis using b lost by (cases ok) auto
    qed
  qed
qed

section \<open>The allocator\<close>

text \<open>The outcome of an allocation: no slot and nothing changed, or a new slot, and new reserve slots for those used.\<close>

lemma cspace_alloc_slot_two:
  assumes inv: "cs_inv cs"
  shows "\<exists>x cs' e'. cspace_alloc_slot K A cs e = Some (x, cs', e') \<and> cs_inv cs' \<and> cs_frame cs cs' \<and>
    ((x = 0 \<and> slots cs' = slots cs \<and> cs_watermark cs' = cs_watermark cs) \<or>
     (x \<notin> slots cs \<and> x < top_slots cs * 128 \<and> (\<forall>y < x. y \<in> slots cs) \<and> (\<exists>I. I \<subseteq> {..<4} \<and> slots cs' = insert x (slots cs) \<union> (!) (cs_watermark cs') ` I \<and>
        x \<notin> (!) (cs_watermark cs') ` I \<and> (\<forall>i \<in> I. cs_watermark cs' ! i \<notin> slots cs) \<and>
        (\<forall>i. i \<notin> I \<longrightarrow> cs_watermark cs' ! i = cs_watermark cs ! i))))"
proof -
  have sh: "cs_shape cs" "cs_two_level cs" using inv by (simp_all add: cs_inv_def cs_shape_def)
  obtain t where t: "bf_first_free (BITFIELD_SIZE (cs_top_lvl_size_bits cs)) (cs_top_bf cs) = Some t" "t \<le> top_slots cs"
    "\<And>j. j < t \<Longrightarrow> j \<in> bf_bits (cs_top_bf cs)" "t \<notin> bf_bits (cs_top_bf cs)"
    using top_first [OF sh(1)] by blast
  show ?thesis
  proof (cases "t = top_slots cs")
    case True
    then show ?thesis using t(1) inv by (subst cspace_alloc_slot_unfold) (simp add: seL4_CapNull_def cs_frame_def)
  next
    case False
    then have lt: "t < top_slots cs" using t(2) by simp
    show ?thesis
    proof (cases "cnode_at cs t")
      case (Some bl)
      have "\<not> full bl" using inv lt t(4) Some by (auto simp: cs_inv_def top_slots_def)
      moreover have "bf_bits (bl_bf bl) \<subseteq> {..<128}" using bf_bits_bound [of _ "bl_bf bl"] bot_len [OF sh(1) Some] by auto
      ultimately have "card (bf_bits (bl_bf bl)) < 128" using psubset_card_mono [of "{..<128}" "bf_bits (bl_bf bl)"] by (auto simp: full_def)
      then have "ready cs t 0" using inv lt t(3) Some by (simp add: ready_def)
      from ready_alloc [OF this, of K A e] obtain x cs' where "cspace_alloc_slot K A cs e = Some (x, cs', e)" "cs_inv cs'"
        "slots cs' = insert x (slots cs)" "x \<notin> slots cs" "cs_watermark cs' = cs_watermark cs" "cs_frame cs cs'" "x < top_slots cs * 128" "\<forall>y < x. y \<in> slots cs" by blast
      then show ?thesis by (intro exI [of _ x] exI [of _ cs'] exI [of _ e]) auto
    next
      case None
      obtain ok used c1 e1 where en: "ensure_levels K A (t * 128) 0 cs e = Some (ok, used, c1, e1)" "built ok t cs c1"
        using ensure_levels_ok [OF inv lt allI None, of K A e] t(3) by blast
      show ?thesis
      proof (cases ok)
        case False
        then have "cspace_alloc_slot K A cs e = Some (0, c1, e1)"
          using t(1) lt sh(2) level_missing_eq [OF sh(1)] None en(1) by (subst cspace_alloc_slot_unfold) (simp add: seL4_CapNull_def)
        then show ?thesis using en(2) False by (auto simp: built_def)
      next
        case True
        then obtain bl where bl: "cnode_at c1 = (cnode_at cs)(t := Some bl)" "bl_bf bl = [0, 0]" using en(2) by (auto simp: built_def)
        have c1: "cs_inv c1" "cs_frame cs c1" "cs_top_bf c1 = cs_top_bf cs" "cs_watermark c1 = cs_watermark cs" "slots c1 = slots cs"
          using en(2) by (simp_all add: built_def)
        have "ready c1 t 5" using c1 lt t(3) bl by (auto simp: ready_def top_slots_def cs_frame_def)
        from ready_take [OF this] obtain x c2 where tk: "take_bottom t c1 = Some (x, c2)" "ready c2 t 4"
          "slots c2 = insert x (slots cs)" "x \<notin> slots cs" "cs_watermark c2 = cs_watermark cs" "cs_frame c1 c2" "x < top_slots cs * 128" "\<forall>y < x. y \<in> slots cs"
          using c1 by (auto simp: cs_frame_def top_slots_def)
        obtain c3 where rf: "refill_watermark K A used c2 e1 = Some (c3, e1)" "cs_inv c3" "refilled {i. i < 4 \<and> bit used i} c2 c3"
          using refill_ready [OF tk(2), of K A used e1] by blast
        have run: "cspace_alloc_slot K A cs e = Some (x, c3, e1)"
          using t(1) lt sh(2) level_missing_eq [OF sh(1)] None en(1) True tk(1) rf(1) by (subst cspace_alloc_slot_unfold) simp
        have fr: "cs_frame cs c3" using rf(3) tk(6) c1(2) by (simp add: refilled_def cs_frame_def)
        show ?thesis using run rf(2) fr tk(3-5,7,8) rf(3)
          by (intro exI [of _ x] exI [of _ c3] exI [of _ e1] conjI disjI2 exI [of _ "{i. i < 4 \<and> bit used i}"])
            (auto simp: refilled_def)
      qed
    qed
  qed
qed

lemma cspace_free_slot_two:
  assumes inv: "cs_inv cs" and x: "x \<noteq> 0" "x \<in> slots cs" "x < top_slots cs * 128"
  shows "\<exists>cs'. cspace_free_slot x cs = Some cs' \<and> cs_inv cs' \<and> cs_frame cs cs' \<and> slots cs' = slots cs - {x} \<and>
    cs_watermark cs' = cs_watermark cs"
proof -
  have sh: "cs_shape cs" "cs_two_level cs" using inv by (simp_all add: cs_inv_def cs_shape_def)
  define t b where "t = x div 128" and "b = x mod 128"
  have xt: "x = t * 128 + b" "b < 128" "t < top_slots cs" using x(3) by (auto simp: t_def b_def)
  obtain bl where bl: "cnode_at cs t = Some bl" "b \<in> bf_bits (bl_bf bl)" using slots_iff [OF sh(1)] x(2) by (auto simp: t_def b_def)
  obtain nd where nd: "t div 169 < cs_n_bot_lvl_nodes cs" "get_node cs (t div 169) = Some nd" "t mod 169 < bn_n_cnodes nd"
    "bl = bn_cnodes nd ! (t mod 169)" "t mod 169 < length (bn_cnodes nd)" "length (bl_bf bl) = 2"
    using bot_SomeD [OF sh(1) bl(1)] by metis
  have "t < 64 * length (cs_top_bf cs)" using xt(3) sh top_slots_64 [of "cs_top_lvl_size_bits cs"] by (simp add: cs_shape_def top_slots_def)
  then obtain top where top: "bf_clr_bit (cs_top_bf cs) t = Some top" "bf_bits top = bf_bits (cs_top_bf cs) - {t}" "length top = length (cs_top_bf cs)"
    using bf_clr_bit_bits by blast
  obtain bf where bf: "bf_clr_bit (bl_bf bl) b = Some bf" "length bf = 2" "bf_bits bf = bf_bits (bl_bf bl) - {b}"
    using bf_clr_bit_bits [of b "bl_bf bl"] nd(6) xt(2) by auto
  define c1 where "c1 = cs\<lparr>cs_top_bf := top\<rparr>"
  have c1: "cs_shape c1" "cnode_at c1 = cnode_at cs" "get_node c1 (t div 169) = Some nd"
    using sh(1) top(3) nd(2) by (simp_all add: c1_def cs_shape_def get_node_def)
  let ?bl = "bl\<lparr>bl_bf := bf\<rparr>"
  obtain ns where ns: "set_node (t div 169) (nd\<lparr>bn_cnodes := (bn_cnodes nd)[t mod 169 := ?bl]\<rparr>) c1 = Some (c1\<lparr>cs_bot_lvl_nodes := ns\<rparr>)"
    "cs_shape (c1\<lparr>cs_bot_lvl_nodes := ns\<rparr>)" "cnode_at (c1\<lparr>cs_bot_lvl_nodes := ns\<rparr>) = (cnode_at c1)(t := Some ?bl)"
    "length ns = length (cs_bot_lvl_nodes c1)"
    using update_bot [OF c1(1) _ _ c1(3), of bl ?bl] bl(1) bf(2) c1(2) by auto
  define c2 where "c2 = c1\<lparr>cs_bot_lvl_nodes := ns\<rparr>"
  have c2: "cnode_at c2 = (cnode_at cs)(t := Some ?bl)" "cs_top_bf c2 = top" "cs_frame cs c2" "cs_watermark c2 = cs_watermark cs" "top_slots c2 = top_slots cs"
    using ns c1(2) by (simp_all add: c2_def c1_def cs_frame_def top_slots_def)
  have "b \<notin> bf_bits bf" using bf(3) by simp
  then have nf: "\<not> full ?bl" using xt(2) by (auto simp: full_def)
  have "cs_inv c2"
  proof (rule cs_invI)
    show "cs_shape c2" using ns(2) by (simp add: c2_def)
    fix u assume "u < top_slots c2"
    then show "u \<in> bf_bits (cs_top_bf c2) \<longleftrightarrow> (\<exists>bl. cnode_at c2 u = Some bl \<and> full bl)"
      using inv nf c2(5) by (cases "u = t") (auto simp: cs_inv_def c2 top(2) top_slots_def)
  qed
  moreover have "slots c2 = slots cs - {x}"
    using slots_update(2) [OF sh(1) _ bl(1) c2(1) xt(2)] calculation bf(3) xt(1) by (simp add: cs_inv_def)
  moreover have "cspace_free_slot x cs = Some c2"
    using x(1,3) sh(2) top(1) nd bf(1) ns(1) c1(3) unfolding xt(1)
    by (cases "t = 0 \<and> b = 0") (auto simp: cspace_free_slot_def seL4_CapNull_def index_slot [OF xt(2)] Let_def arr_get_def arr_set_def c2_def c1_def top_slots_def)
  ultimately show ?thesis using c2 by blast
qed

end
