(* ===== verification/Cspace_Spec.thy ===== *)
theory Cspace_Spec
  imports Cspace_Slots
begin

text \<open>
  What the capability space library promises: the contract of a pool of slots, which both kinds of
  capability space satisfy, what creation establishes, and the properties of the library.
\<close>

section \<open>One level spaces\<close>

definition cs1_inv :: "cspace \<Rightarrow> bool" where
  "cs1_inv cs \<longleftrightarrow> \<not> cs_two_level cs \<and> 11 \<le> cs_top_lvl_size_bits cs \<and>
     length (cs_top_bf cs) = BITFIELD_SIZE (cs_top_lvl_size_bits cs)"

definition slots1 :: "cspace \<Rightarrow> nat set" where
  "slots1 cs = bf_bits (cs_top_bf cs)"

section \<open>The contract of a slot pool\<close>

text \<open>Repeated allocation, as the clients of a space do it.\<close>

fun take_slots :: "('s \<Rightarrow> 'e \<Rightarrow> (nat \<times> 's \<times> 'e) option) \<Rightarrow> nat \<Rightarrow> 's \<Rightarrow> 'e \<Rightarrow> (nat list \<times> 's \<times> 'e) option" where
  "take_slots al 0 s e = Some ([], s, e)"
| "take_slots al (Suc n) s e = do {
     (x, s, e) \<leftarrow> al s e;
     (xs, s, e) \<leftarrow> take_slots al n s e;
     Some (x # xs, s, e) }"

text \<open>A pool has a set of slots in use below a bound. Slot 0 doubles as the answer of a failed
  allocation, so the contract is for pools that have it in use.\<close>

locale slot_pool =
  fixes ok :: "'s \<Rightarrow> bool" and used :: "'s \<Rightarrow> nat set" and bound :: "'s \<Rightarrow> nat"
    and al :: "'s \<Rightarrow> 'e \<Rightarrow> (nat \<times> 's \<times> 'e) option" and fr :: "nat \<Rightarrow> 's \<Rightarrow> 's option"
  assumes al_total: "ok s \<Longrightarrow> \<exists>r. al s e = Some r"
    and al_keeps: "ok s \<Longrightarrow> al s e = Some (x, s', e') \<Longrightarrow> ok s' \<and> bound s' = bound s \<and> used s \<subseteq> used s'"
    and al_fresh: "ok s \<Longrightarrow> al s e = Some (x, s', e') \<Longrightarrow> x \<noteq> 0 \<Longrightarrow> x \<notin> used s \<and> x \<in> used s' \<and> x < bound s"
    and fr_ok: "ok s \<Longrightarrow> x \<in> used s \<Longrightarrow> x \<noteq> 0 \<Longrightarrow> x < bound s \<Longrightarrow>
      \<exists>s'. fr x s = Some s' \<and> ok s' \<and> bound s' = bound s \<and> used s' = used s - {x}"
begin

lemma take_slots_distinct:
  assumes "ok s"
  shows "\<exists>xs s' e'. take_slots al n s e = Some (xs, s', e') \<and> length xs = n \<and> ok s' \<and> bound s' = bound s \<and>
    used s \<subseteq> used s' \<and> distinct (filter (\<lambda>x. x \<noteq> 0) xs) \<and> (\<forall>x \<in> set xs. x \<noteq> 0 \<longrightarrow> x \<in> used s' - used s \<and> x < bound s)"
  using assms
proof (induction n arbitrary: s e)
  case (Suc n)
  obtain x s1 e1 where a: "al s e = Some (x, s1, e1)" using al_total [OF Suc.prems, of e] by auto
  note k = al_keeps [OF Suc.prems a] al_fresh [OF Suc.prems a]
  obtain xs s2 e2 where r: "take_slots al n s1 e1 = Some (xs, s2, e2)" "length xs = n" "ok s2" "bound s2 = bound s1"
    "used s1 \<subseteq> used s2" "distinct (filter (\<lambda>x. x \<noteq> 0) xs)" "\<forall>x \<in> set xs. x \<noteq> 0 \<longrightarrow> x \<in> used s2 - used s1 \<and> x < bound s1"
    using Suc.IH [of s1 e1] k(1) by blast
  have "take_slots al (Suc n) s e = Some (x # xs, s2, e2)" using a r(1) by simp
  then show ?case using r k by (intro exI [of _ "x # xs"] exI [of _ s2] exI [of _ e2]) auto
qed simp

lemma al_fr:
  assumes "ok s" "al s e = Some (x, s', e')" "x \<noteq> 0"
  shows "\<exists>s''. fr x s' = Some s'' \<and> ok s'' \<and> used s \<subseteq> used s'' \<and> used s'' = used s' - {x}"
proof -
  note k = al_keeps [OF assms(1,2)] al_fresh [OF assms]
  from fr_ok [of s' x] k assms(3) show ?thesis by auto
qed

end

lemma one_level_alloc:
  assumes "cs1_inv cs"
  shows "\<exists>x cs'. cspace_alloc_slot K A cs e = Some (x, cs', e) \<and> cs1_inv cs' \<and> top_slots cs' = top_slots cs \<and>
    ((x = 0 \<and> cs' = cs \<and> slots1 cs = {..<top_slots cs}) \<or>
     (x < top_slots cs \<and> x \<notin> slots1 cs \<and> (\<forall>y < x. y \<in> slots1 cs) \<and> slots1 cs' = insert x (slots1 cs)))"
proof -
  have l: "BITFIELD_SIZE (cs_top_lvl_size_bits cs) = length (cs_top_bf cs)" "top_slots cs = 64 * length (cs_top_bf cs)" "\<not> cs_two_level cs"
    using assms top_slots_64 [of "cs_top_lvl_size_bits cs"] by (simp_all add: cs1_inv_def top_slots_def)
  obtain t where t: "bf_first_free (length (cs_top_bf cs)) (cs_top_bf cs) = Some t" "t \<le> 64 * length (cs_top_bf cs)"
    "\<forall>j < t. j \<in> bf_bits (cs_top_bf cs)" "t \<notin> bf_bits (cs_top_bf cs)"
    using bf_first_free_least [of "length (cs_top_bf cs)" "cs_top_bf cs"] by auto
  have sub: "bf_bits (cs_top_bf cs) \<subseteq> {..<top_slots cs}" using bf_bits_bound [of _ "cs_top_bf cs"] l(2) by auto
  show ?thesis
  proof (cases "t = top_slots cs")
    case True
    then have "slots1 cs = {..<top_slots cs}" using sub t(3) by (auto simp: slots1_def)
    then show ?thesis using True t(1) l assms by (subst cspace_alloc_slot_unfold) (simp add: seL4_CapNull_def)
  next
    case False
    then have lt: "t < 64 * length (cs_top_bf cs)" using t(2) l(2) by simp
    then obtain bf where bf: "bf_set_bit (cs_top_bf cs) t = Some bf" "length bf = length (cs_top_bf cs)" "bf_bits bf = insert t (bf_bits (cs_top_bf cs))"
      using bf_set_bit_bits [OF lt] by blast
    have "cspace_alloc_slot K A cs e = Some (t, cs\<lparr>cs_top_bf := bf\<rparr>, e)"
      using lt t(1) l bf(1) by (subst cspace_alloc_slot_unfold) simp
    then show ?thesis using bf(2,3) t(3,4) lt l assms
      by (intro exI [of _ t] exI [of _ "cs\<lparr>cs_top_bf := bf\<rparr>"]) (auto simp: cs1_inv_def slots1_def top_slots_def)
  qed
qed

lemma one_level_free:
  assumes "cs1_inv cs" "x \<noteq> 0" "x < top_slots cs"
  shows "\<exists>cs'. cspace_free_slot x cs = Some cs' \<and> cs1_inv cs' \<and> top_slots cs' = top_slots cs \<and> slots1 cs' = slots1 cs - {x}"
proof -
  have "top_slots cs = 64 * length (cs_top_bf cs)"
    using assms(1) top_slots_64 [of "cs_top_lvl_size_bits cs"] by (simp add: cs1_inv_def top_slots_def)
  then obtain bf where "bf_clr_bit (cs_top_bf cs) x = Some bf" "bf_bits bf = bf_bits (cs_top_bf cs) - {x}" "length bf = length (cs_top_bf cs)"
    using bf_clr_bit_bits [of x "cs_top_bf cs"] assms(3) by auto
  then show ?thesis using assms by (auto simp: cspace_free_slot_def seL4_CapNull_def cs1_inv_def top_slots_def slots1_def)
qed

interpretation one_level: slot_pool "\<lambda>cs. cs1_inv cs \<and> 0 \<in> slots1 cs" slots1 top_slots "cspace_alloc_slot K A" cspace_free_slot for K A
proof
  fix s e assume o: "cs1_inv s \<and> 0 \<in> slots1 s"
  obtain x s' where a: "cspace_alloc_slot K A s e = Some (x, s', e)" "cs1_inv s'" "top_slots s' = top_slots s"
    "(x = 0 \<and> s' = s \<and> slots1 s = {..<top_slots s}) \<or>
     (x < top_slots s \<and> x \<notin> slots1 s \<and> (\<forall>y < x. y \<in> slots1 s) \<and> slots1 s' = insert x (slots1 s))"
    using one_level_alloc [of s K A e] o by auto
  show "\<exists>r. cspace_alloc_slot K A s e = Some r" using a(1) by simp
  fix y t e' assume "cspace_alloc_slot K A s e = Some (y, t, e')"
  then show "(cs1_inv t \<and> 0 \<in> slots1 t) \<and> top_slots t = top_slots s \<and> slots1 s \<subseteq> slots1 t"
    "y \<noteq> 0 \<Longrightarrow> y \<notin> slots1 s \<and> y \<in> slots1 t \<and> y < top_slots s" using a o by auto
next
  fix s x assume "cs1_inv s \<and> 0 \<in> slots1 s" "x \<in> slots1 s" "x \<noteq> 0" "x < top_slots s"
  then show "\<exists>s'. cspace_free_slot x s = Some s' \<and> (cs1_inv s' \<and> 0 \<in> slots1 s') \<and> top_slots s' = top_slots s \<and> slots1 s' = slots1 s - {x}"
    using one_level_free [of s x] by fastforce
qed

interpretation two_level: slot_pool "\<lambda>cs. cs_inv cs \<and> 0 \<in> slots cs" slots "\<lambda>cs. top_slots cs * 128" "cspace_alloc_slot K A" cspace_free_slot for K A
proof
  fix s e assume o: "cs_inv s \<and> 0 \<in> slots s"
  obtain x s' e1 where a: "cspace_alloc_slot K A s e = Some (x, s', e1)" "cs_inv s'" "cs_frame s s'" and
    c: "(x = 0 \<and> slots s' = slots s \<and> cs_watermark s' = cs_watermark s) \<or>
     (x \<notin> slots s \<and> x < top_slots s * 128 \<and> (\<forall>y < x. y \<in> slots s) \<and> (\<exists>I. I \<subseteq> {..<4} \<and> slots s' = insert x (slots s) \<union> (!) (cs_watermark s') ` I \<and>
        x \<notin> (!) (cs_watermark s') ` I \<and> (\<forall>i \<in> I. cs_watermark s' ! i \<notin> slots s) \<and>
        (\<forall>i. i \<notin> I \<longrightarrow> cs_watermark s' ! i = cs_watermark s ! i)))"
    using cspace_alloc_slot_two [of s K A e] o by auto
  show "\<exists>r. cspace_alloc_slot K A s e = Some r" using a(1) by simp
  fix y t e' assume "cspace_alloc_slot K A s e = Some (y, t, e')"
  then have eq: "y = x" "t = s'" using a(1) by simp_all
  have "slots s \<subseteq> slots s'" "x \<noteq> 0 \<Longrightarrow> x \<notin> slots s \<and> x \<in> slots s' \<and> x < top_slots s * 128" using c by auto
  then show "(cs_inv t \<and> 0 \<in> slots t) \<and> top_slots t * 128 = top_slots s * 128 \<and> slots s \<subseteq> slots t"
    "y \<noteq> 0 \<Longrightarrow> y \<notin> slots s \<and> y \<in> slots t \<and> y < top_slots s * 128"
    using a o unfolding eq by (auto simp: cs_frame_def top_slots_def)
next
  fix s x assume "cs_inv s \<and> 0 \<in> slots s" "x \<in> slots s" "x \<noteq> 0" "x < top_slots s * 128"
  then show "\<exists>s'. cspace_free_slot x s = Some s' \<and> (cs_inv s' \<and> 0 \<in> slots s') \<and> top_slots s' * 128 = top_slots s * 128 \<and> slots s' = slots s - {x}"
    using cspace_free_slot_two [of s x] by (fastforce simp: cs_frame_def top_slots_def)
qed

section \<open>Creation\<close>

abbreviation pool_ok :: "cspace \<Rightarrow> bool" where
  "pool_ok cs \<equiv> cs_inv cs \<and> 0 \<in> slots cs"

lemma fresh_inv: "cs_inv (fresh_cspace True\<lparr>cs_untyped := u, cs_root_cnode := r\<rparr>)"
proof -
  have "BOT_LVL_NODES CNODE_SIZE_BITS = 1" "CNODE_SIZE_BITS = 12" by (simp_all add: BOT_LVL_NODES_def CNODE_SIZE_BITS_def CNODE_SLOTS_def
      CNODE_SLOT_BITS_def seL4_SlotBits_def)
  moreover have "replicate 2 (0 :: u64) = [0, 0]" by (simp add: numeral_2_eq_2)
  ultimately show ?thesis by (simp add: fresh_cspace_def cs_inv_def cs_shape_def cnode_at_def WATERMARK_SLOTS_def)
qed

lemma first_slot:
  assumes "slots cs = {..<n}" "x \<notin> slots cs" "\<forall>y < x. y \<in> slots cs"
  shows "x = n"
proof -
  have "n \<le> x" using assms(1,2) by simp
  moreover have "\<not> n < x" using assms(1,3) by blast
  ultimately show ?thesis by simp
qed

lemma refill_one_next:
  assumes r: "ready cs t (Suc k)" and i: "i < 4" "bit used i" and s: "slots cs = {..<n}"
  shows "\<exists>cs'. refill_one K A used i cs e = Some (cs', e) \<and> ready cs' t k \<and> slots cs' = {..<Suc n} \<and>
    cs_watermark cs' = (cs_watermark cs)[i := n] \<and> cs_frame cs cs'"
proof -
  obtain x c1 where a: "cspace_alloc_slot K A cs e = Some (x, c1, e)" "ready c1 t k" "slots c1 = insert x (slots cs)"
    "x \<notin> slots cs" "cs_watermark c1 = cs_watermark cs" "cs_frame cs c1" "\<forall>y < x. y \<in> slots cs"
    using ready_alloc [OF r, of K A e] by auto
  have x: "x = n" by (rule first_slot [OF s a(4,7)])
  have wl: "length (cs_watermark c1) = 4" using a(2) by (simp add: ready_def cs_inv_def cs_shape_def)
  let ?c2 = "c1\<lparr>cs_watermark := (cs_watermark c1)[i := x]\<rparr>"
  have "ready ?c2 t k" by (rule watermark_ready [OF a(2)]) (simp add: wl)
  moreover have "refill_one K A used i cs e = Some (?c2, e)"
    using a(1) i wl by (simp add: refill_one_def set_watermark_def arr_set_def)
  moreover have "slots ?c2 = {..<Suc n}" using a(3) s x by (auto simp: slots_def)
  ultimately show ?thesis using a(5,6) x by (intro exI [of _ ?c2]) (simp add: cs_frame_def)
qed

lemma refill_all_next:
  assumes r: "ready cs t 4" and s: "slots cs = {..<n}"
  shows "\<exists>cs'. refill_watermark K A (mask WATERMARK_SLOTS) cs e = Some (cs', e) \<and> ready cs' t 0 \<and> slots cs' = {..<n + 4} \<and>
    cs_watermark cs' = [n, n + 1, n + 2, n + 3] \<and> cs_frame cs cs'"
proof -
  let ?m = "mask WATERMARK_SLOTS :: u64"
  have m: "bit ?m i" if "i < 4" for i using that by (simp add: bit_mask_iff WATERMARK_SLOTS_def)
  obtain c0 where c0: "refill_one K A ?m 0 cs e = Some (c0, e)" "ready c0 t 3" "slots c0 = {..<n + 1}" "cs_watermark c0 = (cs_watermark cs)[0 := n]" "cs_frame cs c0"
    using refill_one_next [of cs t 3 0 ?m n K A e] r s m by auto
  obtain c1 where c1: "refill_one K A ?m 1 c0 e = Some (c1, e)" "ready c1 t 2" "slots c1 = {..<n + 2}" "cs_watermark c1 = (cs_watermark c0)[1 := n + 1]" "cs_frame c0 c1"
    using refill_one_next [of c0 t 2 1 ?m "n + 1" K A e] c0 m by auto
  obtain c2 where c2: "refill_one K A ?m 2 c1 e = Some (c2, e)" "ready c2 t 1" "slots c2 = {..<n + 3}" "cs_watermark c2 = (cs_watermark c1)[2 := n + 2]" "cs_frame c1 c2"
    using refill_one_next [of c1 t 1 2 ?m "n + 2" K A e] c1 m by (auto simp: numeral_2_eq_2 numeral_3_eq_3)
  obtain c3 where c3: "refill_one K A ?m 3 c2 e = Some (c3, e)" "ready c3 t 0" "slots c3 = {..<n + 4}" "cs_watermark c3 = (cs_watermark c2)[3 := n + 3]" "cs_frame c2 c3"
    using refill_one_next [of c2 t 0 3 ?m "n + 3" K A e] c2 m by auto
  have "length (cs_watermark cs) = 4" using r by (simp add: ready_def cs_inv_def cs_shape_def)
  then have "cs_watermark c3 = [n, n + 1, n + 2, n + 3]"
    unfolding c0(4) c1(4) c2(4) c3(4) by (auto simp: length_Suc_conv numeral_eq_Suc)
  moreover have "cs_frame cs c3" using c0(5) c1(5) c2(5) c3(5) by (simp add: cs_frame_def)
  ultimately show ?thesis using c0(1) c1(1) c2(1) c3 by (simp add: refill_watermark_def)
qed

text \<open>An environment in which the target's requests for memory are met.\<close>

definition supplies :: "'e kernel \<Rightarrow> 'e cspace_alloc \<Rightarrow> bool" where
  "supplies K A \<longleftrightarrow> (\<forall>e. fst (ca_alloc_4k_ut A e) \<noteq> None) \<and>
     (\<forall>u ty sz r i d off n e. fst (k_Untyped_Retype K u ty sz r i d off n e) = 0)"

lemma add_cnode_supplied:
  assumes "supplies K A" "add_cnode K A cptr cs e = Some (ok, cs', e')"
  shows ok
proof -
  obtain p e1 where a: "ca_alloc_4k_ut A e = (Some p, e1)" using assms(1) by (metis option.exhaust prod.exhaust_sel supplies_def)
  have r: "fst (k_Untyped_Retype K u ty sz r i d off n e) = 0" for u ty sz r i d off n e using assms(1) by (simp add: supplies_def)
  show ?thesis using assms(2) a r unfolding add_cnode_def Let_def
    by (auto simp: split_def split: Option.bind_splits if_splits)
qed

lemma first_cnode:
  assumes inv: "cs_inv cs" and n: "cs_n_bot_lvl_nodes cs = 1" and nd: "get_node cs 0 = Some nd" "bn_n_cnodes nd = 0"
    and c: "cnode_at cs 0 = None" "slots cs = {}" and t: "0 \<notin> bf_bits (cs_top_bf cs)" and sup: "supplies K A"
  shows "\<exists>cs' e'. cspace_alloc_slot K A cs e = Some (0, cs', e') \<and> ready cs' 0 5 \<and> slots cs' = {..<1} \<and>
    cs_watermark cs' = cs_watermark cs \<and> cs_frame cs cs'"
proof -
  have sh: "cs_shape cs" "cs_two_level cs" using inv by (simp_all add: cs_inv_def cs_shape_def)
  have lt: "0 < top_slots cs" using sh top_slots_64 [of "cs_top_lvl_size_bits cs"] by (simp add: cs_shape_def top_slots_def)
  obtain ok c1 e1 where a: "add_cnode K A 0 cs e = Some (ok, c1, e1)" "built ok 0 cs c1"
    using add_cnode_ok [OF inv c(1), of nd K A e] n nd by auto
  have ok: ok using add_cnode_supplied [OF sup a(1)] .
  then obtain bl where c1: "cs_inv c1" "cs_frame cs c1" "cs_top_bf c1 = cs_top_bf cs" "cs_watermark c1 = cs_watermark cs" "slots c1 = {}"
    "cnode_at c1 = (cnode_at cs)(0 := Some bl)" "bl_bf bl = [0, 0]" using a(2) c(2) by (auto simp: built_def)
  have "ready c1 0 6" using c1 lt by (auto simp: ready_def top_slots_def cs_frame_def)
  from ready_take [OF this] obtain x c2 where tk: "take_bottom 0 c1 = Some (x, c2)" "ready c2 0 5"
    "slots c2 = {x}" "cs_watermark c2 = cs_watermark cs" "cs_frame c1 c2" "\<forall>y < x. y \<in> slots c1" using c1 by auto
  have x: "x = 0" using tk(6) c1(5) by auto
  let ?k = "CNODE_SLOT_BITS (cs_top_lvl_size_bits cs) + 7"
  have "169 \<le> 168 + (2 :: nat) ^ ?k" by simp
  then have "1 \<le> (168 + (2 :: nat) ^ ?k) div 169" using div_le_mono [of 169 "168 + 2 ^ ?k" 169] by simp
  then obtain d where "(168 + 2 ^ ?k) div 169 = Suc d" by (metis One_nat_def Suc_le_D)
  then have "ensure_levels K A 0 0 cs e = Some (ok, 0, c1, e1)"
    using sh(2) n a(1) by (simp add: ensure_levels_def NODE_INDEX_def Let_def)
  then have "cspace_alloc_slot K A cs e = Some (0, c2, e1)"
    using top_first_eq [OF sh(1) _ t] lt sh(2) level_missing_eq [OF sh(1), of 0] c(1) ok tk(1) x
    by (subst cspace_alloc_slot_unfold) simp
  then show ?thesis using tk x c1(2) by (auto simp: cs_frame_def)
qed

lemma create_slots_ok:
  assumes cs: "cs_inv cs" "cs_n_bot_lvl_nodes cs = 1" "get_node cs 0 = Some nd" "bn_n_cnodes nd = 0" "cnode_at cs 0 = None" "slots cs = {}"
    "0 \<notin> bf_bits (cs_top_bf cs)" and sup: "supplies K A" and mv: "\<And>d i w s j v e. fst (k_CNode_Move K d i w s j v e) = 0"
    and fr: "cspace_free_slot b boot = Some boot'"
  shows "\<exists>t' e'. create_slots K A b boot cs e = Some (CSPACE_NOERROR, t', boot', e') \<and> cs_inv t' \<and> slots t' = {..<6} \<and>
    cs_watermark t' = [1, 2, 3, 4] \<and> cs_frame cs t'"
proof -
  obtain c1 e1 where c1: "cspace_alloc_slot K A cs e = Some (0, c1, e1)" "ready c1 0 5" "slots c1 = {..<1}"
    "cs_frame cs c1" using first_cnode [OF cs sup, of e] by blast
  have r1: "ready c1 0 4" using c1(2) unfolding ready_def by auto
  obtain c2 where c2: "refill_watermark K A (mask WATERMARK_SLOTS) c1 e1 = Some (c2, e1)" "ready c2 0 0" "slots c2 = {..<1 + 4}"
    "cs_watermark c2 = [1, 1 + 1, 1 + 2, 1 + 3]" "cs_frame c1 c2" using refill_all_next [OF r1 c1(3), of K A e1] by blast
  obtain x c3 where c3: "cspace_alloc_slot K A c2 e1 = Some (x, c3, e1)" "cs_inv c3" "slots c3 = insert x (slots c2)" "x \<notin> slots c2"
    "cs_watermark c3 = cs_watermark c2" "cs_frame c2 c3" "\<forall>y < x. y \<in> slots c2" using ready_alloc [OF c2(2), of K A e1] by blast
  have x: "x = 5" using first_slot [OF c2(3) c3(4,7)] by simp
  have s3: "slots c3 = {..<6}" using c3(3) c2(3) x by auto
  have sh: "cs_shape c3" using c3(2) by (simp add: cs_inv_def)
  have "0 \<in> slots c3" using s3 by simp
  then obtain bl where "cnode_at c3 0 = Some bl" using slots_iff [OF sh, of 0] by auto
  then obtain n3 where n3: "0 < cs_n_bot_lvl_nodes c3" "get_node c3 0 = Some n3" "wf_node n3" using bot_SomeD [OF sh, of 0 bl] by fastforce
  have "wf_node (n3\<lparr>bn_frame := x\<rparr>)" using n3(3) by (simp add: wf_node_def)
  from set_node_bot [OF sh n3(1) this] obtain c4 where c4: "set_node 0 (n3\<lparr>bn_frame := x\<rparr>) c3 = Some c4"
    "c4 = c3\<lparr>cs_bot_lvl_nodes := (cs_bot_lvl_nodes c3)[0 := Some (n3\<lparr>bn_frame := x\<rparr>)]\<rparr>" "cs_shape c4"
    "\<And>t. cnode_at c4 t = (if t div 169 = 0 then node_bot (Some (n3\<lparr>bn_frame := x\<rparr>)) (t mod 169) else cnode_at c3 t)" by blast
  have at: "cnode_at c4 = cnode_at c3"
  proof
    fix t show "cnode_at c4 t = cnode_at c3 t"
      using n3(1,2) unfolding c4(4) by (auto simp: cnode_at_def node_bot_def get_node_def arr_get_def split: if_splits)
  qed
  have "cs_inv c4" using c3(2) c4(3) unfolding cs_inv_def at by (simp add: c4(2))
  moreover have "slots c4 = {..<6}" unfolding s3 [symmetric] slots_def at ..
  moreover have "create_slots K A b boot cs e = Some (CSPACE_NOERROR, c4, boot', snd (cspace_move K c3 x boot b e1))"
  proof -
    have two: "cs_two_level c1" using c1(2) by (simp add: ready_def cs_inv_def cs_shape_def)
    have mv3: "fst (cspace_move K c3 x boot b e1) = 0" by (simp add: cspace_move_def mv)
    show ?thesis using c1(1) two c2(1) c3(1) x mv3 n3(2) c4(1) fr
      by (simp add: create_slots_def seL4_CapNull_def seL4_NoError_def split_def)
  qed
  ultimately show ?thesis using c1(4) c2(4,5) c3(5,6) by (auto simp: c4(2) cs_frame_def)
qed

lemma create_fail_ok:
  assumes b: "pool_ok boot" and n: "cs_n_bot_lvl_nodes target = 0" and r: "cs_root_cnode target \<noteq> 0 \<Longrightarrow> cs_root_cnode target \<in> slots boot \<and> cs_root_cnode target < top_slots boot * 128"
  shows "\<exists>boot' e'. cspace_destroy K B A boot target e = Some (boot', e') \<and> pool_ok boot' \<and> top_slots boot' = top_slots boot \<and>
    slots boot' = slots boot - ({cs_root_cnode target} - {0})"
proof (cases "cs_root_cnode target = 0")
  case False
  from two_level.fr_ok [OF b] False r obtain s where "cspace_free_slot (cs_root_cnode target) boot = Some s" "pool_ok s"
    "top_slots s = top_slots boot" "slots s = slots boot - {cs_root_cnode target}" by force
  then show ?thesis using False n by (auto simp: cspace_destroy_def seL4_CapNull_def split_def Let_def)
qed (use b n in \<open>auto simp: cspace_destroy_def seL4_CapNull_def Let_def\<close>)

text \<open>The bootstrap space keeps its contract through every call that creation makes on it.\<close>

definition grows :: "cspace \<Rightarrow> cspace \<Rightarrow> bool" where
  "grows cs cs' \<longleftrightarrow> pool_ok cs' \<and> top_slots cs' = top_slots cs \<and> slots cs \<subseteq> slots cs'"

lemma grows_alloc:
  assumes "pool_ok cs"
  shows "\<exists>x cs' e'. cspace_alloc_slot K A cs e = Some (x, cs', e') \<and> grows cs cs' \<and> (x \<noteq> 0 \<longrightarrow> x \<notin> slots cs \<and> x \<in> slots cs' \<and> x < top_slots cs' * 128)"
proof -
  obtain x cs' e' where a: "cspace_alloc_slot K A cs e = Some (x, cs', e')" using two_level.al_total [OF assms, of K A e] by auto
  show ?thesis using two_level.al_keeps [OF assms a] two_level.al_fresh [OF assms a] a by (auto simp: grows_def)
qed

lemma grows_refill:
  assumes "pool_ok cs"
  shows "\<exists>cs' e'. refill_watermark K A used cs e = Some (cs', e') \<and> grows cs cs'"
proof -
  have one: "\<exists>cs' e'. refill_one K A used i cs e = Some (cs', e') \<and> grows cs cs'" if p: "pool_ok cs" and i: "i < 4" for cs e i
  proof -
    obtain x c1 e1 where a: "cspace_alloc_slot K A cs e = Some (x, c1, e1)" "grows cs c1" using grows_alloc [OF p, of K A e] by blast
    define c2 where "c2 = c1\<lparr>cs_watermark := (cs_watermark c1)[i := x]\<rparr>"
    have "cs_shape c2" using a(2) by (simp add: c2_def grows_def cs_inv_def cs_shape_def)
    moreover have "slots c2 = slots c1" by (simp add: c2_def slots_def)
    ultimately have "grows cs c2" using a(2) by (auto simp: grows_def cs_inv_def top_slots_def c2_def)
    moreover have "length (cs_watermark c1) = 4" using a(2) by (simp add: grows_def cs_inv_def cs_shape_def)
    ultimately show ?thesis using a(1) p i by (auto simp: refill_one_def set_watermark_def arr_set_def c2_def grows_def)
  qed
  obtain c0 e0 where c0: "refill_one K A used 0 cs e = Some (c0, e0)" "grows cs c0" using one [OF assms, of 0 e] by auto
  obtain c1 e1 where c1: "refill_one K A used 1 c0 e0 = Some (c1, e1)" "grows c0 c1" using one [of c0 1 e0] c0(2) by (auto simp: grows_def)
  obtain c2 e2 where c2: "refill_one K A used 2 c1 e1 = Some (c2, e2)" "grows c1 c2" using one [of c1 2 e1] c1(2) by (auto simp: grows_def)
  obtain c3 e3 where c3: "refill_one K A used 3 c2 e2 = Some (c3, e3)" "grows c2 c3" using one [of c2 3 e2] c2(2) by (auto simp: grows_def)
  have "grows cs c3" using c0(2) c1(2) c2(2) c3(2) by (auto simp: grows_def)
  then show ?thesis using c0(1) c1(1) c2(1) c3(1) by (simp add: refill_watermark_def)
qed

lemma create_bottom_ok:
  fixes K :: "'e kernel"
  assumes b: "pool_ok boot" and t: "target = fresh_cspace True\<lparr>cs_untyped := u, cs_root_cnode := r\<rparr>"
    and r: "r \<noteq> 0 \<Longrightarrow> r \<in> slots boot \<and> r < top_slots boot * 128"
    and sup: "supplies K A" and mv: "\<And>d i w s j v e. fst (k_CNode_Move K d i w s j v e) = 0"
  shows "\<exists>err t' boot' e'. create_bottom K B A boot target e = Some (err, t', boot', e') \<and> pool_ok boot' \<and>
    (err = CSPACE_ERROR \<or> err = CSPACE_NOERROR \<and> cs_inv t' \<and> slots t' = {..<6} \<and> cs_watermark t' = [1, 2, 3, 4] \<and> cs_root_cnode t' = r)"
proof -
  have two: "cs_two_level target" and n0: "cs_n_bot_lvl_nodes target = 0" by (simp_all add: t fresh_cspace_def)
  obtain x b1 e1 where a: "cspace_alloc_slot K B boot e = Some (x, b1, e1)" "grows boot b1" "x \<noteq> 0 \<longrightarrow> x \<in> slots b1 \<and> x \<notin> slots boot \<and> x < top_slots b1 * 128"
    using grows_alloc [OF b, of K B e] by blast
  have rr: "cs_root_cnode target \<in> slots c \<and> cs_root_cnode target < top_slots c * 128" if "grows boot c" "cs_root_cnode target \<noteq> 0" for c
    using r that by (auto simp: t grows_def)
  show ?thesis
  proof (cases "x = 0")
    case True
    obtain b2 e2 where "cspace_destroy K B A b1 target e1 = Some (b2, e2)" "pool_ok b2"
      using create_fail_ok [OF _ n0 rr [OF a(2)], of K B A e1] a(2) by (auto simp: grows_def)
    then show ?thesis using a(1) True two by (simp add: create_bottom_def create_fail_def seL4_CapNull_def)
  next
    case False
    obtain ut e2 where h: "retype_helper K B b1 seL4_ARM_SmallPageObject x e1 = (ut, e2)" by fastforce
    obtain mapped b3 e3 where m: "(case ut of None \<Rightarrow> Some (False, b1, e2)
        | Some _ \<Rightarrow> (case ca_map_frame B x (cs_watermark b1) 0 e2 of
             (ok, used, e) \<Rightarrow> do { (boot, e) \<leftarrow> refill_watermark K B used b1 e; Some (ok, boot, e) })) = Some (mapped, b3, e3)"
      "grows b1 b3"
    proof (cases ut)
      case None
      then show thesis using that [of False b1 e2] a(2) by (simp add: grows_def)
    next
      case (Some v)
      obtain ok used e' where mf: "ca_map_frame B x (cs_watermark b1) 0 e2 = (ok, used, e')" by (metis prod_cases3)
      obtain b3 e3 where "refill_watermark K B used b1 e' = Some (b3, e3)" "grows b1 b3"
        using grows_refill [of b1 K B used e'] a(2) by (auto simp: grows_def)
      then show thesis using that [of ok b3 e3] Some mf by simp
    qed
    have g: "grows boot b3" using a(2) m(2) by (auto simp: grows_def)
    have x3: "x \<in> slots b3" "x < top_slots b3 * 128" "pool_ok b3" "x \<noteq> r \<or> r = 0" using a(3) m(2) False r by (auto simp: grows_def)
    show ?thesis
    proof (cases mapped)
      case False
      obtain b4 e4 where d: "cspace_destroy K B A b3 target e3 = Some (b4, e4)" "pool_ok b4" "top_slots b4 = top_slots b3"
        "slots b4 = slots b3 - ({r} - {0})" using create_fail_ok [OF x3(3) n0 rr [OF g], of K B A e3] by (auto simp: t)
      have "x \<in> slots b4" using x3(1,4) d(4) \<open>x \<noteq> 0\<close> by auto
      then obtain b5 where "cspace_free_slot x b4 = Some b5" "pool_ok b5"
        using two_level.fr_ok [OF d(2), of x] x3(2) d(3) \<open>x \<noteq> 0\<close> by auto
      moreover obtain de e5 where "cspace_delete K b4 x e4 = (de, e5)" by fastforce
      ultimately show ?thesis using a(1) h m(1) False d(1) two \<open>x \<noteq> 0\<close>
        by (simp add: create_bottom_def seL4_CapNull_def)
    next
      case True
      obtain c nd where c: "init_bot_lvl_node 0 (the ut) x target = Some c" "cs_inv c" "cs_frame target c"
        "cs_top_bf c = cs_top_bf target" "slots c = slots target" "cnode_at c = cnode_at target" "cs_n_bot_lvl_nodes c = 1"
        "get_node c 0 = Some nd" "bn_n_cnodes nd = 0"
      proof -
        have "0 < length (cs_bot_lvl_nodes target)" by (simp add: t fresh_cspace_def BOT_LVL_NODES_def)
        then show thesis using that new_node_ok [OF fresh_inv [of r u, folded t] n0, of "the ut" x] by auto
      qed
      have e: "cnode_at target 0 = None" "slots target = {}" "0 \<notin> bf_bits (cs_top_bf target)"
        by (simp_all add: t cnode_at_def fresh_cspace_def slots_def numeral_2_eq_2)
      obtain b4 where b4: "cspace_free_slot x b3 = Some b4" "pool_ok b4"
        using two_level.fr_ok [OF x3(3,1)] x3(2) \<open>x \<noteq> 0\<close> by auto
      obtain t' e' where "create_slots K A x b3 c e3 = Some (CSPACE_NOERROR, t', b4, e')" "cs_inv t'" "slots t' = {..<6}"
        "cs_watermark t' = [1, 2, 3, 4]" "cs_frame c t'"
        using create_slots_ok [OF c(2,7,8,9) _ _ _ sup mv b4(1), of e3] c(4-6) e by auto
      then show ?thesis using a(1) h m(1) True two \<open>x \<noteq> 0\<close> c(1,3) b4(2)
        by (auto simp: create_bottom_def seL4_CapNull_def cs_frame_def t)
    qed
  qed
qed

lemma create_root_ok:
  fixes K :: "'e kernel"
  assumes b: "pool_ok boot" and sup: "supplies K A" and mv: "\<And>d i w s j v e. fst (k_CNode_Move K d i w s j v e) = 0"
  shows "\<exists>err t' boot' e'. create_root K B A boot (fresh_cspace True) e = Some (err, t', boot', e') \<and> pool_ok boot' \<and>
    (err = CSPACE_ERROR \<or> err = CSPACE_NOERROR \<and> cs_inv t' \<and> slots t' = {..<6} \<and> cs_watermark t' = [1, 2, 3, 4])"
proof -
  let ?t = "fresh_cspace True"
  have n0: "cs_n_bot_lvl_nodes (?t\<lparr>cs_untyped := u, cs_root_cnode := r\<rparr>) = 0" "cs_root_cnode ?t = 0" "cs_two_level ?t" "cs_n_bot_lvl_nodes ?t = 0" for u r
    by (simp_all add: fresh_cspace_def)
  have fail: "\<exists>b' e'. create_fail K B A c ?t e = Some (CSPACE_ERROR, ?t, b', e') \<and> pool_ok b'" if "pool_ok c" for c e
    using create_fail_ok [OF that n0(4), of K B A e] n0(2) by (auto simp: create_fail_def)
  obtain x b1 e1 where a: "cspace_alloc_slot K B boot e = Some (x, b1, e1)" "grows boot b1" "x \<noteq> 0 \<longrightarrow> x \<in> slots b1 \<and> x < top_slots b1 * 128"
    using grows_alloc [OF b, of K B e] by blast
  have ok1: "pool_ok b1" using a(2) by (simp add: grows_def)
  obtain ut e2 where h: "retype_helper K B b1 seL4_CapTableObject x e1 = (ut, e2)" by fastforce
  show ?thesis
  proof (cases "x = 0 \<or> ut = None")
    case True
    then show ?thesis using a(1) h fail [OF ok1, of e1] fail [OF ok1, of e2]
      by (cases "x = 0") (auto simp: create_root_def seL4_CapNull_def)
  next
    case False
    then obtain u where u: "ut = Some u" "x \<noteq> 0" by auto
    obtain r b2 e3 where a2: "cspace_alloc_slot K B b1 e2 = Some (r, b2, e3)" "grows b1 b2" "r \<noteq> 0 \<longrightarrow> r \<notin> slots b1 \<and> r \<in> slots b2 \<and> r < top_slots b2 * 128"
      using grows_alloc [OF ok1, of K B e2] by blast
    have ok2: "pool_ok b2" "x \<in> slots b2" "x < top_slots b2 * 128" "r = 0 \<or> r \<noteq> x" using a(3) a2(2,3) u(2) by (auto simp: grows_def)
    let ?t1 = "?t\<lparr>cs_untyped := u, cs_root_cnode := r\<rparr>"
    obtain b3 where b3: "cspace_free_slot x b2 = Some b3" "pool_ok b3" "top_slots b3 = top_slots b2" "slots b3 = slots b2 - {x}"
      using two_level.fr_ok [OF ok2(1,2) u(2) ok2(3)] by auto
    have r3: "r \<noteq> 0 \<Longrightarrow> r \<in> slots b3 \<and> r < top_slots b3 * 128" using a2(3) ok2(4) b3(3,4) by auto
    have failed: "\<exists>b' e'. create_fail K B A c ?t1 e = Some (CSPACE_ERROR, ?t1, b', e') \<and> pool_ok b'"
      if "pool_ok c" "r \<noteq> 0 \<Longrightarrow> r \<in> slots c \<and> r < top_slots c * 128" for c e
      using create_fail_ok [OF that(1) n0(1), of r u K B A e] that(2) by (auto simp: create_fail_def)
    define guard where "guard = k_CNode_CapData_new K 0 (seL4_WordBits - CNODE_SLOT_BITS CNODE_SIZE_BITS * 2)"
    obtain err e4 where m: "cspace_mint K b2 r b2 x (k_AllRights K) guard e3 = (err, e4)" by fastforce
    obtain de e5 where d: "cspace_delete K b2 x e4 = (de, e5)" by fastforce
    have "create_root K B A boot ?t e = (if cs_root_cnode b2 = 0 then create_fail K B A b3 ?t1 e3
        else if err \<noteq> 0 then create_fail K B A b2 ?t1 e4 else create_bottom K B A b3 ?t1 e5)"
      using a(1) h u a2(1) m d b3(1) n0(3) by (simp add: create_root_def seL4_CapNull_def seL4_NoError_def Let_def guard_def)
    then show ?thesis
      using failed [OF b3(2) r3, of e3] failed [OF ok2(1), of e4] a2(3) create_bottom_ok [OF b3(2) refl r3 sup mv, where u = u and B = B and e = e5]
      by (auto split: if_splits)
  qed
qed

section \<open>An example\<close>

definition ex_node :: bot_lvl_node where
  "ex_node = \<lparr>bn_n_cnodes = 1, bn_untyped = 9, bn_frame = 8,
     bn_cnodes = \<lparr>bl_bf = [mask 2, 0], bl_untyped = 7\<rparr> # replicate 168 \<lparr>bl_bf = [0, 0], bl_untyped = 0\<rparr>\<rparr>"

definition ex_space :: cspace where
  "ex_space = (fresh_cspace True)\<lparr>cs_root_cnode := 2, cs_n_bot_lvl_nodes := 1, cs_bot_lvl_nodes := Some ex_node # replicate 511 None\<rparr>"

definition ex_alloc :: "nat cspace_alloc" where
  "ex_alloc = \<lparr>ca_map_frame = \<lambda>_ _ used e. (True, used, e), ca_alloc_4k_ut = \<lambda>e. (Some (e + 1, e + 1), e + 1), ca_free_4k_ut = \<lambda>_ e. e\<rparr>"

definition ex_kernel :: "nat kernel" where
  "ex_kernel = \<lparr>k_Untyped_Retype = \<lambda>_ _ _ _ _ _ _ _ e. (0, e), k_CNode_Delete = \<lambda>_ _ _ e. (0, e), k_CNode_Revoke = \<lambda>_ _ _ e. (0, e),
     k_CNode_Copy = \<lambda>_ _ _ _ _ _ _ e. (0, e), k_CNode_Mint = \<lambda>_ _ _ _ _ _ _ _ e. (0, e), k_CNode_Move = \<lambda>_ _ _ _ _ _ e. (0, e),
     k_CNode_Mutate = \<lambda>_ _ _ _ _ _ _ e. (0, e), k_IRQControl_GetTrigger = \<lambda>_ _ _ _ _ _ e. (0, e), k_AllRights = 15,
     k_CNode_CapData_new = \<lambda>g n. 64 * g + n\<rparr>"

lemma ex_bits: "bf_bits [mask 2, 0] = {0, 1}"
proof -
  have "bf_bits [mask 2, 0] = {i. i < 2}" by (auto simp: bf_bits_def nth_Cons' bit_mask_iff split: if_splits)
  moreover have "i < 2 \<longleftrightarrow> i = 0 \<or> i = 1" for i :: nat by linarith
  ultimately show ?thesis by blast
qed

lemma ex_at: "cnode_at ex_space t = (if t = 0 then Some \<lparr>bl_bf = [mask 2, 0], bl_untyped = 7\<rparr> else None)"
proof -
  have "t = 0" if "t div 169 = 0" "t mod 169 = 0" using that div_mult_mod_eq [of t 169] by simp
  then show ?thesis by (auto simp: cnode_at_def ex_space_def node_bot_def ex_node_def)
qed

lemma ex_space_ok: "cs_inv ex_space" "slots ex_space = {0, 1}" "top_slots ex_space = 128"
proof -
  have "wf_node ex_node" by (auto simp: wf_node_def ex_node_def nth_Cons')
  then have sh: "cs_shape ex_space" and top: "top_slots ex_space = 128" "cs_top_bf ex_space = [0, 0]"
    by (simp_all add: ex_space_def cs_shape_def fresh_cspace_def top_slots_def CNODE_SIZE_BITS_def [symmetric] WATERMARK_SLOTS_def numeral_2_eq_2)
      (simp add: CNODE_SIZE_BITS_def)
  have "2 \<in> {..<128 :: nat}" "2 \<notin> {0, 1 :: nat}" by simp_all
  then have "{0, 1} \<noteq> {..<128 :: nat}" by metis
  then show "cs_inv ex_space" by (intro cs_invI [OF sh]) (simp add: top(2) ex_at full_def ex_bits)
  show "slots ex_space = {0, 1}" by (auto simp: slots_def ex_at ex_bits)
  show "top_slots ex_space = 128" by (fact top)
qed

lemma ex_supplies: "supplies ex_kernel ex_alloc" "fst (k_CNode_Move ex_kernel d i w s j v e) = 0"
  by (simp_all add: supplies_def ex_kernel_def ex_alloc_def)

section \<open>Properties\<close>



text \<open>C13. Freeing a slot in use of a two level space takes exactly that slot out of use, keeps the reserve and the bookkeeping
  consistent, and cannot fail.\<close>

theorem cspace_free_slot_releases:
  assumes "cs_inv cs" "x \<in> slots cs" "x \<noteq> seL4_CapNull" "x < CNODE_SLOTS (cs_top_lvl_size_bits cs) * CNODE_SLOTS CNODE_SIZE_BITS"
  shows "\<exists>cs'. cspace_free_slot x cs = Some cs' \<and> cs_inv cs' \<and> slots cs' = slots cs - {x} \<and> cs_watermark cs' = cs_watermark cs"
  using cspace_free_slot_two [of cs x] assms by (auto simp: top_slots_def seL4_CapNull_def)

lemma cspace_free_slot_releases_witness:
  "\<exists>cs'. cspace_free_slot 1 ex_space = Some cs' \<and> slots cs' = {0}"
proof -
  have "1 < CNODE_SLOTS (cs_top_lvl_size_bits ex_space) * CNODE_SLOTS CNODE_SIZE_BITS" using ex_space_ok(3) by (simp add: top_slots_def)
  from cspace_free_slot_releases [OF ex_space_ok(1) _ _ this] show ?thesis
    unfolding ex_space_ok(2) by (auto simp: seL4_CapNull_def)
qed

text \<open>C14. Slots handed out by any number of allocations are pairwise different, were not in use before and lie inside
  the space, whatever the kernel and the suppliers answer; none is lost from use.\<close>

theorem cspace_slots_distinct:
  assumes "cs_inv cs" "0 \<in> slots cs"
  shows "\<exists>xs cs' e'. take_slots (cspace_alloc_slot K A) n cs e = Some (xs, cs', e') \<and> length xs = n \<and> cs_inv cs' \<and> slots cs \<subseteq> slots cs' \<and>
    distinct (filter (\<lambda>x. x \<noteq> 0) xs) \<and> (\<forall>x \<in> set xs. x \<noteq> 0 \<longrightarrow> x \<in> slots cs' - slots cs \<and> x < top_slots cs * 128)"
  using two_level.take_slots_distinct [OF conjI [OF assms], of K A n e] by blast

lemma cspace_slots_distinct_witness:
  "\<exists>xs cs' e'. take_slots (cspace_alloc_slot ex_kernel ex_alloc) 3 ex_space 0 = Some (xs, cs', e') \<and> distinct (filter (\<lambda>x. x \<noteq> 0) xs)"
  using cspace_slots_distinct [OF ex_space_ok(1), of ex_kernel ex_alloc 3 0] ex_space_ok(2) by blast

text \<open>In a one level space an allocation takes the lowest free slot and answers null exactly when every slot is in use,
  and freeing the slot it handed out gives back the set of slots in use before.\<close>

theorem cspace_one_level_roundtrip:
  assumes "cs1_inv cs" "0 \<in> slots1 cs"
  shows "\<exists>x cs'. cspace_alloc_slot K A cs e = Some (x, cs', e) \<and>
    (x = seL4_CapNull \<longleftrightarrow> slots1 cs = {..<CNODE_SLOTS (cs_top_lvl_size_bits cs)}) \<and>
    (x \<noteq> seL4_CapNull \<longrightarrow> x \<notin> slots1 cs \<and> (\<forall>y < x. y \<in> slots1 cs) \<and> slots1 cs' = insert x (slots1 cs) \<and>
      (\<exists>cs''. cspace_free_slot x cs' = Some cs'' \<and> cs1_inv cs'' \<and> slots1 cs'' = slots1 cs))"
proof -
  obtain x cs' where a: "cspace_alloc_slot K A cs e = Some (x, cs', e)" "cs1_inv cs'" "top_slots cs' = top_slots cs"
    "(x = 0 \<and> cs' = cs \<and> slots1 cs = {..<top_slots cs}) \<or>
     (x < top_slots cs \<and> x \<notin> slots1 cs \<and> (\<forall>y < x. y \<in> slots1 cs) \<and> slots1 cs' = insert x (slots1 cs))"
    using one_level_alloc [OF assms(1), of K A e] by auto
  show ?thesis
  proof (cases "x = 0")
    case True
    then show ?thesis using a assms(2) by (auto simp: seL4_CapNull_def top_slots_def)
  next
    case False
    then obtain cs'' where "cspace_free_slot x cs' = Some cs''" "cs1_inv cs''" "slots1 cs'' = slots1 cs' - {x}"
      using one_level_free [OF a(2) False] a(3,4) by auto
    then show ?thesis using a False by (auto simp: seL4_CapNull_def top_slots_def)
  qed
qed

lemma cspace_one_level_roundtrip_witness:
  "\<exists>x cs'. cspace_alloc_slot ex_kernel no_alloc (fresh_cspace False\<lparr>cs_top_bf := [mask 2, 0]\<rparr>) 0 = Some (x, cs', 0) \<and> x \<noteq> 0"
proof -
  let ?cs = "fresh_cspace False\<lparr>cs_top_bf := [mask 2, 0]\<rparr>"
  have i: "cs1_inv ?cs" "slots1 ?cs = {0, 1}" by (simp_all add: cs1_inv_def fresh_cspace_def slots1_def ex_bits) (simp add: CNODE_SIZE_BITS_def)
  have "2 \<in> {..<128 :: nat}" "2 \<notin> {0, 1 :: nat}" by simp_all
  then have "{0, 1} \<noteq> {..<128 :: nat}" by metis
  then have "slots1 ?cs \<noteq> {..<CNODE_SLOTS (cs_top_lvl_size_bits ?cs)}" using i(2) by (simp add: fresh_cspace_def)
  moreover have "0 \<in> slots1 ?cs" using i(2) by simp
  ultimately show ?thesis using cspace_one_level_roundtrip [OF i(1), of ex_kernel no_alloc 0] unfolding seL4_CapNull_def by metis
qed



text \<open>Freeing the first capability pointer past the end of a one level space passes the range check and then writes outside the
  bit field.\<close>

theorem cspace_free_slot_limit:
  assumes "cs1_inv cs"
  shows "cspace_free_slot (CNODE_SLOTS (cs_top_lvl_size_bits cs)) cs = None"
proof -
  have "CNODE_SLOTS (cs_top_lvl_size_bits cs) = 64 * length (cs_top_bf cs)" "0 < CNODE_SLOTS (cs_top_lvl_size_bits cs)" "\<not> cs_two_level cs"
    using assms top_slots_64 [of "cs_top_lvl_size_bits cs"] by (simp_all add: cs1_inv_def)
  then show ?thesis by (simp add: cspace_free_slot_def seL4_CapNull_def bf_clr_bit_def arr_get_def WORD_INDEX_def WORD_BITS_def)
qed

lemma cspace_free_slot_limit_witness: "cspace_free_slot 128 (fresh_cspace False) = None"
proof -
  have "cs1_inv (fresh_cspace False)" by (simp add: cs1_inv_def fresh_cspace_def) (simp add: CNODE_SIZE_BITS_def)
  from cspace_free_slot_limit [OF this] show ?thesis by (simp add: fresh_cspace_def)
qed

end
