(* ===== verification/Ut.thy ===== *)
theory Ut
  imports Cspace_Spec
begin

text \<open>
  The table of untyped memory of the root server, \<^verbatim>\<open>sos/src/ut.c\<close> and \<^verbatim>\<open>ut.h\<close>, as far as it does not
  involve capability slots: the lists of free untyped objects by size and the operations on 4K objects.

  Nodes of type \<open>ut_t\<close> live in a store that maps the addresses of mapped nodes to their contents; an access
  outside it is \<open>None\<close>. The bit fields of a node keep their width: a capability is cut to 20 bits and a
  size to 4 bits when it is stored.
\<close>

section \<open>Data\<close>

definition seL4_EndpointBits :: nat where "seL4_EndpointBits = 4"
definition PAGE_SIZE_4K :: nat where "PAGE_SIZE_4K = 4096"
definition SIZEOF_UT :: nat where "SIZEOF_UT = 16"

record ut_region_t =
  rg_start :: nat
  rg_end :: nat

record ut_t =
  un_cap :: nat
  un_valid :: bool
  un_size_bits :: nat
  un_next :: nat

type_synonym ut_store = "nat \<rightharpoonup> ut_t"

record ut_table_t =
  tb_first_paddr :: nat
  tb_untypeds :: nat
  tb_store :: ut_store
  tb_free_untypeds :: "nat list"
  tb_n_4k_untyped :: u64
  tb_free_structures :: nat

definition N_UNTYPED_LISTS :: nat where
  "N_UNTYPED_LISTS = seL4_PageBits - seL4_EndpointBits + 1"

text \<open>The index of a size below the smallest one is a negative offset of the array, which is out of range.\<close>

definition SIZE_BITS_TO_INDEX :: "nat \<Rightarrow> nat option" where
  "SIZE_BITS_TO_INDEX x = (if x < seL4_EndpointBits then None else Some (x - seL4_EndpointBits))"

section \<open>Lists\<close>

definition ut_push :: "nat \<Rightarrow> nat \<Rightarrow> ut_store \<Rightarrow> (nat \<times> ut_store) option" where
  "ut_push head new st = do {
     n \<leftarrow> st new;
     Some (new, st(new \<mapsto> n\<lparr>un_next := head\<rparr>)) }"

definition ut_pop :: "nat \<Rightarrow> ut_store \<Rightarrow> (nat \<times> nat) option" where
  "ut_pop head st = do {
     popped \<leftarrow> st head;
     Some (head, un_next popped) }"

text \<open>Pushing to and popping from one of the lists of free untyped objects, and from the list of spare nodes.\<close>

definition push_free :: "nat \<Rightarrow> nat \<Rightarrow> ut_table_t \<Rightarrow> ut_table_t option" where
  "push_free i new tb = do {
     h \<leftarrow> arr_get (tb_free_untypeds tb) i;
     (h, st) \<leftarrow> ut_push h new (tb_store tb);
     hs \<leftarrow> arr_set (tb_free_untypeds tb) i h;
     Some (tb\<lparr>tb_store := st, tb_free_untypeds := hs\<rparr>) }"

definition pop_free :: "nat \<Rightarrow> ut_table_t \<Rightarrow> (nat \<times> ut_table_t) option" where
  "pop_free i tb = do {
     h \<leftarrow> arr_get (tb_free_untypeds tb) i;
     (n, h) \<leftarrow> ut_pop h (tb_store tb);
     hs \<leftarrow> arr_set (tb_free_untypeds tb) i h;
     Some (n, tb\<lparr>tb_free_untypeds := hs\<rparr>) }"

definition push_structure :: "nat \<Rightarrow> ut_table_t \<Rightarrow> ut_table_t option" where
  "push_structure new tb = do {
     (h, st) \<leftarrow> ut_push (tb_free_structures tb) new (tb_store tb);
     Some (tb\<lparr>tb_store := st, tb_free_structures := h\<rparr>) }"

definition pop_structure :: "ut_table_t \<Rightarrow> (nat \<times> ut_table_t) option" where
  "pop_structure tb = do {
     (n, h) \<leftarrow> ut_pop (tb_free_structures tb) (tb_store tb);
     Some (n, tb\<lparr>tb_free_structures := h\<rparr>) }"

section \<open>Operations\<close>

definition ut_to_paddr :: "ut_table_t \<Rightarrow> nat \<Rightarrow> nat" where
  "ut_to_paddr tb ut = (ut - tb_untypeds tb) div SIZEOF_UT * PAGE_SIZE_4K + tb_first_paddr tb"

text \<open>An address below the first one would give a pointer in front of the table.\<close>

definition paddr_to_ut :: "ut_table_t \<Rightarrow> nat \<Rightarrow> nat option" where
  "paddr_to_ut tb paddr =
     (if paddr < tb_first_paddr tb then None
      else Some (tb_untypeds tb + (paddr - tb_first_paddr tb) div PAGE_SIZE_4K * SIZEOF_UT))"

definition BYTES_TO_4K_PAGES :: "nat \<Rightarrow> nat" where
  "BYTES_TO_4K_PAGES b = b div PAGE_SIZE_4K + (if b mod PAGE_SIZE_4K > 0 then 1 else 0)"

definition ut_pages_for_region :: "ut_region_t \<Rightarrow> nat" where
  "ut_pages_for_region region = BYTES_TO_4K_PAGES ((rg_end region - rg_start region) div PAGE_SIZE_4K * SIZEOF_UT)"

definition zero_ut :: ut_t where
  "zero_ut = \<lparr>un_cap = 0, un_valid = False, un_size_bits = 0, un_next = 0\<rparr>"

text \<open>The memory given to \<open>ut_init\<close> is a zeroed array of one node for each page of the region. The two fields that
  \<open>ut_init\<close> does not assign keep the zero of a static variable.\<close>

definition ut_init :: "nat \<Rightarrow> ut_region_t \<Rightarrow> ut_table_t" where
  "ut_init memory region =
     \<lparr>tb_first_paddr = rg_start region, tb_untypeds = memory,
      tb_store = (\<lambda>a. if memory \<le> a \<and> (a - memory) mod SIZEOF_UT = 0 \<and> (a - memory) div SIZEOF_UT < (rg_end region - rg_start region) div PAGE_SIZE_4K
                      then Some zero_ut else None),
      tb_free_untypeds = replicate N_UNTYPED_LISTS 0, tb_n_4k_untyped = 0, tb_free_structures = 0\<rparr>"

definition ut_size :: "ut_table_t \<Rightarrow> u64" where
  "ut_size tb = tb_n_4k_untyped tb * of_nat PAGE_SIZE_4K"

definition set_ut :: "nat \<Rightarrow> (ut_t \<Rightarrow> ut_t) \<Rightarrow> ut_table_t \<Rightarrow> ut_table_t option" where
  "set_ut p f tb = do { n \<leftarrow> tb_store tb p; Some (tb\<lparr>tb_store := (tb_store tb)(p \<mapsto> f n)\<rparr>) }"

fun ut_add_loop :: "nat \<Rightarrow> nat \<Rightarrow> nat \<Rightarrow> bool \<Rightarrow> nat list \<Rightarrow> ut_table_t \<Rightarrow> ut_table_t option" where
  "ut_add_loop l paddr cap device [] tb = Some tb"
| "ut_add_loop l paddr cap device (i # is) tb = do {
     node \<leftarrow> paddr_to_ut tb (paddr + i * PAGE_SIZE_4K);
     tb \<leftarrow> set_ut node (\<lambda>n. n\<lparr>un_cap := cap mod 2 ^ 20, un_valid := True\<rparr>) tb;
     tb \<leftarrow> (if \<not> device then do {
              tb \<leftarrow> set_ut node (\<lambda>n. n\<lparr>un_size_bits := seL4_PageBits mod 2 ^ 4\<rparr>) tb;
              tb \<leftarrow> push_free l node tb;
              Some (tb\<lparr>tb_n_4k_untyped := tb_n_4k_untyped tb + 1\<rparr>) }
            else Some tb);
     ut_add_loop l paddr (cap + 1) device is tb }"

definition ut_add_untyped_range :: "nat \<Rightarrow> nat \<Rightarrow> nat \<Rightarrow> bool \<Rightarrow> ut_table_t \<Rightarrow> ut_table_t option" where
  "ut_add_untyped_range paddr cap n device tb = do {
     l \<leftarrow> SIZE_BITS_TO_INDEX seL4_PageBits;
     ut_add_loop l paddr cap device [0..<n] tb }"

text \<open>The result is the node, null for none, and the physical address the caller may have asked for.\<close>

definition ut_alloc_4k_untyped :: "ut_table_t \<Rightarrow> (nat \<times> nat \<times> ut_table_t) option" where
  "ut_alloc_4k_untyped tb = do {
     l \<leftarrow> SIZE_BITS_TO_INDEX seL4_PageBits;
     h \<leftarrow> arr_get (tb_free_untypeds tb) l;
     if h = 0 then Some (0, 0, tb)
     else do {
       (n, tb) \<leftarrow> pop_free l tb;
       let tb = tb\<lparr>tb_n_4k_untyped := tb_n_4k_untyped tb - 1\<rparr>;
       Some (n, ut_to_paddr tb n, tb) } }"

definition ut_free :: "nat \<Rightarrow> ut_table_t \<Rightarrow> ut_table_t option" where
  "ut_free node tb = do {
     n \<leftarrow> tb_store tb node;
     l \<leftarrow> SIZE_BITS_TO_INDEX (un_size_bits n);
     push_free l node tb }"

definition ut_alloc_4k_device :: "nat \<Rightarrow> ut_table_t \<Rightarrow> nat option" where
  "ut_alloc_4k_device paddr tb = do {
     ut \<leftarrow> paddr_to_ut tb paddr;
     n \<leftarrow> tb_store tb ut;
     Some (if \<not> un_valid n then 0 else ut) }"

text \<open>The accessors for code in other languages (\<^verbatim>\<open>ut_shim.c\<close>).\<close>

definition ut_get_cap :: "ut_table_t \<Rightarrow> nat \<Rightarrow> nat option" where
  "ut_get_cap tb ut = map_option un_cap (tb_store tb ut)"

definition ut_get_valid :: "ut_table_t \<Rightarrow> nat \<Rightarrow> bool option" where
  "ut_get_valid tb ut = map_option un_valid (tb_store tb ut)"

definition ut_get_size_bits :: "ut_table_t \<Rightarrow> nat \<Rightarrow> nat option" where
  "ut_get_size_bits tb ut = map_option un_size_bits (tb_store tb ut)"

definition ut_get_next :: "ut_table_t \<Rightarrow> nat \<Rightarrow> nat option" where
  "ut_get_next tb ut = map_option un_next (tb_store tb ut)"

section \<open>Lists in the store\<close>

fun chain :: "ut_store \<Rightarrow> nat \<Rightarrow> nat list \<Rightarrow> bool" where
  "chain st h [] \<longleftrightarrow> h = 0"
| "chain st h (x # xs) \<longleftrightarrow> h = x \<and> x \<noteq> 0 \<and> (\<exists>n. st x = Some n \<and> chain st (un_next n) xs)"

text \<open>
  Ownership: the nodes of the table are on the lists of free objects, on the list of spare nodes, or owned by some
  client, and no node is in two places. The clients' nodes and their contents are the map \<open>v\<close>.
\<close>

definition lists_ok :: "ut_table_t \<Rightarrow> nat list list \<Rightarrow> nat list \<Rightarrow> bool" where
  "lists_ok tb F S \<longleftrightarrow> length F = N_UNTYPED_LISTS \<and> length (tb_free_untypeds tb) = N_UNTYPED_LISTS \<and>
     (\<forall>i < N_UNTYPED_LISTS. chain (tb_store tb) (tb_free_untypeds tb ! i) (F ! i)) \<and>
     chain (tb_store tb) (tb_free_structures tb) S \<and> distinct (S @ concat F) \<and>
     (\<forall>i < N_UNTYPED_LISTS. \<forall>x \<in> set (F ! i). \<forall>n. tb_store tb x = Some n \<longrightarrow> un_size_bits n = i + seL4_EndpointBits)"

definition ut_own :: "ut_store \<Rightarrow> ut_table_t \<Rightarrow> bool" where
  "ut_own v tb \<longleftrightarrow> (\<exists>F S. lists_ok tb F S \<and> dom v \<inter> set (S @ concat F) = {}) \<and> v \<subseteq>\<^sub>m tb_store tb \<and> tb_store tb 0 = None"

end
