(* ===== verification/Sos_Mapping.thy ===== *)
theory Sos_Mapping
  imports Ut
begin

text \<open>
  Mapping frames (\<^verbatim>\<open>sos/src/mapping.c\<close>) and the functions with which the bootstrapped capability space gets its memory
  (\<^verbatim>\<open>sos/src/bootstrap.c\<close>). Here the abstract state of the capability space library becomes concrete: it is the
  table of untyped memory with the variables of the two files, and the kernel is a parameter that acts on the
  rest. A null pointer dereferenced inside a callback ends the run; since the interface of the callbacks has no
  value for that, the flag \<open>so_fault\<close> records it and nothing more happens afterwards.
\<close>

section \<open>State\<close>

record 'k sos =
  so_table :: ut_table_t
  so_next_free_vaddr :: nat
  so_vspace :: nat
  so_device_virt :: nat
  so_fault :: bool
  so_k :: 'k

text \<open>The mapping invocations take the capability, the address space, the address and the attributes, and for a page the
  rights before the attributes.\<close>

record 'k vkernel = "'k kernel" +
  k_ARM_Page_Map :: "nat \<Rightarrow> nat \<Rightarrow> nat \<Rightarrow> nat \<Rightarrow> nat \<Rightarrow> 'k \<Rightarrow> nat \<times> 'k"
  k_ARM_PageTable_Map :: "nat \<Rightarrow> nat \<Rightarrow> nat \<Rightarrow> nat \<Rightarrow> 'k \<Rightarrow> nat \<times> 'k"
  k_ARM_PageDirectory_Map :: "nat \<Rightarrow> nat \<Rightarrow> nat \<Rightarrow> nat \<Rightarrow> 'k \<Rightarrow> nat \<times> 'k"
  k_ARM_PageUpperDirectory_Map :: "nat \<Rightarrow> nat \<Rightarrow> nat \<Rightarrow> nat \<Rightarrow> 'k \<Rightarrow> nat \<times> 'k"
  k_MappingFailedLookupLevel :: "'k \<Rightarrow> nat"
  k_Default_VMAttributes :: nat

definition on_k :: "('k \<Rightarrow> 'r \<times> 'k) \<Rightarrow> 'k sos \<Rightarrow> 'r \<times> 'k sos" where
  "on_k f s = (case f (so_k s) of (r, k) \<Rightarrow> (r, s\<lparr>so_k := k\<rparr>))"

definition lift_kernel :: "'k vkernel \<Rightarrow> 'k sos kernel" where
  "lift_kernel V =
     \<lparr>k_Untyped_Retype = \<lambda>u t sz r i d off n. on_k (k_Untyped_Retype V u t sz r i d off n),
      k_CNode_Delete = \<lambda>r i d. on_k (k_CNode_Delete V r i d),
      k_CNode_Revoke = \<lambda>r i d. on_k (k_CNode_Revoke V r i d),
      k_CNode_Copy = \<lambda>r i d r' i' d' rt. on_k (k_CNode_Copy V r i d r' i' d' rt),
      k_CNode_Mint = \<lambda>r i d r' i' d' rt b. on_k (k_CNode_Mint V r i d r' i' d' rt b),
      k_CNode_Move = \<lambda>r i d r' i' d'. on_k (k_CNode_Move V r i d r' i' d'),
      k_CNode_Mutate = \<lambda>r i d r' i' d' b. on_k (k_CNode_Mutate V r i d r' i' d' b),
      k_IRQControl_GetTrigger = \<lambda>c q l r i d. on_k (k_IRQControl_GetTrigger V c q l r i d),
      k_AllRights = k_AllRights V,
      k_CNode_CapData_new = k_CNode_CapData_new V\<rparr>"

definition seL4_FailedLookup :: int where "seL4_FailedLookup = 6"
definition SEL4_MAPPING_LOOKUP_NO_PT :: nat where "SEL4_MAPPING_LOOKUP_NO_PT = 21"
definition SEL4_MAPPING_LOOKUP_NO_PD :: nat where "SEL4_MAPPING_LOOKUP_NO_PD = 30"
definition SEL4_MAPPING_LOOKUP_NO_PUD :: nat where "SEL4_MAPPING_LOOKUP_NO_PUD = 39"
definition seL4_CapInitThreadVSpace :: nat where "seL4_CapInitThreadVSpace = 3"
definition SOS_DEVICE_START :: nat where "SOS_DEVICE_START = 0xB0000000"

section \<open>Paging structures\<close>

definition retype_map_pt :: "'k vkernel \<Rightarrow> cspace \<Rightarrow> nat \<Rightarrow> nat \<Rightarrow> nat \<Rightarrow> nat \<Rightarrow> 'k sos \<Rightarrow> nat \<times> 'k sos" where
  "retype_map_pt V cs vspace vaddr ut slot s =
     (case cspace_untyped_retype (lift_kernel V) cs ut slot seL4_ARM_PageTableObject seL4_PageBits s of
        (err, s) \<Rightarrow> if err \<noteq> 0 then (err, s)
                    else on_k (k_ARM_PageTable_Map V slot vspace vaddr (k_Default_VMAttributes V)) s)"

definition retype_map_pd :: "'k vkernel \<Rightarrow> cspace \<Rightarrow> nat \<Rightarrow> nat \<Rightarrow> nat \<Rightarrow> nat \<Rightarrow> 'k sos \<Rightarrow> nat \<times> 'k sos" where
  "retype_map_pd V cs vspace vaddr ut slot s =
     (case cspace_untyped_retype (lift_kernel V) cs ut slot seL4_ARM_PageDirectoryObject seL4_PageBits s of
        (err, s) \<Rightarrow> if err \<noteq> 0 then (err, s)
                    else on_k (k_ARM_PageDirectory_Map V slot vspace vaddr (k_Default_VMAttributes V)) s)"

definition retype_map_pud :: "'k vkernel \<Rightarrow> cspace \<Rightarrow> nat \<Rightarrow> nat \<Rightarrow> nat \<Rightarrow> nat \<Rightarrow> 'k sos \<Rightarrow> nat \<times> 'k sos" where
  "retype_map_pud V cs vspace vaddr ut slot s =
     (case cspace_untyped_retype (lift_kernel V) cs ut slot seL4_ARM_PageUpperDirectoryObject seL4_PageBits s of
        (err, s) \<Rightarrow> if err \<noteq> 0 then (err, s)
                    else on_k (k_ARM_PageUpperDirectory_Map V slot vspace vaddr (k_Default_VMAttributes V)) s)"

section \<open>Mapping a frame\<close>

text \<open>
  The slot for the paging structure of round \<open>i\<close>: from the reserve, marking it used, or from the capability space. The
  argument \<open>next_slot\<close> of the mapping stands for the test of the pointer \<open>used\<close>.
\<close>

definition slot_from_reserve :: "nat list \<Rightarrow> nat \<Rightarrow> u64 \<Rightarrow> cspace \<Rightarrow> 'e \<Rightarrow> (nat \<times> u64 \<times> cspace \<times> 'e) option" where
  "slot_from_reserve free_slots i used cs s = do { slot \<leftarrow> arr_get free_slots i; Some (slot, used OR BIT i, cs, s) }"

definition slot_from_cspace ::
    "(cspace \<Rightarrow> 'e \<Rightarrow> (nat \<times> cspace \<times> 'e) option) \<Rightarrow> nat \<Rightarrow> u64 \<Rightarrow> cspace \<Rightarrow> 'e \<Rightarrow> (nat \<times> u64 \<times> cspace \<times> 'e) option" where
  "slot_from_cspace al i used cs s = do { (slot, cs, s) \<leftarrow> al cs s; Some (slot, used, cs, s) }"

type_synonym 'e next_slot = "nat \<Rightarrow> u64 \<Rightarrow> cspace \<Rightarrow> 'e \<Rightarrow> (nat \<times> u64 \<times> cspace \<times> 'e) option"

definition page_map :: "'k vkernel \<Rightarrow> nat \<Rightarrow> nat \<Rightarrow> nat \<Rightarrow> nat \<Rightarrow> nat \<Rightarrow> 'k sos \<Rightarrow> int \<times> 'k sos" where
  "page_map V frame_cap vspace vaddr rights attr s =
     (case on_k (k_ARM_Page_Map V frame_cap vspace vaddr rights attr) s of (err, s) \<Rightarrow> (int err, s))"

definition map_structure ::
    "'k vkernel \<Rightarrow> nat \<Rightarrow> cspace \<Rightarrow> nat \<Rightarrow> nat \<Rightarrow> nat \<Rightarrow> nat \<Rightarrow> int \<Rightarrow> 'k sos \<Rightarrow> int \<times> 'k sos" where
  "map_structure V failed cs vspace vaddr ut slot err s =
     (if failed = SEL4_MAPPING_LOOKUP_NO_PT then apfst int (retype_map_pt V cs vspace vaddr ut slot s)
      else if failed = SEL4_MAPPING_LOOKUP_NO_PD then apfst int (retype_map_pd V cs vspace vaddr ut slot s)
      else if failed = SEL4_MAPPING_LOOKUP_NO_PUD then apfst int (retype_map_pud V cs vspace vaddr ut slot s)
      else (err, s))"

text \<open>The rounds of the loop, for the indices that remain.\<close>

fun map_loop ::
    "'k vkernel \<Rightarrow> 'k sos next_slot \<Rightarrow> nat \<Rightarrow> nat \<Rightarrow> nat \<Rightarrow> nat \<Rightarrow> nat \<Rightarrow> nat list \<Rightarrow> int \<Rightarrow> u64 \<Rightarrow> cspace \<Rightarrow> 'k sos \<Rightarrow>
     (int \<times> u64 \<times> cspace \<times> 'k sos) option" where
  "map_loop V next_slot frame_cap vspace vaddr rights attr [] err used cs s = Some (err, used, cs, s)"
| "map_loop V next_slot frame_cap vspace vaddr rights attr (i # is) err used cs s =
     (if err \<noteq> seL4_FailedLookup then Some (err, used, cs, s)
      else do {
        let failed = k_MappingFailedLookupLevel V (so_k s);
        (ut, _, tb) \<leftarrow> ut_alloc_4k_untyped (so_table s);
        let s = s\<lparr>so_table := tb\<rparr>;
        if ut = 0 then Some (-1, used, cs, s)
        else do {
          (slot, used, cs, s) \<leftarrow> next_slot i used cs s;
          if slot = seL4_CapNull then Some (-1, used, cs, s)
          else do {
            n \<leftarrow> tb_store (so_table s) ut;
            let (err, s) = map_structure V failed cs vspace vaddr (un_cap n) slot err s;
            let (err, s) = (if err = 0 then page_map V frame_cap vspace vaddr rights attr s else (err, s));
            map_loop V next_slot frame_cap vspace vaddr rights attr is err used cs s } } })"

definition map_frame_impl ::
    "'k vkernel \<Rightarrow> 'k sos next_slot \<Rightarrow> nat \<Rightarrow> nat \<Rightarrow> nat \<Rightarrow> nat \<Rightarrow> nat \<Rightarrow> u64 \<Rightarrow> cspace \<Rightarrow> 'k sos \<Rightarrow> (int \<times> u64 \<times> cspace \<times> 'k sos) option" where
  "map_frame_impl V next_slot frame_cap vspace vaddr rights attr used cs s =
     (case page_map V frame_cap vspace vaddr rights attr s of
        (err, s) \<Rightarrow> map_loop V next_slot frame_cap vspace vaddr rights attr [0..<MAPPING_SLOTS] err used cs s)"

definition map_frame_cspace ::
    "'k vkernel \<Rightarrow> cspace \<Rightarrow> nat \<Rightarrow> nat \<Rightarrow> nat \<Rightarrow> nat \<Rightarrow> nat \<Rightarrow> nat list \<Rightarrow> u64 \<Rightarrow> 'k sos \<Rightarrow> (int \<times> u64 \<times> 'k sos) option" where
  "map_frame_cspace V cs frame_cap vspace vaddr rights attr free_slots used s = do {
     (err, used, _, s) \<leftarrow> map_frame_impl V (slot_from_reserve free_slots) frame_cap vspace vaddr rights attr used cs s;
     Some (err, used, s) }"

section \<open>Memory for the bootstrapped capability space\<close>

text \<open>Addresses for bookkeeping frames are handed out one page after the other.\<close>

definition alloc_vaddr :: "int \<Rightarrow> 'k sos \<Rightarrow> nat \<times> 'k sos" where
  "alloc_vaddr err s =
     (if err = 0 then (so_next_free_vaddr s, s\<lparr>so_next_free_vaddr := so_next_free_vaddr s + PAGE_SIZE_4K\<rparr>) else (0, s))"

definition fault :: "'k sos \<Rightarrow> 'k sos" where
  "fault s = s\<lparr>so_fault := True\<rparr>"

text \<open>The capability space given to the callbacks is the one that calls them; only its root and its kind matter here, and they never change.\<close>

definition bootstrap_cspace_map_frame :: "'k vkernel \<Rightarrow> cspace \<Rightarrow> nat \<Rightarrow> nat list \<Rightarrow> u64 \<Rightarrow> 'k sos \<Rightarrow> bool \<times> u64 \<times> 'k sos" where
  "bootstrap_cspace_map_frame V cookie cap free_slots used s =
     (if so_fault s then (False, used, s)
      else case map_frame_cspace V cookie cap (so_vspace s) (so_next_free_vaddr s) (k_AllRights V) (k_Default_VMAttributes V) free_slots used s of
        None \<Rightarrow> (False, used, fault s)
      | Some (err, used, s) \<Rightarrow> (case alloc_vaddr err s of (v, s) \<Rightarrow> (v \<noteq> 0, used, s)))"

definition bootstrap_cspace_alloc_4k_ut :: "'k sos \<Rightarrow> (nat \<times> nat) option \<times> 'k sos" where
  "bootstrap_cspace_alloc_4k_ut s =
     (if so_fault s then (None, s)
      else case ut_alloc_4k_untyped (so_table s) of
        None \<Rightarrow> (None, fault s)
      | Some (untyped, _, tb) \<Rightarrow>
          (case tb_store tb untyped of
             None \<Rightarrow> (None, fault (s\<lparr>so_table := tb\<rparr>))
           | Some n \<Rightarrow> (Some (untyped, un_cap n), s\<lparr>so_table := tb\<rparr>)))"

definition bootstrap_cspace_free_4k_ut :: "nat \<Rightarrow> 'k sos \<Rightarrow> 'k sos" where
  "bootstrap_cspace_free_4k_ut untyped s =
     (case ut_free untyped (so_table s) of None \<Rightarrow> fault s | Some tb \<Rightarrow> s\<lparr>so_table := tb\<rparr>)"

definition bootstrap_alloc :: "'k vkernel \<Rightarrow> cspace \<Rightarrow> 'k sos cspace_alloc" where
  "bootstrap_alloc V cs =
     \<lparr>ca_map_frame = bootstrap_cspace_map_frame V cs, ca_alloc_4k_ut = bootstrap_cspace_alloc_4k_ut,
      ca_free_4k_ut = bootstrap_cspace_free_4k_ut\<rparr>"

text \<open>A slot of the bootstrapped capability space, for its clients; a fault in a callback ends the run.\<close>

definition sos_alloc_slot :: "'k vkernel \<Rightarrow> cspace \<Rightarrow> 'k sos \<Rightarrow> (nat \<times> cspace \<times> 'k sos) option" where
  "sos_alloc_slot V cs s = do {
     (x, cs, s) \<leftarrow> cspace_alloc_slot (lift_kernel V) (bootstrap_alloc V cs) cs s;
     if so_fault s then None else Some (x, cs, s) }"

definition map_frame ::
    "'k vkernel \<Rightarrow> nat \<Rightarrow> nat \<Rightarrow> nat \<Rightarrow> nat \<Rightarrow> nat \<Rightarrow> cspace \<Rightarrow> 'k sos \<Rightarrow> (int \<times> cspace \<times> 'k sos) option" where
  "map_frame V frame_cap vspace vaddr rights attr cs s = do {
     (err, _, cs, s) \<leftarrow> map_frame_impl V (slot_from_cspace (sos_alloc_slot V)) frame_cap vspace vaddr rights attr 0 cs s;
     Some (err, cs, s) }"

definition bootstrap_map_frame :: "'k vkernel \<Rightarrow> nat \<Rightarrow> cspace \<Rightarrow> 'k sos \<Rightarrow> (nat \<times> cspace \<times> 'k sos) option" where
  "bootstrap_map_frame V cap cs s = do {
     (err, cs, s) \<leftarrow> map_frame V cap (so_vspace s) (so_next_free_vaddr s) (k_AllRights V) (k_Default_VMAttributes V) cs s;
     let (v, s) = alloc_vaddr err s;
     Some (v, cs, s) }"

section \<open>Devices\<close>

fun map_device_loop :: "'k vkernel \<Rightarrow> nat list \<Rightarrow> cspace \<Rightarrow> 'k sos \<Rightarrow> (bool \<times> cspace \<times> 'k sos) option" where
  "map_device_loop V [] cs s = Some (True, cs, s)"
| "map_device_loop V (a # as) cs s = do {
     ut \<leftarrow> ut_alloc_4k_device a (so_table s);
     if ut = 0 then Some (False, cs, s)
     else do {
       (frame, cs, s) \<leftarrow> sos_alloc_slot V cs s;
       if frame = seL4_CapNull then Some (False, cs, s)
       else do {
         n \<leftarrow> tb_store (so_table s) ut;
         case cspace_untyped_retype (lift_kernel V) cs (un_cap n) frame seL4_ARM_SmallPageObject seL4_PageBits s of
           (err, s) \<Rightarrow>
             if err \<noteq> seL4_NoError then do { cs \<leftarrow> cspace_free_slot frame cs; Some (False, cs, s) }
             else do {
               (err, cs, s) \<leftarrow> map_frame V frame seL4_CapInitThreadVSpace (so_device_virt s) (k_AllRights V) 0 cs s;
               if err \<noteq> 0 then
                 case cspace_delete (lift_kernel V) cs frame s of
                   (_, s) \<Rightarrow> do { cs \<leftarrow> cspace_free_slot frame cs; Some (False, cs, s) }
               else map_device_loop V as cs (s\<lparr>so_device_virt := so_device_virt s + PAGE_SIZE_4K\<rparr>) } } } }"

text \<open>The addresses the loop visits, for a region that does not wrap around.\<close>

definition device_pages :: "nat \<Rightarrow> nat \<Rightarrow> nat list" where
  "device_pages addr sz = map (\<lambda>i. addr + i * PAGE_SIZE_4K) [0..<(sz + PAGE_SIZE_4K - 1) div PAGE_SIZE_4K]"

definition sos_map_device :: "'k vkernel \<Rightarrow> nat \<Rightarrow> nat \<Rightarrow> cspace \<Rightarrow> 'k sos \<Rightarrow> (nat \<times> cspace \<times> 'k sos) option" where
  "sos_map_device V addr sz cs s = do {
     let vstart = so_device_virt s;
     (ok, cs, s) \<leftarrow> map_device_loop V (device_pages addr sz) cs s;
     Some (if ok then vstart else 0, cs, s) }"

end
