(* ===== verification/Ut_Alloc.thy ===== *)
theory Ut_Alloc
  imports Sos_Mapping
begin

text \<open>
  Allocation of untyped objects smaller than a page (\<^verbatim>\<open>ut_alloc\<close> of \<^verbatim>\<open>sos/src/ut.c\<close>), which splits larger
  objects and needs slots of the bootstrapped capability space, which in turn takes its memory from the same table.
\<close>

definition ut_alloc_4k :: "'k sos \<Rightarrow> (nat \<times> 'k sos) option" where
  "ut_alloc_4k s = do { (n, _, tb) \<leftarrow> ut_alloc_4k_untyped (so_table s); Some (n, s\<lparr>so_table := tb\<rparr>) }"

definition on_table :: "(ut_table_t \<Rightarrow> ut_table_t option) \<Rightarrow> 'k sos \<Rightarrow> 'k sos option" where
  "on_table f s = do { tb \<leftarrow> f (so_table s); Some (s\<lparr>so_table := tb\<rparr>) }"

text \<open>The nodes of a page that has just been mapped at \<open>v\<close>, which the kernel has zeroed.\<close>

definition new_nodes :: "nat \<Rightarrow> ut_table_t \<Rightarrow> ut_table_t" where
  "new_nodes v tb = tb\<lparr>tb_store := (\<lambda>a. if v \<le> a \<and> a < v + PAGE_SIZE_4K \<and> (a - v) mod SIZEOF_UT = 0 then Some zero_ut else tb_store tb a)\<rparr>"

fun push_structures :: "nat list \<Rightarrow> ut_table_t \<Rightarrow> ut_table_t option" where
  "push_structures [] tb = Some tb"
| "push_structures (p # ps) tb = do { tb \<leftarrow> push_structure p tb; push_structures ps tb }"

definition ensure_new_structures :: "'k vkernel \<Rightarrow> cspace \<Rightarrow> 'k sos \<Rightarrow> (bool \<times> cspace \<times> 'k sos) option" where
  "ensure_new_structures V cs s = do {
     few \<leftarrow> (if tb_free_structures (so_table s) = 0 then Some True
             else do { n \<leftarrow> tb_store (so_table s) (tb_free_structures (so_table s)); Some (un_next n = 0) });
     if \<not> few then Some (True, cs, s)
     else do {
       (frame, s) \<leftarrow> ut_alloc_4k s;
       if frame = 0 then Some (False, cs, s)
       else do {
         (cptr, cs, s) \<leftarrow> sos_alloc_slot V cs s;
         if cptr = seL4_CapNull then Some (False, cs, s)
         else do {
           n \<leftarrow> tb_store (so_table s) frame;
           (err, s) \<leftarrow> Some (cspace_untyped_retype (lift_kernel V) cs (un_cap n) cptr seL4_ARM_SmallPageObject seL4_PageBits s);
           if err \<noteq> 0 then Some (False, cs, s)
           else do {
             (new_uts, cs, s) \<leftarrow> bootstrap_map_frame V cptr cs s;
             if new_uts = 0 then Some (False, cs, s)
             else do {
               let s = s\<lparr>so_table := new_nodes new_uts (so_table s)\<rparr>;
               s \<leftarrow> on_table (push_structures (map (\<lambda>i. new_uts + i * SIZEOF_UT) [0..<PAGE_SIZE_4K div SIZEOF_UT])) s;
               Some (True, cs, s) } } } } } }"

text \<open>A spare node with a new slot; the second step of the split does the same as the first.\<close>

definition new_structure :: "'k vkernel \<Rightarrow> nat \<Rightarrow> cspace \<Rightarrow> 'k sos \<Rightarrow> (nat \<times> nat \<times> cspace \<times> 'k sos) option" where
  "new_structure V size_bits cs s = do {
     (new, tb) \<leftarrow> pop_structure (so_table s);
     let s = s\<lparr>so_table := tb\<rparr>;
     (cap, cs, s) \<leftarrow> sos_alloc_slot V cs s;
     let cap = cap mod 2 ^ 20;
     s \<leftarrow> on_table (set_ut new (\<lambda>n. n\<lparr>un_cap := cap\<rparr>)) s;
     if cap = seL4_CapNull then Some (new, cap, cs, s)
     else do {
       s \<leftarrow> on_table (set_ut new (\<lambda>n. n\<lparr>un_size_bits := size_bits mod 2 ^ 4\<rparr>)) s;
       Some (new, cap, cs, s) } }"

text \<open>The split of \<open>larger\<close> into two nodes on the list \<open>l\<close>; the result says whether it succeeded.\<close>

definition split_untyped :: "'k vkernel \<Rightarrow> nat \<Rightarrow> nat \<Rightarrow> nat \<Rightarrow> cspace \<Rightarrow> 'k sos \<Rightarrow> (bool \<times> cspace \<times> 'k sos) option" where
  "split_untyped V size_bits l larger cs s = do {
     (new1, cap1, cs, s) \<leftarrow> new_structure V size_bits cs s;
     if cap1 = seL4_CapNull then do { s \<leftarrow> on_table (ut_free larger) s; Some (False, cs, s) }
     else do {
       (new2, cap2, cs, s) \<leftarrow> new_structure V size_bits cs s;
       if cap2 = seL4_CapNull then do {
         cs \<leftarrow> cspace_free_slot cap1 cs;
         s \<leftarrow> on_table (ut_free larger) s;
         Some (False, cs, s) }
       else do {
         n \<leftarrow> tb_store (so_table s) larger;
         (err, s) \<leftarrow> Some (cspace_untyped_retype (lift_kernel V) cs (un_cap n) cap1 seL4_UntypedObject size_bits s);
         if err \<noteq> 0 then do {
           cs \<leftarrow> cspace_free_slot cap1 cs;
           cs \<leftarrow> cspace_free_slot cap2 cs;
           s \<leftarrow> on_table (push_structure new1) s;
           s \<leftarrow> on_table (ut_free larger) s;
           Some (False, cs, s) }
         else do {
           (err, s) \<leftarrow> Some (cspace_untyped_retype (lift_kernel V) cs (un_cap n) cap2 seL4_UntypedObject size_bits s);
           if err \<noteq> 0 then do {
             (_, s) \<leftarrow> Some (cspace_delete (lift_kernel V) cs cap1 s);
             cs \<leftarrow> cspace_free_slot cap1 cs;
             cs \<leftarrow> cspace_free_slot cap2 cs;
             s \<leftarrow> on_table (push_structure new1) s;
             s \<leftarrow> on_table (push_structure new2) s;
             s \<leftarrow> on_table (ut_free larger) s;
             Some (False, cs, s) }
           else do {
             s \<leftarrow> on_table (push_free l new1) s;
             s \<leftarrow> on_table (push_free l new2) s;
             Some (True, cs, s) } } } } }"

text \<open>The recursion asks for the next larger size, up to the size of a page.\<close>

function ut_alloc :: "'k vkernel \<Rightarrow> nat \<Rightarrow> cspace \<Rightarrow> 'k sos \<Rightarrow> (nat \<times> cspace \<times> 'k sos) option" where
  "ut_alloc V size_bits cs s =
     (if size_bits > seL4_PageBits then Some (0, cs, s)
      else if size_bits < seL4_EndpointBits then Some (0, cs, s)
      else if size_bits = seL4_PageBits then do { (n, s) \<leftarrow> ut_alloc_4k s; Some (n, cs, s) }
      else do {
        l \<leftarrow> SIZE_BITS_TO_INDEX size_bits;
        h \<leftarrow> arr_get (tb_free_untypeds (so_table s)) l;
        (ok, cs, s) \<leftarrow>
          (if h \<noteq> 0 then Some (True, cs, s)
           else do {
             (larger, cs, s) \<leftarrow> ut_alloc V (size_bits + 1) cs s;
             if larger = 0 then Some (False, cs, s)
             else do {
               (ok, cs, s) \<leftarrow> ensure_new_structures V cs s;
               if \<not> ok then do { s \<leftarrow> on_table (ut_free larger) s; Some (False, cs, s) }
               else split_untyped V size_bits l larger cs s } });
        if \<not> ok then Some (0, cs, s)
        else do {
          (n, tb) \<leftarrow> pop_free l (so_table s);
          Some (n, cs, s\<lparr>so_table := tb\<rparr>) } })"
  by pat_completeness auto
termination
  by (relation "measure (\<lambda>(V, size_bits, cs, s). seL4_PageBits - size_bits)") (auto simp: seL4_PageBits_def)

end
