(* ===== verification/Cspace_Env.thy ===== *)
theory Cspace_Env
  imports Cspace_Slots
begin

text \<open>
  The interface between the capability space library and what supplies its memory. A supplier keeps an invariant \<open>J v\<close>
  of the system state, where \<open>v\<close> maps the handles that clients own to what is recorded under them. If
  allocating adds a new handle, freeing removes one, and mapping and the kernel take nothing away from the
  clients, then neither does allocating a slot, whatever sequence of requests it makes.
\<close>

locale cspace_env =
  fixes K :: "'e kernel" and A :: "'e cspace_alloc" and J :: "(nat \<rightharpoonup> 'n) \<Rightarrow> 'e \<Rightarrow> bool" and good :: "'n \<Rightarrow> bool"
  assumes retype_keeps: "J v e \<Longrightarrow> J v (snd (k_Untyped_Retype K u t sz r i d off m e))"
    and delete_keeps: "J v e \<Longrightarrow> J v (snd (k_CNode_Delete K r i d e))"
    and map_keeps: "J v e \<Longrightarrow> \<exists>v'. v \<subseteq>\<^sub>m v' \<and> J v' (snd (snd (ca_map_frame A f ws used e)))"
    and alloc_none: "J v e \<Longrightarrow> ca_alloc_4k_ut A e = (None, e') \<Longrightarrow> J v e'"
    and alloc_some: "J v e \<Longrightarrow> ca_alloc_4k_ut A e = (Some (h, c), e') \<Longrightarrow> \<exists>n. h \<notin> dom v \<and> good n \<and> J (v(h \<mapsto> n)) e'"
    and free_owned: "J v e \<Longrightarrow> v h = Some n \<Longrightarrow> good n \<Longrightarrow> J (v(h := None)) (ca_free_4k_ut A h e)"
begin

lemma map_le_add: "h \<notin> dom v \<Longrightarrow> v \<subseteq>\<^sub>m v(h \<mapsto> n)"
  by (auto simp: map_le_def)

lemma map_le_drop: "h \<notin> dom v \<Longrightarrow> v(h \<mapsto> n) \<subseteq>\<^sub>m v' \<Longrightarrow> v \<subseteq>\<^sub>m v'(h := None) \<and> v' h = Some n"
  by (auto simp: map_le_def dom_def split: if_splits)

lemma free_keeps:
  assumes "J v' e" "h \<notin> dom v" "v(h \<mapsto> n) \<subseteq>\<^sub>m v'" "good n"
  shows "\<exists>v''. v \<subseteq>\<^sub>m v'' \<and> J v'' (ca_free_4k_ut A h e)"
  using map_le_drop [OF assms(2,3)] free_owned [OF assms(1) _ assms(4)] by blast

lemma untyped_retype_keeps: "J v e \<Longrightarrow> J v (snd (cspace_untyped_retype K cs u t ty sz e))"
  by (simp add: cspace_untyped_retype_def retype_keeps Let_def)

lemma retype_helper_keeps:
  assumes "J v e" "retype_helper K A cs ty cptr e = (r, e')"
  shows "case r of None \<Rightarrow> J v e' | Some h \<Rightarrow> h \<notin> dom v \<and> (\<exists>n. good n \<and> J (v(h \<mapsto> n)) e')"
proof (cases "fst (ca_alloc_4k_ut A e)")
  case None
  then show ?thesis using assms alloc_none [OF assms(1)] by (auto simp: retype_helper_def split: prod.splits)
next
  case (Some p)
  obtain h c e1 where a: "ca_alloc_4k_ut A e = (Some (h, c), e1)" using Some by (metis prod.collapse)
  obtain n where n: "h \<notin> dom v" "good n" "J (v(h \<mapsto> n)) e1" using alloc_some [OF assms(1) a] by blast
  let ?sz = "if ty = seL4_CapTableObject then CNODE_SLOT_BITS seL4_PageBits else seL4_PageBits"
  obtain err e2 where r: "cspace_untyped_retype K cs c cptr ty ?sz e1 = (err, e2)" by fastforce
  have j: "J (v(h \<mapsto> n)) e2" using untyped_retype_keeps [OF n(3), of cs c cptr ty ?sz] r by simp
  have "v(h := None) = v" using n(1) by auto
  then have "J v (ca_free_4k_ut A h e2)" using free_owned [OF j _ n(2), of h] by simp
  then show ?thesis using assms(2) a r n j by (auto simp: retype_helper_def Let_def split: if_splits)
qed

lemma add_cnode_keeps:
  assumes "J v e" "add_cnode K A cptr cs e = Some (ok, cs', e')"
  shows "\<exists>v'. v \<subseteq>\<^sub>m v' \<and> J v' e'"
proof -
  obtain r e1 where a: "ca_alloc_4k_ut A e = (r, e1)" by fastforce
  show ?thesis
  proof (cases r)
    case None
    then have "e' = e \<or> e' = e1" using assms(2) a unfolding add_cnode_def Let_def by (auto split: Option.bind_splits if_splits)
    then show ?thesis using assms(1) alloc_none [OF assms(1)] a None map_le_refl by blast
  next
    case (Some p)
    obtain h c where p: "p = (h, c)" by fastforce
    obtain n where n: "h \<notin> dom v" "good n" "J (v(h \<mapsto> n)) e1" using alloc_some [OF assms(1)] a Some p by blast
    have j: "J (v(h \<mapsto> n)) (snd (k_Untyped_Retype K c seL4_CapTableObject sz r i d off m e1))" for sz r i d off m
      by (rule retype_keeps [OF n(3)])
    have f: "\<exists>v''. v \<subseteq>\<^sub>m v'' \<and> J v'' (ca_free_4k_ut A h (snd (k_Untyped_Retype K c seL4_CapTableObject sz r i d off m e1)))" for sz r i d off m
      by (rule free_keeps [OF j n(1) _ n(2)]) simp
    have t: "\<exists>v'. v \<subseteq>\<^sub>m v' \<and> J v' e" using assms(1) map_le_refl by blast
    show ?thesis using t assms(2) a Some p j f map_le_add [OF n(1), of n] unfolding add_cnode_def Let_def
      by (auto simp: split_def split: Option.bind_splits if_splits)
  qed
qed

lemma ensure_levels_keeps:
  assumes J: "J v e" and run: "ensure_levels K A cptr used cs e = Some (ok, used', cs', e')"
  shows "\<exists>v'. v \<subseteq>\<^sub>m v' \<and> J v' e'"
proof -
  define node where "node = NODE_INDEX cptr"
  have triv: "\<exists>v'. v \<subseteq>\<^sub>m v' \<and> J v' x" if "J v x" for x using that map_le_refl by blast
  consider (same) "e' = e" | (cnode) c c' k where "add_cnode K A cptr c e = Some (k, c', e')"
    | (node) f where "arr_get (cs_watermark cs) MAPPING_SLOTS = Some f"
        "ensure_levels K A cptr used cs e = (case retype_helper K A cs seL4_ARM_SmallPageObject f e of
            (None, e) \<Rightarrow> Some (False, used OR BIT MAPPING_SLOTS, cs, e)
          | (Some untyped, e) \<Rightarrow>
              (case ca_map_frame A f (cs_watermark cs) (used OR BIT MAPPING_SLOTS) e of
                 (ok, used, e) \<Rightarrow>
                   if \<not> ok then do {
                     nodes \<leftarrow> arr_set (cs_bot_lvl_nodes cs) node None;
                     let cs = cs\<lparr>cs_bot_lvl_nodes := nodes\<rparr>;
                     case cspace_delete K cs f e of
                       (_, e) \<Rightarrow> Some (False, used AND NOT (BIT MAPPING_SLOTS), cs, ca_free_4k_ut A untyped e) }
                   else do {
                     cs \<leftarrow> init_bot_lvl_node node untyped f cs;
                     (ok, cs, e) \<leftarrow> add_cnode K A cptr cs e;
                     Some (ok, used, cs, e) }))"
    using run unfolding ensure_levels_def Let_def node_def
    by (auto split: if_splits Option.bind_splits)
  then show ?thesis
  proof cases
    case same then show ?thesis using triv J by simp
  next
    case cnode then show ?thesis using add_cnode_keeps [OF J] by blast
  next
    case node
    obtain r e1 where r: "retype_helper K A cs seL4_ARM_SmallPageObject f e = (r, e1)" by fastforce
    show ?thesis
    proof (cases r)
      case None
      then show ?thesis using retype_helper_keeps [OF J r] run node(2) r triv by auto
    next
      case (Some h)
      then obtain n where n: "h \<notin> dom v" "good n" "J (v(h \<mapsto> n)) e1" using retype_helper_keeps [OF J r] by auto
      obtain m used2 e2 where mf: "ca_map_frame A f (cs_watermark cs) (used OR BIT MAPPING_SLOTS) e1 = (m, used2, e2)" by (metis prod_cases3)
      obtain v2 where v2: "v(h \<mapsto> n) \<subseteq>\<^sub>m v2" "J v2 e2" using map_keeps [OF n(3), of f "cs_watermark cs" "used OR BIT MAPPING_SLOTS"] mf by auto
      have d: "J v2 (snd (cspace_delete K c f e2))" for c by (simp add: cspace_delete_def delete_keeps v2(2))
      have le: "v \<subseteq>\<^sub>m v2" using map_le_trans [OF map_le_add [OF n(1)] v2(1)] .
      show ?thesis
      proof (cases m)
        case False
        then obtain c where "e' = ca_free_4k_ut A h (snd (cspace_delete K c f e2))"
          using run r Some mf unfolding node(2) Let_def by (auto simp: split_def split: Option.bind_splits)
        then show ?thesis using free_keeps [OF d n(1) v2(1) n(2)] by simp
      next
        case True
        then obtain c c' k where "add_cnode K A cptr c e2 = Some (k, c', e')"
          using run r Some mf unfolding node(2) by (auto split: Option.bind_splits)
        then show ?thesis using add_cnode_keeps [OF v2(2)] le map_le_trans by blast
      qed
    qed
  qed
qed

lemma refill_step_keeps:
  assumes rec: "\<And>v c e1 y c' e2. J v e1 \<Longrightarrow> f c e1 = Some (y, c', e2) \<Longrightarrow> \<exists>v'. v \<subseteq>\<^sub>m v' \<and> J v' e2"
    and J: "v0 \<subseteq>\<^sub>m v" "J v e1"
    and run: "(if b then do { (w, cs, e) \<leftarrow> f c e1; cs \<leftarrow> set_watermark i w cs; Some (cs, e) } else Some (c, e1)) = Some (c', e2)"
  shows "\<exists>v'. v0 \<subseteq>\<^sub>m v' \<and> J v' e2"
proof (cases b)
  case True
  then obtain w c1 where "f c e1 = Some (w, c1, e2)" using run by (auto split: Option.bind_splits)
  from rec [OF J(2) this] show ?thesis using map_le_trans [OF J(1)] by blast
qed (use J run in auto)

lemma alloc_slot_keeps:
  assumes "J v e" "cspace_alloc_slot K A cs e = Some (x, cs', e')"
  shows "\<exists>v'. v \<subseteq>\<^sub>m v' \<and> J v' e'"
proof -
  let ?P = "\<lambda>K' A' cs e r. K' = K \<longrightarrow> A' = A \<longrightarrow> (\<forall>v. J v e \<longrightarrow> (\<exists>v'. v \<subseteq>\<^sub>m v' \<and> J v' (snd (snd r))))"
  have "?P K A cs e (x, cs', e')"
  proof (rule cspace_alloc_slot.raw_induct [where P = ?P, OF _ assms(2)], goal_cases)
    case (1 f K' A' cs e r)
    show ?case
    proof (intro impI allI)
      fix v assume eqs: "K' = K" "A' = A" and J: "J v e"
      define st where "st used i c e = (if bit used i then do { (w, cs, e) \<leftarrow> f K A c e; cs \<leftarrow> set_watermark i w cs; Some (cs, e) } else Some (c, e))"
        for used :: u64 and i c e
      have rec: "\<exists>v'. v \<subseteq>\<^sub>m v' \<and> J v' e2" if "J v e1" "f K A c e1 = Some (y, c', e2)" for v c e1 y c' e2
        using 1(1) [OF that(2)] that(1) by simp
      have step: "\<exists>v'. v0 \<subseteq>\<^sub>m v' \<and> J v' e2" if "v0 \<subseteq>\<^sub>m v" "J v e1" "st u i c e1 = Some (c', e2)" for v0 v e1 u i c c' e2
        by (rule refill_step_keeps [where f = "f K A", OF rec that(1,2)]) (use that(3) in \<open>auto simp: st_def\<close>)
      note body = 1(2) [unfolded eqs, folded st_def]
      consider (same) "snd (snd r) = e" | (failed) c u c' where "ensure_levels K A c 0 cs e = Some (False, u, c', snd (snd r))"
        | (taken) u c1 e1 c2 x0 y0 x1 y1 x2 y2 x3 where "e1 = e \<or> (\<exists>c. ensure_levels K A c 0 cs e = Some (True, u, c1, e1))"
            "st u 0 c2 e1 = Some (x0, y0)" "st u 1 x0 y0 = Some (x1, y1)" "st u 2 x1 y1 = Some (x2, y2)" "st u 3 x2 y2 = Some (x3, snd (snd r))"
        using body by (auto simp: bind_eq_Some_conv split: if_splits) blast+
      then show "\<exists>v'. v \<subseteq>\<^sub>m v' \<and> J v' (snd (snd r))"
      proof cases
        case same then show ?thesis using J map_le_refl [of v] by (intro exI [of _ v]) simp
      next
        case failed then show ?thesis using ensure_levels_keeps [OF J] by blast
      next
        case taken
        obtain v1 where v1: "v \<subseteq>\<^sub>m v1" "J v1 e1" using taken(1) J ensure_levels_keeps [OF J] map_le_refl by blast
        obtain v2 where v2: "v \<subseteq>\<^sub>m v2" "J v2 y0" using step [OF v1 taken(2)] by blast
        obtain v3 where v3: "v \<subseteq>\<^sub>m v3" "J v3 y1" using step [OF v2 taken(3)] by blast
        obtain v4 where v4: "v \<subseteq>\<^sub>m v4" "J v4 y2" using step [OF v3 taken(4)] by blast
        show ?thesis using step [OF v4 taken(5)] by blast
      qed
    qed
  qed
  then show ?thesis using assms(1) by simp
qed

end

end
