(* ===== verification/Ut_Own.thy ===== *)
theory Ut_Own
  imports Ut_Alloc Cspace_Env
begin

text \<open>
  The ownership invariant of the untyped table: the lists are well formed, and the operations move nodes between
  the lists and the clients without touching any other client's node.
\<close>

section \<open>Lists\<close>

lemma ut_consts [simp]: "N_UNTYPED_LISTS = 9" "seL4_EndpointBits = 4" "seL4_PageBits = 12" "SIZE_BITS_TO_INDEX 12 = Some 8"
  by (simp_all add: N_UNTYPED_LISTS_def seL4_EndpointBits_def seL4_PageBits_def SIZE_BITS_TO_INDEX_def)

lemma chain_cong: "(\<And>x. x \<in> set xs \<Longrightarrow> st' x = st x) \<Longrightarrow> chain st' h xs = chain st h xs"
  by (induction xs arbitrary: h) auto

lemma chain_upd: "x \<notin> set xs \<Longrightarrow> chain (st(x := n)) h xs = chain st h xs"
  by (rule chain_cong) auto

lemma chain_head: "chain st h xs \<Longrightarrow> h = 0 \<longleftrightarrow> xs = []"
  by (cases xs) auto

lemma chain_dom: "chain st h xs \<Longrightarrow> x \<in> set xs \<Longrightarrow> x \<noteq> 0 \<and> st x \<noteq> None"
  by (induction xs arbitrary: h) auto

lemma list_parts: "i < length F \<Longrightarrow> F = take i F @ F ! i # drop (Suc i) F \<and> F[i := ys] = take i F @ ys # drop (Suc i) F"
  using id_take_nth_drop [of i F] upd_conv_take_nth_drop [of i F ys] by simp

lemma push_concat:
  assumes "i < length F" "distinct (S @ concat F)" "x \<notin> set (S @ concat F)"
  shows "distinct (S @ concat (F[i := x # F ! i]))" "set (S @ concat (F[i := x # F ! i])) = insert x (set (S @ concat F))"
proof -
  obtain P Q where "F = P @ F ! i # Q" "F[i := x # F ! i] = P @ (x # F ! i) # Q" using list_parts [OF assms(1)] by blast
  moreover from this(1) have "set (concat F) = set (concat P) \<union> set (F ! i) \<union> set (concat Q)" "concat F = concat P @ F ! i @ concat Q"
    by (metis Un_assoc concat.simps(2) concat_append set_append, metis concat.simps(2) concat_append)
  ultimately show "distinct (S @ concat (F[i := x # F ! i]))" "set (S @ concat (F[i := x # F ! i])) = insert x (set (S @ concat F))"
    using assms(2,3) by auto
qed

lemma pop_concat:
  assumes "i < length F" "distinct (S @ concat F)" "F ! i = x # xs"
  shows "distinct (S @ concat (F[i := xs]))" "set (S @ concat (F[i := xs])) = set (S @ concat F) - {x}" "x \<in> set (concat F)"
proof -
  obtain P Q where F: "F = P @ (x # xs) # Q" "F[i := xs] = P @ xs # Q" using list_parts [OF assms(1), of xs] assms(3) by metis
  then have c: "concat F = concat P @ x # xs @ concat Q" "concat (F[i := xs]) = concat P @ xs @ concat Q" by simp_all
  show "distinct (S @ concat (F[i := xs]))" "set (S @ concat (F[i := xs])) = set (S @ concat F) - {x}" "x \<in> set (concat F)"
    using assms(2) unfolding c by auto
qed

section \<open>Pushing and popping\<close>

lemma lists_okD:
  assumes "lists_ok tb F S"
  shows "length F = 9" "length (tb_free_untypeds tb) = 9" "\<And>i. i < 9 \<Longrightarrow> chain (tb_store tb) (tb_free_untypeds tb ! i) (F ! i)"
    "chain (tb_store tb) (tb_free_structures tb) S" "distinct (S @ concat F)"
    "\<And>i x n. i < 9 \<Longrightarrow> x \<in> set (F ! i) \<Longrightarrow> tb_store tb x = Some n \<Longrightarrow> un_size_bits n = i + 4"
  using assms by (simp_all add: lists_ok_def)

lemma in_concat: "i < length F \<Longrightarrow> x \<in> set (F ! i) \<Longrightarrow> x \<in> set (concat F)"
  by auto

lemma push_free_ok:
  assumes ok: "lists_ok tb F S" and i: "i < 9" and x: "x \<notin> set (S @ concat F)" "x \<noteq> 0" "tb_store tb x = Some n" "un_size_bits n = i + 4"
  shows "\<exists>n'. push_free i x tb = Some (tb\<lparr>tb_store := (tb_store tb)(x \<mapsto> n'), tb_free_untypeds := (tb_free_untypeds tb)[i := x]\<rparr>) \<and>
    lists_ok (tb\<lparr>tb_store := (tb_store tb)(x \<mapsto> n'), tb_free_untypeds := (tb_free_untypeds tb)[i := x]\<rparr>) (F[i := x # F ! i]) S"
proof -
  note D = lists_okD [OF ok]
  let ?n = "n\<lparr>un_next := tb_free_untypeds tb ! i\<rparr>"
  have run: "push_free i x tb = Some (tb\<lparr>tb_store := (tb_store tb)(x \<mapsto> ?n), tb_free_untypeds := (tb_free_untypeds tb)[i := x]\<rparr>)"
    using i D(2) x(3) by (simp add: push_free_def arr_get_def arr_set_def ut_push_def)
  have nx: "x \<notin> set (F ! j)" if "j < 9" for j using x(1) in_concat [of j F x] that D(1) by auto
  have c: "chain ((tb_store tb)(x \<mapsto> ?n)) ((tb_free_untypeds tb)[i := x] ! j) (F[i := x # F ! i] ! j)" if "j < 9" for j
    using that i D(1,2) D(3) [OF that] nx [OF that] x(2) by (cases "j = i") (simp_all add: chain_upd)
  have s: "chain ((tb_store tb)(x \<mapsto> ?n)) (tb_free_structures tb) S" using D(4) x(1) by (simp add: chain_upd)
  have z: "un_size_bits m = j + 4" if "j < 9" "y \<in> set (F[i := x # F ! i] ! j)" "((tb_store tb)(x \<mapsto> ?n)) y = Some m" for j y m
    using that i D(1) D(6) [of j y m] nx [OF that(1)] x(4) by (cases "j = i"; cases "y = x") auto
  have "lists_ok (tb\<lparr>tb_store := (tb_store tb)(x \<mapsto> ?n), tb_free_untypeds := (tb_free_untypeds tb)[i := x]\<rparr>) (F[i := x # F ! i]) S"
    unfolding lists_ok_def using D(1,2) c s z push_concat(1) [of i F S x] i D(5) x(1) by simp
  with run show ?thesis by blast
qed

lemma pop_free_ok:
  assumes ok: "lists_ok tb F S" and i: "i < 9" "F ! i = x # xs"
  shows "\<exists>h. pop_free i tb = Some (x, tb\<lparr>tb_free_untypeds := (tb_free_untypeds tb)[i := h]\<rparr>) \<and>
    lists_ok (tb\<lparr>tb_free_untypeds := (tb_free_untypeds tb)[i := h]\<rparr>) (F[i := xs]) S"
proof -
  note D = lists_okD [OF ok]
  obtain n where n: "tb_free_untypeds tb ! i = x" "tb_store tb x = Some n" "chain (tb_store tb) (un_next n) xs" using D(3) [OF i(1)] i(2) by auto
  have run: "pop_free i tb = Some (x, tb\<lparr>tb_free_untypeds := (tb_free_untypeds tb)[i := un_next n]\<rparr>)"
    using i D(2) n by (simp add: pop_free_def arr_get_def arr_set_def ut_pop_def)
  have c: "chain (tb_store tb) ((tb_free_untypeds tb)[i := un_next n] ! j) (F[i := xs] ! j)" if "j < 9" for j
    using that D(1,2) D(3) [OF that] n(3) by (cases "j = i") simp_all
  have z: "un_size_bits m = j + 4" if "j < 9" "y \<in> set (F[i := xs] ! j)" "tb_store tb y = Some m" for j y m
    using that i D(1) D(6) [of j y m] by (cases "j = i") auto
  have "lists_ok (tb\<lparr>tb_free_untypeds := (tb_free_untypeds tb)[i := un_next n]\<rparr>) (F[i := xs]) S"
    unfolding lists_ok_def using D(1,2,4) c z pop_concat(1) [of i F S x xs] i D(5) by simp
  with run show ?thesis by blast
qed

lemma push_structure_ok:
  assumes ok: "lists_ok tb F S" and x: "x \<notin> set (S @ concat F)" "x \<noteq> 0" "tb_store tb x = Some n"
  shows "\<exists>n'. push_structure x tb = Some (tb\<lparr>tb_store := (tb_store tb)(x \<mapsto> n'), tb_free_structures := x\<rparr>) \<and>
    lists_ok (tb\<lparr>tb_store := (tb_store tb)(x \<mapsto> n'), tb_free_structures := x\<rparr>) F (x # S)"
proof -
  note D = lists_okD [OF ok]
  let ?n = "n\<lparr>un_next := tb_free_structures tb\<rparr>"
  have nx: "x \<notin> set (F ! j)" if "j < 9" for j using x(1) in_concat [of j F x] that D(1) by auto
  have "lists_ok (tb\<lparr>tb_store := (tb_store tb)(x \<mapsto> ?n), tb_free_structures := x\<rparr>) F (x # S)"
    unfolding lists_ok_def using D(1,2,3,4,5) x nx D(6) by (auto simp: chain_upd split: if_splits)
  moreover have "push_structure x tb = Some (tb\<lparr>tb_store := (tb_store tb)(x \<mapsto> ?n), tb_free_structures := x\<rparr>)"
    using x(3) by (simp add: push_structure_def ut_push_def)
  ultimately show ?thesis by blast
qed

lemma pop_structure_ok:
  assumes ok: "lists_ok tb F (x # S)"
  shows "\<exists>n. tb_store tb x = Some n \<and> tb_free_structures tb = x \<and> pop_structure tb = Some (x, tb\<lparr>tb_free_structures := un_next n\<rparr>) \<and>
    lists_ok (tb\<lparr>tb_free_structures := un_next n\<rparr>) F S"
proof -
  note D = lists_okD [OF ok]
  obtain n where n: "tb_free_structures tb = x" "tb_store tb x = Some n" "chain (tb_store tb) (un_next n) S" using D(4) by auto
  have "pop_structure tb = Some (x, tb\<lparr>tb_free_structures := un_next n\<rparr>)" using n by (simp add: pop_structure_def ut_pop_def)
  moreover have "lists_ok (tb\<lparr>tb_free_structures := un_next n\<rparr>) F S" using ok n(3) by (simp add: lists_ok_def)
  ultimately show ?thesis using n(1,2) by blast
qed

section \<open>Ownership\<close>

lemma ut_ownE:
  assumes "ut_own v tb"
  obtains F S where "lists_ok tb F S" "dom v \<inter> set (S @ concat F) = {}" "v \<subseteq>\<^sub>m tb_store tb" "tb_store tb 0 = None"
  using assms by (auto simp: ut_own_def)

lemma ut_ownI:
  "lists_ok tb F S \<Longrightarrow> dom v \<inter> set (S @ concat F) = {} \<Longrightarrow> v \<subseteq>\<^sub>m tb_store tb \<Longrightarrow> tb_store tb 0 = None \<Longrightarrow> ut_own v tb"
  unfolding ut_own_def by blast

lemma lists_dom:
  assumes "lists_ok tb F S" "x \<in> set (S @ concat F)"
  shows "x \<noteq> 0 \<and> tb_store tb x \<noteq> None"
proof (cases "x \<in> set S")
  case True then show ?thesis using chain_dom [OF lists_okD(4) [OF assms(1)]] by blast
next
  case False
  then obtain ys where "ys \<in> set F" "x \<in> set ys" using assms(2) by auto
  then obtain i where "i < 9" "x \<in> set (F ! i)" using lists_okD(1) [OF assms(1)] by (metis in_set_conv_nth)
  then show ?thesis using chain_dom [OF lists_okD(3) [OF assms(1)]] by blast
qed

text \<open>A client gives a node up to a list of free objects, or to the list of spare nodes.\<close>

lemma own_push_free:
  assumes own: "ut_own v tb" and x: "v x = Some n" "un_size_bits n = i + 4" and i: "i < 9"
  shows "\<exists>tb'. push_free i x tb = Some tb' \<and> ut_own (v(x := None)) tb' \<and> dom (tb_store tb') = dom (tb_store tb)"
proof -
  obtain F S where o: "lists_ok tb F S" "dom v \<inter> set (S @ concat F) = {}" "v \<subseteq>\<^sub>m tb_store tb" "tb_store tb 0 = None" using ut_ownE [OF own] by blast
  have sx: "tb_store tb x = Some n" "x \<noteq> 0" "x \<notin> set (S @ concat F)" using x(1) o(2-4) by (auto simp: map_le_def dom_def)
  obtain n' where p: "push_free i x tb = Some (tb\<lparr>tb_store := (tb_store tb)(x \<mapsto> n'), tb_free_untypeds := (tb_free_untypeds tb)[i := x]\<rparr>)"
    "lists_ok (tb\<lparr>tb_store := (tb_store tb)(x \<mapsto> n'), tb_free_untypeds := (tb_free_untypeds tb)[i := x]\<rparr>) (F[i := x # F ! i]) S"
    using push_free_ok [OF o(1) i sx(3,2,1) x(2)] by blast
  have "set (S @ concat (F[i := x # F ! i])) = insert x (set (S @ concat F))"
    using push_concat(2) [of i F S x] i lists_okD(1,5) [OF o(1)] sx(3) by simp
  then have "ut_own (v(x := None)) (tb\<lparr>tb_store := (tb_store tb)(x \<mapsto> n'), tb_free_untypeds := (tb_free_untypeds tb)[i := x]\<rparr>)"
    using o(2-4) sx(2) by (intro ut_ownI [OF p(2)]) (auto simp: map_le_def)
  with p(1) sx(1) show ?thesis by auto
qed

lemma own_push_structure:
  assumes own: "ut_own v tb" and x: "v x = Some n"
  shows "\<exists>tb'. push_structure x tb = Some tb' \<and> ut_own (v(x := None)) tb' \<and> dom (tb_store tb') = dom (tb_store tb)"
proof -
  obtain F S where o: "lists_ok tb F S" "dom v \<inter> set (S @ concat F) = {}" "v \<subseteq>\<^sub>m tb_store tb" "tb_store tb 0 = None" using ut_ownE [OF own] by blast
  have sx: "tb_store tb x = Some n" "x \<noteq> 0" "x \<notin> set (S @ concat F)" using x(1) o(2-4) by (auto simp: map_le_def dom_def)
  obtain n' where p: "push_structure x tb = Some (tb\<lparr>tb_store := (tb_store tb)(x \<mapsto> n'), tb_free_structures := x\<rparr>)"
    "lists_ok (tb\<lparr>tb_store := (tb_store tb)(x \<mapsto> n'), tb_free_structures := x\<rparr>) F (x # S)"
    using push_structure_ok [OF o(1) sx(3,2,1)] by blast
  have "ut_own (v(x := None)) (tb\<lparr>tb_store := (tb_store tb)(x \<mapsto> n'), tb_free_structures := x\<rparr>)"
    using o(2-4) sx(2) by (intro ut_ownI [OF p(2)]) (auto simp: map_le_def)
  with p(1) sx(1) show ?thesis by auto
qed

text \<open>A client takes the first node of a list.\<close>

lemma own_pop_free:
  assumes own: "ut_own v tb" and i: "i < 9" "tb_free_untypeds tb ! i \<noteq> 0"
  shows "\<exists>x tb' n. pop_free i tb = Some (x, tb') \<and> x \<notin> dom v \<and> ut_own (v(x \<mapsto> n)) tb' \<and> un_size_bits n = i + 4 \<and>
    tb_store tb' = tb_store tb \<and> tb_n_4k_untyped tb' = tb_n_4k_untyped tb \<and> x = tb_free_untypeds tb ! i"
proof -
  obtain F S where o: "lists_ok tb F S" "dom v \<inter> set (S @ concat F) = {}" "v \<subseteq>\<^sub>m tb_store tb" "tb_store tb 0 = None" using ut_ownE [OF own] by blast
  obtain x xs where c: "F ! i = x # xs" using i chain_head [OF lists_okD(3) [OF o(1) i(1)]] by (cases "F ! i") auto
  obtain h where p: "pop_free i tb = Some (x, tb\<lparr>tb_free_untypeds := (tb_free_untypeds tb)[i := h]\<rparr>)"
    "lists_ok (tb\<lparr>tb_free_untypeds := (tb_free_untypeds tb)[i := h]\<rparr>) (F[i := xs]) S" using pop_free_ok [OF o(1) i(1) c] by blast
  note pc = pop_concat [of i F S x xs, OF _ lists_okD(5) [OF o(1)] c]
  have "chain (tb_store tb) (tb_free_untypeds tb ! i) (x # xs)" using lists_okD(3) [OF o(1) i(1)] unfolding c .
  then obtain n where n: "tb_store tb x = Some n" "tb_free_untypeds tb ! i = x" by auto
  have "un_size_bits n = i + 4" using lists_okD(6) [OF o(1) i(1) _ n(1)] c by simp
  moreover have "ut_own (v(x \<mapsto> n)) (tb\<lparr>tb_free_untypeds := (tb_free_untypeds tb)[i := h]\<rparr>)"
    using o(2-4) pc i(1) lists_okD(1) [OF o(1)] n(1) by (intro ut_ownI [OF p(2)]) (auto simp: map_le_def)
  moreover have "x \<notin> dom v" using o(2) pc(3) i(1) lists_okD(1) [OF o(1)] by auto
  ultimately show ?thesis using p(1) n(2) by auto
qed

lemma own_pop_structure:
  assumes own: "ut_own v tb" and s: "tb_free_structures tb \<noteq> 0"
  shows "\<exists>x tb' n. pop_structure tb = Some (x, tb') \<and> x \<notin> dom v \<and> ut_own (v(x \<mapsto> n)) tb' \<and> tb_store tb' = tb_store tb \<and>
    tb_store tb x = Some n \<and> tb_free_structures tb' = un_next n \<and> x = tb_free_structures tb"
proof -
  obtain F S where o: "lists_ok tb F S" "dom v \<inter> set (S @ concat F) = {}" "v \<subseteq>\<^sub>m tb_store tb" "tb_store tb 0 = None" using ut_ownE [OF own] by blast
  obtain x S' where c: "S = x # S'" using s chain_head [OF lists_okD(4) [OF o(1)]] by (cases S) auto
  obtain n where n: "tb_store tb x = Some n" "tb_free_structures tb = x" and p: "pop_structure tb = Some (x, tb\<lparr>tb_free_structures := un_next n\<rparr>)"
    "lists_ok (tb\<lparr>tb_free_structures := un_next n\<rparr>) F S'" using pop_structure_ok [OF o(1) [unfolded c]] by blast
  have d: "x \<notin> set (S' @ concat F)" using lists_okD(5) [OF o(1)] c by simp
  have "ut_own (v(x \<mapsto> n)) (tb\<lparr>tb_free_structures := un_next n\<rparr>)"
    using o(2-4) c n(1) d by (intro ut_ownI [OF p(2)]) (auto simp: map_le_def)
  moreover have "x \<notin> dom v" using o(2) c by auto
  ultimately show ?thesis using p(1) n by auto
qed

text \<open>A client changes a node it owns.\<close>

lemma own_set:
  assumes own: "ut_own v tb" and x: "v x = Some n"
  shows "set_ut x f tb = Some (tb\<lparr>tb_store := (tb_store tb)(x \<mapsto> f n)\<rparr>) \<and> ut_own (v(x \<mapsto> f n)) (tb\<lparr>tb_store := (tb_store tb)(x \<mapsto> f n)\<rparr>)"
proof -
  obtain F S where o: "lists_ok tb F S" "dom v \<inter> set (S @ concat F) = {}" "v \<subseteq>\<^sub>m tb_store tb" "tb_store tb 0 = None" using ut_ownE [OF own] by blast
  have sx: "tb_store tb x = Some n" "x \<noteq> 0" "x \<notin> set (S @ concat F)" using x(1) o(2-4) by (auto simp: map_le_def dom_def)
  have nx: "x \<notin> set (F ! i)" if "i < 9" for i using sx(3) in_concat [of i F x] that lists_okD(1) [OF o(1)] by auto
  have "lists_ok (tb\<lparr>tb_store := (tb_store tb)(x \<mapsto> f n)\<rparr>) F S"
    using o(1) sx(3) nx unfolding lists_ok_def by (auto simp: chain_upd split: if_splits)
  moreover have "dom (v(x \<mapsto> f n)) = dom v" using x by auto
  ultimately have "ut_own (v(x \<mapsto> f n)) (tb\<lparr>tb_store := (tb_store tb)(x \<mapsto> f n)\<rparr>)"
    using o(2-4) sx(2) by (intro ut_ownI) (auto simp: map_le_def)
  then show ?thesis using sx(1) by (simp add: set_ut_def)
qed

end
