(* ===== verification/Ut_System.thy ===== *)
theory Ut_System
  imports Ut_Own
begin

text \<open>
  The untyped table, the mapping code and the bootstrapped capability space together: the table is a supplier in the sense of the
  locale \<open>cspace_env\<close>, so that allocating a slot, and everything built on it, keeps the ownership of untyped nodes.
\<close>

section \<open>4K objects\<close>

lemma ut_own_n [simp]: "ut_own v (tb\<lparr>tb_n_4k_untyped := k\<rparr>) = ut_own v tb"
  by (simp add: ut_own_def lists_ok_def)

lemma own_4k:
  assumes own: "ut_own v tb"
  shows "\<exists>n p tb'. ut_alloc_4k_untyped tb = Some (n, p, tb') \<and> tb_store tb' = tb_store tb \<and>
    (n = 0 \<and> tb' = tb \<or> n \<noteq> 0 \<and> n \<notin> dom v \<and> (\<exists>nd. un_size_bits nd = 12 \<and> ut_own (v(n \<mapsto> nd)) tb'))"
proof -
  have len: "8 < length (tb_free_untypeds tb)" using own by (auto simp: ut_own_def lists_ok_def)
  show ?thesis
  proof (cases "tb_free_untypeds tb ! 8 = 0")
    case True then show ?thesis using len by (simp add: ut_alloc_4k_untyped_def arr_get_def)
  next
    case False
    from own_pop_free [OF own _ False] obtain x tb' n where "pop_free 8 tb = Some (x, tb')" "x \<notin> dom v" "ut_own (v(x \<mapsto> n)) tb'"
      "un_size_bits n = 8 + 4" "tb_store tb' = tb_store tb" "x = tb_free_untypeds tb ! 8" by auto
    then show ?thesis using len False by (auto simp: ut_alloc_4k_untyped_def arr_get_def Let_def)
  qed
qed

lemma own_free:
  assumes own: "ut_own v tb" and x: "v x = Some n" "4 \<le> un_size_bits n" "un_size_bits n \<le> 12"
  shows "\<exists>tb'. ut_free x tb = Some tb' \<and> ut_own (v(x := None)) tb' \<and> dom (tb_store tb') = dom (tb_store tb)"
proof -
  have s: "tb_store tb x = Some n" using own x(1) by (auto simp: ut_own_def map_le_def dom_def)
  have "un_size_bits n = (un_size_bits n - 4) + 4" "un_size_bits n - 4 < 9" using x by simp_all
  from own_push_free [OF own x(1) this] show ?thesis using s x(2) by (auto simp: ut_free_def SIZE_BITS_TO_INDEX_def)
qed

section \<open>The system state\<close>

definition so_ok :: "ut_store \<Rightarrow> 'k sos \<Rightarrow> bool" where
  "so_ok v s \<longleftrightarrow> ut_own v (so_table s) \<and> 0 < so_next_free_vaddr s \<and> (\<forall>a \<in> dom (tb_store (so_table s)). a < so_next_free_vaddr s)"

definition so_own :: "ut_store \<Rightarrow> 'k sos \<Rightarrow> bool" where
  "so_own v s \<longleftrightarrow> so_fault s \<or> so_ok v s"

lemma so_ok_k [simp]: "so_ok v (s\<lparr>so_k := k\<rparr>) = so_ok v s" "so_own v (s\<lparr>so_k := k\<rparr>) = so_own v s"
  "so_ok v (s\<lparr>so_device_virt := d\<rparr>) = so_ok v s"
  by (simp_all add: so_ok_def so_own_def)

lemma on_k_state: "\<exists>k. snd (on_k f s) = s\<lparr>so_k := k\<rparr>"
  by (simp add: on_k_def split_def) blast

lemma on_k_keeps [simp]: "so_ok v (snd (on_k f s)) = so_ok v s" "so_own v (snd (on_k f s)) = so_own v s" "so_fault (snd (on_k f s)) = so_fault s"
  "so_table (snd (on_k f s)) = so_table s"
  by (simp_all add: on_k_def split_def)

lemma retype_lift: "\<exists>k. snd (cspace_untyped_retype (lift_kernel V) cs u t ty sz s) = s\<lparr>so_k := k\<rparr>"
  by (simp add: cspace_untyped_retype_def lift_kernel_def Let_def on_k_state)

lemma delete_lift: "\<exists>k. snd (cspace_delete (lift_kernel V) cs c s) = s\<lparr>so_k := k\<rparr>"
  by (simp add: cspace_delete_def lift_kernel_def on_k_state)

lemma map_structure_state: "\<exists>k. snd (map_structure V f cs vs va ut sl err s) = s\<lparr>so_k := k\<rparr>"
proof -
  have r: "\<exists>k. snd (if fst p \<noteq> 0 then (fst p, snd p) else on_k g (snd p)) = s\<lparr>so_k := k\<rparr>" if p: "\<exists>k. snd p = s\<lparr>so_k := k\<rparr>" for p :: "nat \<times> 'a sos" and g
  proof -
    obtain k k' where "snd p = s\<lparr>so_k := k\<rparr>" "snd (on_k g (snd p)) = (snd p)\<lparr>so_k := k'\<rparr>" using p on_k_state [of g "snd p"] by blast
    then show ?thesis by auto
  qed
  have "\<exists>k. snd (retype_map_pt V cs vs va ut sl s) = s\<lparr>so_k := k\<rparr>" unfolding retype_map_pt_def split_def by (rule r [OF retype_lift])
  moreover have "\<exists>k. snd (retype_map_pd V cs vs va ut sl s) = s\<lparr>so_k := k\<rparr>" unfolding retype_map_pd_def split_def by (rule r [OF retype_lift])
  moreover have "\<exists>k. snd (retype_map_pud V cs vs va ut sl s) = s\<lparr>so_k := k\<rparr>" unfolding retype_map_pud_def split_def by (rule r [OF retype_lift])
  moreover have "\<exists>k. s = s\<lparr>so_k := k\<rparr>" by (rule exI [of _ "so_k s"]) simp
  ultimately show ?thesis by (simp add: map_structure_def)
qed

lemma page_map_state: "\<exists>k. snd (page_map V fc vs va r a s) = s\<lparr>so_k := k\<rparr>"
  using on_k_state [of "k_ARM_Page_Map V fc vs va r a" s] by (simp add: page_map_def split_def)

section \<open>Mapping\<close>

text \<open>What a source of slots must keep.\<close>

definition slot_keeps :: "'k sos next_slot \<Rightarrow> bool" where
  "slot_keeps nx \<longleftrightarrow> (\<forall>v i u cs s x u' cs' s'. so_ok v s \<longrightarrow> \<not> so_fault s \<longrightarrow> nx i u cs s = Some (x, u', cs', s') \<longrightarrow>
     \<not> so_fault s' \<and> (\<exists>v'. v \<subseteq>\<^sub>m v' \<and> so_ok v' s'))"

lemma so_ok_4k:
  assumes "so_ok v s" "ut_alloc_4k_untyped (so_table s) = Some (n, p, tb)"
  shows "if n = 0 then so_ok v (s\<lparr>so_table := tb\<rparr>) else n \<notin> dom v \<and> (\<exists>nd. un_size_bits nd = 12 \<and> so_ok (v(n \<mapsto> nd)) (s\<lparr>so_table := tb\<rparr>))"
  using own_4k [of v "so_table s"] assms by (auto simp: so_ok_def)

lemma map_loop_keeps:
  assumes "slot_keeps nx" "so_ok v s" "\<not> so_fault s" "map_loop V nx fc vs va r a is err u cs s = Some (err', u', cs', s')"
  shows "\<not> so_fault s' \<and> (\<exists>v'. v \<subseteq>\<^sub>m v' \<and> so_ok v' s')"
  using assms(2-)
proof (induction "is" arbitrary: v err u cs s)
  case (Cons i "is")
  have triv: "\<exists>v'. v \<subseteq>\<^sub>m v' \<and> so_ok v' t" if "so_ok v t" for t :: "'a sos" using that map_le_refl by blast
  show ?case
  proof (cases "err = seL4_FailedLookup")
    case False then show ?thesis using Cons.prems triv by auto
  next
    case True
    obtain n p tb where a: "ut_alloc_4k_untyped (so_table s) = Some (n, p, tb)" using Cons.prems(3) True by (auto split: Option.bind_splits)
    let ?s1 = "s\<lparr>so_table := tb\<rparr>"
    show ?thesis
    proof (cases "n = 0")
      case zero: True then show ?thesis using Cons.prems True a so_ok_4k [OF Cons.prems(1) a] triv by auto
    next
      case nz: False
      then obtain nd where v1: "n \<notin> dom v" "so_ok (v(n \<mapsto> nd)) ?s1" using so_ok_4k [OF Cons.prems(1) a] by auto
      obtain sl u2 cs2 s2 where nx: "nx i u cs ?s1 = Some (sl, u2, cs2, s2)"
        using Cons.prems(3) True a nz by (auto split: Option.bind_splits)
      obtain v2 where v2: "\<not> so_fault s2" "v(n \<mapsto> nd) \<subseteq>\<^sub>m v2" "so_ok v2 s2"
        using assms(1) v1(2) Cons.prems(2) nx unfolding slot_keeps_def by (metis sos.simps sos.surjective sos.update_convs(1))
      have le: "v \<subseteq>\<^sub>m v2" using v1(1) v2(2) by (auto simp: map_le_def split: if_splits)
      show ?thesis
      proof (cases "sl = seL4_CapNull")
        case True then show ?thesis using Cons.prems \<open>err = seL4_FailedLookup\<close> a nz nx v2 le by auto
      next
        case False
        obtain m where m: "tb_store (so_table s2) n = Some m"
          using Cons.prems(3) \<open>err = seL4_FailedLookup\<close> a nz nx False by (auto simp: Let_def split: Option.bind_splits)
        obtain e3 s3 where st: "map_structure V (k_MappingFailedLookupLevel V (so_k s)) cs2 vs va (un_cap m) sl seL4_FailedLookup s2 = (e3, s3)" by fastforce
        obtain e4 s4 where pm: "(if e3 = 0 then page_map V fc vs va r a s3 else (e3, s3)) = (e4, s4)" by fastforce
        obtain k where k: "s3 = s2\<lparr>so_k := k\<rparr>" using map_structure_state st by (metis snd_conv)
        obtain k' where k': "s4 = s3\<lparr>so_k := k'\<rparr>" 
        proof (cases "e3 = 0")
          case True then show thesis using that page_map_state [of V fc vs va r a s3] pm by auto
        next
          case False then show thesis using that [of "so_k s3"] pm by simp
        qed
        have "map_loop V nx fc vs va r a is e4 u2 cs2 s4 = Some (err', u', cs', s')"
          using Cons.prems(3) \<open>err = seL4_FailedLookup\<close> a nz nx False m st pm by (simp add: Let_def)
        from Cons.IH [OF _ _ this, of v2] v2(1,3) k k' obtain v3 where "\<not> so_fault s'" "v2 \<subseteq>\<^sub>m v3" "so_ok v3 s'" by auto
        then show ?thesis using map_le_trans [OF le] by blast
      qed
    qed
  qed
qed (auto intro: map_le_refl)

lemma map_frame_impl_keeps:
  assumes "slot_keeps nx" "so_ok v s" "\<not> so_fault s" "map_frame_impl V nx fc vs va r a u cs s = Some (err', u', cs', s')"
  shows "\<not> so_fault s' \<and> (\<exists>v'. v \<subseteq>\<^sub>m v' \<and> so_ok v' s')"
proof -
  obtain e1 s1 where p: "page_map V fc vs va r a s = (e1, s1)" by fastforce
  then obtain k where "s1 = s\<lparr>so_k := k\<rparr>" using page_map_state by (metis snd_conv)
  then have "so_ok v s1" "\<not> so_fault s1" using assms(2,3) by simp_all
  moreover have "map_loop V nx fc vs va r a [0..<MAPPING_SLOTS] e1 u cs s1 = Some (err', u', cs', s')"
    using assms(4) p by (simp add: map_frame_impl_def)
  ultimately show ?thesis by (rule map_loop_keeps [OF assms(1)])
qed

lemma reserve_keeps: "slot_keeps (slot_from_reserve ws)"
  unfolding slot_keeps_def slot_from_reserve_def using map_le_refl by (fastforce split: Option.bind_splits)

lemma alloc_vaddr_keeps:
  "so_ok v s \<Longrightarrow> so_ok v (snd (alloc_vaddr err s))" "so_own v s \<Longrightarrow> so_own v (snd (alloc_vaddr err s))"
  "so_fault (snd (alloc_vaddr err s)) = so_fault s"
  by (auto simp: alloc_vaddr_def so_ok_def so_own_def intro: trans_less_add1)

section \<open>The table supplies the capability space\<close>

text \<open>The objects that the capability space gets are pages.\<close>

abbreviation is_4k :: "ut_t \<Rightarrow> bool" where
  "is_4k n \<equiv> un_size_bits n = 12"

interpretation boot_env: cspace_env "lift_kernel V" "bootstrap_alloc V cs" so_own is_4k for V :: "'k vkernel" and cs
proof
  fix v and e :: "'k sos"
  assume J: "so_own v e"
  show "so_own v (snd (k_Untyped_Retype (lift_kernel V) u t sz r i d off m e))" for u t sz r i d off m
    using J by (simp add: lift_kernel_def)
  show "so_own v (snd (k_CNode_Delete (lift_kernel V) r i d e))" for r i d
    using J by (simp add: lift_kernel_def)
  show "\<exists>v'. v \<subseteq>\<^sub>m v' \<and> so_own v' (snd (snd (ca_map_frame (bootstrap_alloc V cs) f ws used e)))" for f ws used
  proof -
    let ?m = "map_frame_impl V (slot_from_reserve ws) f (so_vspace e) (so_next_free_vaddr e) (k_AllRights V) (k_Default_VMAttributes V) used cs e"
    show ?thesis
    proof (cases "so_fault e \<or> ?m = None")
      case True
      then have "so_fault (snd (snd (ca_map_frame (bootstrap_alloc V cs) f ws used e)))"
        by (auto simp: bootstrap_alloc_def bootstrap_cspace_map_frame_def map_frame_cspace_def fault_def)
      then show ?thesis using map_le_refl [of v] unfolding so_own_def by blast
    next
      case False
      then obtain err u c e1 where m: "?m = Some (err, u, c, e1)" by (metis option.exhaust prod_cases4)
      have "so_ok v e" using J False by (simp add: so_own_def)
      then obtain v' where "v \<subseteq>\<^sub>m v'" "so_ok v' e1" using map_frame_impl_keeps [OF reserve_keeps _ _ m] False by blast
      then show ?thesis using m alloc_vaddr_keeps(1) [of v' e1 err]
        by (auto simp: bootstrap_alloc_def bootstrap_cspace_map_frame_def map_frame_cspace_def so_own_def split_def)
    qed
  qed
  fix e'
  show "so_own v e'" if "ca_alloc_4k_ut (bootstrap_alloc V cs) e = (None, e')"
    using J that by (auto simp: bootstrap_alloc_def bootstrap_cspace_alloc_4k_ut_def so_own_def fault_def split: if_splits option.splits)
  show "\<exists>n. h \<notin> dom v \<and> is_4k n \<and> so_own (v(h \<mapsto> n)) e'" if "ca_alloc_4k_ut (bootstrap_alloc V cs) e = (Some (h, c), e')" for h c
  proof -
    have nf: "\<not> so_fault e" using that by (auto simp: bootstrap_alloc_def bootstrap_cspace_alloc_4k_ut_def)
    then have ok: "so_ok v e" using J by (simp add: so_own_def)
    from that nf obtain p tb n where a: "ut_alloc_4k_untyped (so_table e) = Some (h, p, tb)" "tb_store tb h = Some n" "e' = e\<lparr>so_table := tb\<rparr>"
      by (auto simp: bootstrap_alloc_def bootstrap_cspace_alloc_4k_ut_def split: option.splits)
    have "tb_store tb = tb_store (so_table e)" using own_4k [of v "so_table e"] ok a(1) by (auto simp: so_ok_def)
    then have "h \<noteq> 0" using a(2) ok by (auto simp: so_ok_def ut_own_def)
    then show ?thesis using so_ok_4k [OF ok a(1)] a(3) by (auto simp: so_own_def)
  qed
next
  fix v and e :: "'k sos" and h n
  assume J: "so_own v e" "v h = Some n" "is_4k n"
  show "so_own (v(h := None)) (ca_free_4k_ut (bootstrap_alloc V cs) h e)"
  proof (cases "so_fault e")
    case True then show ?thesis by (auto simp: bootstrap_alloc_def bootstrap_cspace_free_4k_ut_def so_own_def fault_def split: option.splits)
  next
    case False
    then have "so_ok v e" using J(1) by (simp add: so_own_def)
    then obtain tb' where "ut_free h (so_table e) = Some tb'" "ut_own (v(h := None)) tb'" "dom (tb_store tb') = dom (tb_store (so_table e))"
      using own_free [of v "so_table e" h n] J(2,3) by (auto simp: so_ok_def)
    with \<open>so_ok v e\<close> show ?thesis by (simp add: bootstrap_alloc_def bootstrap_cspace_free_4k_ut_def so_own_def so_ok_def)
  qed
qed

lemma sos_alloc_slot_keeps:
  assumes "so_ok v s" "sos_alloc_slot V cs s = Some (x, cs', s')"
  shows "\<not> so_fault s' \<and> (\<exists>v'. v \<subseteq>\<^sub>m v' \<and> so_ok v' s')"
proof -
  obtain s1 where a: "cspace_alloc_slot (lift_kernel V) (bootstrap_alloc V cs) cs s = Some (x, cs', s1)" "\<not> so_fault s1" "s' = s1"
    using assms(2) by (auto simp: sos_alloc_slot_def split: Option.bind_splits if_splits)
  from boot_env.alloc_slot_keeps [OF _ a(1), of v] assms(1) a(2,3) show ?thesis by (auto simp: so_own_def)
qed

lemma sos_alloc_slot_pool:
  assumes "pool_ok cs" "sos_alloc_slot V cs s = Some (x, cs', s')"
  shows "grows cs cs' \<and> (x \<noteq> 0 \<longrightarrow> x \<notin> slots cs \<and> x \<in> slots cs' \<and> x < top_slots cs' * 128)"
proof -
  have "cspace_alloc_slot (lift_kernel V) (bootstrap_alloc V cs) cs s = Some (x, cs', s')"
    using assms(2) by (auto simp: sos_alloc_slot_def split: Option.bind_splits if_splits)
  with grows_alloc [OF assms(1), of "lift_kernel V" "bootstrap_alloc V cs" s] show ?thesis by auto
qed

lemma cspace_keeps: "slot_keeps (slot_from_cspace (sos_alloc_slot V))"
  unfolding slot_keeps_def slot_from_cspace_def using sos_alloc_slot_keeps by (fastforce split: Option.bind_splits)

lemma map_frame_keeps:
  assumes "so_ok v s" "\<not> so_fault s" "map_frame V fc vs va r a cs s = Some (err, cs', s')"
  shows "\<not> so_fault s' \<and> (\<exists>v'. v \<subseteq>\<^sub>m v' \<and> so_ok v' s')"
  using map_frame_impl_keeps [OF cspace_keeps assms(1,2)] assms(3) by (fastforce simp: map_frame_def split: Option.bind_splits)

text \<open>The capability space through the same steps.\<close>

lemma grows_refl: "pool_ok cs \<Longrightarrow> grows cs cs"
  by (simp add: grows_def)

lemma grows_trans: "grows a b \<Longrightarrow> grows b c \<Longrightarrow> grows a c"
  by (auto simp: grows_def)

lemma grows_ok: "grows a b \<Longrightarrow> pool_ok b"
  by (simp add: grows_def)

lemma map_loop_grows:
  assumes nx: "\<And>i u cs s x u' c s'. nx i u cs s = Some (x, u', c, s') \<Longrightarrow> pool_ok cs \<Longrightarrow> grows cs c"
    and "pool_ok cs" "map_loop V nx fc vs va r a is err u cs s = Some (err', u', cs', s')"
  shows "grows cs cs'"
  using assms(2-)
proof (induction "is" arbitrary: err u cs s)
  case (Cons i "is")
  from Cons.prems(2) consider "cs' = cs" | x u1 c1 s1 s2 where "nx i u cs s1 = Some (x, u1, c1, s2)"
      "c1 = cs' \<or> (\<exists>e u s. map_loop V nx fc vs va r a is e u c1 s = Some (err', u', cs', s'))"
    by (auto simp: Let_def split_def split: Option.bind_splits if_splits) blast+
  then show ?case
  proof cases
    case 1 then show ?thesis using Cons.prems(1) grows_refl by blast
  next
    case 2
    then have g: "grows cs c1" using nx Cons.prems(1) by blast
    with 2(2) Cons.IH [OF grows_ok [OF g]] show ?thesis using grows_trans by blast
  qed
qed (simp add: grows_refl)

lemma slot_from_cspace_grows:
  assumes "slot_from_cspace (sos_alloc_slot V) i u cs s = Some (x, u', c, s')" "pool_ok cs"
  shows "grows cs c"
proof -
  have "sos_alloc_slot V cs s = Some (x, c, s')" using assms(1) by (auto simp: slot_from_cspace_def split: Option.bind_splits)
  from sos_alloc_slot_pool [OF assms(2) this] show ?thesis by blast
qed

lemma map_frame_grows:
  assumes "pool_ok cs" "map_frame V fc vs va r a cs s = Some (err, cs', s')"
  shows "grows cs cs'"
proof -
  obtain e1 s1 u where run: "map_loop V (slot_from_cspace (sos_alloc_slot V)) fc vs va r a [0..<MAPPING_SLOTS] e1 0 cs s1 = Some (err, u, cs', s')"
    using assms(2) by (auto simp: map_frame_def map_frame_impl_def split_def split: Option.bind_splits)
  show ?thesis
    by (rule map_loop_grows [OF slot_from_cspace_grows assms(1) run])
qed

lemma bootstrap_map_frame_keeps:
  assumes ok: "so_ok v s" "\<not> so_fault s" "pool_ok cs" and run: "bootstrap_map_frame V cap cs s = Some (p, cs', s')"
  shows "\<not> so_fault s' \<and> grows cs cs' \<and> (\<exists>v'. v \<subseteq>\<^sub>m v' \<and> so_ok v' s') \<and>
    (p \<noteq> 0 \<longrightarrow> so_next_free_vaddr s' = p + 4096 \<and> (\<forall>a \<in> dom (tb_store (so_table s')). a < p))"
proof -
  obtain err s1 where m: "map_frame V cap (so_vspace s) (so_next_free_vaddr s) (k_AllRights V) (k_Default_VMAttributes V) cs s = Some (err, cs', s1)"
    "alloc_vaddr err s1 = (p, s')"
    using run by (auto simp: bootstrap_map_frame_def Let_def split_def split: Option.bind_splits)
  obtain v' where v': "\<not> so_fault s1" "v \<subseteq>\<^sub>m v'" "so_ok v' s1" using map_frame_keeps [OF ok(1,2) m(1)] by blast
  have "so_ok v' s'" "\<not> so_fault s'" using alloc_vaddr_keeps(1) [of v' s1 err] alloc_vaddr_keeps(3) [of err s1] v' m(2) by simp_all
  moreover have "p \<noteq> 0 \<longrightarrow> so_next_free_vaddr s' = p + 4096 \<and> (\<forall>a \<in> dom (tb_store (so_table s')). a < p)"
    using m(2) v'(3) by (auto simp: alloc_vaddr_def so_ok_def PAGE_SIZE_4K_def split: if_splits)
  ultimately show ?thesis using map_frame_grows [OF ok(3) m(1)] v'(2) by blast
qed

section \<open>Spare nodes\<close>

definition page_nodes :: "nat \<Rightarrow> nat set" where
  "page_nodes p = {a. p \<le> a \<and> a < p + PAGE_SIZE_4K \<and> (a - p) mod SIZEOF_UT = 0}"

lemma page_nodes_list: "set (map (\<lambda>i. p + i * SIZEOF_UT) [0..<PAGE_SIZE_4K div SIZEOF_UT]) = page_nodes p"
proof -
  have "a \<in> (\<lambda>i. p + i * 16) ` {0..<256}" if "p \<le> a" "a < p + 4096" "(a - p) mod 16 = 0" for a
    using that by (intro image_eqI [of _ _ "(a - p) div 16"]) auto
  then show ?thesis by (auto simp: page_nodes_def PAGE_SIZE_4K_def SIZEOF_UT_def)
qed

lemma own_new_nodes:
  assumes own: "ut_own v tb" and p: "0 < p" "\<forall>a \<in> dom (tb_store tb). a < p"
  shows "ut_own (\<lambda>a. if a \<in> page_nodes p then Some zero_ut else v a) (new_nodes p tb)"
proof -
  obtain F S where o: "lists_ok tb F S" "dom v \<inter> set (S @ concat F) = {}" "v \<subseteq>\<^sub>m tb_store tb" "tb_store tb 0 = None" using ut_ownE [OF own] by blast
  have st: "tb_store (new_nodes p tb) = (\<lambda>a. if a \<in> page_nodes p then Some zero_ut else tb_store tb a)"
    by (auto simp: new_nodes_def page_nodes_def fun_eq_iff)
  have out: "a \<notin> page_nodes p" if "a \<in> set (S @ concat F)" for a
    using lists_dom [OF o(1) that] p(2) by (force simp: page_nodes_def dom_def)
  have ch: "chain (tb_store (new_nodes p tb)) h xs = chain (tb_store tb) h xs" if "set xs \<subseteq> set (S @ concat F)" for h xs
    by (rule chain_cong) (use that out st in auto)
  have sub: "set (F ! i) \<subseteq> set (S @ concat F)" if "i < 9" for i using in_concat [of i F] that lists_okD(1) [OF o(1)] by auto
  have z: "un_size_bits n = i + 4" if "i < 9" "x \<in> set (F ! i)" "tb_store (new_nodes p tb) x = Some n" for i x n
    using lists_okD(6) [OF o(1) that(1,2)] out [of x] sub [OF that(1)] that(2,3) by (auto simp: st split: if_splits)
  have "tb_free_untypeds (new_nodes p tb) = tb_free_untypeds tb" "tb_free_structures (new_nodes p tb) = tb_free_structures tb"
    by (simp_all add: new_nodes_def)
  then have "lists_ok (new_nodes p tb) F S"
    unfolding lists_ok_def using lists_okD [OF o(1)] ch [OF sub] ch [of S] z by simp
  then show ?thesis
  proof (rule ut_ownI)
    have "dom (\<lambda>a. if a \<in> page_nodes p then Some zero_ut else v a) \<subseteq> page_nodes p \<union> dom v" by (auto split: if_splits)
    then show "dom (\<lambda>a. if a \<in> page_nodes p then Some zero_ut else v a) \<inter> set (S @ concat F) = {}" using out o(2) by blast
    show "(\<lambda>a. if a \<in> page_nodes p then Some zero_ut else v a) \<subseteq>\<^sub>m tb_store (new_nodes p tb)"
      using o(3) by (auto simp: st map_le_def split: if_splits)
    show "tb_store (new_nodes p tb) 0 = None" using o(4) p(1) by (simp add: st page_nodes_def)
  qed
qed

lemma own_push_structures:
  assumes "ut_own v tb" "set ps \<subseteq> dom v" "distinct ps"
  shows "\<exists>tb'. push_structures ps tb = Some tb' \<and> ut_own (\<lambda>a. if a \<in> set ps then None else v a) tb' \<and> dom (tb_store tb') = dom (tb_store tb)"
  using assms
proof (induction ps arbitrary: v tb)
  case (Cons p ps)
  obtain n where "v p = Some n" using Cons.prems(2) by auto
  from own_push_structure [OF Cons.prems(1) this] obtain tb1 where t: "push_structure p tb = Some tb1" "ut_own (v(p := None)) tb1"
    "dom (tb_store tb1) = dom (tb_store tb)" by blast
  have "set ps \<subseteq> dom (v(p := None))" using Cons.prems(2,3) by auto
  from Cons.IH [OF t(2) this] Cons.prems(3) obtain tb2 where "push_structures ps tb1 = Some tb2"
    "ut_own (\<lambda>a. if a \<in> set ps then None else (v(p := None)) a) tb2" "dom (tb_store tb2) = dom (tb_store tb1)" by auto
  moreover have "(\<lambda>a. if a \<in> set ps then None else (v(p := None)) a) = (\<lambda>a. if a \<in> set (p # ps) then None else v a)" by auto
  ultimately show ?case using t by simp
qed simp

section \<open>Splitting\<close>

text \<open>The relation of the states before and after a step of the allocation.\<close>

definition sos_step :: "ut_store \<Rightarrow> cspace \<Rightarrow> cspace \<Rightarrow> 'k sos \<Rightarrow> bool" where
  "sos_step v cs cs' s' \<longleftrightarrow> \<not> so_fault s' \<and> grows cs cs' \<and> (\<exists>v'. v \<subseteq>\<^sub>m v' \<and> so_ok v' s')"

lemma sos_stepI: "\<not> so_fault s' \<Longrightarrow> grows cs cs' \<Longrightarrow> v \<subseteq>\<^sub>m v' \<Longrightarrow> so_ok v' s' \<Longrightarrow> sos_step v cs cs' s'"
  by (auto simp: sos_step_def)

lemma sos_step_trans:
  assumes "sos_step v cs c1 s1" "\<And>v1. v \<subseteq>\<^sub>m v1 \<Longrightarrow> so_ok v1 s1 \<Longrightarrow> \<not> so_fault s1 \<Longrightarrow> pool_ok c1 \<Longrightarrow> sos_step v1 c1 cs' s'"
  shows "sos_step v cs cs' s'"
proof -
  obtain v1 where v1: "\<not> so_fault s1" "grows cs c1" "v \<subseteq>\<^sub>m v1" "so_ok v1 s1" using assms(1) by (auto simp: sos_step_def)
  from assms(2) [OF v1(3,4,1) grows_ok [OF v1(2)]] show ?thesis
    using grows_trans [OF v1(2)] map_le_trans [OF v1(3)] by (auto simp: sos_step_def)
qed

lemma sos_step_refl: "so_ok v s \<Longrightarrow> \<not> so_fault s \<Longrightarrow> pool_ok cs \<Longrightarrow> sos_step v cs cs s"
  by (rule sos_stepI [OF _ grows_refl map_le_refl])

lemma step_alloc_slot: "so_ok v s \<Longrightarrow> pool_ok cs \<Longrightarrow> sos_alloc_slot V cs s = Some (x, cs', s') \<Longrightarrow> sos_step v cs cs' s'"
  using sos_alloc_slot_keeps [of v s V cs x cs' s'] sos_alloc_slot_pool [of cs V s x cs' s'] by (simp add: sos_step_def)

lemma step_4k:
  assumes "so_ok v s" "\<not> so_fault s" "pool_ok cs" "ut_alloc_4k s = Some (n, s')"
  shows "sos_step v cs cs s'"
proof -
  obtain p tb where a: "ut_alloc_4k_untyped (so_table s) = Some (n, p, tb)" "s' = s\<lparr>so_table := tb\<rparr>"
    using assms(4) by (auto simp: ut_alloc_4k_def split: Option.bind_splits)
  show ?thesis
  proof (cases "n = 0")
    case True then show ?thesis using so_ok_4k [OF assms(1) a(1)] a(2) assms(2,3) by (intro sos_step_refl) simp_all
  next
    case False
    then obtain nd where "n \<notin> dom v" "so_ok (v(n \<mapsto> nd)) s'" using so_ok_4k [OF assms(1) a(1)] a(2) by auto
    then show ?thesis using assms(2) a(2) by (intro sos_stepI [OF _ grows_refl [OF assms(3)] boot_env.map_le_add]) simp_all
  qed
qed

lemma step_new_page:
  assumes ok: "so_ok v s" "\<not> so_fault s" "pool_ok cs" and p: "0 < p" "so_next_free_vaddr s = p + 4096" "\<forall>a \<in> dom (tb_store (so_table s)). a < p"
    and run: "on_table (push_structures (map (\<lambda>i. p + i * SIZEOF_UT) [0..<PAGE_SIZE_4K div SIZEOF_UT])) (s\<lparr>so_table := new_nodes p (so_table s)\<rparr>) = Some s'"
  shows "sos_step v cs cs s'"
proof -
  let ?ps = "map (\<lambda>i. p + i * SIZEOF_UT) [0..<PAGE_SIZE_4K div SIZEOF_UT]"
  let ?w = "\<lambda>a. if a \<in> page_nodes p then Some zero_ut else v a"
  have own: "ut_own v (so_table s)" using ok(1) by (simp add: so_ok_def)
  have ps: "set ?ps = page_nodes p" by (rule page_nodes_list)
  have d: "set ?ps \<subseteq> dom ?w" "distinct ?ps" unfolding ps by (auto simp: distinct_map inj_on_def SIZEOF_UT_def)
  obtain tb' where tb: "push_structures ?ps (new_nodes p (so_table s)) = Some tb'"
    "ut_own (\<lambda>a. if a \<in> page_nodes p then None else ?w a) tb'" "dom (tb_store tb') = dom (tb_store (new_nodes p (so_table s)))"
    using own_push_structures [OF own_new_nodes [OF own p(1,3)] d] unfolding ps by blast
  have "a \<notin> page_nodes p" if "v a \<noteq> None" for a
  proof -
    have "a \<in> dom (tb_store (so_table s))" using own that by (auto simp: ut_own_def map_le_def dom_def)
    then have "a < p" using p(3) by blast
    then show ?thesis by (simp add: page_nodes_def)
  qed
  then have "v a = None" if "a \<in> page_nodes p" for a using that by blast
  then have "(\<lambda>a. if a \<in> page_nodes p then None else ?w a) = v" by (intro ext) simp
  moreover have "\<forall>a \<in> dom (tb_store (new_nodes p (so_table s))). a < p + 4096"
  proof
    fix a assume "a \<in> dom (tb_store (new_nodes p (so_table s)))"
    then have "a < p + 4096 \<or> a \<in> dom (tb_store (so_table s))" by (auto simp: new_nodes_def PAGE_SIZE_4K_def split: if_splits)
    then show "a < p + 4096" using p(3) trans_less_add1 by blast
  qed
  moreover have "s' = s\<lparr>so_table := tb'\<rparr>" using run tb(1) by (simp add: on_table_def)
  ultimately have "so_ok v s'" "\<not> so_fault s'" using tb(2,3) p(1,2) ok(2) by (simp_all add: so_ok_def)
  then show ?thesis using ok(3) by (rule sos_step_refl)
qed

lemma ensure_new_structures_keeps:
  assumes ok: "so_ok v s" "\<not> so_fault s" "pool_ok cs" and run: "ensure_new_structures V cs s = Some (b, cs', s')"
  shows "sos_step v cs cs' s'"
proof -
  consider (same) "cs' = cs" "s' = s" | (full) n where "ut_alloc_4k s = Some (n, s')" "cs' = cs"
    | (slot) n s1 c where "ut_alloc_4k s = Some (n, s1)" "sos_alloc_slot V cs s1 = Some (c, cs', s')"
    | (retype) n s1 c s2 cap er where "ut_alloc_4k s = Some (n, s1)" "sos_alloc_slot V cs s1 = Some (c, cs', s2)"
        "cspace_untyped_retype (lift_kernel V) cs' cap c seL4_ARM_SmallPageObject 12 s2 = (er, s')"
    | (mapped) n s1 c c1 s2 cap er s3 p s4 where "ut_alloc_4k s = Some (n, s1)" "sos_alloc_slot V cs s1 = Some (c, c1, s2)"
        "cspace_untyped_retype (lift_kernel V) c1 cap c seL4_ARM_SmallPageObject 12 s2 = (er, s3)"
        "bootstrap_map_frame V c c1 s3 = Some (p, cs', s4)"
        "(p = 0 \<and> s' = s4) \<or> (p \<noteq> 0 \<and> on_table (push_structures (map (\<lambda>i. p + i * SIZEOF_UT) [0..<PAGE_SIZE_4K div SIZEOF_UT])) (s4\<lparr>so_table := new_nodes p (so_table s4)\<rparr>) = Some s')"
    using run unfolding ensure_new_structures_def Let_def
    by (elim c_elims) (auto elim!: bind_SomeE split: if_splits prod.split_asm)
  then show ?thesis
  proof cases
    case same then show ?thesis using sos_step_refl [OF ok] by simp
  next
    case full then show ?thesis using step_4k [OF ok] by simp
  next
    case slot
    show ?thesis
    proof (rule sos_step_trans [OF step_4k [OF ok slot(1)]])
      fix v1 assume "so_ok v1 s1" "pool_ok cs"
      from step_alloc_slot [OF this slot(2)] show "sos_step v1 cs cs' s'" .
    qed
  next
    case retype
    show ?thesis
    proof (rule sos_step_trans [OF step_4k [OF ok retype(1)]])
      fix v1 assume "so_ok v1 s1" "pool_ok cs"
      moreover obtain k where "s' = s2\<lparr>so_k := k\<rparr>" using retype_lift [of V cs' cap c] retype(3) by (metis snd_conv)
      ultimately show "sos_step v1 cs cs' s'" using step_alloc_slot [OF _ _ retype(2), of v1] by (auto simp: sos_step_def)
    qed
  next
    case mapped
    show ?thesis
    proof (rule sos_step_trans [OF step_4k [OF ok mapped(1)]])
      fix v1 assume v1: "so_ok v1 s1" "pool_ok cs"
      show "sos_step v1 cs cs' s'"
      proof (rule sos_step_trans [OF step_alloc_slot [OF v1 mapped(2)]])
        fix v2 assume v2: "so_ok v2 s2" "\<not> so_fault s2" "pool_ok c1"
        obtain k where "s3 = s2\<lparr>so_k := k\<rparr>" using retype_lift [of V c1 cap c] mapped(3) by (metis snd_conv)
        with v2 have "so_ok v2 s3" "\<not> so_fault s3" by simp_all
        note b = bootstrap_map_frame_keeps [OF this v2(3) mapped(4)]
        then have "sos_step v2 c1 cs' s4" by (simp add: sos_step_def)
        then show "sos_step v2 c1 cs' s'"
        proof (rule sos_step_trans)
          fix v3 assume v3: "so_ok v3 s4" "\<not> so_fault s4" "pool_ok cs'"
          show "sos_step v3 cs' cs' s'"
          proof (cases "p = 0")
            case True then show ?thesis using mapped(5) sos_step_refl [OF v3] by simp
          next
            case False
            then show ?thesis using step_new_page [OF v3, of p s'] b mapped(5) by simp
          qed
        qed
      qed
    qed
  qed
qed


section \<open>The nodes of a split\<close>

lemma so_ok_table: "so_ok v s \<Longrightarrow> ut_own v' tb \<Longrightarrow> dom (tb_store tb) = dom (tb_store (so_table s)) \<Longrightarrow> so_ok v' (s\<lparr>so_table := tb\<rparr>)"
  by (simp add: so_ok_def)

lemma on_table_own:
  assumes "so_ok v s" "\<exists>tb. f (so_table s) = Some tb \<and> ut_own v' tb \<and> dom (tb_store tb) = dom (tb_store (so_table s))"
  shows "\<exists>s'. on_table f s = Some s' \<and> so_ok v' s' \<and> so_fault s' = so_fault s"
  using assms so_ok_table [OF assms(1)] by (auto simp: on_table_def)

lemma so_ok_own: "so_ok v s \<Longrightarrow> ut_own v (so_table s)"
  by (simp add: so_ok_def)

lemma so_push_structure: "so_ok v s \<Longrightarrow> v x = Some n \<Longrightarrow> \<exists>s'. on_table (push_structure x) s = Some s' \<and> so_ok (v(x := None)) s' \<and> so_fault s' = so_fault s"
  by (rule on_table_own, assumption, rule own_push_structure [OF so_ok_own])

lemma so_free: "so_ok v s \<Longrightarrow> v x = Some n \<Longrightarrow> 4 \<le> un_size_bits n \<Longrightarrow> un_size_bits n \<le> 12 \<Longrightarrow>
    \<exists>s'. on_table (ut_free x) s = Some s' \<and> so_ok (v(x := None)) s' \<and> so_fault s' = so_fault s"
  by (rule on_table_own, assumption, rule own_free [OF so_ok_own])

lemma so_set:
  assumes "so_ok v s" "v x = Some n"
  shows "\<exists>s'. on_table (set_ut x f) s = Some s' \<and> so_ok (v(x \<mapsto> f n)) s' \<and> so_fault s' = so_fault s"
proof (rule on_table_own [OF assms(1)])
  have "tb_store (so_table s) x = Some n" using so_ok_own [OF assms(1)] assms(2) by (auto simp: ut_own_def map_le_def dom_def)
  then show "\<exists>tb. set_ut x f (so_table s) = Some tb \<and> ut_own (v(x \<mapsto> f n)) tb \<and> dom (tb_store tb) = dom (tb_store (so_table s))"
    using own_set [OF so_ok_own [OF assms(1)] assms(2), of f] by auto
qed

lemma so_push_free:
  assumes "so_ok v s" "v x = Some n" "un_size_bits n = i + 4" "i < 9"
  shows "\<exists>s'. on_table (push_free i x) s = Some s' \<and> so_ok (v(x := None)) s' \<and> so_fault s' = so_fault s \<and> tb_free_untypeds (so_table s') ! i \<noteq> 0"
proof -
  obtain s' where s': "on_table (push_free i x) s = Some s'" "so_ok (v(x := None)) s'" "so_fault s' = so_fault s"
    using on_table_own [OF assms(1), of "push_free i x" "v(x := None)"] own_push_free [OF so_ok_own [OF assms(1)] assms(2-4)] by blast
  have "length (tb_free_untypeds (so_table s)) = 9" "x \<noteq> 0"
    using so_ok_own [OF assms(1)] assms(2) by (auto simp: ut_own_def lists_ok_def map_le_def dom_def)
  then have "tb_free_untypeds (so_table s') ! i \<noteq> 0"
    using s'(1) assms(4) by (auto simp: on_table_def push_free_def ut_push_def arr_get_def arr_set_def split: Option.bind_splits if_splits)
  then show ?thesis using s' by blast
qed

lemma grows_free:
  assumes "grows cs c" "x \<in> slots c" "x \<notin> slots cs" "x \<noteq> 0" "x < top_slots c * 128"
  shows "\<exists>c'. cspace_free_slot x c = Some c' \<and> grows cs c' \<and> slots c' = slots c - {x}"
proof -
  from two_level.fr_ok [OF grows_ok [OF assms(1)] assms(2,4,5)] obtain c' where
    "cspace_free_slot x c = Some c'" "pool_ok c'" "top_slots c' = top_slots c" "slots c' = slots c - {x}" by auto
  then show ?thesis using assms(1,3) by (auto simp: grows_def)
qed

definition owns_new :: "ut_store \<Rightarrow> cspace \<Rightarrow> nat \<Rightarrow> nat \<Rightarrow> nat \<Rightarrow> cspace \<Rightarrow> 'k sos \<Rightarrow> ut_store \<Rightarrow> bool" where
  "owns_new v cs sz new cap cs' s' v' \<longleftrightarrow> \<not> so_fault s' \<and> grows cs cs' \<and> v \<subseteq>\<^sub>m v' \<and> so_ok v' s' \<and> new \<notin> dom v \<and>
     (\<exists>n. v' new = Some n \<and> (cap \<noteq> 0 \<longrightarrow> un_size_bits n = sz \<and> un_cap n = cap \<and> cap \<in> slots cs' \<and> cap \<notin> slots cs \<and> cap < top_slots cs' * 128))"

lemma new_structure_keeps:
  assumes ok: "so_ok v s" "\<not> so_fault s" "pool_ok cs" "top_slots cs * 128 \<le> 2 ^ 20" "sz < 16"
    and run: "new_structure V sz cs s = Some (new, cap, cs', s')"
  shows "\<exists>v'. owns_new v cs sz new cap cs' s' v'"
proof -
  obtain tb where pop: "pop_structure (so_table s) = Some (new, tb)" using run by (auto simp: new_structure_def Let_def elim!: c_elims split: if_splits)
  note own = so_ok_own [OF ok(1)]
  have nz: "tb_free_structures (so_table s) \<noteq> 0"
    using pop own by (auto simp: pop_structure_def ut_pop_def ut_own_def split: Option.bind_splits)
  obtain n where n: "new \<notin> dom v" "ut_own (v(new \<mapsto> n)) tb" "tb_store tb = tb_store (so_table s)" using own_pop_structure [OF own nz] pop by auto
  let ?s1 = "s\<lparr>so_table := tb\<rparr>"
  have ok1: "so_ok (v(new \<mapsto> n)) ?s1" using so_ok_table [OF ok(1) n(2)] n(3) by simp
  obtain c s2 where al: "sos_alloc_slot V cs ?s1 = Some (c, cs', s2)" and cap: "cap = c mod 2 ^ 20"
    using run pop by (auto simp: new_structure_def Let_def elim!: c_elims split: if_splits)
  note pool = sos_alloc_slot_pool [OF ok(3) al]
  have capc: "cap = c" using cap pool ok(4) by (cases "c = 0") (auto simp: grows_def)
  have cm: "c mod 1048576 = c" using cap capc by simp
  obtain v2 where v2: "\<not> so_fault s2" "v(new \<mapsto> n) \<subseteq>\<^sub>m v2" "so_ok v2 s2" using sos_alloc_slot_keeps [OF ok1 al] by blast
  have v2n: "v2 new = Some n" using v2(2) by (auto simp: map_le_def)
  have le: "v \<subseteq>\<^sub>m v2(new := y)" for y using v2(2) n(1) by (auto simp: map_le_def split: if_splits)
  obtain s3 where s3: "on_table (set_ut new (\<lambda>n. n\<lparr>un_cap := cap\<rparr>)) s2 = Some s3" "so_ok (v2(new \<mapsto> n\<lparr>un_cap := cap\<rparr>)) s3" "so_fault s3 = so_fault s2"
    using so_set [OF v2(3) v2n] by blast
  show ?thesis
  proof (cases "cap = 0")
    case True
    then have "s' = s3" using run pop al s3(1) capc cm by (simp add: new_structure_def seL4_CapNull_def Let_def)
    then show ?thesis using True s3(2,3) v2(1) pool le n(1) by (intro exI [of _ "v2(new \<mapsto> n\<lparr>un_cap := cap\<rparr>)"]) (simp add: owns_new_def)
  next
    case False
    obtain s4 where s4: "on_table (set_ut new (\<lambda>n. n\<lparr>un_size_bits := sz mod 2 ^ 4\<rparr>)) s3 = Some s4"
      "so_ok (v2(new \<mapsto> n\<lparr>un_cap := cap, un_size_bits := sz\<rparr>)) s4" "so_fault s4 = so_fault s3"
      using so_set [OF s3(2), of new _ "\<lambda>n. n\<lparr>un_size_bits := sz mod 2 ^ 4\<rparr>"] ok(5) by auto
    then have "s' = s4" using run pop al s3(1) capc False cm by (simp add: new_structure_def seL4_CapNull_def Let_def)
    then show ?thesis using False s4(2,3) s3(3) v2(1) pool le n(1) capc
      by (intro exI [of _ "v2(new \<mapsto> n\<lparr>un_cap := cap, un_size_bits := sz\<rparr>)"]) (simp add: owns_new_def)
  qed
qed


definition split_done :: "ut_store \<Rightarrow> cspace \<Rightarrow> nat \<Rightarrow> cspace \<Rightarrow> 'k sos \<Rightarrow> bool" where
  "split_done v cs larger cs' s' \<longleftrightarrow> \<not> so_fault s' \<and> grows cs cs' \<and> (\<exists>v'. v(larger := None) \<subseteq>\<^sub>m v' \<and> so_ok v' s')"

text \<open>What the end of a split that gives up does: \<open>larger\<close> goes back, together with the nodes not in \<open>v\<close> that were pushed before.\<close>

lemma split_gives_up:
  assumes "so_ok w s" "\<not> so_fault s" "grows cs cs'" "v(larger := None) \<subseteq>\<^sub>m w" "w larger = Some nl" "4 \<le> un_size_bits nl" "un_size_bits nl \<le> 12"
    "on_table (ut_free larger) s = Some s'"
  shows "split_done v cs larger cs' s'"
proof -
  obtain s1 where "on_table (ut_free larger) s = Some s1" "so_ok (w(larger := None)) s1" "so_fault s1 = so_fault s" using so_free [OF assms(1,5-7)] by blast
  moreover have "v(larger := None) \<subseteq>\<^sub>m w(larger := None)" using assms(4) by (auto simp: map_le_def)
  ultimately show ?thesis using assms(2,3,8) by (auto simp: split_done_def)
qed

lemma retype_liftE:
  obtains er k where "cspace_untyped_retype (lift_kernel V) cs u t ty sz (s\<lparr>so_k := k0\<rparr>) = (er, s\<lparr>so_k := k\<rparr>)"
  using retype_lift [of V cs u t ty sz "s\<lparr>so_k := k0\<rparr>"] by (cases "cspace_untyped_retype (lift_kernel V) cs u t ty sz (s\<lparr>so_k := k0\<rparr>)") auto

lemma delete_liftE:
  obtains er k where "cspace_delete (lift_kernel V) cs c (s\<lparr>so_k := k0\<rparr>) = (er, s\<lparr>so_k := k\<rparr>)"
  using delete_lift [of V cs c "s\<lparr>so_k := k0\<rparr>"] by (cases "cspace_delete (lift_kernel V) cs c (s\<lparr>so_k := k0\<rparr>)") auto

lemma split_untyped_cases:
  assumes "split_untyped V sz l larger cs s = Some (b, cs', s')"
  obtains (one) new1 cap1 s1 where "new_structure V sz cs s = Some (new1, cap1, cs', s1)" "on_table (ut_free larger) s1 = Some s'" "\<not> b"
  | (two) new1 cap1 c1 s1 new2 cap2 c2 s2 where "new_structure V sz cs s = Some (new1, cap1, c1, s1)" "cap1 \<noteq> 0"
      "new_structure V sz c1 s1 = Some (new2, cap2, c2, s2)" "cspace_free_slot cap1 c2 = Some cs'" "on_table (ut_free larger) s2 = Some s'" "\<not> b"
  | (more) new1 cap1 c1 s1 new2 cap2 c2 s2 k where "new_structure V sz cs s = Some (new1, cap1, c1, s1)" "cap1 \<noteq> 0"
      "new_structure V sz c1 s1 = Some (new2, cap2, c2, s2)" "cap2 \<noteq> 0"
      "(\<exists>c3 s3. cspace_free_slot cap1 c2 = Some c3 \<and> cspace_free_slot cap2 c3 = Some cs' \<and> on_table (push_structure new1) (s2\<lparr>so_k := k\<rparr>) = Some s3 \<and>
          on_table (ut_free larger) s3 = Some s' \<and> \<not> b) \<or>
       (\<exists>c3 s3 s4. cspace_free_slot cap1 c2 = Some c3 \<and> cspace_free_slot cap2 c3 = Some cs' \<and> on_table (push_structure new1) (s2\<lparr>so_k := k\<rparr>) = Some s3 \<and>
          on_table (push_structure new2) s3 = Some s4 \<and> on_table (ut_free larger) s4 = Some s' \<and> \<not> b) \<or>
       (\<exists>s3. c2 = cs' \<and> on_table (push_free l new1) (s2\<lparr>so_k := k\<rparr>) = Some s3 \<and> on_table (push_free l new2) s3 = Some s' \<and> b)"
proof -
  obtain new1 cap1 c1 s1 where n1: "new_structure V sz cs s = Some (new1, cap1, c1, s1)"
    using assms by (auto simp: split_untyped_def elim!: c_elims)
  show thesis
  proof (cases "cap1 = 0")
    case True
    then have "c1 = cs'" "on_table (ut_free larger) s1 = Some s'" "\<not> b" using assms n1 by (auto simp: split_untyped_def seL4_CapNull_def elim!: c_elims)
    then show thesis using one n1 by blast
  next
    case c1: False
    obtain new2 cap2 c2 s2 where n2: "new_structure V sz c1 s1 = Some (new2, cap2, c2, s2)"
      using assms n1 c1 by (auto simp: split_untyped_def seL4_CapNull_def elim!: c_elims)
    show thesis
    proof (cases "cap2 = 0")
      case True
      then show thesis using two [OF n1 c1 n2] assms n1 n2 c1 by (auto simp: split_untyped_def seL4_CapNull_def elim!: c_elims)
    next
      case c2: False
      obtain n where n: "tb_store (so_table s2) larger = Some n"
        using assms n1 n2 c1 c2 by (auto simp: split_untyped_def seL4_CapNull_def elim!: c_elims)
      obtain e1 k1 where r1: "cspace_untyped_retype (lift_kernel V) c2 (un_cap n) cap1 seL4_UntypedObject sz s2 = (e1, s2\<lparr>so_k := k1\<rparr>)"
        using retype_lift [of V c2 "un_cap n" cap1 seL4_UntypedObject sz s2] by (cases "cspace_untyped_retype (lift_kernel V) c2 (un_cap n) cap1 seL4_UntypedObject sz s2") auto
      obtain e2 k2 where r2: "cspace_untyped_retype (lift_kernel V) c2 (un_cap n) cap2 seL4_UntypedObject sz (s2\<lparr>so_k := k1\<rparr>) = (e2, s2\<lparr>so_k := k2\<rparr>)"
        by (rule retype_liftE)
      obtain e3 k3 where r3: "cspace_delete (lift_kernel V) c2 cap1 (s2\<lparr>so_k := k2\<rparr>) = (e3, s2\<lparr>so_k := k3\<rparr>)"
        by (rule delete_liftE)
      show thesis
      proof (cases "e1 = 0")
        case False then show thesis using more [OF n1 c1 n2 c2, of k1] assms n1 n2 n r1 c1 c2 by (auto simp: split_untyped_def seL4_CapNull_def elim!: c_elims)
      next
        case e1: True
        show thesis
        proof (cases "e2 = 0")
          case False then show thesis using more [OF n1 c1 n2 c2, of k3] assms n1 n2 n r1 r2 r3 c1 c2 e1 by (auto simp: split_untyped_def seL4_CapNull_def elim!: c_elims)
        next
          case True then show thesis using more [OF n1 c1 n2 c2, of k2] assms n1 n2 n r1 r2 c1 c2 e1 by (auto simp: split_untyped_def seL4_CapNull_def elim!: c_elims)
        qed
      qed
    qed
  qed
qed


lemma owns_newD:
  assumes "owns_new v cs sz new cap cs' s' v'"
  shows "\<not> so_fault s'" "grows cs cs'" "v \<subseteq>\<^sub>m v'" "so_ok v' s'" "new \<notin> dom v"
    "\<exists>n. v' new = Some n \<and> (cap \<noteq> 0 \<longrightarrow> un_size_bits n = sz \<and> un_cap n = cap \<and> cap \<in> slots cs' \<and> cap \<notin> slots cs \<and> cap < top_slots cs' * 128)"
  using assms by (simp_all add: owns_new_def)

lemma map_le_app: "v \<subseteq>\<^sub>m w \<Longrightarrow> v x = Some n \<Longrightarrow> w x = Some n"
  by (metis domI map_le_def)

lemma map_le_drop_new: "v \<subseteq>\<^sub>m w \<Longrightarrow> x \<notin> dom v \<Longrightarrow> v \<subseteq>\<^sub>m w(x := None)"
  by (auto simp: map_le_def)

lemma map_le_restrict: "v \<subseteq>\<^sub>m w \<Longrightarrow> v(x := None) \<subseteq>\<^sub>m w"
  by (auto simp: map_le_def)

lemma split_ends:
  assumes v1: "owns_new v cs sz new1 cap1 c1 s1 v1" and v2: "owns_new v1 c1 sz new2 cap2 c2 s2 v2" and cap: "cap1 \<noteq> 0" "cap2 \<noteq> 0"
    and alt: "(\<exists>c3 s3. cspace_free_slot cap1 c2 = Some c3 \<and> cspace_free_slot cap2 c3 = Some cs' \<and> on_table (push_structure new1) (s2\<lparr>so_k := k\<rparr>) = Some s3 \<and>
          on_table (ut_free larger) s3 = Some s' \<and> \<not> b) \<or>
       (\<exists>c3 s3 s4. cspace_free_slot cap1 c2 = Some c3 \<and> cspace_free_slot cap2 c3 = Some cs' \<and> on_table (push_structure new1) (s2\<lparr>so_k := k\<rparr>) = Some s3 \<and>
          on_table (push_structure new2) s3 = Some s4 \<and> on_table (ut_free larger) s4 = Some s' \<and> \<not> b) \<or>
       (\<exists>s3. c2 = cs' \<and> on_table (push_free (sz - 4) new1) (s2\<lparr>so_k := k\<rparr>) = Some s3 \<and> on_table (push_free (sz - 4) new2) s3 = Some s' \<and> b)"
    and nl: "v larger = Some nl" "4 \<le> un_size_bits nl" "un_size_bits nl \<le> 12" and sz: "4 \<le> sz" "sz < 12"
  shows "split_done v cs larger cs' s' \<and> (b \<longrightarrow> tb_free_untypeds (so_table s') ! (sz - 4) \<noteq> 0)"
proof -
  note o = owns_newD [OF v1] and q = owns_newD [OF v2]
  have g: "grows cs c2" by (rule grows_trans [OF o(2) q(2)])
  have c1: "cap1 \<in> slots c2" "cap1 \<notin> slots cs" "cap1 < top_slots c2 * 128" using o(6) q(2) cap(1) by (auto simp: grows_def)
  have c2: "cap2 \<in> slots c2" "cap2 \<notin> slots cs" "cap2 < top_slots c2 * 128" "cap2 \<noteq> cap1" using o(2,6) q(6) cap by (auto simp: grows_def)
  have g': "grows cs cs'" if "cspace_free_slot cap1 c2 = Some c3" "cspace_free_slot cap2 c3 = Some cs'" for c3
  proof -
    have "grows cs c3" "slots c3 = slots c2 - {cap1}" using grows_free [OF g c1(1,2) cap(1) c1(3)] that(1) by auto
    moreover from this have "top_slots c3 = top_slots c2" using g by (simp add: grows_def)
    ultimately show ?thesis using grows_free [of cs c3 cap2] c2 cap(2) that(2) by auto
  qed
  have le: "v \<subseteq>\<^sub>m v2" by (rule map_le_trans [OF o(3) q(3)])
  have larger: "v2 larger = Some nl" by (rule map_le_app [OF le nl(1)])
  have ne: "new1 \<noteq> larger" "new2 \<noteq> larger" "new1 \<noteq> new2" "new2 \<notin> dom v"
    using o(3,5,6) q(5) nl(1) map_le_app [OF o(3) nl(1)] by (auto simp: map_le_def dom_def)
  obtain n1 n2 where n: "v2 new1 = Some n1" "un_size_bits n1 = sz" "v2 new2 = Some n2" "un_size_bits n2 = sz"
    using o(6) q(6) cap map_le_app [OF q(3)] by blast
  have k: "so_ok v2 (s2\<lparr>so_k := k\<rparr>)" "\<not> so_fault (s2\<lparr>so_k := k\<rparr>)" using q(1,4) by simp_all
  have le1: "v \<subseteq>\<^sub>m v2(new1 := None)" by (rule map_le_drop_new [OF le o(5)])
  have le2: "v \<subseteq>\<^sub>m v2(new1 := None, new2 := None)" by (rule map_le_drop_new [OF le1 ne(4)])
  from alt consider (a) c3 s3 where "cspace_free_slot cap1 c2 = Some c3" "cspace_free_slot cap2 c3 = Some cs'"
      "on_table (push_structure new1) (s2\<lparr>so_k := k\<rparr>) = Some s3" "on_table (ut_free larger) s3 = Some s'" "\<not> b"
    | (b) c3 s3 s4 where "cspace_free_slot cap1 c2 = Some c3" "cspace_free_slot cap2 c3 = Some cs'"
      "on_table (push_structure new1) (s2\<lparr>so_k := k\<rparr>) = Some s3" "on_table (push_structure new2) s3 = Some s4" "on_table (ut_free larger) s4 = Some s'" "\<not> b"
    | (c) s3 where "c2 = cs'" "on_table (push_free (sz - 4) new1) (s2\<lparr>so_k := k\<rparr>) = Some s3" "on_table (push_free (sz - 4) new2) s3 = Some s'" "b" by blast
  then show ?thesis
  proof cases
    case a
    from so_push_structure [OF k(1) n(1)] a(3) k(2) have "so_ok (v2(new1 := None)) s3" "\<not> so_fault s3" by auto
    from split_gives_up [OF this g' [OF a(1,2)] map_le_restrict [OF le1] _ nl(2,3) a(4)] show ?thesis using larger ne(1) a(5) by simp
  next
    case b
    from so_push_structure [OF k(1) n(1)] b(3) k(2) have s3: "so_ok (v2(new1 := None)) s3" "\<not> so_fault s3" by auto
    from so_push_structure [OF s3(1), of new2 n2] n(3) ne(3) b(4) s3(2) have "so_ok (v2(new1 := None, new2 := None)) s4" "\<not> so_fault s4" by auto
    from split_gives_up [OF this g' [OF b(1,2)] map_le_restrict [OF le2] _ nl(2,3) b(5)] show ?thesis using larger ne(1,2) b(6) by simp
  next
    case c
    from so_push_free [OF k(1) n(1), of "sz - 4"] c(2) k(2) n(2) sz have s3: "so_ok (v2(new1 := None)) s3" "\<not> so_fault s3" by auto
    from so_push_free [OF s3(1), of new2 n2 "sz - 4"] n(3,4) sz ne(3) c(3) s3(2)
    have "so_ok (v2(new1 := None, new2 := None)) s'" "\<not> so_fault s'" "tb_free_untypeds (so_table s') ! (sz - 4) \<noteq> 0" by auto
    then show ?thesis using g c(1) map_le_restrict [OF le2] by (auto simp: split_done_def)
  qed
qed

lemma split_untyped_keeps:
  assumes ok: "so_ok v s" "\<not> so_fault s" "pool_ok cs" "top_slots cs * 128 \<le> 2 ^ 20"
    and sz: "4 \<le> sz" "sz < 12" and nl: "v larger = Some nl" "4 \<le> un_size_bits nl" "un_size_bits nl \<le> 12"
    and run: "split_untyped V sz (sz - 4) larger cs s = Some (b, cs', s')"
  shows "split_done v cs larger cs' s' \<and> (b \<longrightarrow> tb_free_untypeds (so_table s') ! (sz - 4) \<noteq> 0)"
  using run
proof (cases rule: split_untyped_cases)
  case (one new1 cap1 s1)
  have "sz < 16" using sz by simp
  from new_structure_keeps [OF ok this one(1)] obtain v1 where v1: "owns_new v cs sz new1 cap1 cs' s1 v1" by blast
  note o = owns_newD [OF v1]
  show ?thesis using split_gives_up [OF o(4,1,2) map_le_restrict [OF o(3)] map_le_app [OF o(3) nl(1)] nl(2,3) one(2)] one(3) by simp
next
  case (two new1 cap1 c1 s1 new2 cap2 c2 s2)
  have s16: "sz < 16" using sz by simp
  from new_structure_keeps [OF ok s16 two(1)] obtain v1 where v1: "owns_new v cs sz new1 cap1 c1 s1 v1" by blast
  note o = owns_newD [OF v1]
  have t1: "top_slots c1 * 128 \<le> 2 ^ 20" using o(2) ok(4) by (simp add: grows_def)
  from new_structure_keeps [OF o(4,1) grows_ok [OF o(2)] t1 s16 two(3)] obtain v2 where v2: "owns_new v1 c1 sz new2 cap2 c2 s2 v2" by blast
  note q = owns_newD [OF v2]
  have g: "grows cs c2" by (rule grows_trans [OF o(2) q(2)])
  have "cap1 \<in> slots c2" "cap1 \<notin> slots cs" "cap1 < top_slots c2 * 128" using o(6) q(2) two(2) by (auto simp: grows_def)
  then have g': "grows cs cs'" using grows_free [OF g _ _ two(2)] two(4) by auto
  have le: "v \<subseteq>\<^sub>m v2" by (rule map_le_trans [OF o(3) q(3)])
  show ?thesis using split_gives_up [OF q(4,1) g' map_le_restrict [OF le] map_le_app [OF le nl(1)] nl(2,3) two(5)] two(6) by simp
next
  case (more new1 cap1 c1 s1 new2 cap2 c2 s2 k)
  have s16: "sz < 16" using sz by simp
  from new_structure_keeps [OF ok s16 more(1)] obtain v1 where v1: "owns_new v cs sz new1 cap1 c1 s1 v1" by blast
  note o = owns_newD [OF v1]
  have t1: "top_slots c1 * 128 \<le> 2 ^ 20" using o(2) ok(4) by (simp add: grows_def)
  from new_structure_keeps [OF o(4,1) grows_ok [OF o(2)] t1 s16 more(3)] obtain v2 where v2: "owns_new v1 c1 sz new2 cap2 c2 s2 v2" by blast
  show ?thesis by (rule split_ends [OF v1 v2 more(2,4,5) nl sz])
qed


section \<open>Allocation of small objects\<close>

text \<open>The result of an allocation: nothing owned before is touched, and the node handed out is new and has the size asked for.\<close>

definition ut_given :: "ut_store \<Rightarrow> cspace \<Rightarrow> nat \<Rightarrow> nat \<Rightarrow> cspace \<Rightarrow> 'k sos \<Rightarrow> bool" where
  "ut_given v cs sz p cs' s' \<longleftrightarrow> \<not> so_fault s' \<and> grows cs cs' \<and>
     (\<exists>v'. v \<subseteq>\<^sub>m v' \<and> so_ok v' s' \<and> (p \<noteq> 0 \<longrightarrow> p \<notin> dom v \<and> (\<exists>n. v' p = Some n \<and> un_size_bits n = sz)))"

lemma given_none: "sos_step v cs cs' s' \<Longrightarrow> ut_given v cs sz 0 cs' s'"
  by (auto simp: ut_given_def sos_step_def)

lemma given_pop:
  assumes ok: "so_ok w s" "\<not> so_fault s" "grows cs cs'" "v \<subseteq>\<^sub>m w" and sz: "4 \<le> sz" "sz \<le> 12" and h: "tb_free_untypeds (so_table s) ! (sz - 4) \<noteq> 0"
    and pop: "pop_free (sz - 4) (so_table s) = Some (p, tb)"
  shows "ut_given v cs sz p cs' (s\<lparr>so_table := tb\<rparr>)"
proof -
  have "sz - 4 < 9" using sz by simp
  from own_pop_free [OF so_ok_own [OF ok(1)] this h] pop obtain n where
    n: "p \<notin> dom w" "ut_own (w(p \<mapsto> n)) tb" "un_size_bits n = sz - 4 + 4" "tb_store tb = tb_store (so_table s)" by auto
  have "so_ok (w(p \<mapsto> n)) (s\<lparr>so_table := tb\<rparr>)" using so_ok_table [OF ok(1) n(2)] n(4) by simp
  moreover have "v \<subseteq>\<^sub>m w(p \<mapsto> n)" "p \<notin> dom v" using ok(4) n(1) by (auto simp: map_le_def dom_def split: if_splits)
  ultimately show ?thesis using ok(2,3) n(3) sz unfolding ut_given_def by (intro conjI exI [of _ "w(p \<mapsto> n)"]) simp_all
qed

lemma given_4k:
  assumes ok: "so_ok v s" "\<not> so_fault s" "pool_ok cs" and run: "ut_alloc_4k s = Some (p, s')"
  shows "ut_given v cs 12 p cs s'"
proof -
  obtain q tb where a: "ut_alloc_4k_untyped (so_table s) = Some (p, q, tb)" "s' = s\<lparr>so_table := tb\<rparr>"
    using run by (auto simp: ut_alloc_4k_def elim!: c_elims)
  show ?thesis
  proof (cases "p = 0")
    case True then show ?thesis using given_none [OF step_4k [OF ok run]] by simp
  next
    case False
    then obtain nd where "p \<notin> dom v" "un_size_bits nd = 12" "so_ok (v(p \<mapsto> nd)) s'" using so_ok_4k [OF ok(1) a(1)] a(2) by auto
    moreover from this(1) have "v \<subseteq>\<^sub>m v(p \<mapsto> nd)" by (rule boot_env.map_le_add)
    ultimately show ?thesis using ok(2) a(2) grows_refl [OF ok(3)] unfolding ut_given_def by (intro conjI exI [of _ "v(p \<mapsto> nd)"]) simp_all
  qed
qed

lemma split_from_larger:
  assumes ok: "so_ok v s" "\<not> so_fault s" "pool_ok cs" "top_slots cs * 128 \<le> 2 ^ 20" and sz: "4 \<le> sz" "sz < 12"
    and nl: "v larger = Some nl" "un_size_bits nl = sz + 1"
    and ens: "ensure_new_structures V cs s = Some (e, c1, s1)"
    and rest: "if e then split_untyped V sz (sz - 4) larger c1 s1 = Some (b, cs', s') else c1 = cs' \<and> \<not> b \<and> on_table (ut_free larger) s1 = Some s'"
  shows "split_done v cs larger cs' s' \<and> (b \<longrightarrow> tb_free_untypeds (so_table s') ! (sz - 4) \<noteq> 0)"
proof -
  obtain v1 where v1: "\<not> so_fault s1" "grows cs c1" "v \<subseteq>\<^sub>m v1" "so_ok v1 s1"
    using ensure_new_structures_keeps [OF ok(1-3) ens] by (auto simp: sos_step_def)
  have n1: "v1 larger = Some nl" by (rule map_le_app [OF v1(3) nl(1)])
  have sb: "4 \<le> un_size_bits nl" "un_size_bits nl \<le> 12" using nl(2) sz by simp_all
  show ?thesis
  proof (cases e)
    case False then show ?thesis using split_gives_up [OF v1(4,1,2) map_le_restrict [OF v1(3)] n1 sb] rest by auto
  next
    case True
    have "top_slots c1 * 128 \<le> 2 ^ 20" using ok(4) v1(2) by (simp add: grows_def)
    from split_untyped_keeps [OF v1(4,1) grows_ok [OF v1(2)] this sz n1 sb] rest True
    have r: "split_done v1 c1 larger cs' s'" "b \<longrightarrow> tb_free_untypeds (so_table s') ! (sz - 4) \<noteq> 0" by auto
    then obtain v' where v': "\<not> so_fault s'" "grows c1 cs'" "v1(larger := None) \<subseteq>\<^sub>m v'" "so_ok v' s'" by (auto simp: split_done_def)
    have "v(larger := None) \<subseteq>\<^sub>m v1(larger := None)" using v1(3) by (auto simp: map_le_def)
    from map_le_trans [OF this v'(3)] show ?thesis using r(2) grows_trans [OF v1(2) v'(2)] v'(1,4) unfolding split_done_def by blast
  qed
qed


lemma ut_alloc_cases:
  assumes "ut_alloc V sz cs s = Some (p, cs', s')" "4 \<le> sz" "sz < 12"
  obtains (list) tb where "tb_free_untypeds (so_table s) ! (sz - 4) \<noteq> 0" "pop_free (sz - 4) (so_table s) = Some (p, tb)" "s' = s\<lparr>so_table := tb\<rparr>" "cs' = cs"
  | (none) "ut_alloc V (sz + 1) cs s = Some (0, cs', s')" "p = 0"
  | (split) larger c1 s1 e c2 s2 b s3 where "ut_alloc V (sz + 1) cs s = Some (larger, c1, s1)" "larger \<noteq> 0" "ensure_new_structures V c1 s1 = Some (e, c2, s2)"
      "if e then split_untyped V sz (sz - 4) larger c2 s2 = Some (b, cs', s3) else c2 = cs' \<and> \<not> b \<and> on_table (ut_free larger) s2 = Some s3"
      "if b then \<exists>tb. pop_free (sz - 4) (so_table s3) = Some (p, tb) \<and> s' = s3\<lparr>so_table := tb\<rparr> else p = 0 \<and> s' = s3"
proof -
  note run = assms(1) [unfolded ut_alloc.simps [of V sz cs s]]
  have i: "SIZE_BITS_TO_INDEX sz = Some (sz - 4)" "\<not> 12 < sz" "\<not> sz < 4" "sz \<noteq> 12" using assms(2,3) by (auto simp: SIZE_BITS_TO_INDEX_def)
  obtain h where h: "arr_get (tb_free_untypeds (so_table s)) (sz - 4) = Some h" using run i by (auto elim!: bind_SomeE split: if_splits)
  then have hd: "tb_free_untypeds (so_table s) ! (sz - 4) = h" by (auto simp: arr_get_def split: if_splits)
  show thesis
  proof (cases "h = 0")
    case False then show thesis using run i h hd by (auto intro!: list elim!: c_elims)
  next
    case True
    obtain larger c1 s1 where l: "ut_alloc V (sz + 1) cs s = Some (larger, c1, s1)" using run i h True by (auto elim!: c_elims)
    show thesis
    proof (cases "larger = 0")
      case z: True
      then have "cs' = c1" "s' = s1" "p = 0" using run i h True l by auto
      then show thesis using none l z by simp
    next
      case nz: False
      obtain e c2 s2 where e: "ensure_new_structures V c1 s1 = Some (e, c2, s2)" using run i h True l nz by (auto elim!: c_elims)
      show thesis
      proof (cases e)
        case False
        then have "on_table (ut_free larger) s2 = Some s'" "p = 0" "c2 = cs'" using run i h True l nz e by (auto elim!: c_elims)
        then show thesis using split [OF l nz e, of False s'] False by simp
      next
        case et: True
        obtain b c3 s3 where sp: "split_untyped V sz (sz - 4) larger c2 s2 = Some (b, c3, s3)" using run i h True l nz e et by (auto elim!: c_elims)
        then have "c3 = cs'" "if b then \<exists>tb. pop_free (sz - 4) (so_table s3) = Some (p, tb) \<and> s' = s3\<lparr>so_table := tb\<rparr> else p = 0 \<and> s' = s3"
          using run i h True l nz e et by (auto elim!: c_elims split: if_splits)
        then show thesis using split [OF l nz e, of b s3] et sp by simp
      qed
    qed
  qed
qed

lemma ut_alloc_keeps:
  assumes "so_ok v s" "\<not> so_fault s" "pool_ok cs" "top_slots cs * 128 \<le> 2 ^ 20" "ut_alloc V sz cs s = Some (p, cs', s')"
  shows "ut_given v cs sz p cs' s'"
  using assms
proof (induction "12 - sz" arbitrary: sz v cs s p cs' s')
  case 0
  show ?case
  proof (cases "sz = 12")
    case True
    then show ?thesis using 0 given_4k [of v s cs p s'] by (auto elim!: c_elims)
  next
    case False
    then show ?thesis using 0 given_none [OF sos_step_refl [OF 0(2-4)]] by simp
  qed
next
  case (Suc d)
  show ?case
  proof (cases "sz < 4")
    case True
    then show ?thesis using Suc.prems given_none [OF sos_step_refl [OF Suc.prems(1-3)]] by simp
  next
    case False
    then have sz: "4 \<le> sz" "sz < 12" "d = 12 - (sz + 1)" "sz \<le> 12" "4 \<le> sz + 1" "sz + 1 \<le> 12" using Suc.hyps(2) by simp_all
    note IH = Suc.hyps(1) [OF sz(3) Suc.prems(1-4)]
    from Suc.prems(5) sz(1,2) show ?thesis
    proof (cases rule: ut_alloc_cases)
      case (list tb)
      then show ?thesis using given_pop [OF Suc.prems(1,2) grows_refl [OF Suc.prems(3)] map_le_refl sz(1,4) list(1,2)] by simp
    next
      case none
      then show ?thesis using IH [OF none(1)] by (simp add: ut_given_def)
    next
      case (split larger c1 s1 e c2 s2 b s3)
      from IH [OF split(1)] split(2) obtain v1 nl where v1: "\<not> so_fault s1" "grows cs c1" "v \<subseteq>\<^sub>m v1" "so_ok v1 s1" "larger \<notin> dom v"
        "v1 larger = Some nl" "un_size_bits nl = sz + 1" by (auto simp: ut_given_def)
      have "top_slots c1 * 128 \<le> 2 ^ 20" using v1(2) Suc.prems(4) by (simp add: grows_def)
      from split_from_larger [OF v1(4,1) grows_ok [OF v1(2)] this sz(1,2) v1(6,7) split(3,4)] obtain v3 where
        v3: "\<not> so_fault s3" "grows c1 cs'" "v1(larger := None) \<subseteq>\<^sub>m v3" "so_ok v3 s3" "b \<longrightarrow> tb_free_untypeds (so_table s3) ! (sz - 4) \<noteq> 0"
        by (auto simp: split_done_def)
      have g: "grows cs cs'" by (rule grows_trans [OF v1(2) v3(2)])
      have le: "v \<subseteq>\<^sub>m v3" by (rule map_le_trans [OF map_le_drop_new [OF v1(3,5)] v3(3)])
      show ?thesis
      proof (cases b)
        case True
        then obtain tb where "pop_free (sz - 4) (so_table s3) = Some (p, tb)" "s' = s3\<lparr>so_table := tb\<rparr>" using split(5) by auto
        then show ?thesis using given_pop [OF v3(4,1) g le sz(1,4)] v3(5) True by simp
      next
        case False
        then show ?thesis using split(5) given_none [OF sos_stepI [OF v3(1) g le v3(4)]] by simp
      qed
    qed
  qed
qed

end
