(* ===== verification/Ut_Total.thy ===== *)
theory Ut_Total
  imports Ut_System
begin

text \<open>
  Termination with a result: as long as the bootstrapped capability space has free slots in a cnode it already has, no step of the
  allocation of a small object dereferences a null pointer, so it returns. Six slots for every size below a page are enough: three for
  paging structures and one for the frame of new nodes, and two for the halves of the object that is split.
\<close>

section \<open>Slots and mappings\<close>

lemma ready_mono: "ready cs t k \<Longrightarrow> j \<le> k \<Longrightarrow> ready cs t j"
  by (auto simp: ready_def)

lemma slot_total:
  assumes "ready cs t (Suc k)" "\<not> so_fault s"
  shows "\<exists>x cs'. sos_alloc_slot V cs s = Some (x, cs', s) \<and> ready cs' t k"
  using ready_alloc [OF assms(1), of "lift_kernel V" "bootstrap_alloc V cs" s] assms(2) by (auto simp: sos_alloc_slot_def)

lemma so_ok_store: "so_ok v s \<Longrightarrow> v x = Some n \<Longrightarrow> tb_store (so_table s) x = Some n"
  by (auto simp: so_ok_def ut_own_def intro: map_le_app)

lemma map_loop_total:
  assumes "so_ok v s" "\<not> so_fault s" "ready cs t (length is + k)"
  shows "\<exists>err' u' cs' s'. map_loop V (slot_from_cspace (sos_alloc_slot V)) fc vs va r a is err u cs s = Some (err', u', cs', s') \<and> ready cs' t k"
  using assms
proof (induction "is" arbitrary: v err u cs s)
  case Nil then show ?case by simp
next
  case (Cons i "is")
  have k: "ready cs t k" by (rule ready_mono [OF Cons.prems(3)]) simp
  show ?case
  proof (cases "err = seL4_FailedLookup")
    case False then show ?thesis using k by simp
  next
    case True
    obtain n p tb where a: "ut_alloc_4k_untyped (so_table s) = Some (n, p, tb)" using own_4k [OF so_ok_own [OF Cons.prems(1)]] by blast
    let ?s = "s\<lparr>so_table := tb\<rparr>"
    show ?thesis
    proof (cases "n = 0")
      case z: True then show ?thesis using True a k by (simp add: Let_def)
    next
      case nz: False
      then obtain nd where v1: "so_ok (v(n \<mapsto> nd)) ?s" using so_ok_4k [OF Cons.prems(1) a] by auto
      have "ready cs t (Suc (length is + k))" using Cons.prems(3) by simp
      from slot_total [OF this, of ?s V] Cons.prems(2) obtain x c1 where x: "sos_alloc_slot V cs ?s = Some (x, c1, ?s)" "ready c1 t (length is + k)" by auto
      have st: "tb_store tb n = Some nd" using so_ok_store [OF v1, of n nd] by simp
      obtain e1 k1 where m: "map_structure V (k_MappingFailedLookupLevel V (so_k s)) c1 vs va (un_cap nd) x err ?s = (e1, ?s\<lparr>so_k := k1\<rparr>)"
        using map_structure_state [of V "k_MappingFailedLookupLevel V (so_k s)" c1 vs va "un_cap nd" x err ?s]
        by (cases "map_structure V (k_MappingFailedLookupLevel V (so_k s)) c1 vs va (un_cap nd) x err ?s") auto
      obtain e2 k2 where q: "(if e1 = 0 then page_map V fc vs va r a (?s\<lparr>so_k := k1\<rparr>) else (e1, ?s\<lparr>so_k := k1\<rparr>)) = (e2, ?s\<lparr>so_k := k2\<rparr>)"
        using page_map_state [of V fc vs va r a "?s\<lparr>so_k := k1\<rparr>"] by (cases "page_map V fc vs va r a (?s\<lparr>so_k := k1\<rparr>)", cases "e1 = 0") auto
      have ok2: "so_ok (v(n \<mapsto> nd)) (?s\<lparr>so_k := k2\<rparr>)" "\<not> so_fault (?s\<lparr>so_k := k2\<rparr>)" using v1 Cons.prems(2) by simp_all
      obtain err' u' cs' s' where "map_loop V (slot_from_cspace (sos_alloc_slot V)) fc vs va r a is e2 u c1 (?s\<lparr>so_k := k2\<rparr>) = Some (err', u', cs', s')" "ready cs' t k"
        using Cons.IH [OF ok2 x(2)] by blast
      moreover have "slot_from_cspace (sos_alloc_slot V) i u cs ?s = Some (x, u, c1, ?s)" using x(1) by (simp add: slot_from_cspace_def)
      moreover have "ready c1 t k" by (rule ready_mono [OF x(2)]) simp
      ultimately show ?thesis using True a nz st m q by (auto simp: Let_def)
    qed
  qed
qed

lemma bootstrap_map_frame_total:
  assumes "so_ok v s" "\<not> so_fault s" "ready cs t (3 + k)"
  shows "\<exists>p cs' s'. bootstrap_map_frame V c cs s = Some (p, cs', s') \<and> ready cs' t k"
proof -
  obtain e k1 where p: "page_map V c (so_vspace s) (so_next_free_vaddr s) (k_AllRights V) (k_Default_VMAttributes V) s = (e, s\<lparr>so_k := k1\<rparr>)"
    using page_map_state [of V c "so_vspace s" "so_next_free_vaddr s" "k_AllRights V" "k_Default_VMAttributes V" s]
    by (cases "page_map V c (so_vspace s) (so_next_free_vaddr s) (k_AllRights V) (k_Default_VMAttributes V) s") auto
  have "ready cs t (length [0..<MAPPING_SLOTS] + k)" using assms(3) by (simp add: MAPPING_SLOTS_def)
  from map_loop_total [OF _ _ this, of v "s\<lparr>so_k := k1\<rparr>" V c "so_vspace s" "so_next_free_vaddr s" "k_AllRights V" "k_Default_VMAttributes V" e 0] assms(1,2)
  obtain err' u' cs' s' where "map_loop V (slot_from_cspace (sos_alloc_slot V)) c (so_vspace s) (so_next_free_vaddr s) (k_AllRights V)
      (k_Default_VMAttributes V) [0..<MAPPING_SLOTS] e 0 cs (s\<lparr>so_k := k1\<rparr>) = Some (err', u', cs', s')" "ready cs' t k" by auto
  then show ?thesis using p by (simp add: bootstrap_map_frame_def map_frame_def map_frame_impl_def Let_def split_def)
qed

section \<open>Spare nodes\<close>

definition spare :: "'k sos \<Rightarrow> bool" where
  "spare s \<longleftrightarrow> tb_free_structures (so_table s) \<noteq> 0 \<and> (\<exists>n. tb_store (so_table s) (tb_free_structures (so_table s)) = Some n \<and> un_next n \<noteq> 0)"

lemma push_structures_spare:
  assumes "push_structures ps tb = Some tb'" "tb_free_structures tb \<noteq> 0" "0 \<notin> set ps" "ps \<noteq> []"
  shows "tb_free_structures tb' \<noteq> 0 \<and> (\<exists>n. tb_store tb' (tb_free_structures tb') = Some n \<and> un_next n \<noteq> 0)"
  using assms
proof (induction ps arbitrary: tb)
  case (Cons p ps)
  obtain t1 where t1: "push_structure p tb = Some t1" "push_structures ps t1 = Some tb'" using Cons.prems(1) by (auto elim!: bind_SomeE)
  then have "tb_free_structures t1 = p" "\<exists>n. tb_store t1 p = Some n \<and> un_next n = tb_free_structures tb"
    by (auto simp: push_structure_def ut_push_def elim!: c_elims)
  then show ?case using Cons t1(2) by (cases "ps = []") auto
qed simp

lemma push_structures_two:
  assumes "push_structures ps tb = Some tb'" "0 \<notin> set ps" "2 \<le> length ps"
  shows "tb_free_structures tb' \<noteq> 0 \<and> (\<exists>n. tb_store tb' (tb_free_structures tb') = Some n \<and> un_next n \<noteq> 0)"
proof -
  obtain p qs where ps: "ps = p # qs" "qs \<noteq> []" using assms(3) by (cases ps; cases "tl ps") auto
  obtain t1 where "push_structure p tb = Some t1" "push_structures qs t1 = Some tb'" using assms(1) ps(1) by (auto elim!: bind_SomeE)
  moreover from this(1) have "tb_free_structures t1 = p" by (auto simp: push_structure_def ut_push_def elim!: c_elims)
  ultimately show ?thesis using push_structures_spare [of qs t1 tb'] assms(2) ps by simp
qed


lemma pages_pushed:
  assumes ok: "so_ok v s" "\<not> so_fault s" "pool_ok cs" and run: "bootstrap_map_frame V x cs s = Some (p, cs', s')" "p \<noteq> 0"
  shows "\<exists>s3. on_table (push_structures (map (\<lambda>i. p + i * SIZEOF_UT) [0..<PAGE_SIZE_4K div SIZEOF_UT])) (s'\<lparr>so_table := new_nodes p (so_table s')\<rparr>) = Some s3 \<and> spare s3"
proof -
  let ?ps = "map (\<lambda>i. p + i * SIZEOF_UT) [0..<PAGE_SIZE_4K div SIZEOF_UT]"
  obtain v1 where v1: "so_ok v1 s'" "\<forall>a \<in> dom (tb_store (so_table s')). a < p"
    using bootstrap_map_frame_keeps [OF ok run(1)] run(2) by auto
  have ps: "set ?ps = page_nodes p" by (rule page_nodes_list)
  let ?w = "\<lambda>a. if a \<in> page_nodes p then Some zero_ut else v1 a"
  have d: "set ?ps \<subseteq> dom ?w" "distinct ?ps" unfolding ps by (auto simp: distinct_map inj_on_def SIZEOF_UT_def)
  have p0: "0 < p" using run(2) by simp
  obtain tb' where tb: "push_structures ?ps (new_nodes p (so_table s')) = Some tb'"
    using own_push_structures [OF own_new_nodes [OF so_ok_own [OF v1(1)] p0 v1(2)] d] by blast
  have "2 \<le> length ?ps" "0 \<notin> set ?ps" using p0 by (auto simp: PAGE_SIZE_4K_def SIZEOF_UT_def)
  from push_structures_two [OF tb this(2,1)] show ?thesis using tb by (auto simp: on_table_def spare_def)
qed

lemma ensure_new_structures_total:
  assumes ok: "so_ok v s" "\<not> so_fault s" "pool_ok cs" "ready cs t (4 + k)"
  shows "\<exists>b cs' s'. ensure_new_structures V cs s = Some (b, cs', s') \<and> ready cs' t k \<and> (b \<longrightarrow> spare s')"
proof -
  let ?few = "if tb_free_structures (so_table s) = 0 then Some True
             else do { n \<leftarrow> tb_store (so_table s) (tb_free_structures (so_table s)); Some (un_next n = 0) }"
  obtain few where few: "?few = Some few" "\<not> few \<Longrightarrow> spare s"
    using own_pop_structure [OF so_ok_own [OF ok(1)]] by (cases "tb_free_structures (so_table s) = 0") (auto simp: spare_def)
  have rk: "ready cs t k" by (rule ready_mono [OF ok(4)]) simp
  show ?thesis
  proof (cases few)
    case False then show ?thesis using few rk by (auto simp: ensure_new_structures_def)
  next
    case True
    obtain f q tb where a: "ut_alloc_4k_untyped (so_table s) = Some (f, q, tb)" using own_4k [OF so_ok_own [OF ok(1)]] by blast
    let ?s = "s\<lparr>so_table := tb\<rparr>"
    have a4: "ut_alloc_4k s = Some (f, ?s)" using a by (simp add: ut_alloc_4k_def)
    show ?thesis
    proof (cases "f = 0")
      case z: True then show ?thesis using few(1) True a4 rk by (auto simp: ensure_new_structures_def)
    next
      case nz: False
      then obtain nd where v1: "so_ok (v(f \<mapsto> nd)) ?s" using so_ok_4k [OF ok(1) a] by auto
      have "ready cs t (Suc (3 + k))" using ok(4) by simp
      from slot_total [OF this, of ?s V] ok(2) obtain x c1 where x: "sos_alloc_slot V cs ?s = Some (x, c1, ?s)" "ready c1 t (3 + k)" by auto
      note fs = few(1) True a4 nz x(1) so_ok_store [OF v1, of f nd]
      have rk1: "ready c1 t k" by (rule ready_mono [OF x(2)]) simp
      obtain er k1 where r: "cspace_untyped_retype (lift_kernel V) c1 (un_cap nd) x seL4_ARM_SmallPageObject 12 ?s = (er, ?s\<lparr>so_k := k1\<rparr>)"
        using retype_lift [of V c1 "un_cap nd" x seL4_ARM_SmallPageObject 12 ?s]
        by (cases "cspace_untyped_retype (lift_kernel V) c1 (un_cap nd) x seL4_ARM_SmallPageObject 12 ?s") auto
      have ok3: "so_ok (v(f \<mapsto> nd)) (?s\<lparr>so_k := k1\<rparr>)" "\<not> so_fault (?s\<lparr>so_k := k1\<rparr>)" using v1 ok(2) by simp_all
      obtain p c2 s2 where b: "bootstrap_map_frame V x c1 (?s\<lparr>so_k := k1\<rparr>) = Some (p, c2, s2)" "ready c2 t k"
        using bootstrap_map_frame_total [OF ok3 x(2)] by blast
      show ?thesis
      proof (cases "x = 0 \<or> er \<noteq> 0 \<or> p = 0")
        case True then show ?thesis using fs r b rk1 by (auto simp: ensure_new_structures_def seL4_CapNull_def)
      next
        case False
        then have nz': "x \<noteq> seL4_CapNull" "er = 0" "p \<noteq> 0" by (simp_all add: seL4_CapNull_def)
        have "pool_ok c1" using sos_alloc_slot_pool [OF ok(3) x(1)] by (simp add: grows_def)
        from pages_pushed [OF ok3 this b(1) nz'(3)] obtain s3 where
          "on_table (push_structures (map (\<lambda>i. p + i * SIZEOF_UT) [0..<PAGE_SIZE_4K div SIZEOF_UT])) (s2\<lparr>so_table := new_nodes p (so_table s2)\<rparr>) = Some s3" "spare s3" by blast
        then show ?thesis using fs r b nz' by (auto simp: ensure_new_structures_def Let_def)
      qed
    qed
  qed
qed


section \<open>Splitting and allocation\<close>

lemma new_structure_total:
  assumes ok: "so_ok v s" "\<not> so_fault s" "ready cs t (Suc k)" and head: "tb_free_structures (so_table s) \<noteq> 0"
  shows "\<exists>new cap cs' s' n. new_structure V sz cs s = Some (new, cap, cs', s') \<and> ready cs' t k \<and>
    tb_store (so_table s) (tb_free_structures (so_table s)) = Some n \<and> tb_free_structures (so_table s') = un_next n"
proof -
  obtain x tb n where p: "pop_structure (so_table s) = Some (x, tb)" "tb_store tb = tb_store (so_table s)" "tb_store (so_table s) x = Some n"
    "tb_free_structures tb = un_next n" "x = tb_free_structures (so_table s)"
    using own_pop_structure [OF so_ok_own [OF ok(1)] head] by blast
  let ?s = "s\<lparr>so_table := tb\<rparr>"
  obtain c cs' where a: "sos_alloc_slot V cs ?s = Some (c, cs', ?s)" "ready cs' t k" using slot_total [OF ok(3), of ?s V] ok(2) by auto
  have set: "on_table (set_ut x f) (s\<lparr>so_table := tb\<lparr>tb_store := st\<rparr>\<rparr>) = Some (s\<lparr>so_table := tb\<lparr>tb_store := st(x \<mapsto> f m)\<rparr>\<rparr>)" if "st x = Some m" for f m st
    using that by (simp add: on_table_def set_ut_def)
  have set0: "on_table (set_ut x f) ?s = Some (s\<lparr>so_table := tb\<lparr>tb_store := (tb_store tb)(x \<mapsto> f n)\<rparr>\<rparr>)" for f
    using p(2,3) by (simp add: on_table_def set_ut_def)
  have "\<exists>s'. new_structure V sz cs s = Some (x, c mod 2 ^ 20, cs', s') \<and> tb_free_structures (so_table s') = un_next n"
    using p(1,4) a(1) by (cases "c mod 2 ^ 20 = seL4_CapNull") (simp_all add: new_structure_def Let_def set0 set)
  then show ?thesis using p(3,5) a(2) by blast
qed

lemma split_rest_total:
  assumes v1: "owns_new v cs sz new1 cap1 c1 s1 v1" and v2: "owns_new v1 c1 sz new2 cap2 c2 s2 v2" and cap: "cap1 \<noteq> 0" "cap2 \<noteq> 0"
    and c3: "cspace_free_slot cap1 c2 = Some c3" "grows cs c3" "slots c3 = slots c2 - {cap1}"
    and nl: "v larger = Some nl" "4 \<le> un_size_bits nl" "un_size_bits nl \<le> 12" and sz: "4 \<le> sz" "sz < 12" and r: "ready c2 t k"
    and n: "new_structure V sz cs s = Some (new1, cap1, c1, s1)" "new_structure V sz c1 s1 = Some (new2, cap2, c2, s2)"
  shows "\<exists>b cs' s'. split_untyped V sz (sz - 4) larger cs s = Some (b, cs', s') \<and> (b \<longrightarrow> ready cs' t k)"
proof -
  note o = owns_newD [OF v1] and q = owns_newD [OF v2]
  have "cap2 \<in> slots c3" "cap2 \<notin> slots cs" "cap2 < top_slots c3 * 128" using o(2,6) q(2,6) cap c3(2,3) by (auto simp: grows_def)
  from grows_free [OF c3(2) this(1,2) cap(2) this(3)] obtain c4 where c4: "cspace_free_slot cap2 c3 = Some c4" by blast
  have le: "v \<subseteq>\<^sub>m v2" by (rule map_le_trans [OF o(3) q(3)])
  have larger: "v2 larger = Some nl" by (rule map_le_app [OF le nl(1)])
  have ne: "new1 \<noteq> larger" "new2 \<noteq> larger" "new1 \<noteq> new2"
    using o(3,5,6) q(5) nl(1) map_le_app [OF o(3) nl(1)] by (auto simp: map_le_def dom_def)
  obtain m1 m2 where m: "v2 new1 = Some m1" "un_size_bits m1 = sz" "v2 new2 = Some m2" "un_size_bits m2 = sz"
    using o(6) q(6) cap map_le_app [OF q(3)] by blast
  have st: "tb_store (so_table s2) larger = Some nl" by (rule so_ok_store [OF q(4) larger])
  have k: "so_ok v2 (s2\<lparr>so_k := kk\<rparr>)" for kk using q(4) by simp
  obtain e1 k1 where r1: "cspace_untyped_retype (lift_kernel V) c2 (un_cap nl) cap1 seL4_UntypedObject sz s2 = (e1, s2\<lparr>so_k := k1\<rparr>)"
    using retype_lift [of V c2 "un_cap nl" cap1 seL4_UntypedObject sz s2] by (cases "cspace_untyped_retype (lift_kernel V) c2 (un_cap nl) cap1 seL4_UntypedObject sz s2") auto
  obtain e2 k2 where r2: "cspace_untyped_retype (lift_kernel V) c2 (un_cap nl) cap2 seL4_UntypedObject sz (s2\<lparr>so_k := k1\<rparr>) = (e2, s2\<lparr>so_k := k2\<rparr>)"
    by (rule retype_liftE)
  obtain e3 k3 where r3: "cspace_delete (lift_kernel V) c2 cap1 (s2\<lparr>so_k := k2\<rparr>) = (e3, s2\<lparr>so_k := k3\<rparr>)"
    by (rule delete_liftE)
  have push: "\<exists>s3 s4 s5 s6 s7. on_table (push_structure new1) (s2\<lparr>so_k := kk\<rparr>) = Some s3 \<and> on_table (ut_free larger) s3 = Some s4 \<and>
      on_table (push_structure new2) s3 = Some s5 \<and> on_table (ut_free larger) s5 = Some s6" for kk
  proof -
    obtain s3 where s3: "on_table (push_structure new1) (s2\<lparr>so_k := kk\<rparr>) = Some s3" "so_ok (v2(new1 := None)) s3" using so_push_structure [OF k m(1)] by blast
    obtain s5 where s5: "on_table (push_structure new2) s3 = Some s5" "so_ok (v2(new1 := None, new2 := None)) s5"
      using so_push_structure [OF s3(2), of new2 m2] m(3) ne(3) by auto
    show ?thesis using s3 s5 so_free [OF s3(2), of larger nl] so_free [OF s5(2), of larger nl] larger ne nl by auto
  qed
  have pf: "\<exists>s3 s4. on_table (push_free (sz - 4) new1) (s2\<lparr>so_k := kk\<rparr>) = Some s3 \<and> on_table (push_free (sz - 4) new2) s3 = Some s4" for kk
  proof -
    have i: "sz = sz - 4 + 4" "sz - 4 < 9" using sz by simp_all
    obtain s3 where s3: "on_table (push_free (sz - 4) new1) (s2\<lparr>so_k := kk\<rparr>) = Some s3" "so_ok (v2(new1 := None)) s3"
      using so_push_free [OF k m(1), of "sz - 4"] m(2) i by auto
    then show ?thesis using so_push_free [OF s3(2), of new2 m2 "sz - 4"] m(3,4) ne(3) i by auto
  qed
  have nc: "cap1 \<noteq> seL4_CapNull" "cap2 \<noteq> seL4_CapNull" using cap by (simp_all add: seL4_CapNull_def)
  show ?thesis
  proof (cases "e1 = 0")
    case False then show ?thesis using push [of k1] n nc st r1 c3(1) c4 by (auto simp: split_untyped_def)
  next
    case e1: True
    show ?thesis
    proof (cases "e2 = 0")
      case False then show ?thesis using e1 push [of k3] n nc st r1 r2 r3 c3(1) c4 by (auto simp: split_untyped_def)
    next
      case True then show ?thesis using e1 pf [of k2] n nc st r1 r2 r by (auto simp: split_untyped_def)
    qed
  qed
qed

lemma split_untyped_total:
  assumes ok: "so_ok v s" "\<not> so_fault s" "pool_ok cs" "top_slots cs * 128 \<le> 2 ^ 20" "ready cs t (2 + k)" "spare s"
    and sz: "4 \<le> sz" "sz < 12" and nl: "v larger = Some nl" "4 \<le> un_size_bits nl" "un_size_bits nl \<le> 12"
  shows "\<exists>b cs' s'. split_untyped V sz (sz - 4) larger cs s = Some (b, cs', s') \<and> (b \<longrightarrow> ready cs' t k)"
proof -
  have s16: "sz < 16" using sz by simp
  have r: "ready cs t (Suc (Suc k))" using ok(5) by (simp add: numeral_2_eq_2)
  obtain new1 cap1 c1 s1 where n1: "new_structure V sz cs s = Some (new1, cap1, c1, s1)" "ready c1 t (Suc k)" "tb_free_structures (so_table s1) \<noteq> 0"
    using new_structure_total [OF ok(1,2) r, of V sz] ok(6) by (auto simp: spare_def)
  from new_structure_keeps [OF ok(1-4) s16 n1(1)] obtain v1 where v1: "owns_new v cs sz new1 cap1 c1 s1 v1" by blast
  note o = owns_newD [OF v1]
  have t1: "top_slots c1 * 128 \<le> 2 ^ 20" using o(2) ok(4) by (simp add: grows_def)
  obtain new2 cap2 c2 s2 where n2: "new_structure V sz c1 s1 = Some (new2, cap2, c2, s2)" "ready c2 t k"
    using new_structure_total [OF o(4,1) n1(2,3), of V sz] by blast
  from new_structure_keeps [OF o(4,1) grows_ok [OF o(2)] t1 s16 n2(1)] obtain v2 where v2: "owns_new v1 c1 sz new2 cap2 c2 s2 v2" by blast
  note q = owns_newD [OF v2]
  have l1: "v1 larger = Some nl" by (rule map_le_app [OF o(3) nl(1)])
  have l2: "v2 larger = Some nl" by (rule map_le_app [OF q(3) l1])
  obtain u1 where u1: "on_table (ut_free larger) s1 = Some u1" using so_free [OF o(4) l1 nl(2,3)] by blast
  obtain u2 where u2: "on_table (ut_free larger) s2 = Some u2" using so_free [OF q(4) l2 nl(2,3)] by blast
  show ?thesis
  proof (cases "cap1 = 0")
    case True then show ?thesis using n1(1) u1 by (auto simp: split_untyped_def seL4_CapNull_def)
  next
    case c1: False
    have g: "grows cs c2" by (rule grows_trans [OF o(2) q(2)])
    have s1: "cap1 \<in> slots c2" "cap1 \<notin> slots cs" "cap1 < top_slots c2 * 128" using o(6) q(2) c1 by (auto simp: grows_def)
    obtain c3 where c3: "cspace_free_slot cap1 c2 = Some c3" "grows cs c3" "slots c3 = slots c2 - {cap1}" using grows_free [OF g s1(1,2) c1 s1(3)] by blast
    show ?thesis
    proof (cases "cap2 = 0")
      case True then show ?thesis using n1(1) n2(1) c1 c3(1) u2 by (auto simp: split_untyped_def seL4_CapNull_def)
    next
      case c2: False
      show ?thesis using split_rest_total [OF v1 v2 c1 c2 c3(1-3) nl sz n2(2) n1(1) n2(1)] .
    qed
  qed
qed

lemma refine_total:
  assumes g: "ut_given v cs (sz + 1) larger c1 s1" and nz: "larger \<noteq> 0" and top: "top_slots cs * 128 \<le> 2 ^ 20" and r: "ready c1 t (6 + k)"
    and sz: "4 \<le> sz" "sz < 12"
  shows "\<exists>b c3 s3. (do { (e, c2, s2) \<leftarrow> ensure_new_structures V c1 s1;
      if \<not> e then do { s \<leftarrow> on_table (ut_free larger) s2; Some (False, c2, s) } else split_untyped V sz (sz - 4) larger c2 s2 }) = Some (b, c3, s3) \<and>
    (b \<longrightarrow> ready c3 t k \<and> (\<exists>p tb. pop_free (sz - 4) (so_table s3) = Some (p, tb)))"
proof -
  obtain v1 nl where v1: "\<not> so_fault s1" "grows cs c1" "so_ok v1 s1" "v1 larger = Some nl" "un_size_bits nl = sz + 1"
    using g nz by (auto simp: ut_given_def)
  have "ready c1 t (4 + (2 + k))" using r by simp
  from ensure_new_structures_total [OF v1(3,1) grows_ok [OF v1(2)] this] obtain e c2 s2 where
    e: "ensure_new_structures V c1 s1 = Some (e, c2, s2)" "ready c2 t (2 + k)" "e \<longrightarrow> spare s2" by blast
  obtain v2 where v2: "\<not> so_fault s2" "grows c1 c2" "v1 \<subseteq>\<^sub>m v2" "so_ok v2 s2"
    using ensure_new_structures_keeps [OF v1(3,1) grows_ok [OF v1(2)] e(1)] by (auto simp: sos_step_def)
  have l: "v2 larger = Some nl" "4 \<le> un_size_bits nl" "un_size_bits nl \<le> 12" using map_le_app [OF v2(3) v1(4)] v1(5) sz by simp_all
  show ?thesis
  proof (cases e)
    case False then show ?thesis using e(1) so_free [OF v2(4) l] by auto
  next
    case True
    have t2: "top_slots c2 * 128 \<le> 2 ^ 20" using top v1(2) v2(2) by (simp add: grows_def)
    from split_untyped_total [OF v2(4,1) grows_ok [OF v2(2)] t2 e(2) _ sz l] e(3) True obtain b c3 s3 where
      b: "split_untyped V sz (sz - 4) larger c2 s2 = Some (b, c3, s3)" "b \<longrightarrow> ready c3 t k" by blast
    from split_untyped_keeps [OF v2(4,1) grows_ok [OF v2(2)] t2 sz l b(1)] obtain v3 where
      v3: "so_ok v3 s3" "b \<longrightarrow> tb_free_untypeds (so_table s3) ! (sz - 4) \<noteq> 0" by (auto simp: split_done_def)
    have "sz - 4 < 9" using sz by simp
    from own_pop_free [OF so_ok_own [OF v3(1)] this] v3(2) have "b \<longrightarrow> (\<exists>p tb. pop_free (sz - 4) (so_table s3) = Some (p, tb))" by blast
    then show ?thesis using e(1) True b by auto
  qed
qed

lemma ut_alloc_total:
  assumes "so_ok v s" "\<not> so_fault s" "pool_ok cs" "top_slots cs * 128 \<le> 2 ^ 20" "ready cs t (6 * (12 - sz) + k)"
  shows "\<exists>p cs' s'. ut_alloc V sz cs s = Some (p, cs', s') \<and> (p \<noteq> 0 \<longrightarrow> ready cs' t k)"
  using assms
proof (induction "12 - sz" arbitrary: sz k)
  case 0
  obtain n q tb where "ut_alloc_4k_untyped (so_table s) = Some (n, q, tb)" using own_4k [OF so_ok_own [OF 0(2)]] by blast
  then show ?case using 0 by (auto simp: ut_alloc_4k_def)
next
  case (Suc d)
  have rk: "ready cs t k" by (rule ready_mono [OF Suc.prems(5)]) simp
  show ?case
  proof (cases "sz < 4")
    case True then show ?thesis using rk by simp
  next
    case False
    then have sz: "4 \<le> sz" "sz < 12" "d = 12 - (sz + 1)" using Suc.hyps(2) by simp_all
    have i: "SIZE_BITS_TO_INDEX sz = Some (sz - 4)" "\<not> 12 < sz" "\<not> sz < 4" "sz \<noteq> 12" "sz - 4 < 9" using sz(1,2) by (auto simp: SIZE_BITS_TO_INDEX_def)
    have "length (tb_free_untypeds (so_table s)) = 9" using so_ok_own [OF Suc.prems(1)] by (auto simp: ut_own_def lists_ok_def)
    then have h: "arr_get (tb_free_untypeds (so_table s)) (sz - 4) = Some (tb_free_untypeds (so_table s) ! (sz - 4))" using i(5) by (simp add: arr_get_def)
    show ?thesis
    proof (cases "tb_free_untypeds (so_table s) ! (sz - 4) = 0")
      case False
      then show ?thesis using own_pop_free [OF so_ok_own [OF Suc.prems(1)] i(5) False] i h rk by (subst ut_alloc.simps) auto
    next
      case True
      have "6 * (12 - sz) + k = 6 * (12 - (sz + 1)) + (6 + k)" using sz(2) by simp
      then have "ready cs t (6 * (12 - (sz + 1)) + (6 + k))" using Suc.prems(5) by metis
      then obtain larger c1 s1 where l: "ut_alloc V (sz + 1) cs s = Some (larger, c1, s1)" "larger \<noteq> 0 \<longrightarrow> ready c1 t (6 + k)"
        using Suc.hyps(1) [OF sz(3) Suc.prems(1-4)] by blast
      show ?thesis
      proof (cases "larger = 0")
        case z: True then show ?thesis using i h l True by (subst ut_alloc.simps) (simp del: ut_alloc.simps)
      next
        case nz: False
        from ut_alloc_keeps [OF Suc.prems(1-4) l(1)] have "ut_given v cs (sz + 1) larger c1 s1" .
        from refine_total [OF this nz Suc.prems(4) _ sz(1,2), of t k] l(2) nz
        obtain b c3 s3 where b: "(do { (e, c2, s2) \<leftarrow> ensure_new_structures V c1 s1;
            if \<not> e then do { s \<leftarrow> on_table (ut_free larger) s2; Some (False, c2, s) } else split_untyped V sz (sz - 4) larger c2 s2 }) = Some (b, c3, s3)"
          "b \<longrightarrow> ready c3 t k \<and> (\<exists>p tb. pop_free (sz - 4) (so_table s3) = Some (p, tb))" by blast
        show ?thesis using i h l True nz b by (subst ut_alloc.simps) (auto simp: Let_def simp del: ut_alloc.simps)
      qed
    qed
  qed
qed

end
