(* ===== verification/Ut_Spec.thy ===== *)
theory Ut_Spec
  imports Ut_Total
begin

text \<open>The properties of the untyped table, and of the table with the capability space that it feeds.\<close>

declare ut_alloc.simps [simp del]

section \<open>Filling the table\<close>

definition page_node :: "nat \<Rightarrow> ut_region_t \<Rightarrow> nat \<Rightarrow> nat \<Rightarrow> nat" where
  "page_node memory region paddr i = memory + ((paddr - rg_start region) div PAGE_SIZE_4K + i) * SIZEOF_UT"

definition page_lists :: "nat list \<Rightarrow> nat list list" where
  "page_lists xs = replicate 8 [] @ [xs]"

lemma page_lists [simp]: "length (page_lists xs) = 9" "page_lists xs ! 8 = xs" "concat (page_lists xs) = xs" "(page_lists xs)[8 := ys] = page_lists ys"
  by (simp_all add: page_lists_def nth_append list_update_append eval_nat_numeral)

lemma page_lists_nth: "i < 8 \<Longrightarrow> page_lists xs ! i = []"
  by (simp add: page_lists_def nth_append)

definition filled :: "nat \<Rightarrow> ut_region_t \<Rightarrow> nat \<Rightarrow> nat \<Rightarrow> ut_table_t \<Rightarrow> bool" where
  "filled memory region paddr k tb \<longleftrightarrow> lists_ok tb (page_lists (rev (map (page_node memory region paddr) [0..<k]))) [] \<and>
     tb_first_paddr tb = rg_start region \<and> tb_untypeds tb = memory \<and> dom (tb_store tb) = dom (tb_store (ut_init memory region)) \<and>
     tb_n_4k_untyped tb = of_nat k"

lemma init_filled: "filled memory region paddr 0 (ut_init memory region)"
proof -
  have "page_lists [] ! i = []" if "i < 9" for i using that page_lists_nth [of i "[]"] page_lists(2) [of "[]"] by (cases "i = 8") (simp_all add: less_Suc_eq eval_nat_numeral)
  then show ?thesis by (simp add: filled_def lists_ok_def ut_init_def)
qed

lemma paddr_node:
  assumes "tb_first_paddr tb = rg_start region" "tb_untypeds tb = memory" "rg_start region \<le> paddr" "PAGE_SIZE_4K dvd paddr - rg_start region"
  shows "paddr_to_ut tb (paddr + i * PAGE_SIZE_4K) = Some (page_node memory region paddr i)"
    "ut_to_paddr tb (page_node memory region paddr i) = paddr + i * PAGE_SIZE_4K"
proof -
  obtain q where q: "paddr = rg_start region + PAGE_SIZE_4K * q" using assms(3,4) by (metis dvdE le_add_diff_inverse)
  show "paddr_to_ut tb (paddr + i * PAGE_SIZE_4K) = Some (page_node memory region paddr i)"
    "ut_to_paddr tb (page_node memory region paddr i) = paddr + i * PAGE_SIZE_4K"
    using assms(1,2) q by (simp_all add: paddr_to_ut_def ut_to_paddr_def page_node_def PAGE_SIZE_4K_def SIZEOF_UT_def algebra_simps div_mult_self1)
qed

lemma node_mapped:
  assumes "rg_start region \<le> paddr" "paddr + Suc i * PAGE_SIZE_4K \<le> rg_end region"
  shows "page_node memory region paddr i \<in> dom (tb_store (ut_init memory region))"
proof -
  have "(paddr - rg_start region) div PAGE_SIZE_4K + Suc i = (paddr - rg_start region + Suc i * PAGE_SIZE_4K) div PAGE_SIZE_4K" by (simp add: PAGE_SIZE_4K_def)
  also have "\<dots> \<le> (rg_end region - rg_start region) div PAGE_SIZE_4K" using assms by (intro div_le_mono) simp
  finally have "(paddr - rg_start region) div PAGE_SIZE_4K + i < (rg_end region - rg_start region) div PAGE_SIZE_4K" by simp
  then show ?thesis by (simp add: ut_init_def page_node_def SIZEOF_UT_def dom_def)
qed

lemma fill_step:
  assumes f: "filled memory region paddr k tb" and r: "0 < memory" "rg_start region \<le> paddr" "PAGE_SIZE_4K dvd paddr - rg_start region"
      "paddr + Suc k * PAGE_SIZE_4K \<le> rg_end region"
  shows "\<exists>tb'. filled memory region paddr (Suc k) tb' \<and> ut_add_loop 8 paddr cap False (k # is) tb = ut_add_loop 8 paddr (cap + 1) False is tb'"
proof -
  let ?x = "page_node memory region paddr k"
  let ?L = "rev (map (page_node memory region paddr) [0..<k])"
  have ok: "lists_ok tb (page_lists ?L) []" and t: "tb_first_paddr tb = rg_start region" "tb_untypeds tb = memory"
    using f by (simp_all add: filled_def)
  have "?x \<in> dom (tb_store tb)" using f node_mapped [OF r(2,4)] by (simp add: filled_def)
  then obtain n where n: "tb_store tb ?x = Some n" by blast
  let ?n = "n\<lparr>un_cap := cap mod 2 ^ 20, un_valid := True, un_size_bits := 12\<rparr>"
  let ?t = "tb\<lparr>tb_store := (tb_store tb)(?x \<mapsto> ?n)\<rparr>"
  have x: "?x \<notin> set ([] @ concat (page_lists ?L))" "?x \<noteq> 0" using r(1) by (auto simp: page_node_def SIZEOF_UT_def)
  have ok': "lists_ok ?t (page_lists ?L) []"
  proof -
    have "?x \<notin> set (page_lists ?L ! i)" if "i < 9" for i using x(1) in_concat [of i "page_lists ?L" ?x] that by auto
    then show ?thesis using ok by (simp add: lists_ok_def chain_upd)
  qed
  obtain n' where p: "push_free 8 ?x ?t = Some (?t\<lparr>tb_store := (tb_store ?t)(?x \<mapsto> n'), tb_free_untypeds := (tb_free_untypeds ?t)[8 := ?x]\<rparr>)"
    "lists_ok (?t\<lparr>tb_store := (tb_store ?t)(?x \<mapsto> n'), tb_free_untypeds := (tb_free_untypeds ?t)[8 := ?x]\<rparr>) ((page_lists ?L)[8 := ?x # page_lists ?L ! 8]) []"
    using push_free_ok [OF ok' _ x, of 8 ?n] by auto
  let ?t' = "?t\<lparr>tb_store := (tb_store ?t)(?x \<mapsto> n'), tb_free_untypeds := (tb_free_untypeds ?t)[8 := ?x], tb_n_4k_untyped := tb_n_4k_untyped tb + 1\<rparr>"
  have "filled memory region paddr (Suc k) ?t'"
    using p(2) f \<open>?x \<in> dom (tb_store tb)\<close> by (auto simp: filled_def lists_ok_def)
  moreover have "ut_add_loop 8 paddr cap False (k # is) tb = ut_add_loop 8 paddr (cap + 1) False is ?t'"
    using paddr_node(1) [OF t r(2,3)] n p(1) by (simp add: set_ut_def)
  ultimately show ?thesis by blast
qed

lemma fill_range:
  assumes f: "filled memory region paddr k tb" and r: "0 < memory" "rg_start region \<le> paddr" "PAGE_SIZE_4K dvd paddr - rg_start region"
      "paddr + (k + m) * PAGE_SIZE_4K \<le> rg_end region"
  shows "\<exists>tb'. ut_add_loop 8 paddr cap False [k..<k + m] tb = Some tb' \<and> filled memory region paddr (k + m) tb'"
  using f r(4)
proof (induction m arbitrary: k tb cap)
  case (Suc m)
  have u: "[k..<k + Suc m] = k # [Suc k..<Suc k + m]" by (simp add: upt_conv_Cons)
  have "paddr + Suc k * PAGE_SIZE_4K \<le> rg_end region" using Suc.prems(2) by (simp add: PAGE_SIZE_4K_def)
  from fill_step [OF Suc.prems(1) r(1-3) this] obtain t1 where t1: "filled memory region paddr (Suc k) t1"
    "ut_add_loop 8 paddr cap False (k # [Suc k..<Suc k + m]) tb = ut_add_loop 8 paddr (cap + 1) False [Suc k..<Suc k + m] t1" by blast
  show ?case using Suc.IH [OF t1(1), of "cap + 1"] Suc.prems(2) t1(2) unfolding u by simp
qed simp


lemma init_store_0: "0 < memory \<Longrightarrow> tb_store (ut_init memory region) 0 = None"
  by (simp add: ut_init_def)

lemma filled_own:
  assumes "filled memory region paddr k tb" "0 < memory"
  shows "ut_own Map.empty tb"
proof -
  have "0 \<notin> dom (tb_store tb)" using assms init_store_0 [OF assms(2), of region] by (simp add: filled_def domIff)
  then have "tb_store tb 0 = None" by (simp add: domIff)
  then show ?thesis using assms(1) by (auto simp: filled_def ut_own_def)
qed

lemma range_filled:
  assumes "0 < memory" "rg_start region \<le> paddr" "PAGE_SIZE_4K dvd paddr - rg_start region" "paddr + n * PAGE_SIZE_4K \<le> rg_end region"
  shows "\<exists>tb. ut_add_untyped_range paddr cap n False (ut_init memory region) = Some tb \<and> filled memory region paddr n tb"
  using fill_range [OF init_filled assms(1-3), of n cap] assms(4) by (simp add: ut_add_untyped_range_def)

section \<open>An example system\<close>

definition ex_vkernel :: "nat vkernel" where
  "ex_vkernel = \<lparr>k_Untyped_Retype = \<lambda>_ _ _ _ _ _ _ _ e. (0, e), k_CNode_Delete = \<lambda>_ _ _ e. (0, e), k_CNode_Revoke = \<lambda>_ _ _ e. (0, e),
     k_CNode_Copy = \<lambda>_ _ _ _ _ _ _ e. (0, e), k_CNode_Mint = \<lambda>_ _ _ _ _ _ _ _ e. (0, e), k_CNode_Move = \<lambda>_ _ _ _ _ _ e. (0, e),
     k_CNode_Mutate = \<lambda>_ _ _ _ _ _ _ e. (0, e), k_IRQControl_GetTrigger = \<lambda>_ _ _ _ _ _ e. (0, e), k_AllRights = 15,
     k_CNode_CapData_new = \<lambda>g n. 64 * g + n, k_ARM_Page_Map = \<lambda>_ _ _ _ _ e. (0, e), k_ARM_PageTable_Map = \<lambda>_ _ _ _ e. (0, e),
     k_ARM_PageDirectory_Map = \<lambda>_ _ _ _ e. (0, e), k_ARM_PageUpperDirectory_Map = \<lambda>_ _ _ _ e. (0, e),
     k_MappingFailedLookupLevel = \<lambda>_. SEL4_MAPPING_LOOKUP_NO_PT, k_Default_VMAttributes = 3\<rparr>"

definition ex_region :: ut_region_t where "ex_region = \<lparr>rg_start = 4096, rg_end = 65536\<rparr>"

definition ex_table :: ut_table_t where
  "ex_table = the (ut_add_untyped_range 4096 64 3 False (ut_init 8192 ex_region))"

definition ex_sos :: "nat sos" where
  "ex_sos = \<lparr>so_table = ex_table, so_next_free_vaddr = 65536, so_vspace = 3, so_device_virt = SOS_DEVICE_START, so_fault = False, so_k = 0\<rparr>"

lemma ex_filled: "ut_add_untyped_range 4096 64 3 False (ut_init 8192 ex_region) = Some ex_table" "filled 8192 ex_region 4096 3 ex_table"
proof -
  have "\<exists>tb. ut_add_untyped_range 4096 64 3 False (ut_init 8192 ex_region) = Some tb \<and> filled 8192 ex_region 4096 3 tb"
    by (rule range_filled) (simp_all add: ex_region_def PAGE_SIZE_4K_def)
  then show "ut_add_untyped_range 4096 64 3 False (ut_init 8192 ex_region) = Some ex_table" "filled 8192 ex_region 4096 3 ex_table"
    by (auto simp: ex_table_def)
qed

lemma ex_sos_ok: "so_ok Map.empty ex_sos" "\<not> so_fault ex_sos"
proof -
  have "a < 65536" if "tb_store ex_table a \<noteq> None" for a
  proof -
    have "a \<in> dom (tb_store (ut_init 8192 ex_region))" using ex_filled(2) that unfolding filled_def by (metis domIff)
    then have "8192 \<le> a" "(a - 8192) div 16 < 15" by (auto simp: ut_init_def ex_region_def PAGE_SIZE_4K_def SIZEOF_UT_def dom_def split: if_splits)
    then show ?thesis by linarith
  qed
  then show "so_ok Map.empty ex_sos" "\<not> so_fault ex_sos" using filled_own [OF ex_filled(2)] by (auto simp: so_ok_def ex_sos_def)
qed

lemma ex_ready: "ready ex_space 0 48" "pool_ok ex_space" "top_slots ex_space * 128 \<le> 2 ^ 20"
  using ex_space_ok by (simp_all add: ready_def ex_at ex_bits)

section \<open>Properties\<close>

text \<open>C18. Giving the empty table a range of \<open>n\<close> pages inside its region succeeds and leaves a consistent table in which nothing
  is owned by a client: the list of 4K objects has exactly one node for each page, the last page first, the other lists are empty, the size
  counts the pages, and the next 4K object handed out is the last page, with its physical address.\<close>

theorem ut_init_range:
  assumes "0 < memory" "rg_start region \<le> paddr" "PAGE_SIZE_4K dvd paddr - rg_start region" "paddr + n * PAGE_SIZE_4K \<le> rg_end region" "0 < n"
  shows "\<exists>tb tb'. ut_add_untyped_range paddr cap n False (ut_init memory region) = Some tb \<and> ut_own Map.empty tb \<and>
    lists_ok tb (page_lists (rev (map (page_node memory region paddr) [0..<n]))) [] \<and> ut_size tb = of_nat (n * PAGE_SIZE_4K) \<and>
    ut_alloc_4k_untyped tb = Some (page_node memory region paddr (n - 1), paddr + (n - 1) * PAGE_SIZE_4K, tb')"
proof -
  obtain tb where t: "ut_add_untyped_range paddr cap n False (ut_init memory region) = Some tb" "filled memory region paddr n tb"
    using range_filled [OF assms(1-4)] by blast
  then have ok: "lists_ok tb (page_lists (rev (map (page_node memory region paddr) [0..<n]))) []" and f: "tb_first_paddr tb = rg_start region" "tb_untypeds tb = memory"
    "tb_n_4k_untyped tb = of_nat n" by (simp_all add: filled_def)
  obtain m where m: "n = Suc m" using assms(5) by (cases n) auto
  then have "page_lists (rev (map (page_node memory region paddr) [0..<n])) ! 8 = page_node memory region paddr m # rev (map (page_node memory region paddr) [0..<m])" by simp
  from pop_free_ok [OF ok _ this] lists_okD(2,3) [OF ok] obtain h where
    h: "pop_free 8 tb = Some (page_node memory region paddr m, tb\<lparr>tb_free_untypeds := (tb_free_untypeds tb)[8 := h]\<rparr>)" by auto
  have "tb_free_untypeds tb ! 8 = page_node memory region paddr m" using lists_okD(3) [OF ok, of 8] m by simp
  then have "arr_get (tb_free_untypeds tb) 8 = Some (page_node memory region paddr m)" "page_node memory region paddr m \<noteq> 0"
    using lists_okD(2) [OF ok] assms(1) by (simp_all add: arr_get_def page_node_def)
  then have "\<exists>tb'. ut_alloc_4k_untyped tb = Some (page_node memory region paddr m, paddr + m * PAGE_SIZE_4K, tb')"
    using h paddr_node(2) [of "tb\<lparr>tb_free_untypeds := (tb_free_untypeds tb)[8 := h], tb_n_4k_untyped := tb_n_4k_untyped tb - 1\<rparr>" region memory paddr m] f(1,2) assms(2,3)
    by (simp add: ut_alloc_4k_untyped_def Let_def)
  then show ?thesis using t ok filled_own [OF t(2) assms(1)] f(3) m by (auto simp: ut_size_def distrib_right)
qed

lemma ut_init_range_witness:
  "\<exists>tb tb'. ut_add_untyped_range 4096 64 3 False (ut_init 8192 ex_region) = Some tb \<and> ut_alloc_4k_untyped tb = Some (8224, 12288, tb')"
proof -
  have "rg_start ex_region \<le> 4096" "PAGE_SIZE_4K dvd 4096 - rg_start ex_region" "4096 + 3 * PAGE_SIZE_4K \<le> rg_end ex_region"
    by (simp_all add: ex_region_def PAGE_SIZE_4K_def)
  from ut_init_range [OF _ this, of 8192 64] have "\<exists>tb tb'. ut_add_untyped_range 4096 64 3 False (ut_init 8192 ex_region) = Some tb \<and>
    ut_alloc_4k_untyped tb = Some (page_node 8192 ex_region 4096 2, 4096 + 2 * PAGE_SIZE_4K, tb')" by auto
  then show ?thesis by (simp add: ex_region_def PAGE_SIZE_4K_def page_node_def SIZEOF_UT_def)
qed

text \<open>C16. When the capability space has slots left in a cnode that exists, six for every size below a page, allocating an untyped object
  of any size returns, whatever the kernel answers: no null pointer is dereferenced. Nothing a client owns is changed, the table and the
  capability space are consistent afterwards, and a node that is handed out belonged to no client before and has the size asked for.\<close>

theorem ut_alloc_returns:
  assumes "so_ok v s" "\<not> so_fault s" "cs_inv cs" "0 \<in> slots cs" "top_slots cs * 128 \<le> 2 ^ 20" "ready cs t (6 * (seL4_PageBits - size_bits))"
  shows "\<exists>ut cs' s'. ut_alloc V size_bits cs s = Some (ut, cs', s') \<and> \<not> so_fault s' \<and> cs_inv cs' \<and> slots cs \<subseteq> slots cs' \<and>
    (\<exists>v'. v \<subseteq>\<^sub>m v' \<and> so_ok v' s' \<and> (ut \<noteq> 0 \<longrightarrow> ut \<notin> dom v \<and> (\<exists>n. v' ut = Some n \<and> un_size_bits n = size_bits)))"
proof -
  have p: "pool_ok cs" using assms(3,4) by simp
  obtain ut cs' s' where a: "ut_alloc V size_bits cs s = Some (ut, cs', s')" using ut_alloc_total [OF assms(1,2) p assms(5), of t size_bits 0 V] assms(6) by auto
  from ut_alloc_keeps [OF assms(1,2) p assms(5) a] show ?thesis using a unfolding ut_given_def grows_def by blast
qed

lemma ut_alloc_returns_witness:
  "\<exists>ut cs' s'. ut_alloc ex_vkernel 4 ex_space ex_sos = Some (ut, cs', s') \<and> cs_inv cs'"
proof -
  have "ready ex_space 0 (6 * (seL4_PageBits - 4))" using ex_ready(1) by simp
  from ut_alloc_returns [OF ex_sos_ok ex_space_ok(1) conjunct2 [OF ex_ready(2)] ex_ready(3) this, of ex_vkernel] show ?thesis by blast
qed



text \<open>C19. Freeing a 4K object that was just allocated gives back the table as it was, except for the count of 4K objects, which every
  allocation decreases and no free increases: the size reported shrinks with every use of the allocator.\<close>

theorem ut_4k_round_trip:
  assumes "ut_own v tb" "tb_free_untypeds tb ! 8 \<noteq> 0"
  shows "\<exists>ut paddr tb1 tb2. ut_alloc_4k_untyped tb = Some (ut, paddr, tb1) \<and> ut \<noteq> 0 \<and> ut_free ut tb1 = Some tb2 \<and>
    tb2 = tb\<lparr>tb_n_4k_untyped := tb_n_4k_untyped tb - 1\<rparr> \<and> ut_size tb2 = ut_size tb - of_nat PAGE_SIZE_4K"
proof -
  obtain F S where o: "lists_ok tb F S" by (rule ut_ownE [OF assms(1)])
  note D = lists_okD [OF o]
  obtain x xs n where c: "F ! 8 = x # xs" "tb_free_untypeds tb ! 8 = x" "tb_store tb x = Some n" using D(3) [of 8] assms(2) by (cases "F ! 8") auto
  then have "un_size_bits n = 12" using D(6) [of 8 x n] by simp
  moreover have "(tb_free_untypeds tb)[8 := x] = tb_free_untypeds tb" using c(2) list_update_id by metis
  moreover have "(tb_store tb)(x \<mapsto> n) = tb_store tb" using c(3) by auto
  ultimately show ?thesis using c D(2) assms(2)
    by (simp add: ut_alloc_4k_untyped_def ut_free_def pop_free_def push_free_def ut_pop_def ut_push_def arr_get_def arr_set_def Let_def ut_size_def algebra_simps)
qed

lemma ut_4k_round_trip_witness:
  "\<exists>ut paddr tb1 tb2. ut_alloc_4k_untyped ex_table = Some (ut, paddr, tb1) \<and> ut_free ut tb1 = Some tb2 \<and> ut_size tb2 = ut_size ex_table - 4096"
proof -
  have "tb_free_untypeds ex_table ! 8 \<noteq> 0" using lists_okD(3) [of ex_table "page_lists (rev (map (page_node 8192 ex_region 4096) [0..<3]))" "[]" 8] ex_filled(2)
    by (auto simp: filled_def upt_rec)
  from ut_4k_round_trip [OF filled_own [OF ex_filled(2)] this] show ?thesis by (auto simp: PAGE_SIZE_4K_def)
qed

end
