(* ===== verification/Dma.thy ===== *)
theory Dma
  imports Ut_Total
begin

text \<open>
  The rounding macros of \<^verbatim>\<open>utils/arith.h\<close> and the allocator of DMA memory, \<^verbatim>\<open>sos/src/dma.c\<close>: a large page that is handed
  out from the front and never taken back. Addresses are words, so that the test for the end of the page is the one of the code, with
  its wrap-around.
\<close>

section \<open>Rounding\<close>

text \<open>Rounding to a multiple of zero divides by zero.\<close>

definition ROUND_UP :: "'a :: {plus, minus, modulo, zero} \<Rightarrow> 'a \<Rightarrow> 'a option" where
  "ROUND_UP n b = (if b = 0 then None else Some (n + (if n mod b = 0 then 0 else b - n mod b)))"

definition ALIGN_UP :: "u64 \<Rightarrow> u64 \<Rightarrow> u64" where
  "ALIGN_UP x n = (x + n - 1) AND NOT (n - 1)"

section \<open>State and operations\<close>

record dma_t =
  dm_vstart :: u64
  dm_pstart :: u64
  dm_pnext :: u64
  dm_pend :: u64
  dm_vspace :: nat

record dma_addr_t =
  da_vaddr :: u64
  da_paddr :: u64

text \<open>The cache invocations of the kernel take the address space and the range.\<close>

record 'k cache_kernel =
  k_VSpace_Invalidate_Data :: "nat \<Rightarrow> u64 \<Rightarrow> u64 \<Rightarrow> 'k \<Rightarrow> nat \<times> 'k"
  k_VSpace_Clean_Data :: "nat \<Rightarrow> u64 \<Rightarrow> u64 \<Rightarrow> 'k \<Rightarrow> nat \<times> 'k"
  k_VSpace_CleanInvalidate_Data :: "nat \<Rightarrow> u64 \<Rightarrow> u64 \<Rightarrow> 'k \<Rightarrow> nat \<times> 'k"

definition seL4_LargePageBits :: nat where "seL4_LargePageBits = 21"
definition DMA_ALIGN_BITS :: nat where "DMA_ALIGN_BITS = 7"

definition DMA_ALIGN :: "u64 \<Rightarrow> u64 option" where
  "DMA_ALIGN a = ROUND_UP a (of_nat DMA_ALIGN_BITS)"

definition sos_dma_phys_to_virt :: "dma_t \<Rightarrow> u64 \<Rightarrow> u64" where
  "sos_dma_phys_to_virt d phys = dm_vstart d + (phys - dm_pstart d)"

definition sos_dma_virt_to_phys :: "dma_t \<Rightarrow> u64 \<Rightarrow> u64" where
  "sos_dma_virt_to_phys d vaddr = dm_pstart d + (vaddr - dm_vstart d)"

text \<open>The large page is mapped without a capability space: a slot that the mapping asks for is a null pointer dereferenced.\<close>

definition no_slots :: "'e next_slot" where
  "no_slots i used cs s = None"

definition dma_init :: "'k vkernel \<Rightarrow> cspace \<Rightarrow> nat \<Rightarrow> nat \<Rightarrow> u64 \<Rightarrow> u64 \<Rightarrow> dma_t \<Rightarrow> 'k sos \<Rightarrow> (int \<times> dma_t \<times> 'k sos) option" where
  "dma_init V cs vspace ut pstart vstart d s =
     (if ut = seL4_CapNull \<or> vspace = seL4_CapNull \<or> pstart = 0 then Some (-1, d, s)
      else do {
        let d = d\<lparr>dm_pstart := pstart, dm_vstart := vstart, dm_pend := pstart + 2 ^ seL4_LargePageBits, dm_pnext := pstart, dm_vspace := vspace\<rparr>;
        let vaddr = sos_dma_phys_to_virt d (dm_pstart d);
        (err, _, _, s) \<leftarrow> map_frame_impl V no_slots ut (dm_vspace d) (unat vaddr) (k_AllRights V) (k_Default_VMAttributes V) 0 cs s;
        Some (err, d, s) })"

definition sos_dma_cache_invalidate :: "'k cache_kernel \<Rightarrow> u64 \<Rightarrow> u64 \<Rightarrow> dma_t \<Rightarrow> 'k \<Rightarrow> nat \<times> 'k" where
  "sos_dma_cache_invalidate K addr sz d k = k_VSpace_Invalidate_Data K (dm_vspace d) addr (addr + sz) k"

definition sos_dma_cache_clean :: "'k cache_kernel \<Rightarrow> u64 \<Rightarrow> u64 \<Rightarrow> dma_t \<Rightarrow> 'k \<Rightarrow> nat \<times> 'k" where
  "sos_dma_cache_clean K addr sz d k = k_VSpace_Clean_Data K (dm_vspace d) addr (addr + sz) k"

definition sos_dma_cache_clean_invalidate :: "'k cache_kernel \<Rightarrow> u64 \<Rightarrow> u64 \<Rightarrow> dma_t \<Rightarrow> 'k \<Rightarrow> nat \<times> 'k" where
  "sos_dma_cache_clean_invalidate K addr sz d k = k_VSpace_CleanInvalidate_Data K (dm_vspace d) addr (addr + sz) k"

text \<open>The alignment is an \<^verbatim>\<open>int\<close>, which the remainder converts to the unsigned type of the address.\<close>

definition sos_dma_malloc :: "'k cache_kernel \<Rightarrow> u64 \<Rightarrow> int \<Rightarrow> dma_t \<Rightarrow> 'k \<Rightarrow> (dma_addr_t \<times> dma_t \<times> 'k) option" where
  "sos_dma_malloc K sz align d k = do {
     pnext \<leftarrow> DMA_ALIGN (dm_pnext d);
     pnext \<leftarrow> ROUND_UP pnext (word_of_int align);
     let d = d\<lparr>dm_pnext := pnext\<rparr>;
     if pnext + sz \<ge> dm_pend d then Some (\<lparr>da_vaddr = 0, da_paddr = 0\<rparr>, d, k)
     else do {
       let addr = \<lparr>da_vaddr = sos_dma_phys_to_virt d pnext, da_paddr = pnext\<rparr>;
       let d = d\<lparr>dm_pnext := pnext + sz\<rparr>;
       let (_, k) = sos_dma_cache_clean_invalidate K (da_vaddr addr) sz d k;
       Some (addr, d, k) } }"

section \<open>Rounding on words\<close>

lemma round_up_word:
  fixes n b :: u64
  assumes "b \<noteq> 0" "unat n + unat b < 2 ^ 64"
  obtains m where "ROUND_UP n b = Some m" "n \<le> m" "unat m < unat n + unat b" "b udvd m"
proof -
  let ?r = "unat n mod unat b"
  have b: "0 < unat b" using assms(1) by (simp add: unat_gt_0)
  have r: "?r < unat b" using b by simp
  have um: "unat (n mod b) = ?r" by (simp add: unat_mod)
  show thesis
  proof (cases "n mod b = 0")
    case True
    then have "unat b dvd unat n" using um by (metis unat_0 dvd_eq_mod_eq_0)
    then show thesis using that [of n] True assms b by (simp add: ROUND_UP_def udvd_iff_dvd)
  next
    case False
    let ?m = "n + (b - n mod b)"
    have nz: "?r \<noteq> 0" using False um by (metis unat_eq_zero)
    have "n mod b \<le> b" using um r by (simp add: word_le_nat_alt)
    then have sub: "unat (b - n mod b) = unat b - ?r" by (simp add: unat_sub um)
    have "unat n + unat (b - n mod b) < 2 ^ 64" using assms(2) sub by linarith
    then have add: "unat ?m = unat n + (unat b - ?r)" using sub by (simp add: unat_word_ariths)
    have "unat n + (unat b - ?r) = unat b * (unat n div unat b + 1)"
      using mult_div_mod_eq [of "unat b" "unat n"] r unfolding distrib_left mult_1_right by linarith
    then have "unat b dvd unat ?m" using add by simp
    then show thesis using that [of ?m] False assms(1) add nz r by (simp add: ROUND_UP_def udvd_iff_dvd word_le_nat_alt)
  qed
qed

section \<open>Allocation\<close>

lemma dma_malloc_total:
  assumes align: "0 < align" "align < 2 ^ 31" and room: "unat (dm_pnext d) < 2 ^ 62" and sz: "unat sz < 2 ^ 62"
  shows "\<exists>a d' k'. sos_dma_malloc K sz align d k = Some (a, d', k') \<and> dm_pend d' = dm_pend d \<and> dm_pstart d' = dm_pstart d \<and> dm_vstart d' = dm_vstart d \<and>
    (a = \<lparr>da_vaddr = 0, da_paddr = 0\<rparr> \<and> dm_pnext d \<le> dm_pnext d' \<or>
     dm_pnext d \<le> da_paddr a \<and> unat (dm_pnext d') = unat (da_paddr a) + unat sz \<and> dm_pnext d' < dm_pend d \<and>
     int (unat (da_paddr a)) mod align = 0 \<and> sos_dma_virt_to_phys d' (da_vaddr a) = da_paddr a)"
proof -
  have a: "unat (word_of_int align :: u64) = nat align" using align by (simp add: unsigned_of_int take_bit_int_eq_self)
  have "unat (dm_pnext d) + unat (7 :: u64) < 2 ^ 64" using room by simp
  then obtain m where m: "ROUND_UP (dm_pnext d) 7 = Some m" "dm_pnext d \<le> m" "unat m < unat (dm_pnext d) + unat (7 :: u64)"
    by (rule round_up_word [rotated]) simp_all
  have "(word_of_int align :: u64) \<noteq> 0" using a align by (metis nat_0_iff not_le unat_0)
  moreover have "unat m + unat (word_of_int align :: u64) < 2 ^ 64" using m(3) room align a by simp
  ultimately obtain p where p: "ROUND_UP m (word_of_int align) = Some p" "m \<le> p" "unat p < unat m + nat align" "(word_of_int align :: u64) udvd p"
    using a by (metis round_up_word)
  have "unat p + unat sz < 2 ^ 64" using p(3) m(3) room align sz by simp
  then have s: "unat (p + sz) = unat p + unat sz" by (simp add: unat_word_ariths)
  have "nat align dvd unat p" using p(4) a by (simp add: udvd_iff_dvd)
  then have "int (nat align) dvd int (unat p)" unfolding int_dvd_int_iff .
  then have d: "int (unat p) mod align = 0" using align by simp
  have le: "dm_pnext d \<le> p" using m(2) p(2) by (rule order_trans)
  show ?thesis
    using m(1) p(1) le s d
    by (cases "p + sz \<ge> dm_pend d")
      (auto simp: sos_dma_malloc_def DMA_ALIGN_def DMA_ALIGN_BITS_def Let_def split_def sos_dma_phys_to_virt_def sos_dma_virt_to_phys_def)
qed

end
