(* ===== verification/Bootstrap.thy ===== *)
theory Bootstrap
  imports Dma
begin

text \<open>
  The start of the system, \<^verbatim>\<open>sos/src/bootstrap.c\<close>: from the description of memory that the kernel leaves behind, the root server builds
  its two level capability space, the untyped table and the DMA region. The phases of the one long function are definitions of their own, in
  the order of the code; a fatal error ends the run.
\<close>

section \<open>The description of memory\<close>

record seL4_UntypedDesc =
  ud_paddr :: nat
  ud_sizeBits :: nat
  ud_isDevice :: bool

record seL4_BootInfo =
  bi_empty_start :: nat
  bi_empty_end :: nat
  bi_untyped_start :: nat
  bi_untyped_end :: nat
  bi_untypedList :: "seL4_UntypedDesc list"

definition PHYSICAL_ADDRESS_LIMIT :: nat where "PHYSICAL_ADDRESS_LIMIT = 0xdfffffff"
definition MAX_PHYSICAL_SIZE_BITS :: nat where "MAX_PHYSICAL_SIZE_BITS = 32"
definition INITIAL_TASK_CNODE_SIZE_BITS :: nat where "INITIAL_TASK_CNODE_SIZE_BITS = 18"
definition INITIAL_TASK_CSPACE_BITS :: nat where
  "INITIAL_TASK_CSPACE_BITS = CNODE_SLOT_BITS INITIAL_TASK_CNODE_SIZE_BITS + CNODE_SLOT_BITS CNODE_SIZE_BITS"
definition INITIAL_TASK_CSPACE_SLOTS :: nat where "INITIAL_TASK_CSPACE_SLOTS = 2 ^ INITIAL_TASK_CSPACE_BITS"

definition CONFIG_MAX_NUM_BOOTINFO_UNTYPED_CAPS :: nat where "CONFIG_MAX_NUM_BOOTINFO_UNTYPED_CAPS = 230"
definition CONFIG_RETYPE_FAN_OUT_LIMIT :: nat where "CONFIG_RETYPE_FAN_OUT_LIMIT = 256"
definition seL4_MaxUntypedBits :: nat where "seL4_MaxUntypedBits = 47"
definition seL4_PageTableIndexBits :: nat where "seL4_PageTableIndexBits = 9"
definition seL4_CapInitThreadTCB :: nat where "seL4_CapInitThreadTCB = 1"
definition seL4_CapInitThreadCNode :: nat where "seL4_CapInitThreadCNode = 2"
definition SOS_DMA_SIZE_BITS :: nat where "SOS_DMA_SIZE_BITS = seL4_LargePageBits"
definition SOS_UT_TABLE :: nat where "SOS_UT_TABLE = 0x8000000000"

definition untyped_in_range :: "seL4_UntypedDesc \<Rightarrow> bool" where
  "untyped_in_range u \<longleftrightarrow> ud_paddr u \<le> PHYSICAL_ADDRESS_LIMIT \<and> ud_sizeBits u \<le> MAX_PHYSICAL_SIZE_BITS"

definition n_untypeds :: "seL4_BootInfo \<Rightarrow> nat" where
  "n_untypeds bi = bi_untyped_end bi - bi_untyped_start bi"

text \<open>The position of the highest bit.\<close>

fun LOG_BASE_2 :: "nat \<Rightarrow> nat" where
  [simp del]: "LOG_BASE_2 n = (if n < 2 then 0 else Suc (LOG_BASE_2 (n div 2)))"

definition sz_sub :: "nat \<Rightarrow> nat \<Rightarrow> nat" where
  "sz_sub a b = (a + (2 ^ 64 - b)) mod 2 ^ 64"

definition ZF_LOGF_IFERR :: "nat \<times> 's \<Rightarrow> 's option" where
  "ZF_LOGF_IFERR r = (if fst r \<noteq> seL4_NoError then None else Some (snd r))"

section \<open>Untyped memory\<close>

text \<open>The bytes that are left of each untyped object are the list \<open>avail\<close>.\<close>

fun calculate_loop :: "seL4_BootInfo \<Rightarrow> nat \<Rightarrow> nat list \<Rightarrow> nat \<Rightarrow> nat list \<Rightarrow> (nat \<times> nat list) option" where
  "calculate_loop bi size_bits [] n_caps avail = Some (n_caps, avail)"
| "calculate_loop bi size_bits (i # is) n_caps avail = do {
     u \<leftarrow> arr_get (bi_untypedList bi) i;
     if \<not> untyped_in_range u then calculate_loop bi size_bits is n_caps avail
     else do {
       avail \<leftarrow> arr_set avail i (if \<not> ud_isDevice u then 2 ^ ud_sizeBits u else 0);
       calculate_loop bi size_bits is (if ud_sizeBits u \<ge> size_bits then n_caps + 2 ^ (ud_sizeBits u - size_bits) else n_caps) avail } }"

definition calculate_ut_caps :: "seL4_BootInfo \<Rightarrow> nat \<Rightarrow> nat list \<Rightarrow> (nat \<times> nat list) option" where
  "calculate_ut_caps bi size_bits avail = calculate_loop bi size_bits [0..<n_untypeds bi] 0 avail"

definition paddr_from_avail_bytes :: "seL4_BootInfo \<Rightarrow> nat \<Rightarrow> nat \<Rightarrow> nat list \<Rightarrow> nat option" where
  "paddr_from_avail_bytes bi i size_bits avail = do {
     u \<leftarrow> arr_get (bi_untypedList bi) i;
     taken \<leftarrow> (if \<not> ud_isDevice u then do { a \<leftarrow> arr_get avail i; Some (2 ^ ud_sizeBits u - a) } else Some 0);
     taken \<leftarrow> ROUND_UP taken (2 ^ size_bits);
     Some (ud_paddr u + taken) }"

fun steal_loop :: "seL4_BootInfo \<Rightarrow> nat \<Rightarrow> nat list \<Rightarrow> nat list \<Rightarrow> (nat \<times> nat \<times> nat list) option" where
  "steal_loop bi size_bits [] avail = Some (seL4_CapNull, 0, avail)"
| "steal_loop bi size_bits (i # is) avail = do {
     u \<leftarrow> arr_get (bi_untypedList bi) i;
     if \<not> untyped_in_range u then steal_loop bi size_bits is avail
     else do {
       a \<leftarrow> arr_get avail i;
       if a < 2 ^ size_bits then steal_loop bi size_bits is avail
       else do {
         paddr \<leftarrow> paddr_from_avail_bytes bi i size_bits avail;
         avail \<leftarrow> arr_set avail i (a - 2 ^ size_bits);
         Some (i + bi_untyped_start bi, paddr, avail) } } }"

definition steal_untyped :: "seL4_BootInfo \<Rightarrow> nat \<Rightarrow> nat list \<Rightarrow> (nat \<times> nat \<times> nat list) option" where
  "steal_untyped bi size_bits avail = do {
     cassert (size_bits \<ge> seL4_PageBits);
     cassert (size_bits \<le> seL4_MaxUntypedBits);
     steal_loop bi size_bits [0..<n_untypeds bi] avail }"

fun bounds_loop :: "seL4_BootInfo \<Rightarrow> nat list \<Rightarrow> ut_region_t \<Rightarrow> ut_region_t option" where
  "bounds_loop bi [] memory = Some memory"
| "bounds_loop bi (i # is) memory = do {
     u \<leftarrow> arr_get (bi_untypedList bi) i;
     if \<not> untyped_in_range u then bounds_loop bi is memory
     else bounds_loop bi is (memory\<lparr>rg_start := min (rg_start memory) (ud_paddr u), rg_end := max (ud_paddr u + 2 ^ ud_sizeBits u) (rg_end memory)\<rparr>) }"

definition find_memory_bounds :: "seL4_BootInfo \<Rightarrow> ut_region_t option" where
  "find_memory_bounds bi = do {
     memory \<leftarrow> bounds_loop bi [0..<n_untypeds bi] \<lparr>rg_start = PHYSICAL_ADDRESS_LIMIT, rg_end = 0\<rparr>;
     cassert (rg_end memory > rg_start memory);
     Some memory }"

section \<open>The new capability space\<close>

text \<open>The kernel with the invocation that gives a thread its root cnode.\<close>

record 'k boot_kernel =
  bk_kernel :: "'k vkernel"
  bk_TCB_SetSpace :: "nat \<Rightarrow> nat \<Rightarrow> nat \<Rightarrow> nat \<Rightarrow> nat \<Rightarrow> nat \<Rightarrow> 'k \<Rightarrow> nat \<times> 'k"

text \<open>How much memory and how many cnodes the start needs: the region, the pages of the untyped table, the cnodes and the bytes.\<close>

definition boot_plan :: "seL4_BootInfo \<Rightarrow> nat list \<Rightarrow> (ut_region_t \<times> nat \<times> nat \<times> nat \<times> nat list) option" where
  "boot_plan bi avail = do {
     cassert (bi_empty_end bi - bi_empty_start bi \<ge> 2);
     let n_slots = sz_sub (bi_empty_start bi) 1;
     memory \<leftarrow> find_memory_bounds bi;
     let ut_pages = ut_pages_for_region memory;
     let n_slots = n_slots + ut_pages;
     let sz = ut_pages * PAGE_SIZE_4K;
     let n_pts = ut_pages div 2 ^ seL4_PageTableIndexBits + 1;
     let sz = sz + n_pts * 2 ^ seL4_PageBits;
     let n_slots = n_slots + n_pts;
     let sz = sz + 2 ^ seL4_PageBits + 2 ^ seL4_PageBits;
     let n_slots = n_slots + 2 + 1;
     (n_caps, avail) \<leftarrow> calculate_ut_caps bi seL4_PageBits avail;
     let n_slots = sz_sub (n_slots + n_caps) (2 ^ (SOS_DMA_SIZE_BITS - seL4_PageBits));
     let n_cnodes = n_slots div CNODE_SLOTS CNODE_SIZE_BITS + 2;
     let sz = sz + n_cnodes * 2 ^ CNODE_SIZE_BITS + 2 ^ INITIAL_TASK_CNODE_SIZE_BITS;
     cassert (n_cnodes \<le> CNODE_SLOTS INITIAL_TASK_CNODE_SIZE_BITS);
     Some (memory, ut_pages, n_cnodes, sz, avail) }"

text \<open>The cnodes of the second level are made in chunks.\<close>

function boot_cnodes :: "'k vkernel \<Rightarrow> nat \<Rightarrow> nat \<Rightarrow> nat \<Rightarrow> nat \<Rightarrow> 'k sos \<Rightarrow> 'k sos option" where
  "boot_cnodes V ut_cptr level1_cptr n_cnodes remaining s =
     (if remaining = 0 then Some s
      else do {
        let chunk = min CONFIG_RETYPE_FAN_OUT_LIMIT remaining;
        s \<leftarrow> ZF_LOGF_IFERR (k_Untyped_Retype (lift_kernel V) ut_cptr seL4_CapTableObject (CNODE_SLOT_BITS CNODE_SIZE_BITS) level1_cptr 0 0 (n_cnodes - remaining) chunk s);
        boot_cnodes V ut_cptr level1_cptr n_cnodes (remaining - chunk) s })"
  by pat_completeness auto
termination
  by (relation "measure (\<lambda>(V, ut_cptr, level1_cptr, n_cnodes, remaining, s). remaining)") (auto simp: CONFIG_RETYPE_FAN_OUT_LIMIT_def)

text \<open>Moving the capabilities of the initial space, except its root and those that do not exist on the platform.\<close>

definition not_moved :: "nat \<Rightarrow> bool" where
  "not_moved i \<longleftrightarrow> i \<in> {seL4_CapInitThreadCNode, 7, 8, 12, 13, 15}"

fun move_caps :: "'k vkernel \<Rightarrow> nat list \<Rightarrow> 'k sos \<Rightarrow> 'k sos option" where
  "move_caps V [] s = Some s"
| "move_caps V (i # is) s =
     (if not_moved i then move_caps V is s
      else do {
        s \<leftarrow> ZF_LOGF_IFERR (k_CNode_Move (lift_kernel V) seL4_CapInitThreadCNode i seL4_WordBits 0 i seL4_WordBits s);
        move_caps V is s })"

definition boot_switch :: "'k boot_kernel \<Rightarrow> seL4_BootInfo \<Rightarrow> nat \<Rightarrow> nat \<Rightarrow> 'k sos \<Rightarrow> 'k sos option" where
  "boot_switch B bi ut_cptr n_cnodes s = do {
     let V = bk_kernel B;
     let K = lift_kernel V;
     let level1_cptr = bi_empty_start bi;
     let boot_cptr = 0;
     s \<leftarrow> ZF_LOGF_IFERR (k_Untyped_Retype K ut_cptr seL4_CapTableObject (CNODE_SLOT_BITS INITIAL_TASK_CNODE_SIZE_BITS)
            seL4_CapInitThreadCNode 0 0 level1_cptr 1 s);
     s \<leftarrow> boot_cnodes V ut_cptr level1_cptr n_cnodes n_cnodes s;
     let depth = CNODE_SLOT_BITS INITIAL_TASK_CNODE_SIZE_BITS + CNODE_SLOT_BITS CNODE_SIZE_BITS;
     s \<leftarrow> ZF_LOGF_IFERR (k_CNode_Copy K level1_cptr boot_cptr depth seL4_CapInitThreadCNode seL4_CapInitThreadCNode seL4_WordBits (k_AllRights K) s);
     let guard = k_CNode_CapData_new K 0 (seL4_WordBits - depth);
     s \<leftarrow> ZF_LOGF_IFERR (k_CNode_Mint K level1_cptr seL4_CapInitThreadCNode depth seL4_CapInitThreadCNode level1_cptr seL4_WordBits (k_AllRights K) guard s);
     s \<leftarrow> ZF_LOGF_IFERR (on_k (bk_TCB_SetSpace B seL4_CapInitThreadTCB 0 level1_cptr guard seL4_CapInitThreadVSpace 0) s);
     s \<leftarrow> move_caps V [1..<bi_empty_start bi] s;
     ZF_LOGF_IFERR (k_CNode_Delete K seL4_CapInitThreadCNode boot_cptr seL4_WordBits s) }"


section \<open>Memory for the untyped table\<close>

fun boot_page_tables :: "'k vkernel \<Rightarrow> cspace \<Rightarrow> nat \<Rightarrow> nat list \<Rightarrow> nat \<Rightarrow> 'k sos \<Rightarrow> (nat \<times> 'k sos) option" where
  "boot_page_tables V cs ut_cptr [] first_free_slot s = Some (first_free_slot, s)"
| "boot_page_tables V cs ut_cptr (i # is) first_free_slot s = do {
     s \<leftarrow> ZF_LOGF_IFERR (cspace_untyped_retype (lift_kernel V) cs ut_cptr first_free_slot seL4_ARM_PageTableObject seL4_PageBits s);
     let vaddr = SOS_UT_TABLE + i * 2 ^ (seL4_PageTableIndexBits + seL4_PageBits);
     s \<leftarrow> ZF_LOGF_IFERR (on_k (k_ARM_PageTable_Map V first_free_slot seL4_CapInitThreadVSpace vaddr (k_Default_VMAttributes V)) s);
     boot_page_tables V cs ut_cptr is (first_free_slot + 1) s }"

fun boot_pages :: "'k vkernel \<Rightarrow> cspace \<Rightarrow> nat \<Rightarrow> nat \<Rightarrow> nat \<Rightarrow> 'k sos \<Rightarrow> (nat \<times> 'k sos) option" where
  "boot_pages V cs ut_cptr 0 first_free_slot s = Some (first_free_slot, s)"
| "boot_pages V cs ut_cptr (Suc n) first_free_slot s = do {
     s \<leftarrow> ZF_LOGF_IFERR (cspace_untyped_retype (lift_kernel V) cs ut_cptr first_free_slot seL4_ARM_SmallPageObject seL4_PageBits s);
     s \<leftarrow> ZF_LOGF_IFERR (on_k (k_ARM_Page_Map V first_free_slot seL4_CapInitThreadVSpace (so_next_free_vaddr s) (k_AllRights V) (k_Default_VMAttributes V)) s);
     boot_pages V cs ut_cptr n (first_free_slot + 1) (s\<lparr>so_next_free_vaddr := so_next_free_vaddr s + PAGE_SIZE_4K\<rparr>) }"

definition boot_paging :: "'k vkernel \<Rightarrow> cspace \<Rightarrow> nat \<Rightarrow> nat \<Rightarrow> nat \<Rightarrow> 'k sos \<Rightarrow> (nat \<times> 'k sos) option" where
  "boot_paging V cs ut_cptr ut_pages first_free_slot s = do {
     s \<leftarrow> ZF_LOGF_IFERR (cspace_untyped_retype (lift_kernel V) cs ut_cptr first_free_slot seL4_ARM_PageUpperDirectoryObject seL4_PageBits s);
     s \<leftarrow> ZF_LOGF_IFERR (on_k (k_ARM_PageUpperDirectory_Map V first_free_slot seL4_CapInitThreadVSpace SOS_UT_TABLE (k_Default_VMAttributes V)) s);
     let first_free_slot = first_free_slot + 1;
     s \<leftarrow> ZF_LOGF_IFERR (cspace_untyped_retype (lift_kernel V) cs ut_cptr first_free_slot seL4_ARM_PageDirectoryObject seL4_PageBits s);
     s \<leftarrow> ZF_LOGF_IFERR (on_k (k_ARM_PageDirectory_Map V first_free_slot seL4_CapInitThreadVSpace SOS_UT_TABLE (k_Default_VMAttributes V)) s);
     let first_free_slot = first_free_slot + 1;
     (first_free_slot, s) \<leftarrow> boot_page_tables V cs ut_cptr [0..<ut_pages div 2 ^ seL4_PageTableIndexBits + 1] first_free_slot s;
     let s = s\<lparr>so_vspace := seL4_CapInitThreadVSpace, so_next_free_vaddr := SOS_UT_TABLE\<rparr>;
     boot_pages V cs ut_cptr ut_pages first_free_slot s }"

text \<open>The large page for DMA: its slot, its address, the next free slot and what is left.\<close>

definition boot_dma_page :: "'k vkernel \<Rightarrow> seL4_BootInfo \<Rightarrow> cspace \<Rightarrow> nat \<Rightarrow> nat list \<Rightarrow> 'k sos \<Rightarrow> (nat \<times> nat \<times> nat \<times> nat list \<times> 'k sos) option" where
  "boot_dma_page V bi cs first_free_slot avail s = do {
     (dma_ut, dma_paddr, avail) \<leftarrow> steal_untyped bi SOS_DMA_SIZE_BITS avail;
     cassert (dma_ut \<noteq> seL4_CapNull);
     s \<leftarrow> ZF_LOGF_IFERR (cspace_untyped_retype (lift_kernel V) cs dma_ut first_free_slot seL4_ARM_LargePageObject SOS_DMA_SIZE_BITS s);
     Some (first_free_slot, dma_paddr, first_free_slot + 1, avail, s) }"

section \<open>Filling the untyped table\<close>

text \<open>One invocation makes at most as many objects as fit into the cnode of the first slot.\<close>

definition retype_chunk :: "nat \<Rightarrow> nat \<Rightarrow> nat" where
  "retype_chunk first_free_slot n_caps =
     min CONFIG_RETYPE_FAN_OUT_LIMIT (min n_caps (CNODE_SLOTS CNODE_SIZE_BITS - first_free_slot mod CNODE_SLOTS CNODE_SIZE_BITS))"

function boot_retype :: "'k vkernel \<Rightarrow> nat \<Rightarrow> nat \<Rightarrow> nat \<Rightarrow> 'k sos \<Rightarrow> (nat \<times> 'k sos) option" where
  "boot_retype V ut n_caps first_free_slot s =
     (if n_caps = 0 then Some (first_free_slot, s)
      else do {
        let cnode = first_free_slot div CNODE_SLOTS CNODE_SIZE_BITS;
        let retype = retype_chunk first_free_slot n_caps;
        s \<leftarrow> ZF_LOGF_IFERR (k_Untyped_Retype (lift_kernel V) ut seL4_UntypedObject seL4_PageBits seL4_CapInitThreadCNode cnode
               (seL4_WordBits - CNODE_SLOT_BITS CNODE_SIZE_BITS) (first_free_slot mod CNODE_SLOTS CNODE_SIZE_BITS) retype s);
        boot_retype V ut (n_caps - retype) (first_free_slot + retype) s })"
  by pat_completeness auto
termination
  by (relation "measure (\<lambda>(V, ut, n_caps, first_free_slot, s). n_caps)")
    (auto simp: retype_chunk_def CONFIG_RETYPE_FAN_OUT_LIMIT_def CNODE_SLOTS_def)

fun boot_untypeds :: "'k vkernel \<Rightarrow> seL4_BootInfo \<Rightarrow> nat list \<Rightarrow> nat list \<Rightarrow> nat \<Rightarrow> 'k sos \<Rightarrow> (nat \<times> 'k sos) option" where
  "boot_untypeds V bi avail [] first_free_slot s = Some (first_free_slot, s)"
| "boot_untypeds V bi avail (i # is) first_free_slot s = do {
     u \<leftarrow> arr_get (bi_untypedList bi) i;
     if \<not> untyped_in_range u then boot_untypeds V bi avail is first_free_slot s
     else do {
       n_caps \<leftarrow> (if \<not> ud_isDevice u then do { a \<leftarrow> arr_get avail i; Some (a div PAGE_SIZE_4K) } else Some (2 ^ ud_sizeBits u div PAGE_SIZE_4K));
       paddr \<leftarrow> paddr_from_avail_bytes bi i seL4_PageBits avail;
       s \<leftarrow> (if n_caps > 0 then on_table (ut_add_untyped_range paddr first_free_slot n_caps (ud_isDevice u)) s else Some s);
       (first_free_slot, s) \<leftarrow> boot_retype V (bi_untyped_start bi + i) n_caps first_free_slot s;
       boot_untypeds V bi avail is first_free_slot s } }"

section \<open>Bookkeeping of the capability space\<close>

fun boot_nodes :: "'k vkernel \<Rightarrow> nat list \<Rightarrow> nat \<Rightarrow> cspace \<Rightarrow> 'k sos \<Rightarrow> (nat \<times> cspace \<times> 'k sos) option" where
  "boot_nodes V [] first_free_slot cs s = Some (first_free_slot, cs, s)"
| "boot_nodes V (i # is) first_free_slot cs s = do {
     (ut, _, tb) \<leftarrow> ut_alloc_4k_untyped (so_table s);
     let s = s\<lparr>so_table := tb\<rparr>;
     n \<leftarrow> tb_store (so_table s) ut;
     s \<leftarrow> ZF_LOGF_IFERR (cspace_untyped_retype (lift_kernel V) cs (un_cap n) first_free_slot seL4_ARM_SmallPageObject seL4_PageBits s);
     s \<leftarrow> ZF_LOGF_IFERR (on_k (k_ARM_Page_Map V first_free_slot seL4_CapInitThreadVSpace (so_next_free_vaddr s) (k_AllRights V) (k_Default_VMAttributes V)) s);
     nodes \<leftarrow> arr_set (cs_bot_lvl_nodes cs) i (Some (empty_node\<lparr>bn_untyped := ut, bn_frame := first_free_slot\<rparr>));
     boot_nodes V is (first_free_slot + 1) (cs\<lparr>cs_bot_lvl_nodes := nodes, cs_n_bot_lvl_nodes := cs_n_bot_lvl_nodes cs + 1\<rparr>)
       (s\<lparr>so_next_free_vaddr := so_next_free_vaddr s + PAGE_SIZE_4K\<rparr>) }"

text \<open>
  Recording the slots in use. The inner loop that fills the bit field of a full cnode declares a variable of the same name as the outer
  one, so that the index of the cnode is computed from the position in the bit field.
\<close>

definition fill_word :: "nat \<Rightarrow> bot_lvl_node \<Rightarrow> bot_lvl_node option" where
  "fill_word i node = do {
     bl \<leftarrow> arr_get (bn_cnodes node) (CNODE_INDEX i);
     bf \<leftarrow> arr_set (bl_bf bl) i (- 1);
     cnodes \<leftarrow> arr_set (bn_cnodes node) (CNODE_INDEX i) (bl\<lparr>bl_bf := bf\<rparr>);
     Some (node\<lparr>bn_cnodes := cnodes\<rparr>) }"

fun fill_words :: "nat list \<Rightarrow> bot_lvl_node \<Rightarrow> bot_lvl_node option" where
  "fill_words [] node = Some node"
| "fill_words (i # is) node = do { node \<leftarrow> fill_word i node; fill_words is node }"

fun mark_full :: "nat list \<Rightarrow> cspace \<Rightarrow> cspace option" where
  "mark_full [] cs = Some cs"
| "mark_full (i # is) cs = do {
     node \<leftarrow> get_node cs (NODE_INDEX i);
     node \<leftarrow> fill_words [0..<CNODE_SLOTS CNODE_SIZE_BITS div seL4_WordBits] (node\<lparr>bn_n_cnodes := bn_n_cnodes node + 1\<rparr>);
     cs \<leftarrow> set_node (NODE_INDEX i) node cs;
     top \<leftarrow> bf_set_bit (cs_top_bf cs) (TOP_LVL_INDEX i);
     mark_full is (cs\<lparr>cs_top_bf := top\<rparr>) }"

fun mark_slots :: "nat list \<Rightarrow> bot_lvl_node \<Rightarrow> bot_lvl_node option" where
  "mark_slots [] node = Some node"
| "mark_slots (i # is) node = do {
     bl \<leftarrow> arr_get (bn_cnodes node) (CNODE_INDEX i);
     bf \<leftarrow> bf_set_bit (bl_bf bl) (BOT_LVL_INDEX i);
     cnodes \<leftarrow> arr_set (bn_cnodes node) (CNODE_INDEX i) (bl\<lparr>bl_bf := bf\<rparr>);
     mark_slots is (node\<lparr>bn_cnodes := cnodes\<rparr>) }"

fun count_extra :: "nat list \<Rightarrow> cspace \<Rightarrow> cspace option" where
  "count_extra [] cs = Some cs"
| "count_extra (i # is) cs = do {
     node \<leftarrow> get_node cs (i div BOT_LVL_PER_NODE);
     cs \<leftarrow> set_node (i div BOT_LVL_PER_NODE) (node\<lparr>bn_n_cnodes := bn_n_cnodes node + 1\<rparr>) cs;
     count_extra is cs }"

definition boot_record :: "nat \<Rightarrow> nat \<Rightarrow> cspace \<Rightarrow> cspace option" where
  "boot_record first_free_slot n_cnodes cs = do {
     let slots_per_cnode = CNODE_SLOTS CNODE_SIZE_BITS;
     let full = first_free_slot div slots_per_cnode;
     cs \<leftarrow> mark_full (map (\<lambda>j. j * slots_per_cnode) [0..<full]) cs;
     node \<leftarrow> get_node cs (full div BOT_LVL_PER_NODE);
     node \<leftarrow> mark_slots [full * slots_per_cnode..<first_free_slot] (node\<lparr>bn_n_cnodes := bn_n_cnodes node + 1\<rparr>);
     cs \<leftarrow> set_node (full div BOT_LVL_PER_NODE) node cs;
     count_extra [full + 1..<n_cnodes] cs }"

fun boot_watermark :: "'k vkernel \<Rightarrow> nat list \<Rightarrow> cspace \<Rightarrow> 'k sos \<Rightarrow> (cspace \<times> 'k sos) option" where
  "boot_watermark V [] cs s = Some (cs, s)"
| "boot_watermark V (i # is) cs s = do {
     (slot, cs, s) \<leftarrow> sos_alloc_slot V cs s;
     cs \<leftarrow> set_watermark i slot cs;
     cassert (slot \<noteq> seL4_CapNull);
     boot_watermark V is cs s }"

section \<open>The whole start\<close>

definition zero_cspace :: cspace where
  "zero_cspace = \<lparr>cs_root_cnode = 0, cs_two_level = False, cs_top_lvl_size_bits = 0, cs_top_bf = [], cs_bot_lvl_nodes = [], cs_n_bot_lvl_nodes = 0,
     cs_untyped = 0, cs_watermark = replicate WATERMARK_SLOTS 0\<rparr>"

definition sos_bootstrap :: "'k boot_kernel \<Rightarrow> seL4_BootInfo \<Rightarrow> dma_t \<Rightarrow> 'k sos \<Rightarrow> (cspace \<times> dma_t \<times> 'k sos) option" where
  "sos_bootstrap B bi d s = do {
     let V = bk_kernel B;
     let s = s\<lparr>so_next_free_vaddr := 0, so_vspace := 0\<rparr>;
     (memory, ut_pages, n_cnodes, sz, avail) \<leftarrow> boot_plan bi (replicate CONFIG_MAX_NUM_BOOTINFO_UNTYPED_CAPS 0);
     (ut_cptr, _, avail) \<leftarrow> steal_untyped bi (LOG_BASE_2 sz + 1) avail;
     cassert (ut_cptr \<noteq> seL4_CapNull);
     let cs = zero_cspace\<lparr>cs_root_cnode := seL4_CapInitThreadCNode\<rparr>;
     s \<leftarrow> boot_switch B bi ut_cptr n_cnodes s;
     let cs = cs\<lparr>cs_two_level := True\<rparr>;
     (first_free_slot, s) \<leftarrow> boot_paging V cs ut_cptr ut_pages (bi_empty_start bi) s;
     (dma_cptr, dma_paddr, first_free_slot, avail, s) \<leftarrow> boot_dma_page V bi cs first_free_slot avail s;
     let s = s\<lparr>so_table := ut_init SOS_UT_TABLE memory\<rparr>;
     (first_free_slot, s) \<leftarrow> boot_untypeds V bi avail [0..<n_untypeds bi] first_free_slot s;
     let cs = cs\<lparr>cs_top_lvl_size_bits := INITIAL_TASK_CNODE_SIZE_BITS, cs_top_bf := replicate (BITFIELD_SIZE INITIAL_TASK_CNODE_SIZE_BITS) 0,
                cs_n_bot_lvl_nodes := 0, cs_bot_lvl_nodes := replicate (INITIAL_TASK_CSPACE_SLOTS div BOT_LVL_PER_NODE + 1) None\<rparr>;
     let n_bot_lvl = max (first_free_slot div CNODE_SLOTS CNODE_SIZE_BITS + 1) n_cnodes div BOT_LVL_PER_NODE + 1;
     (first_free_slot, cs, s) \<leftarrow> boot_nodes V [0..<n_bot_lvl] first_free_slot cs s;
     let dma_vaddr = ALIGN_UP (of_nat (so_next_free_vaddr s + PAGE_SIZE_4K)) (2 ^ seL4_LargePageBits);
     (err, d, s) \<leftarrow> dma_init V cs seL4_CapInitThreadVSpace dma_cptr (of_nat dma_paddr) dma_vaddr d s;
     cassert (err = 0);
     let s = s\<lparr>so_next_free_vaddr := unat (dma_vaddr + 2 ^ seL4_LargePageBits + of_nat PAGE_SIZE_4K)\<rparr>;
     cs \<leftarrow> boot_record first_free_slot n_cnodes cs;
     (cs, s) \<leftarrow> boot_watermark V [0..<WATERMARK_SLOTS] cs s;
     Some (cs, d, s) }"

end
