(* ===== verification/Bootstrap_Spec.thy ===== *)
theory Bootstrap_Spec
  imports Bootstrap
begin

text \<open>The properties of the start and of the DMA allocator.\<close>

declare boot_retype.simps [simp del] boot_cnodes.simps [simp del]

section \<open>Stealing memory\<close>

lemma steal_loop_found:
  assumes "steal_loop bi size_bits is avail = Some (c, p, avail')" "c \<noteq> 0"
  shows "\<exists>i a u. i \<in> set is \<and> arr_get (bi_untypedList bi) i = Some u \<and> untyped_in_range u \<and> arr_get avail i = Some a \<and> 2 ^ size_bits \<le> a \<and>
    c = i + bi_untyped_start bi \<and> paddr_from_avail_bytes bi i size_bits avail = Some p \<and> avail' = avail[i := a - 2 ^ size_bits]"
  using assms
proof (induction "is")
  case (Cons i "is")
  obtain u where u: "arr_get (bi_untypedList bi) i = Some u" using Cons.prems(1) by (auto elim!: c_elims)
  show ?case
  proof (cases "untyped_in_range u \<and> (\<exists>a. arr_get avail i = Some a \<and> 2 ^ size_bits \<le> a)")
    case False
    then have "steal_loop bi size_bits is avail = Some (c, p, avail')" using Cons.prems(1) u by (auto elim!: c_elims split: if_splits)
    from Cons.IH [OF this Cons.prems(2)] show ?thesis by (metis list.set_intros(2))
  next
    case True
    then obtain a where a: "arr_get avail i = Some a" "2 ^ size_bits \<le> a" by blast
    then have "paddr_from_avail_bytes bi i size_bits avail = Some p" "c = i + bi_untyped_start bi" "avail' = avail[i := a - 2 ^ size_bits]"
      using Cons.prems(1) u True by (auto simp: arr_set_def elim!: c_elims split: if_splits)
    then show ?thesis using u a True by (intro exI [of _ i] exI [of _ a] exI [of _ u]) simp
  qed
qed (simp add: seL4_CapNull_def)

lemma round_up_dvd: "b \<noteq> 0 \<Longrightarrow> b dvd n \<Longrightarrow> ROUND_UP n b = Some (n :: nat)"
  by (simp add: ROUND_UP_def)

lemma round_up_ge: "ROUND_UP n b = Some m \<Longrightarrow> n \<le> (m :: nat)"
  by (auto simp: ROUND_UP_def split: if_splits)

section \<open>Retyping the rest\<close>

text \<open>A kernel that accepts every request and writes down the cnode, the offset and the number of objects.\<close>

definition logs_retype :: "(nat \<times> nat \<times> nat) list vkernel \<Rightarrow> bool" where
  "logs_retype V \<longleftrightarrow> (\<forall>u ty sz r c d off n k. k_Untyped_Retype V u ty sz r c d off n k = (0, k @ [(c, off, n)]))"

definition call_slots :: "nat \<times> nat \<times> nat \<Rightarrow> nat list" where
  "call_slots call = (case call of (c, off, n) \<Rightarrow> [c * 128 + off..<c * 128 + off + n])"

lemma retype_chunk: "retype_chunk f n = min 256 (min n (128 - f mod 128))"
  by (simp add: retype_chunk_def CONFIG_RETYPE_FAN_OUT_LIMIT_def)

lemma boot_retype_calls:
  assumes "logs_retype V"
  shows "\<exists>calls. boot_retype V ut n f s = Some (f + n, s\<lparr>so_k := so_k s @ calls\<rparr>) \<and> concat (map call_slots calls) = [f..<f + n] \<and>
    (\<forall>(c, off, m) \<in> set calls. 0 < m \<and> m \<le> CONFIG_RETYPE_FAN_OUT_LIMIT \<and> off + m \<le> CNODE_SLOTS CNODE_SIZE_BITS)"
proof (induction n arbitrary: f s rule: less_induct)
  case (less n)
  show ?case
  proof (cases "n = 0")
    case True then show ?thesis by (intro exI [of _ "[]"]) (simp add: boot_retype.simps)
  next
    case False
    let ?m = "retype_chunk f n"
    have "f mod 128 < 128" by simp
    then have m: "0 < ?m" "?m \<le> n" "?m \<le> 256" "f mod 128 + ?m \<le> 128" using False unfolding retype_chunk by linarith+
    let ?s = "s\<lparr>so_k := so_k s @ [(f div 128, f mod 128, ?m)]\<rparr>"
    have run: "boot_retype V ut n f s = boot_retype V ut (n - ?m) (f + ?m) ?s"
      using assms False by (subst boot_retype.simps) (simp add: logs_retype_def lift_kernel_def on_k_def ZF_LOGF_IFERR_def seL4_NoError_def Let_def)
    obtain calls where c: "boot_retype V ut (n - ?m) (f + ?m) ?s = Some (f + ?m + (n - ?m), ?s\<lparr>so_k := so_k ?s @ calls\<rparr>)"
      "concat (map call_slots calls) = [f + ?m..<f + ?m + (n - ?m)]"
      "\<forall>(c, off, m) \<in> set calls. 0 < m \<and> m \<le> CONFIG_RETYPE_FAN_OUT_LIMIT \<and> off + m \<le> CNODE_SLOTS CNODE_SIZE_BITS"
      using less.IH [of "n - ?m" "f + ?m" ?s] m(1,2) by fastforce
    have f: "f div 128 * 128 + f mod 128 = f" by simp
    have "call_slots (f div 128, f mod 128, ?m) = [f..<f + ?m]" unfolding call_slots_def f by simp
    moreover have "[f..<f + ?m] @ [f + ?m..<f + ?m + (n - ?m)] = [f..<f + n]" using m(2) by (metis add_diff_inverse_nat le_add1 not_less add.assoc upt_add_eq_append)
    ultimately show ?thesis using run c m by (intro exI [of _ "(f div 128, f mod 128, ?m) # calls"]) (simp add: CONFIG_RETYPE_FAN_OUT_LIMIT_def)
  qed
qed


section \<open>Recording the slots in use\<close>

text \<open>The state during the recording, when one node of bookkeeping is enough: the rest of the space does not change, the node counts
  \<open>n\<close> cnodes, the bit fields of the cnodes from \<open>lo\<close> on are clear except for those of index zero and \<open>hi\<close>, and the top level has \<open>T\<close>.\<close>

definition recording :: "nat \<Rightarrow> nat \<Rightarrow> nat set \<Rightarrow> cspace \<Rightarrow> bool" where
  "recording n hi T cs \<longleftrightarrow> cs_two_level cs \<and> cs_top_lvl_size_bits cs = 18 \<and> length (cs_top_bf cs) = 128 \<and> bf_bits (cs_top_bf cs) = T \<and>
     0 < cs_n_bot_lvl_nodes cs \<and> cs_bot_lvl_nodes cs \<noteq> [] \<and>
     (\<exists>nd. cs_bot_lvl_nodes cs ! 0 = Some nd \<and> bn_n_cnodes nd = n \<and> length (bn_cnodes nd) = 169 \<and>
       (\<forall>i < 169. length (bl_bf (bn_cnodes nd ! i)) = 2 \<and> (i \<noteq> 0 \<longrightarrow> i \<noteq> hi \<longrightarrow> bl_bf (bn_cnodes nd ! i) = [0, 0])))"

lemma recordingE:
  assumes "recording n hi T cs"
  obtains nd ns where "cs_bot_lvl_nodes cs = Some nd # ns" "get_node cs 0 = Some nd" "bn_n_cnodes nd = n" "length (bn_cnodes nd) = 169"
    "\<forall>i < 169. length (bl_bf (bn_cnodes nd ! i)) = 2" "\<forall>i < 169. i \<noteq> 0 \<longrightarrow> i \<noteq> hi \<longrightarrow> bl_bf (bn_cnodes nd ! i) = [0, 0]"
  using assms that by (cases "cs_bot_lvl_nodes cs") (auto simp: recording_def get_node_def arr_get_def)

lemma fill_words_first:
  assumes "length (bn_cnodes nd) = 169" "length (bl_bf (bn_cnodes nd ! 0)) = 2"
  shows "fill_words [0..<2] nd = Some (nd\<lparr>bn_cnodes := (bn_cnodes nd)[0 := (bn_cnodes nd ! 0)\<lparr>bl_bf := [- 1, - 1]\<rparr>]\<rparr>)"
proof -
  have "CNODE_INDEX 0 = 0" "CNODE_INDEX 1 = 0" by (simp_all add: CNODE_INDEX_def)
  moreover obtain a b where "bl_bf (bn_cnodes nd ! 0) = [a, b]" using assms(2) by (auto simp: length_Suc_conv numeral_2_eq_2)
  ultimately show ?thesis using assms(1) by (simp add: upt_rec fill_word_def arr_get_def arr_set_def)
qed

lemma mark_full_records:
  assumes "recording n hi T cs" "a + m \<le> 169"
  shows "\<exists>cs'. mark_full (map (\<lambda>j. j * 128) [a..<a + m]) cs = Some cs' \<and> recording (n + m) hi (T \<union> {a..<a + m}) cs'"
  using assms
proof (induction m arbitrary: a n T cs)
  case (Suc m)
  obtain nd ns where nd: "cs_bot_lvl_nodes cs = Some nd # ns" "get_node cs 0 = Some nd" "bn_n_cnodes nd = n" "length (bn_cnodes nd) = 169"
    "\<forall>i < 169. length (bl_bf (bn_cnodes nd ! i)) = 2" "\<forall>i < 169. i \<noteq> 0 \<longrightarrow> i \<noteq> hi \<longrightarrow> bl_bf (bn_cnodes nd ! i) = [0, 0]"
    by (rule recordingE [OF Suc.prems(1)])
  let ?nd = "nd\<lparr>bn_n_cnodes := n + 1, bn_cnodes := (bn_cnodes nd)[0 := (bn_cnodes nd ! 0)\<lparr>bl_bf := [- 1, - 1]\<rparr>]\<rparr>"
  have fill: "fill_words [0..<2] (nd\<lparr>bn_n_cnodes := n + 1\<rparr>) = Some ?nd" using fill_words_first [of "nd\<lparr>bn_n_cnodes := n + 1\<rparr>"] nd(4,5) by simp
  have a: "a < 169" "a < 64 * length (cs_top_bf cs)" using Suc.prems by (simp_all add: recording_def)
  obtain top where top: "bf_set_bit (cs_top_bf cs) a = Some top" "length top = length (cs_top_bf cs)" "bf_bits top = insert a (bf_bits (cs_top_bf cs))"
    using bf_set_bit_bits [OF a(2)] by blast
  let ?cs = "cs\<lparr>cs_bot_lvl_nodes := Some ?nd # ns, cs_top_bf := top\<rparr>"
  have "recording (Suc n) hi (insert a T) ?cs"
    using Suc.prems(1) top nd(4-6) by (auto simp: recording_def nth_list_update)
  from Suc.IH [OF this, of "Suc a"] Suc.prems(2) obtain cs' where
    cs': "mark_full (map (\<lambda>j. j * 128) [Suc a..<Suc a + m]) ?cs = Some cs'" "recording (Suc n + m) hi (insert a T \<union> {Suc a..<Suc a + m}) cs'" by auto
  have "mark_full (map (\<lambda>j. j * 128) [a..<a + Suc m]) cs = Some cs'"
  proof -
    have u: "[a..<a + Suc m] = a # [Suc a..<Suc a + m]" by (simp add: upt_conv_Cons)
    show ?thesis using a(1) nd(1-3) fill top(1) cs'(1) unfolding u by (simp del: upt_Suc add: set_node_def arr_set_def seL4_WordBits_def)
  qed
  moreover have "insert a T \<union> {Suc a..<Suc a + m} = T \<union> {a..<a + Suc m}" by auto
  ultimately show ?case using cs'(2) by simp
qed simp

lemma mark_slots_keeps:
  assumes "\<forall>x \<in> set xs. x div 128 = hi" "hi < 169" "length (bn_cnodes nd) = 169" "length (bl_bf (bn_cnodes nd ! hi)) = 2"
  shows "\<exists>bl. mark_slots xs nd = Some (nd\<lparr>bn_cnodes := (bn_cnodes nd)[hi := bl]\<rparr>) \<and> length (bl_bf bl) = 2"
  using assms
proof (induction xs arbitrary: nd)
  case Nil then show ?case by (intro exI [of _ "bn_cnodes nd ! hi"]) simp
next
  case (Cons x xs)
  let ?bl = "bn_cnodes nd ! hi"
  have i: "CNODE_INDEX x = hi" "BOT_LVL_INDEX x < 128" using Cons.prems(1,2) by (simp_all add: CNODE_INDEX_def BOT_LVL_INDEX_def)
  have "BOT_LVL_INDEX x < 64 * length (bl_bf ?bl)" using i(2) Cons.prems(4) by simp
  from bf_set_bit_bits [OF this] obtain bf where bf: "bf_set_bit (bl_bf ?bl) (BOT_LVL_INDEX x) = Some bf" "length bf = 2" using Cons.prems(4) by auto
  let ?nd = "nd\<lparr>bn_cnodes := (bn_cnodes nd)[hi := ?bl\<lparr>bl_bf := bf\<rparr>]\<rparr>"
  obtain bl where "mark_slots xs ?nd = Some (?nd\<lparr>bn_cnodes := (bn_cnodes ?nd)[hi := bl]\<rparr>)" "length (bl_bf bl) = 2"
    using Cons.IH [of ?nd] Cons.prems bf(2) by auto
  then show ?case using i(1) bf(1) Cons.prems(2,3) by (auto simp: arr_get_def arr_set_def)
qed

lemma count_extra_keeps:
  assumes "recording n hi T cs" "\<forall>x \<in> set xs. x < 169"
  shows "\<exists>cs'. count_extra xs cs = Some cs' \<and> recording (n + length xs) hi T cs'"
  using assms
proof (induction xs arbitrary: n cs)
  case (Cons x xs)
  obtain nd ns where nd: "cs_bot_lvl_nodes cs = Some nd # ns" "get_node cs 0 = Some nd" "bn_n_cnodes nd = n" "length (bn_cnodes nd) = 169"
    "\<forall>i < 169. length (bl_bf (bn_cnodes nd ! i)) = 2" "\<forall>i < 169. i \<noteq> 0 \<longrightarrow> i \<noteq> hi \<longrightarrow> bl_bf (bn_cnodes nd ! i) = [0, 0]"
    by (rule recordingE [OF Cons.prems(1)])
  let ?cs = "cs\<lparr>cs_bot_lvl_nodes := Some (nd\<lparr>bn_n_cnodes := n + 1\<rparr>) # ns\<rparr>"
  have "recording (Suc n) hi T ?cs" using Cons.prems(1) nd by (auto simp: recording_def)
  from Cons.IH [OF this] Cons.prems(2) obtain cs' where "count_extra xs ?cs = Some cs'" "recording (Suc n + length xs) hi T cs'" by auto
  then show ?case using nd(1-3) Cons.prems(2) by (simp add: set_node_def arr_set_def)
qed simp


lemma div_eq_of_bounds: "h * k \<le> x \<Longrightarrow> x < Suc h * k \<Longrightarrow> x div k = (h :: nat)"
  by (rule div_nat_eqI) (simp_all add: mult.commute)

lemma boot_record_ok:
  assumes r: "recording 0 0 {} cs" and f: "first < 169 * 128" "n_cnodes \<le> 169"
  shows "\<exists>cs' n. boot_record first n_cnodes cs = Some cs' \<and> recording n (first div 128) {..<first div 128} cs' \<and> first div 128 < n"
proof -
  let ?h = "first div 128"
  have h: "?h < 169" using f(1) by (simp add: div_less_iff_less_mult)
  obtain c1 where c1: "mark_full (map (\<lambda>j. j * 128) [0..<?h]) cs = Some c1" "recording ?h 0 {0..<?h} c1"
    using mark_full_records [OF r, of 0 ?h] h by auto
  obtain nd ns where nd: "cs_bot_lvl_nodes c1 = Some nd # ns" "get_node c1 0 = Some nd" "bn_n_cnodes nd = ?h" "length (bn_cnodes nd) = 169"
    "\<forall>i < 169. length (bl_bf (bn_cnodes nd ! i)) = 2" "\<forall>i < 169. i \<noteq> 0 \<longrightarrow> i \<noteq> 0 \<longrightarrow> bl_bf (bn_cnodes nd ! i) = [0, 0]"
    by (rule recordingE [OF c1(2)])
  have "x div 128 = ?h" if "x \<in> set [?h * 128..<first]" for x
  proof (rule div_eq_of_bounds)
    show "?h * 128 \<le> x" "x < Suc ?h * 128" using that by auto
  qed
  then have all: "\<forall>x \<in> set [?h * 128..<first]. x div 128 = ?h" by blast
  have l: "length (bn_cnodes (nd\<lparr>bn_n_cnodes := ?h + 1\<rparr>)) = 169" "length (bl_bf (bn_cnodes (nd\<lparr>bn_n_cnodes := ?h + 1\<rparr>) ! ?h)) = 2" using nd(4,5) h by simp_all
  from mark_slots_keeps [OF all h l] obtain bl where bl: "mark_slots [?h * 128..<first] (nd\<lparr>bn_n_cnodes := ?h + 1\<rparr>) = Some (nd\<lparr>bn_n_cnodes := ?h + 1, bn_cnodes := (bn_cnodes nd)[?h := bl]\<rparr>)"
    "length (bl_bf bl) = 2" by (simp del: upt_Suc) blast
  let ?c2 = "c1\<lparr>cs_bot_lvl_nodes := Some (nd\<lparr>bn_n_cnodes := ?h + 1, bn_cnodes := (bn_cnodes nd)[?h := bl]\<rparr>) # ns\<rparr>"
  have "length (bl_bf ((bn_cnodes nd)[?h := bl] ! i)) = 2" if "i < 169" for i using that nd(4,5) bl(2) by (cases "i = ?h") simp_all
  moreover have "bl_bf ((bn_cnodes nd)[?h := bl] ! i) = [0, 0]" if "i < 169" "i \<noteq> 0" "i \<noteq> ?h" for i using that nd(4,6) by simp
  ultimately have "recording (?h + 1) ?h {..<?h} ?c2" using c1(2) nd(4) by (auto simp: recording_def atLeast0LessThan)
  moreover have "\<forall>x \<in> set [?h + 1..<n_cnodes]. x < 169" using f(2) by simp
  ultimately obtain c3 where c3: "count_extra [?h + 1..<n_cnodes] ?c2 = Some c3" "recording (?h + 1 + length [?h + 1..<n_cnodes]) ?h {..<?h} c3"
    using count_extra_keeps by blast
  have "set_node 0 (nd\<lparr>bn_n_cnodes := ?h + 1, bn_cnodes := (bn_cnodes nd)[?h := bl]\<rparr>) c1 = Some ?c2" using nd(1) by (simp add: set_node_def arr_set_def)
  then have "boot_record first n_cnodes cs = Some c3"
    using c1(1) nd(2,3) bl(1) c3(1) h by (simp del: upt_Suc add: boot_record_def Let_def)
  then show ?thesis using c3(2) by (intro exI [of _ c3] exI [of _ "?h + 1 + length [?h + 1..<n_cnodes]"]) simp
qed


text \<open>Freeing a slot of a cnode recorded as full, and the allocation after it.\<close>

lemma bf_zero_cleared: "b < 128 \<Longrightarrow> bf_clr_bit [0, 0] b = Some [0, 0]"
proof -
  assume b: "b < 128"
  then have "b div 64 = 0 \<or> b div 64 = 1" by (simp add: less_Suc_eq div_less_iff_less_mult) linarith
  then show ?thesis using b by (auto simp: bf_clr_bit_eq)
qed

lemma first_free_zero: "bf_first_free 2 [0, 0] = Some 0"
  using bf_first_free_least [of 2 "[0, 0]"] by auto

lemma free_recorded:
  assumes r: "recording n hi {..<hi} cs" and t: "0 < t" "t < hi" "hi < n" "hi < 169" and b: "b < 128"
  shows "\<exists>cs'. cspace_free_slot (t * 128 + b) cs = Some cs' \<and> recording n hi ({..<hi} - {t}) cs'"
proof -
  obtain nd ns where nd: "cs_bot_lvl_nodes cs = Some nd # ns" "get_node cs 0 = Some nd" "bn_n_cnodes nd = n" "length (bn_cnodes nd) = 169"
    "\<forall>i < 169. length (bl_bf (bn_cnodes nd ! i)) = 2" "\<forall>i < 169. i \<noteq> 0 \<longrightarrow> i \<noteq> hi \<longrightarrow> bl_bf (bn_cnodes nd ! i) = [0, 0]"
    by (rule recordingE [OF r])
  have c: "cs_two_level cs" "cs_top_lvl_size_bits cs = 18" "0 < cs_n_bot_lvl_nodes cs" "length (cs_top_bf cs) = 128" using r by (simp_all add: recording_def)
  have t128: "t < 64 * length (cs_top_bf cs)" using t c(4) by simp
  obtain top where top: "bf_clr_bit (cs_top_bf cs) t = Some top" "length top = length (cs_top_bf cs)" "bf_bits top = bf_bits (cs_top_bf cs) - {t}"
    using bf_clr_bit_bits [OF t128] by blast
  have z: "bl_bf (bn_cnodes nd ! t) = [0, 0]" using nd(6) t by simp
  let ?cs = "cs\<lparr>cs_top_bf := top, cs_bot_lvl_nodes := Some (nd\<lparr>bn_cnodes := (bn_cnodes nd)[t := (bn_cnodes nd ! t)\<lparr>bl_bf := [0, 0]\<rparr>]\<rparr>) # ns\<rparr>"
  have t169: "t div 169 = 0" "t mod 169 = t" "t * 128 + b \<noteq> 0" "t * 128 + b \<le> 8192 * 128" using t b by simp_all
  have "CNODE_SLOTS 18 = 8192" by (simp add: CNODE_SLOTS_def CNODE_SLOT_BITS_def seL4_SlotBits_def)
  then have "cspace_free_slot (t * 128 + b) cs = Some ?cs"
    using c nd(1-4) top(1) t t169 b z index_slot [OF b, of t]
    by (simp add: cspace_free_slot_def seL4_CapNull_def Let_def get_node_def arr_get_def arr_set_def set_node_def bf_zero_cleared)
  moreover have "t < 169" using t by simp
  then have "recording n hi ({..<hi} - {t}) ?cs" using r top nd(3-6) by (auto simp: recording_def nth_list_update)
  ultimately show ?thesis by blast
qed

lemma alloc_recorded:
  assumes r: "recording n hi ({..<hi} - {t}) cs" and t: "0 < t" "t < hi" "hi < n" "hi < 169"
  shows "\<exists>cs'. cspace_alloc_slot K A cs e = Some (t * 128, cs', e)"
proof -
  obtain nd ns where nd: "cs_bot_lvl_nodes cs = Some nd # ns" "get_node cs 0 = Some nd" "bn_n_cnodes nd = n" "length (bn_cnodes nd) = 169"
    "\<forall>i < 169. length (bl_bf (bn_cnodes nd ! i)) = 2" "\<forall>i < 169. i \<noteq> 0 \<longrightarrow> i \<noteq> hi \<longrightarrow> bl_bf (bn_cnodes nd ! i) = [0, 0]"
    by (rule recordingE [OF r])
  have c: "cs_two_level cs" "cs_top_lvl_size_bits cs = 18" "0 < cs_n_bot_lvl_nodes cs" "length (cs_top_bf cs) = 128" "bf_bits (cs_top_bf cs) = {..<hi} - {t}"
    using r by (simp_all add: recording_def)
  obtain k where k: "bf_first_free 128 (cs_top_bf cs) = Some k" "\<forall>j < k. j \<in> bf_bits (cs_top_bf cs)" "k \<notin> bf_bits (cs_top_bf cs)"
    using bf_first_free_least [of 128 "cs_top_bf cs"] c(4) by auto
  have "k = t" using k(2,3) c(5) t(2) by (metis Diff_iff insertI1 insert_iff lessThan_iff linorder_neqE_nat less_trans singletonD)
  have sl: "CNODE_SLOTS 18 = 8192" "BITFIELD_SIZE 18 = 128" by (simp_all add: CNODE_SLOTS_def BITFIELD_SIZE_def CNODE_SLOT_BITS_def seL4_SlotBits_def seL4_WordBits_def)
  have t169: "t div 169 = 0" "t mod 169 = t" using t by simp_all
  have z: "bl_bf (bn_cnodes nd ! t) = [0, 0]" using nd(6) t by simp
  have miss: "level_missing (t * 128) cs = Some False" using c(3) nd(2,3) t t169 by (simp add: level_missing_def)
  obtain bf where bf: "bf_set_bit [0, 0] 0 = Some bf" "length bf = 2" using bf_set_bit_bits [of 0 "[0, 0]"] by auto
  obtain k' where k': "bf_first_free 2 bf = Some k'" using bf_first_free_least [of 2 bf] bf(2) by auto
  have "t < 64 * length (cs_top_bf cs)" using t c(4) by simp
  then have "\<exists>cs'. take_bottom t cs = Some (t * 128, cs')"
    using nd(1,2,4) t t169 z bf(1) k' bf_set_bit_bits [of t "cs_top_bf cs"]
    by (auto simp: take_bottom_def Let_def arr_get_def arr_set_def set_node_def first_free_zero)
  then show ?thesis using k(1) \<open>k = t\<close> c(1,2) sl t miss by (subst cspace_alloc_slot.simps) auto
qed


section \<open>An example\<close>

definition ex_bootinfo :: seL4_BootInfo where
  "ex_bootinfo = \<lparr>bi_empty_start = 100, bi_empty_end = 200, bi_untyped_start = 40, bi_untyped_end = 41,
     bi_untypedList = [\<lparr>ud_paddr = 0x400000, ud_sizeBits = 22, ud_isDevice = False\<rparr>]\<rparr>"

definition log_kernel :: "(nat \<times> nat \<times> nat) list vkernel" where
  "log_kernel = \<lparr>k_Untyped_Retype = \<lambda>_ _ _ _ c _ off n e. (0, e @ [(c, off, n)]), k_CNode_Delete = \<lambda>_ _ _ e. (0, e), k_CNode_Revoke = \<lambda>_ _ _ e. (0, e),
     k_CNode_Copy = \<lambda>_ _ _ _ _ _ _ e. (0, e), k_CNode_Mint = \<lambda>_ _ _ _ _ _ _ _ e. (0, e), k_CNode_Move = \<lambda>_ _ _ _ _ _ e. (0, e),
     k_CNode_Mutate = \<lambda>_ _ _ _ _ _ _ e. (0, e), k_IRQControl_GetTrigger = \<lambda>_ _ _ _ _ _ e. (0, e), k_AllRights = 15,
     k_CNode_CapData_new = \<lambda>g n. 64 * g + n, k_ARM_Page_Map = \<lambda>_ _ _ _ _ e. (0, e), k_ARM_PageTable_Map = \<lambda>_ _ _ _ e. (0, e),
     k_ARM_PageDirectory_Map = \<lambda>_ _ _ _ e. (0, e), k_ARM_PageUpperDirectory_Map = \<lambda>_ _ _ _ e. (0, e),
     k_MappingFailedLookupLevel = \<lambda>_. SEL4_MAPPING_LOOKUP_NO_PT, k_Default_VMAttributes = 3\<rparr>"

definition ex_boot_space :: cspace where
  "ex_boot_space = zero_cspace\<lparr>cs_two_level := True, cs_top_lvl_size_bits := INITIAL_TASK_CNODE_SIZE_BITS, cs_top_bf := replicate 128 0,
     cs_n_bot_lvl_nodes := 1, cs_bot_lvl_nodes := [Some empty_node]\<rparr>"

lemma ex_recording: "recording 0 0 {} ex_boot_space"
proof -
  have "bf_bits (replicate 128 0) = {}" by (auto simp: bf_bits_def)
  then show ?thesis by (simp add: recording_def ex_boot_space_def INITIAL_TASK_CNODE_SIZE_BITS_def empty_node_def)
qed

definition ex_dma :: dma_t where
  "ex_dma = \<lparr>dm_vstart = 0x8000400000, dm_pstart = 0x200000, dm_pnext = 0x200000, dm_pend = 0x400000, dm_vspace = 3\<rparr>"

definition ex_cache :: "nat cache_kernel" where
  "ex_cache = \<lparr>k_VSpace_Invalidate_Data = \<lambda>_ _ _ k. (0, k), k_VSpace_Clean_Data = \<lambda>_ _ _ k. (0, k), k_VSpace_CleanInvalidate_Data = \<lambda>_ _ _ k. (0, k)\<rparr>"

section \<open>Properties\<close>

text \<open>Stealing memory for the start takes it from an untyped object that has enough left, and only from that one. When what was taken
  before from the object is a multiple of the size asked for, the memory lies inside the object right after what was taken before, and any
  later request from the same object is answered with an address behind it.\<close>

theorem steal_untyped_fits:
  assumes "steal_untyped bi size_bits avail = Some (cptr, paddr, avail')" "cptr \<noteq> seL4_CapNull"
  shows "\<exists>i u a. cptr = i + bi_untyped_start bi \<and> bi_untypedList bi ! i = u \<and> untyped_in_range u \<and> avail ! i = a \<and> avail' = avail[i := a - 2 ^ size_bits] \<and>
    (\<not> ud_isDevice u \<and> a \<le> 2 ^ ud_sizeBits u \<and> 2 ^ size_bits dvd 2 ^ ud_sizeBits u - a \<longrightarrow>
      paddr = ud_paddr u + (2 ^ ud_sizeBits u - a) \<and> paddr + 2 ^ size_bits \<le> ud_paddr u + 2 ^ ud_sizeBits u \<and>
      (\<forall>sz p. paddr_from_avail_bytes bi i sz avail' = Some p \<longrightarrow> paddr + 2 ^ size_bits \<le> p))"
proof -
  from assms(1) have "steal_loop bi size_bits [0..<n_untypeds bi] avail = Some (cptr, paddr, avail')" by (simp add: steal_untyped_def split: if_splits)
  from steal_loop_found [OF this] assms(2) obtain i a u where f: "arr_get (bi_untypedList bi) i = Some u" "untyped_in_range u" "arr_get avail i = Some a"
    "2 ^ size_bits \<le> a" "cptr = i + bi_untyped_start bi" "paddr_from_avail_bytes bi i size_bits avail = Some paddr" "avail' = avail[i := a - 2 ^ size_bits]"
    by (auto simp: seL4_CapNull_def)
  have i: "i < length avail" "i < length (bi_untypedList bi)" "avail ! i = a" "bi_untypedList bi ! i = u" using f(1,3) by (auto simp: arr_get_def split: if_splits)
  have "paddr = ud_paddr u + (2 ^ ud_sizeBits u - a) \<and> paddr + 2 ^ size_bits \<le> ud_paddr u + 2 ^ ud_sizeBits u \<and>
      (\<forall>sz p. paddr_from_avail_bytes bi i sz avail' = Some p \<longrightarrow> paddr + 2 ^ size_bits \<le> p)"
    if h: "\<not> ud_isDevice u" "a \<le> 2 ^ ud_sizeBits u" "2 ^ size_bits dvd 2 ^ ud_sizeBits u - a"
  proof (intro conjI allI impI)
    show p: "paddr = ud_paddr u + (2 ^ ud_sizeBits u - a)" using f(1,3,6) h by (simp add: paddr_from_avail_bytes_def round_up_dvd)
    show "paddr + 2 ^ size_bits \<le> ud_paddr u + 2 ^ ud_sizeBits u" using p f(4) h(2) by simp
    fix sz q assume "paddr_from_avail_bytes bi i sz avail' = Some q"
    then obtain m where "ROUND_UP (2 ^ ud_sizeBits u - (a - 2 ^ size_bits)) (2 ^ sz) = Some m" "q = ud_paddr u + m"
      using f(1,7) i h(1) by (auto simp: paddr_from_avail_bytes_def arr_get_def elim!: c_elims)
    then show "paddr + 2 ^ size_bits \<le> q" using round_up_ge p f(4) h(2) by fastforce
  qed
  then show ?thesis using f(2,5,7) i by blast
qed

lemma steal_untyped_fits_witness:
  "\<exists>i u a. 40 = i + bi_untyped_start ex_bootinfo \<and> bi_untypedList ex_bootinfo ! i = u \<and> untyped_in_range u \<and> [0x400000] ! i = (a :: nat)"
proof -
  have "steal_untyped ex_bootinfo 12 [0x400000] = Some (40, 0x400000, [0x3ff000])"
    by (simp add: steal_untyped_def n_untypeds_def ex_bootinfo_def arr_get_def arr_set_def untyped_in_range_def PHYSICAL_ADDRESS_LIMIT_def MAX_PHYSICAL_SIZE_BITS_def
        paddr_from_avail_bytes_def ROUND_UP_def seL4_PageBits_def seL4_MaxUntypedBits_def)
  from steal_untyped_fits [OF this] show ?thesis by (auto simp: seL4_CapNull_def)
qed

text \<open>When the memory taken before is not a multiple of the size asked for, the bytes skipped for the alignment stay counted as
  available: after a page and then a large page have been taken from an object of 4 MiB, the address computed for the rest of the object lies
  inside the large page.\<close>

theorem steal_untyped_overlap:
  "\<exists>paddr avail avail'. steal_untyped ex_bootinfo 12 [2 ^ 22] = Some (40, ud_paddr (bi_untypedList ex_bootinfo ! 0), avail) \<and>
    steal_untyped ex_bootinfo 21 avail = Some (40, paddr, avail') \<and>
    paddr_from_avail_bytes ex_bootinfo 0 seL4_PageBits avail' = Some (paddr + PAGE_SIZE_4K) \<and> PAGE_SIZE_4K < 2 ^ 21"
  by (simp add: steal_untyped_def n_untypeds_def ex_bootinfo_def arr_get_def arr_set_def untyped_in_range_def PHYSICAL_ADDRESS_LIMIT_def MAX_PHYSICAL_SIZE_BITS_def
      paddr_from_avail_bytes_def ROUND_UP_def seL4_PageBits_def seL4_MaxUntypedBits_def PAGE_SIZE_4K_def)

text \<open>C21. Retyping the rest of an untyped object into 4K objects ends, fills exactly the slots that the untyped table was told, in their
  order, and never asks the kernel for more objects at once than it allows or than fit into the cnode of the first one.\<close>

theorem boot_retype_slots:
  assumes "logs_retype V"
  shows "\<exists>calls. boot_retype V ut n_caps first_free_slot s = Some (first_free_slot + n_caps, s\<lparr>so_k := so_k s @ calls\<rparr>) \<and>
    concat (map call_slots calls) = [first_free_slot..<first_free_slot + n_caps] \<and>
    (\<forall>(c, off, m) \<in> set calls. 0 < m \<and> m \<le> CONFIG_RETYPE_FAN_OUT_LIMIT \<and> off + m \<le> CNODE_SLOTS CNODE_SIZE_BITS)"
  using assms by (rule boot_retype_calls)

lemma boot_retype_slots_witness:
  "\<forall>s. \<exists>calls. boot_retype log_kernel 40 500 100 s = Some (600, s\<lparr>so_k := so_k s @ calls\<rparr>) \<and> concat (map call_slots calls) = [100..<600]"
proof -
  have "logs_retype log_kernel" by (simp add: logs_retype_def log_kernel_def)
  from boot_retype_slots [OF this, of 40 500 100] show ?thesis by auto
qed

text \<open>C20. The recording of the slots in use at the end of the start forgets the bit fields of all full cnodes but the first of a node. When a
  slot of such a cnode is freed later, the next allocation answers with the first slot of that cnode, which the start has filled and nobody freed.\<close>

theorem boot_record_reuses:
  assumes "recording 0 0 {} cs" "first_free_slot < 169 * 128" "n_cnodes \<le> 169" "128 \<le> x" "x < 128 * (first_free_slot div 128)" "x mod 128 \<noteq> 0"
  shows "\<exists>cs1 cs2 cs3 y. boot_record first_free_slot n_cnodes cs = Some cs1 \<and> cspace_free_slot x cs1 = Some cs2 \<and>
    cspace_alloc_slot K A cs2 e = Some (y, cs3, e) \<and> y = 128 * (x div 128) \<and> y < first_free_slot \<and> y \<noteq> x"
proof -
  let ?t = "x div 128"
  have h: "first_free_slot div 128 < 169" using assms(2) by (simp add: div_less_iff_less_mult)
  have t: "0 < ?t" "?t < first_free_slot div 128" using assms(4,5) by (simp_all add: div_greater_zero_iff div_less_iff_less_mult mult.commute)
  obtain cs1 n where r: "boot_record first_free_slot n_cnodes cs = Some cs1" "recording n (first_free_slot div 128) {..<first_free_slot div 128} cs1" "first_free_slot div 128 < n"
    using boot_record_ok [OF assms(1-3)] by blast
  obtain cs2 where f: "cspace_free_slot (?t * 128 + x mod 128) cs1 = Some cs2" "recording n (first_free_slot div 128) ({..<first_free_slot div 128} - {?t}) cs2"
    using free_recorded [OF r(2) t r(3) h, of "x mod 128"] by auto
  obtain cs3 where "cspace_alloc_slot K A cs2 e = Some (?t * 128, cs3, e)" using alloc_recorded [OF f(2) t r(3) h, of K A e] by blast
  moreover have "?t * 128 \<noteq> x" using assms(6) div_mult_mod_eq [of x 128] by linarith
  moreover have "?t * 128 < first_free_slot" using t(2) div_mult_mod_eq [of first_free_slot 128] by linarith
  ultimately show ?thesis using r(1) f(1) by (auto simp: mult.commute)
qed

lemma boot_record_reuses_witness:
  "\<exists>cs1 cs2 cs3. boot_record 300 4 ex_boot_space = Some cs1 \<and> cspace_free_slot 200 cs1 = Some cs2 \<and>
    cspace_alloc_slot ex_kernel ex_alloc cs2 0 = Some (128, cs3, 0)"
  using boot_record_reuses [OF ex_recording, of 300 4 200 ex_kernel ex_alloc 0] by auto

text \<open>A request for DMA memory is answered with null addresses or with memory that starts behind everything handed out before, ends before
  the end of the page and has the alignment asked for; the two addresses of the answer belong to the same byte. So no two requests share memory.\<close>

theorem sos_dma_malloc_fresh:
  assumes "0 < align" "align < 2 ^ 31" "unat (dm_pnext d) < 2 ^ 62" "unat sz < 2 ^ 62"
  shows "\<exists>a d' k'. sos_dma_malloc K sz align d k = Some (a, d', k') \<and>
    (a = \<lparr>da_vaddr = 0, da_paddr = 0\<rparr> \<and> dm_pnext d \<le> dm_pnext d' \<or>
     dm_pnext d \<le> da_paddr a \<and> unat (dm_pnext d') = unat (da_paddr a) + unat sz \<and> dm_pnext d' < dm_pend d \<and>
     int (unat (da_paddr a)) mod align = 0 \<and> sos_dma_virt_to_phys d' (da_vaddr a) = da_paddr a)"
  using dma_malloc_total [OF assms, of K k] by (elim exE conjE) (intro exI conjI)

lemma sos_dma_malloc_fresh_witness:
  "\<exists>a d' k'. sos_dma_malloc ex_cache 64 16 ex_dma 0 = Some (a, d', k')"
  using sos_dma_malloc_fresh [of 16 ex_dma 64 ex_cache 0] by (auto simp: ex_dma_def)

text \<open>The alignment to a multiple of 128 that every answer is meant to have is not kept: the number of bits is used as the multiple.\<close>

theorem sos_dma_malloc_align:
  "\<exists>a d'. sos_dma_malloc ex_cache 64 1 ex_dma 0 = Some (a, d', 0) \<and> da_paddr a mod 2 ^ DMA_ALIGN_BITS = 6 \<and> da_paddr a mod of_nat DMA_ALIGN_BITS = 0"
  by (simp add: sos_dma_malloc_def DMA_ALIGN_def DMA_ALIGN_BITS_def ROUND_UP_def ex_dma_def ex_cache_def Let_def sos_dma_cache_clean_invalidate_def)

end
