(* ===== verification/Irq.thy ===== *)
theory Irq
  imports Ut_System
begin

text \<open>
  Interrupt dispatch, \<^verbatim>\<open>sos/src/irq.c\<close>: a bit of the notification badge for each registered interrupt, and the loop that calls the handlers
  of the bits of a badge. A callback is a number, null for none; what it does is a parameter that acts on the rest of the system.
\<close>

section \<open>State\<close>

definition seL4_BadgeBits :: nat where "seL4_BadgeBits = 64"
definition VIRTUAL_UART_RECV_IRQ :: nat where "VIRTUAL_UART_RECV_IRQ = 0xfff"
definition EINVAL :: int where "EINVAL = 22"
definition ENOMEM :: int where "ENOMEM = 12"

record irq_handler_t =
  ih_irq :: nat
  ih_irq_handler :: nat
  ih_notification :: nat
  ih_callback :: nat
  ih_data :: nat

record irq_dispatch_t =
  iq_irq_control :: nat
  iq_notification :: nat
  iq_flag_bits :: u64
  iq_ident_bits :: u64
  iq_allocated_bits :: u64
  iq_handlers :: "irq_handler_t list"

record 'e irq_kernel =
  iqk_kernel :: "'e kernel"
  iqk_IRQHandler_SetNotification :: "nat \<Rightarrow> nat \<Rightarrow> 'e \<Rightarrow> nat \<times> 'e"
  iqk_CanWrite :: nat

section \<open>Operations\<close>

definition sos_init_irq_dispatch :: "nat \<Rightarrow> nat \<Rightarrow> u64 \<Rightarrow> u64 \<Rightarrow> irq_dispatch_t \<Rightarrow> irq_dispatch_t option" where
  "sos_init_irq_dispatch irq_control notification flag_bits ident_bits d = do {
     cassert (flag_bits AND ident_bits = 0);
     Some (d\<lparr>iq_irq_control := irq_control, iq_notification := notification, iq_flag_bits := flag_bits, iq_ident_bits := ident_bits,
             iq_allocated_bits := NOT ident_bits\<rparr>) }"

text \<open>Shifting by the width of the word is undefined, so running out of bits is no result.\<close>

definition alloc_irq_bit :: "irq_dispatch_t \<Rightarrow> (nat \<times> irq_dispatch_t) option" where
  "alloc_irq_bit d = do {
     b \<leftarrow> bf_first_free 1 [iq_allocated_bits d];
     cassert (b < 64);
     Some (b, d\<lparr>iq_allocated_bits := iq_allocated_bits d OR BIT b\<rparr>) }"

definition free_irq_bit :: "nat \<Rightarrow> irq_dispatch_t \<Rightarrow> irq_dispatch_t" where
  "free_irq_bit b d = d\<lparr>iq_allocated_bits := iq_allocated_bits d AND NOT (BIT b)\<rparr>"

text \<open>The result is the return code, the new state and the handler capability that a caller may have asked for.\<close>

definition sos_register_irq_handler ::
    "'e irq_kernel \<Rightarrow> 'e cspace_alloc \<Rightarrow> nat \<Rightarrow> bool \<Rightarrow> nat \<Rightarrow> nat \<Rightarrow> irq_dispatch_t \<Rightarrow> cspace \<Rightarrow> 'e \<Rightarrow>
     (int \<times> nat \<times> irq_dispatch_t \<times> cspace \<times> 'e) option" where
  "sos_register_irq_handler Q A irq edge callback data d cs e =
     (if irq = VIRTUAL_UART_RECV_IRQ then Some (EINVAL, 0, d, cs, e)
      else do {
        let K = iqk_kernel Q;
        (ident_bit, d) \<leftarrow> alloc_irq_bit d;
        if ident_bit \<ge> seL4_BadgeBits then Some (ENOMEM, 0, d, cs, e)
        else do {
          (handler, cs, e) \<leftarrow> cspace_alloc_slot K A cs e;
          if handler = 0 then Some (ENOMEM, 0, free_irq_bit ident_bit d, cs, e)
          else do {
            (notification, cs, e) \<leftarrow> cspace_alloc_slot K A cs e;
            if notification = 0 then do {
              cs \<leftarrow> cspace_free_slot handler cs;
              Some (ENOMEM, 0, free_irq_bit ident_bit d, cs, e) }
            else do {
              (err, e) \<leftarrow> Some (cspace_irq_control_get K cs handler (iq_irq_control d) irq (if edge then 1 else 0) e);
              if err \<noteq> 0 then do {
                cs \<leftarrow> cspace_free_slot handler cs;
                cs \<leftarrow> cspace_free_slot notification cs;
                Some (int err, 0, free_irq_bit ident_bit d, cs, e) }
              else do {
                let badge = iq_flag_bits d OR BIT ident_bit;
                (err, e) \<leftarrow> Some (cspace_mint K cs notification cs (iq_notification d) (iqk_CanWrite Q) (unat badge) e);
                if err \<noteq> 0 then do {
                  (_, e) \<leftarrow> Some (cspace_delete K cs handler e);
                  cs \<leftarrow> cspace_free_slot handler cs;
                  cs \<leftarrow> cspace_free_slot notification cs;
                  Some (int err, 0, free_irq_bit ident_bit d, cs, e) }
                else do {
                  (err, e) \<leftarrow> Some (iqk_IRQHandler_SetNotification Q handler notification e);
                  if err \<noteq> 0 then do {
                    (_, e) \<leftarrow> Some (cspace_delete K cs notification e);
                    (_, e) \<leftarrow> Some (cspace_delete K cs handler e);
                    cs \<leftarrow> cspace_free_slot handler cs;
                    cs \<leftarrow> cspace_free_slot notification cs;
                    Some (int err, 0, free_irq_bit ident_bit d, cs, e) }
                  else do {
                    hs \<leftarrow> arr_set (iq_handlers d) ident_bit
                      \<lparr>ih_irq = irq, ih_irq_handler = handler, ih_notification = notification, ih_callback = callback, ih_data = data\<rparr>;
                    Some (0, handler, d\<lparr>iq_handlers := hs\<rparr>, cs, e) } } } } } } })"

text \<open>What the callback \<open>f\<close> does with its data, the interrupt and the handler.\<close>

type_synonym 'e callbacks = "nat \<Rightarrow> nat \<Rightarrow> nat \<Rightarrow> nat \<Rightarrow> 'e \<Rightarrow> int \<times> 'e"

definition dispatch_irq :: "'e callbacks \<Rightarrow> irq_handler_t \<Rightarrow> 'e \<Rightarrow> int \<times> 'e" where
  "dispatch_irq call h e = (if ih_callback h \<noteq> 0 then call (ih_callback h) (ih_data h) (ih_irq h) (ih_irq_handler h) e else (-1, e))"

lemma cleared_less:
  fixes u :: u64
  assumes "u \<noteq> 0"
  shows "u AND (badge AND NOT (BIT (ctzl u))) < u"
proof -
  let ?v = "u AND (badge AND NOT (BIT (ctzl u)))"
  have "?v AND u = ?v" by (simp add: and.commute and.left_commute)
  then have "?v \<le> u" by (metis word_and_le1)
  moreover have "bit u (ctzl u)" "ctzl u < 64" using ctzl_bit [OF assms] by simp_all
  then have "\<not> bit ?v (ctzl u)" by (simp add: bit_and_iff bit_not_iff)
  ultimately show ?thesis using \<open>bit u (ctzl u)\<close> by (metis order_le_less)
qed

function handle_loop :: "'e callbacks \<Rightarrow> irq_handler_t list \<Rightarrow> u64 \<Rightarrow> u64 \<Rightarrow> 'e \<Rightarrow> (int \<times> u64 \<times> 'e) option" where
  "handle_loop call hs unchecked_bits badge e =
     (if unchecked_bits = 0 then Some (0, badge, e)
      else do {
        h \<leftarrow> arr_get hs (ctzl unchecked_bits);
        (err, e) \<leftarrow> Some (dispatch_irq call h e);
        if err \<noteq> 0 then Some (err, badge, e)
        else handle_loop call hs (unchecked_bits AND (badge AND NOT (BIT (ctzl unchecked_bits)))) (badge AND NOT (BIT (ctzl unchecked_bits))) e })"
  by pat_completeness auto
termination
  by (relation "measure (\<lambda>(call, hs, u, badge, e). unat u)") (auto simp: cleared_less word_less_nat_alt [symmetric])

declare handle_loop.simps [simp del]

text \<open>The result is the return code, the badge and the flag \<open>have_reply\<close>.\<close>

definition sos_handle_irq_notification ::
    "'e callbacks \<Rightarrow> irq_dispatch_t \<Rightarrow> u64 \<Rightarrow> bool \<Rightarrow> 'e \<Rightarrow> (int \<times> u64 \<times> bool \<times> 'e) option" where
  "sos_handle_irq_notification call d badge have_reply e = do {
     let unchecked_bits = badge AND iq_allocated_bits d AND iq_ident_bits d;
     (err, badge, e) \<leftarrow> handle_loop call (iq_handlers d) unchecked_bits badge e;
     if err \<noteq> 0 then Some (err, badge, have_reply, e)
     else Some (0, badge, False, e) }"

section \<open>Dispatch\<close>

text \<open>The specification: the handlers of a list of bits, in order, until one fails; each success clears its bit.\<close>

fun dispatch_bits :: "'e callbacks \<Rightarrow> irq_handler_t list \<Rightarrow> nat list \<Rightarrow> u64 \<Rightarrow> 'e \<Rightarrow> int \<times> u64 \<times> 'e" where
  "dispatch_bits call hs [] badge e = (0, badge, e)"
| "dispatch_bits call hs (b # bs) badge e =
     (case dispatch_irq call (hs ! b) e of
        (err, e) \<Rightarrow> if err \<noteq> 0 then (err, badge, e) else dispatch_bits call hs bs (badge AND NOT (BIT b)) e)"

definition bits_of :: "u64 \<Rightarrow> nat list" where
  "bits_of w = filter (bit w) [0..<64]"

lemma bits_of_0 [simp]: "bits_of 0 = []"
  by (simp add: bits_of_def)

lemma bits_of_least:
  assumes "u \<noteq> 0"
  shows "bits_of u = ctzl u # bits_of (u AND NOT (BIT (ctzl u)))"
proof -
  note c = ctzl_bit [OF assms]
  have split: "[0..<64] = [0..<ctzl u] @ ctzl u # [Suc (ctzl u)..<64]"
    using c(1) by (metis le0 less_imp_le_nat upt_add_eq_append upt_conv_Cons le_add_diff_inverse)
  have lo: "filter (bit u) [0..<ctzl u] = []" "filter (bit (u AND NOT (BIT (ctzl u)))) [0..<ctzl u] = []"
    using c(3) by (auto simp: filter_empty_conv bit_and_iff)
  have hi: "filter (bit (u AND NOT (BIT (ctzl u)))) [Suc (ctzl u)..<64] = filter (bit u) [Suc (ctzl u)..<64]"
    using c(1) by (intro filter_cong) (auto simp: bit_and_iff bit_not_iff)
  show ?thesis unfolding bits_of_def split using lo hi c(1,2) by (simp add: bit_and_iff bit_not_iff)
qed

lemma and_not_absorb: "u AND badge = u \<Longrightarrow> u AND (badge AND x) = u AND (x :: u64)"
  by (simp flip: and.assoc)

lemma handle_loop_eq:
  assumes "length hs = 64" "u AND badge = u"
  shows "handle_loop call hs u badge e = Some (dispatch_bits call hs (bits_of u) badge e)"
  using assms
proof (induction call hs u badge e rule: handle_loop.induct)
  case (1 call hs u badge e)
  show ?case
  proof (cases "u = 0")
    case True then show ?thesis by (simp add: handle_loop.simps)
  next
    case False
    note c = ctzl_bit [OF False]
    let ?n = "NOT (BIT (ctzl u))"
    obtain err e' where d: "dispatch_irq call (hs ! ctzl u) e = (err, e')" by (cases "dispatch_irq call (hs ! ctzl u) e") auto
    have g: "arr_get hs (ctzl u) = Some (hs ! ctzl u)" using c(1) "1.prems"(1) by (simp add: arr_get_def)
    show ?thesis
    proof (cases "err = 0")
      case e: False then show ?thesis using False g d by (simp add: handle_loop.simps [of call hs u] bits_of_least)
    next
      case e: True
      have u: "u AND (badge AND ?n) = u AND ?n" by (rule and_not_absorb [OF "1.prems"(2)])
      have "(u AND ?n) AND (badge AND ?n) = u AND ?n" using u by (metis and.assoc and.commute and.idem)
      then have "handle_loop call hs (u AND (badge AND ?n)) (badge AND ?n) e' = Some (dispatch_bits call hs (bits_of (u AND ?n)) (badge AND ?n) e')"
        using "1.IH" [OF False g refl d [symmetric]] e "1.prems"(1) unfolding u by simp
      then show ?thesis using False g d e u by (simp add: handle_loop.simps [of call hs u] bits_of_least [OF False])
    qed
  qed
qed

lemma dispatch_bits_badge: "dispatch_bits call hs bs badge e = (0, badge', e') \<Longrightarrow> bit badge' i \<longleftrightarrow> bit badge i \<and> i \<notin> set bs"
proof (induction bs arbitrary: badge e)
  case (Cons b bs)
  then show ?case by (auto simp: bit_and_iff bit_not_iff split: prod.splits if_splits dest: bit_imp_le_length)
qed simp

section \<open>Registration\<close>

definition irq_inv :: "irq_dispatch_t \<Rightarrow> bool" where
  "irq_inv d \<longleftrightarrow> iq_flag_bits d AND iq_ident_bits d = 0 \<and> NOT (iq_ident_bits d) AND iq_allocated_bits d = NOT (iq_ident_bits d) \<and> length (iq_handlers d) = seL4_BadgeBits"

lemma bf_bits_one: "b \<in> bf_bits [w] \<longleftrightarrow> bit w b"
  by (cases "b < 64") (auto simp: bf_bits_def dest: bit_imp_le_length)

lemma alloc_irq_bit_ok:
  assumes "irq_inv d" "iq_allocated_bits d \<noteq> - 1"
  shows "\<exists>b. alloc_irq_bit d = Some (b, d\<lparr>iq_allocated_bits := iq_allocated_bits d OR BIT b\<rparr>) \<and> b < 64 \<and> bit (iq_ident_bits d) b \<and>
    \<not> bit (iq_allocated_bits d) b \<and> (\<forall>j < b. bit (iq_allocated_bits d) j)"
proof -
  let ?a = "iq_allocated_bits d"
  obtain b where b: "bf_first_free 1 [?a] = Some b" "\<forall>j < b. j \<in> bf_bits [?a]" "b \<notin> bf_bits [?a]" "b \<le> 64"
    using bf_first_free_least [of 1 "[?a]"] by auto
  have "b \<noteq> 64"
  proof
    assume "b = 64"
    then have "bit ?a j" if "j < 64" for j using b(2) that by (simp add: bf_bits_one)
    then have "?a = - 1" by (intro bit_word_eqI) simp
    then show False using assms(2) by simp
  qed
  moreover have "bit (iq_ident_bits d) b"
  proof (rule ccontr)
    assume "\<not> bit (iq_ident_bits d) b"
    then have "bit (NOT (iq_ident_bits d)) b" using \<open>b \<noteq> 64\<close> b(4) by (simp add: bit_not_iff)
    moreover have "NOT (iq_ident_bits d) AND ?a = NOT (iq_ident_bits d)" using assms(1) by (simp add: irq_inv_def)
    ultimately show False using b(3) by (metis bf_bits_one bit_and_iff)
  qed
  ultimately show ?thesis using b by (intro exI [of _ b]) (simp add: alloc_irq_bit_def bf_bits_one)
qed

lemma free_irq_bit_undo: "\<not> bit (iq_allocated_bits d) b \<Longrightarrow> free_irq_bit b (d\<lparr>iq_allocated_bits := iq_allocated_bits d OR BIT b\<rparr>) = d"
proof -
  assume "\<not> bit (iq_allocated_bits d) b"
  then have "(iq_allocated_bits d OR BIT b) AND NOT (BIT b) = iq_allocated_bits d"
    by (intro bit_word_eqI) (auto simp: bit_and_iff bit_or_iff bit_not_iff)
  then show ?thesis by (simp add: free_irq_bit_def)
qed

lemma take_two_slots:
  assumes "pool_ok cs" "cspace_alloc_slot K A cs e = Some (x, c1, e1)" "x \<noteq> 0" "cspace_alloc_slot K A c1 e1 = Some (y, c2, e2)"
  shows "grows cs c1" "grows cs c2" "x \<in> slots c2" "x \<notin> slots cs" "x < top_slots c2 * 128"
    "y \<noteq> 0 \<Longrightarrow> y \<in> slots c2 \<and> y \<notin> slots cs \<and> y < top_slots c2 * 128 \<and> y \<noteq> x"
  using grows_alloc [OF assms(1), of K A e] grows_alloc [of c1 K A e1] assms(2-4) by (auto simp: grows_def)

lemma free_two_slots:
  assumes g: "grows cs c2" and x: "x \<in> slots c2" "x \<notin> slots cs" "x < top_slots c2 * 128" "x \<noteq> 0"
    and y: "y \<in> slots c2" "y \<notin> slots cs" "y < top_slots c2 * 128" "y \<noteq> x" "y \<noteq> 0"
  shows "\<exists>c3 c4. cspace_free_slot x c2 = Some c3 \<and> cspace_free_slot y c3 = Some c4 \<and> grows cs c4"
proof -
  obtain c3 where c3: "cspace_free_slot x c2 = Some c3" "grows cs c3" "slots c3 = slots c2 - {x}" using grows_free [OF g x(1,2,4,3)] by blast
  have "y \<in> slots c3" "y < top_slots c3 * 128" using c3 g y by (auto simp: grows_def)
  from grows_free [OF c3(2) this(1) y(2,5) this(2)] show ?thesis using c3(1) by blast
qed


text \<open>A registration returns once a bit is left; only a success changes the dispatch state.\<close>

lemma register_total:
  assumes inv: "irq_inv d" "iq_allocated_bits d \<noteq> - 1" and ok: "pool_ok cs" and irq: "irq \<noteq> VIRTUAL_UART_RECV_IRQ"
  shows "\<exists>err h d' cs' e'. sos_register_irq_handler Q A irq edge f data d cs e = Some (err, h, d', cs', e') \<and> grows cs cs' \<and>
    (err \<noteq> 0 \<and> d' = d \<or>
     (\<exists>b n. err = 0 \<and> bit (iq_ident_bits d) b \<and> \<not> bit (iq_allocated_bits d) b \<and> h \<in> slots cs' - slots cs \<and> n \<in> slots cs' - slots cs \<and> n \<noteq> h \<and>
        d' = d\<lparr>iq_allocated_bits := iq_allocated_bits d OR BIT b,
               iq_handlers := (iq_handlers d)[b := \<lparr>ih_irq = irq, ih_irq_handler = h, ih_notification = n, ih_callback = f, ih_data = data\<rparr>]\<rparr>))"
proof -
  let ?K = "iqk_kernel Q"
  obtain b where b: "alloc_irq_bit d = Some (b, d\<lparr>iq_allocated_bits := iq_allocated_bits d OR BIT b\<rparr>)" "b < 64" "bit (iq_ident_bits d) b" "\<not> bit (iq_allocated_bits d) b"
    using alloc_irq_bit_ok [OF inv] by blast
  let ?d = "d\<lparr>iq_allocated_bits := iq_allocated_bits d OR BIT b\<rparr>"
  note u = free_irq_bit_undo [OF b(4)]
  have nb: "\<not> seL4_BadgeBits \<le> b" using b(2) by (simp add: seL4_BadgeBits_def)
  obtain x c1 e1 where x: "cspace_alloc_slot ?K A cs e = Some (x, c1, e1)" "grows cs c1" "x \<noteq> 0 \<longrightarrow> x \<notin> slots cs \<and> x \<in> slots c1 \<and> x < top_slots c1 * 128"
    using grows_alloc [OF ok, of ?K A e] by blast
  note step1 = sos_register_irq_handler_def [of Q A irq edge f data d cs e] irq b(1) nb x(1)
  show ?thesis
  proof (cases "x = 0")
    case True then show ?thesis using step1 x(2) u by (auto simp: ENOMEM_def)
  next
    case x0: False
    obtain y c2 e2 where y: "cspace_alloc_slot ?K A c1 e1 = Some (y, c2, e2)" using grows_alloc [OF grows_ok [OF x(2)], of ?K A e1] by blast
    note two = take_two_slots [OF ok x(1) x0 y]
    show ?thesis
    proof (cases "y = 0")
      case True
      obtain c3 where "cspace_free_slot x c2 = Some c3" "grows cs c3" using grows_free [OF two(2,3,4) x0 two(5)] by blast
      then show ?thesis using True step1 x0 y u by (auto simp: ENOMEM_def)
    next
      case y0: False
      obtain c3 c4 where fr: "cspace_free_slot x c2 = Some c3" "cspace_free_slot y c3 = Some c4" "grows cs c4"
        using free_two_slots [OF two(2,3,4,5) x0] two(6) [OF y0] y0 by blast
      obtain r1 e3 where r1: "cspace_irq_control_get ?K c2 x (iq_irq_control d) irq (if edge then 1 else 0) e2 = (r1, e3)" by fastforce
      obtain r2 e4 where r2: "cspace_mint ?K c2 y c2 (iq_notification d) (iqk_CanWrite Q) (unat (iq_flag_bits d OR BIT b)) e3 = (r2, e4)" by fastforce
      obtain r3 e5 where r3: "iqk_IRQHandler_SetNotification Q x y e4 = (r3, e5)" by fastforce
      have len: "b < length (iq_handlers d)" using inv(1) b(2) by (simp add: irq_inv_def seL4_BadgeBits_def)
      have xy: "x \<in> slots c2 - slots cs" "y \<in> slots c2 - slots cs" "y \<noteq> x" using two(3,4) two(6) [OF y0] by auto
      note run = step1 x0 y y0 fr u r1 r2 r3
      let ?run = "sos_register_irq_handler Q A irq edge f data d cs e"
      have fail: ?thesis if "?run = Some (int r, 0, d, c4, e')" "r \<noteq> 0" for r e' using that fr(3) by auto
      consider "r1 \<noteq> 0" | "r1 = 0" "r2 \<noteq> 0" | "r1 = 0" "r2 = 0" "r3 \<noteq> 0" | "r1 = 0" "r2 = 0" "r3 = 0" by blast
      then show ?thesis
      proof cases
        case 1
        then have "?run = Some (int r1, 0, d, c4, e3)" using run by (simp add: Let_def)
        then show ?thesis using 1 by (rule fail)
      next
        case 2
        obtain r e' where "cspace_delete ?K c2 x e4 = (r, e')" by fastforce
        then have "?run = Some (int r2, 0, d, c4, e')" using run 2 by (simp add: Let_def)
        then show ?thesis using 2(2) by (rule fail)
      next
        case 3
        obtain r e' r' e'' where "cspace_delete ?K c2 y e5 = (r, e')" "cspace_delete ?K c2 x e' = (r', e'')" by fastforce
        then have "?run = Some (int r3, 0, d, c4, e'')" using run 3 by (simp add: Let_def)
        then show ?thesis using 3(3) by (rule fail)
      next
        case 4
        then have "?run = Some (0, x, ?d\<lparr>iq_handlers := (iq_handlers d)[b :=
            \<lparr>ih_irq = irq, ih_irq_handler = x, ih_notification = y, ih_callback = f, ih_data = data\<rparr>]\<rparr>, c2, e5)"
          using run len by (simp add: Let_def arr_set_def)
        then show ?thesis using two(2) b(3,4) xy by blast
      qed
    qed
  qed
qed


lemma irq_inv_set: "irq_inv d \<Longrightarrow> irq_inv (d\<lparr>iq_allocated_bits := iq_allocated_bits d OR x, iq_handlers := (iq_handlers d)[b := h]\<rparr>)"
proof -
  assume i: "irq_inv d"
  then have n: "NOT (iq_ident_bits d) AND iq_allocated_bits d = NOT (iq_ident_bits d)" by (simp add: irq_inv_def)
  have "bit (NOT (iq_ident_bits d)) k \<Longrightarrow> bit (iq_allocated_bits d) k" for k by (subst (asm) n [symmetric]) (simp add: bit_and_iff)
  then have "NOT (iq_ident_bits d) AND (iq_allocated_bits d OR x) = NOT (iq_ident_bits d)"
    by (intro bit_word_eqI) (auto simp: bit_and_iff bit_or_iff)
  then show ?thesis using i by (simp add: irq_inv_def)
qed

section \<open>Properties\<close>

definition ex_irq :: irq_dispatch_t where
  "ex_irq = \<lparr>iq_irq_control = 4, iq_notification = 30, iq_flag_bits = 8, iq_ident_bits = 7, iq_allocated_bits = NOT 7,
     iq_handlers = replicate 64 \<lparr>ih_irq = 0, ih_irq_handler = 0, ih_notification = 0, ih_callback = 0, ih_data = 0\<rparr>\<rparr>"

lemma ex_irq_ok: "irq_inv ex_irq" "iq_allocated_bits ex_irq \<noteq> - 1"
  by (simp_all add: irq_inv_def ex_irq_def seL4_BadgeBits_def)



text \<open>C25. Handling a notification ends and calls the handlers of exactly those bits of the badge that identify registered interrupts, lowest bit
  first, until one of them fails; every handler that succeeds clears its bit in the badge, so when all succeed exactly those bits are cleared
  and no reply is sent.\<close>

theorem sos_handle_irq_notification_calls:
  assumes "irq_inv d"
  shows "\<exists>err badge' e'. dispatch_bits call (iq_handlers d) (bits_of (badge AND iq_allocated_bits d AND iq_ident_bits d)) badge e = (err, badge', e') \<and>
    sos_handle_irq_notification call d badge have_reply e = Some (err, badge', err \<noteq> 0 \<and> have_reply, e') \<and>
    (err = 0 \<longrightarrow> badge' = badge AND NOT (iq_allocated_bits d AND iq_ident_bits d))"
proof -
  let ?u = "badge AND iq_allocated_bits d AND iq_ident_bits d"
  obtain err badge' e' where r: "dispatch_bits call (iq_handlers d) (bits_of ?u) badge e = (err, badge', e')"
    by (cases "dispatch_bits call (iq_handlers d) (bits_of ?u) badge e") auto
  have "length (iq_handlers d) = 64" "?u AND badge = ?u" using assms by (simp_all add: irq_inv_def seL4_BadgeBits_def and.left_commute and.commute)
  from handle_loop_eq [OF this, of call e] r have "handle_loop call (iq_handlers d) ?u badge e = Some (err, badge', e')" by simp
  moreover have "badge' = badge AND NOT (iq_allocated_bits d AND iq_ident_bits d)" if "err = 0"
  proof (rule bit_word_eqI)
    fix i assume "i < LENGTH(64)"
    then show "bit badge' i \<longleftrightarrow> bit (badge AND NOT (iq_allocated_bits d AND iq_ident_bits d)) i"
      unfolding dispatch_bits_badge [OF r [unfolded that], of i] by (auto simp: bits_of_def bit_and_iff bit_not_iff bit_or_iff)
  qed
  ultimately show ?thesis using r by (auto simp: sos_handle_irq_notification_def Let_def)
qed

lemma sos_handle_irq_notification_calls_witness:
  "\<exists>err badge' e'. sos_handle_irq_notification (\<lambda>_ _ _ _ e. (0, e + 1)) ex_irq 9 True (0 :: nat) = Some (err, badge', err \<noteq> 0 \<and> True, e')"
  using sos_handle_irq_notification_calls [OF ex_irq_ok(1), of "\<lambda>_ _ _ _ e. (0, e + 1)" 9 0 True] by blast

end
