(* ===== verification/Client_Table.thy ===== *)
theory Client_Table
  imports Sos_Prelude
begin

text \<open>
  The table of clients of the system call interface and the badges that identify them, \<^verbatim>\<open>libipc/src/ipc.c\<close> with \<^verbatim>\<open>ipc.h\<close> and
  \<^verbatim>\<open>ipc_common.h\<close>. Client records live in a heap; the addresses that \<^verbatim>\<open>calloc\<close> and the virtual memory module return are
  arguments of the operation that asks for them, zero for a failure.
\<close>

section \<open>Messages\<close>

definition SOS_IPC_MSG_WORDS :: nat where "SOS_IPC_MSG_WORDS = 4"

record sos_ipc_msg_t =
  im_sysno :: u32
  im_arg :: u64
  im_buf_addr :: u64
  im_buf_size :: u64

text \<open>The fields of a message header that the code uses.\<close>

record msg_info =
  mi_label :: nat
  mi_extraCaps :: nat
  mi_length :: nat

text \<open>A message is serialised into the message registers, here the list of their contents; the argument is \<open>None\<close> for a null pointer.\<close>

definition sos_serialise_ipc_msg :: "sos_ipc_msg_t option \<Rightarrow> u64 list \<Rightarrow> (msg_info \<times> u64 list) option" where
  "sos_serialise_ipc_msg msg mrs =
     (case msg of
        None \<Rightarrow> Some (\<lparr>mi_label = 0, mi_extraCaps = 0, mi_length = 0\<rparr>, mrs)
      | Some msg \<Rightarrow> do {
          mrs \<leftarrow> arr_set mrs 0 (ucast (im_sysno msg));
          mrs \<leftarrow> arr_set mrs 1 (im_arg msg);
          mrs \<leftarrow> arr_set mrs 2 (im_buf_addr msg);
          mrs \<leftarrow> arr_set mrs 3 (im_buf_size msg);
          Some (\<lparr>mi_label = 0, mi_extraCaps = 0, mi_length = SOS_IPC_MSG_WORDS\<rparr>, mrs) })"

text \<open>The flag tells whether there is an output to write to; the second result is what is written to it, if anything.\<close>

definition sos_deserialise_ipc_msg :: "msg_info option \<Rightarrow> bool \<Rightarrow> u64 list \<Rightarrow> (int \<times> sos_ipc_msg_t option) option" where
  "sos_deserialise_ipc_msg info out mrs =
     (case info of
        None \<Rightarrow> Some (-1, None)
      | Some info \<Rightarrow>
          if \<not> out then Some (-1, None)
          else if mi_length info < SOS_IPC_MSG_WORDS \<or> mi_extraCaps info \<noteq> 0 then
            Some (-1, Some \<lparr>im_sysno = 0, im_arg = 0, im_buf_addr = 0, im_buf_size = 0\<rparr>)
          else do {
            sysno \<leftarrow> arr_get mrs 0;
            arg \<leftarrow> arr_get mrs 1;
            buf_addr \<leftarrow> arr_get mrs 2;
            buf_size \<leftarrow> arr_get mrs 3;
            Some (0, Some \<lparr>im_sysno = ucast sysno, im_arg = arg, im_buf_addr = buf_addr, im_buf_size = buf_size\<rparr>) })"

section \<open>Badges\<close>

definition MAX_CLIENTS :: nat where "MAX_CLIENTS = 128"
definition ID_BITS :: nat where "ID_BITS = 7"
definition GEN_BITS :: nat where "GEN_BITS = 8"
definition ID_MASK :: u64 where "ID_MASK = 2 ^ ID_BITS - 1"
definition GEN_MASK :: u64 where "GEN_MASK = 2 ^ GEN_BITS - 1"
definition GEN_SHIFT :: nat where "GEN_SHIFT = ID_BITS"

definition badge_make :: "u32 \<Rightarrow> u32 \<Rightarrow> u64 \<Rightarrow> u64 option" where
  "badge_make i gen flags = do {
     let LOW_MASK = (2 ^ (ID_BITS + GEN_BITS) - 1 :: u64);
     cassert (flags AND LOW_MASK = 0);
     Some ((ucast i AND ID_MASK) OR push_bit GEN_SHIFT (ucast gen AND GEN_MASK) OR flags) }"

definition badge_id :: "u64 \<Rightarrow> u32" where
  "badge_id b = ucast (b AND ID_MASK)"

definition badge_gen :: "u64 \<Rightarrow> u32" where
  "badge_gen b = ucast (drop_bit ID_BITS b AND GEN_MASK)"

section \<open>The table\<close>

record client_t =
  cl_id :: nat
  cl_gen :: u8
  cl_vspace :: nat
  cl_vm_state :: nat

record client_table =
  ct_clients :: "nat list"
  ct_generations :: "u8 list"
  ct_free_ids :: "nat list"
  ct_free_top :: nat
  ct_heap :: "nat \<rightharpoonup> client_t"

definition client_table_init :: "client_table \<Rightarrow> client_table" where
  "client_table_init t = t\<lparr>ct_free_ids := [0..<MAX_CLIENTS], ct_free_top := MAX_CLIENTS, ct_clients := replicate MAX_CLIENTS 0,
     ct_generations := replicate MAX_CLIENTS 0\<rparr>"

definition push_id :: "nat \<Rightarrow> client_table \<Rightarrow> client_table option" where
  "push_id i t = do {
     ids \<leftarrow> arr_set (ct_free_ids t) (ct_free_top t) i;
     Some (t\<lparr>ct_free_ids := ids, ct_free_top := ct_free_top t + 1\<rparr>) }"

text \<open>The result is the client and its badge. The address \<open>c\<close> is the one that \<^verbatim>\<open>calloc\<close> returns, \<open>vm\<close> the state that \<^verbatim>\<open>vm_state_acquire\<close>
  returns.\<close>

definition client_create :: "nat \<Rightarrow> nat \<Rightarrow> nat \<Rightarrow> client_table \<Rightarrow> (nat \<times> u64 \<times> client_table) option" where
  "client_create vspace_root c vm t =
     (if ct_free_top t = 0 then Some (0, 0, t)
      else do {
        let t = t\<lparr>ct_free_top := ct_free_top t - 1\<rparr>;
        i \<leftarrow> arr_get (ct_free_ids t) (ct_free_top t);
        g \<leftarrow> arr_get (ct_generations t) i;
        let gen = g + 1;
        gens \<leftarrow> arr_set (ct_generations t) i gen;
        let t = t\<lparr>ct_generations := gens\<rparr>;
        if c = 0 then do { t \<leftarrow> push_id i t; Some (0, 0, t) }
        else do {
          let client = \<lparr>cl_id = i, cl_gen = gen, cl_vspace = vspace_root, cl_vm_state = vm\<rparr>;
          if vm = 0 then do { t \<leftarrow> push_id i t; Some (0, 0, t) }
          else do {
            cs \<leftarrow> arr_set (ct_clients t) i c;
            badge \<leftarrow> badge_make (of_nat i) (ucast gen) 0;
            Some (c, badge, t\<lparr>ct_clients := cs, ct_heap := (ct_heap t)(c \<mapsto> client)\<rparr>) } } })"

definition client_lookup :: "u64 \<Rightarrow> client_table \<Rightarrow> nat option" where
  "client_lookup badge t = do {
     let i = unat (badge_id badge);
     let gen = badge_gen badge;
     c \<leftarrow> (if i < MAX_CLIENTS then arr_get (ct_clients t) i else Some 0);
     if c = 0 then Some 0
     else do {
       g \<leftarrow> arr_get (ct_generations t) i;
       Some (if (ucast g :: u32) = gen then c else 0) } }"

text \<open>The release of the virtual memory state has no effect on the table.\<close>

definition client_destroy :: "nat \<Rightarrow> client_table \<Rightarrow> client_table option" where
  "client_destroy c t =
     (if c = 0 then Some t
      else do {
        client \<leftarrow> ct_heap t c;
        cs \<leftarrow> arr_set (ct_clients t) (cl_id client) 0;
        t \<leftarrow> push_id (cl_id client) (t\<lparr>ct_clients := cs\<rparr>);
        Some (t\<lparr>ct_heap := (ct_heap t)(c := None)\<rparr>) })"

section \<open>Badge arithmetic\<close>

lemma badge_consts: "ID_MASK = mask 7" "GEN_MASK = mask 8" "GEN_SHIFT = 7" "ID_BITS = 7" "GEN_BITS = 8" "(2 ^ (ID_BITS + GEN_BITS) - 1 :: u64) = mask 15"
  by (simp_all add: ID_MASK_def GEN_MASK_def GEN_SHIFT_def ID_BITS_def GEN_BITS_def mask_eq_exp_minus_1)

lemma low_bits:
  fixes w :: "'a :: len word"
  assumes "unat w < 2 ^ n"
  shows "bit w k \<Longrightarrow> k < n"
proof -
  have "unat (take_bit n w) = unat w" using assms by (simp add: unsigned_take_bit_eq take_bit_nat_eq_self)
  then have "take_bit n w = w" by (simp add: word_unat_eq_iff)
  then show "bit w k \<Longrightarrow> k < n" by (metis bit_take_bit_iff)
qed

lemma unat_byte: "unat (ucast (w :: u8) :: u32) < 256"
proof -
  have "unat w < 256" using unsigned_less [of w, where 'a = nat] by simp
  then show ?thesis by (simp add: unsigned_ucast_eq take_bit_nat_eq_self)
qed

lemma badge_round:
  assumes "unat i < 128" "unat g < 256" "flags AND mask 15 = 0"
  shows "\<exists>b. badge_make i g flags = Some b \<and> badge_id b = i \<and> badge_gen b = g \<and> b AND NOT (mask 15) = flags"
proof -
  have f: "\<not> bit flags k" if "k < 15" for k
  proof
    assume "bit flags k"
    then have "bit (flags AND mask 15) k" using that by (auto simp: bit_and_iff bit_mask_iff dest: bit_imp_le_length)
    then show False by (simp add: assms(3))
  qed
  have i: "bit i k \<Longrightarrow> k < 7" for k using low_bits [of i 7 k] assms(1) by simp
  have g: "bit g k \<Longrightarrow> k < 8" for k using low_bits [of g 8 k] assms(2) by simp
  let ?b = "(ucast i AND mask 7) OR push_bit 7 (ucast g AND mask 8) OR flags :: u64"
  have "badge_make i g flags = Some ?b" using assms(3) by (simp add: badge_make_def badge_consts mask_eq_exp_minus_1)
  moreover have "badge_id ?b = i"
    by (rule bit_word_eqI) (auto simp: badge_id_def badge_consts bit_and_iff bit_or_iff bit_push_bit_iff bit_mask_iff bit_unsigned_iff f dest: i)
  moreover have "badge_gen ?b = g"
    by (rule bit_word_eqI)
      (auto simp: badge_gen_def badge_consts bit_and_iff bit_or_iff bit_push_bit_iff bit_drop_bit_eq bit_mask_iff bit_unsigned_iff f dest: g i)
  moreover have "?b AND NOT (mask 15) = flags"
    by (rule bit_word_eqI) (auto simp: bit_and_iff bit_or_iff bit_push_bit_iff bit_not_iff bit_mask_iff bit_unsigned_iff dest: f g i)
  ultimately show ?thesis by blast
qed


section \<open>The invariant\<close>

definition ct_inv :: "client_table \<Rightarrow> bool" where
  "ct_inv t \<longleftrightarrow> length (ct_clients t) = MAX_CLIENTS \<and> length (ct_generations t) = MAX_CLIENTS \<and> length (ct_free_ids t) = MAX_CLIENTS \<and>
     ct_free_top t \<le> MAX_CLIENTS \<and> distinct (take (ct_free_top t) (ct_free_ids t)) \<and>
     set (take (ct_free_top t) (ct_free_ids t)) = {i. i < MAX_CLIENTS \<and> ct_clients t ! i = 0} \<and>
     (\<forall>i < MAX_CLIENTS. ct_clients t ! i \<noteq> 0 \<longrightarrow> (\<exists>c. ct_heap t (ct_clients t ! i) = Some c \<and> cl_id c = i \<and> cl_gen c = ct_generations t ! i)) \<and>
     (\<forall>p c. ct_heap t p = Some c \<longrightarrow> p \<noteq> 0 \<and> cl_id c < MAX_CLIENTS \<and> ct_clients t ! cl_id c = p)"

lemma ct_invD:
  assumes "ct_inv t"
  shows "length (ct_clients t) = 128" "length (ct_generations t) = 128" "length (ct_free_ids t) = 128" "ct_free_top t \<le> 128"
    "distinct (take (ct_free_top t) (ct_free_ids t))" "set (take (ct_free_top t) (ct_free_ids t)) = {i. i < 128 \<and> ct_clients t ! i = 0}"
    "i < 128 \<Longrightarrow> ct_clients t ! i \<noteq> 0 \<Longrightarrow> \<exists>c. ct_heap t (ct_clients t ! i) = Some c \<and> cl_id c = i \<and> cl_gen c = ct_generations t ! i"
    "ct_heap t p = Some c \<Longrightarrow> p \<noteq> 0 \<and> cl_id c < 128 \<and> ct_clients t ! cl_id c = p"
  using assms by (simp_all add: ct_inv_def MAX_CLIENTS_def)

text \<open>The identifier that the next creation takes, and whose generation it advances.\<close>

definition next_id :: "client_table \<Rightarrow> nat list" where
  "next_id t = (if ct_free_top t = 0 then [] else [ct_free_ids t ! (ct_free_top t - 1)])"

lemma init_inv: "ct_heap t = Map.empty \<Longrightarrow> ct_inv (client_table_init t)"
  by (auto simp: ct_inv_def client_table_init_def)

lemma top_id:
  assumes "ct_inv t" "ct_free_top t \<noteq> 0"
  defines "i \<equiv> ct_free_ids t ! (ct_free_top t - 1)"
  shows "i < 128" "ct_clients t ! i = 0" "arr_get (ct_free_ids t) (ct_free_top t - 1) = Some i"
    "take (ct_free_top t) (ct_free_ids t) = take (ct_free_top t - 1) (ct_free_ids t) @ [i]"
proof -
  note D = ct_invD [OF assms(1)]
  have lt: "ct_free_top t - 1 < length (ct_free_ids t)" using D(3,4) assms(2) by simp
  then show a: "arr_get (ct_free_ids t) (ct_free_top t - 1) = Some i" by (simp add: arr_get_def i_def)
  show t: "take (ct_free_top t) (ct_free_ids t) = take (ct_free_top t - 1) (ct_free_ids t) @ [i]"
    using take_Suc_conv_app_nth [OF lt] assms(2) by (simp add: i_def)
  then have "i \<in> {i. i < 128 \<and> ct_clients t ! i = 0}" using D(6) by (metis in_set_conv_decomp)
  then show "i < 128" "ct_clients t ! i = 0" by simp_all
qed

text \<open>A creation that fails puts the identifier back; only its generation has changed.\<close>

lemma bump_inv:
  assumes "ct_inv t" "ct_clients t ! i = 0"
  shows "ct_inv (t\<lparr>ct_generations := (ct_generations t)[i := g]\<rparr>)"
proof -
  have "(ct_generations t)[i := g] ! j = ct_generations t ! j" if "ct_clients t ! j \<noteq> 0" for j using that assms(2) by (cases "j = i") auto
  then show ?thesis using assms(1) by (simp add: ct_inv_def)
qed

lemma add_inv:
  assumes inv: "ct_inv t" and c: "c \<noteq> 0" "ct_heap t c = None" and top: "ct_free_top t \<noteq> 0"
  defines "i \<equiv> ct_free_ids t ! (ct_free_top t - 1)"
  assumes cl: "cl_id cl = i" "cl_gen cl = g"
  shows "ct_inv (t\<lparr>ct_free_top := ct_free_top t - 1, ct_generations := (ct_generations t)[i := g], ct_clients := (ct_clients t)[i := c], ct_heap := (ct_heap t)(c \<mapsto> cl)\<rparr>)"
proof -
  note D = ct_invD [OF inv] and T = top_id [OF inv top, folded i_def]
  have free: "distinct (take (ct_free_top t - 1) (ct_free_ids t))" "set (take (ct_free_top t - 1) (ct_free_ids t)) = {j. j < 128 \<and> ct_clients t ! j = 0} - {i}"
    using D(5,6) unfolding T(4) by auto
  have "{j. j < 128 \<and> ct_clients t ! j = 0} - {i} = {j. j < 128 \<and> (ct_clients t)[i := c] ! j = 0}" using D(1) T(1) c(1) by (auto simp: nth_list_update)
  moreover have "\<exists>cl'. ((ct_heap t)(c \<mapsto> cl)) ((ct_clients t)[i := c] ! j) = Some cl' \<and> cl_id cl' = j \<and> cl_gen cl' = (ct_generations t)[i := g] ! j"
    if j: "j < 128" "(ct_clients t)[i := c] ! j \<noteq> 0" for j
  proof (cases "j = i")
    case True then show ?thesis using D(1,2) T(1) cl by simp
  next
    case False
    then have "ct_clients t ! j \<noteq> 0" using j(2) by simp
    from D(7) [OF j(1) this] c(2) False show ?thesis by auto
  qed
  moreover have "p \<noteq> 0 \<and> cl_id cl' < 128 \<and> (ct_clients t)[i := c] ! cl_id cl' = p" if "((ct_heap t)(c \<mapsto> cl)) p = Some cl'" for p cl'
  proof (cases "p = c")
    case True then show ?thesis using that c(1) cl T(1) D(1) by simp
  next
    case False
    then have h: "ct_heap t p = Some cl'" using that by simp
    from D(8) [OF h] T(2) show ?thesis by (cases "cl_id cl' = i") auto
  qed
  ultimately show ?thesis using free D(1-4) by (simp add: ct_inv_def MAX_CLIENTS_def)
qed

lemma create_inv:
  assumes inv: "ct_inv t" and c: "c = 0 \<or> ct_heap t c = None" and top: "ct_free_top t \<noteq> 0"
  defines "i \<equiv> ct_free_ids t ! (ct_free_top t - 1)"
  shows "\<exists>r b t'. client_create vs c vm t = Some (r, b, t') \<and> ct_inv t' \<and> ct_generations t' = (ct_generations t)[i := ct_generations t ! i + 1] \<and>
    (r = 0 \<and> ct_clients t' = ct_clients t \<and> ct_heap t' = ct_heap t \<or>
     r = c \<and> c \<noteq> 0 \<and> ct_clients t' = (ct_clients t)[i := c] \<and> unat (badge_id b) = i \<and> badge_gen b = ucast (ct_generations t ! i + 1))"
proof -
  note D = ct_invD [OF inv] and T = top_id [OF inv top, folded i_def]
  let ?g = "ct_generations t ! i + 1"
  let ?t1 = "t\<lparr>ct_free_top := ct_free_top t - 1, ct_generations := (ct_generations t)[i := ?g]\<rparr>"
  have gi: "arr_get (ct_generations t) i = Some (ct_generations t ! i)" "arr_set (ct_generations t) i ?g = Some ((ct_generations t)[i := ?g])"
    using D(2) T(1) by (simp_all add: arr_get_def arr_set_def)
  have "(ct_free_ids t)[ct_free_top t - 1 := i] = ct_free_ids t" by (simp add: i_def)
  then have push: "push_id i ?t1 = Some (t\<lparr>ct_generations := (ct_generations t)[i := ?g]\<rparr>)"
    using D(3,4) top by (simp add: push_id_def arr_set_def)
  show ?thesis
  proof (cases "c = 0 \<or> vm = 0")
    case True
    then have "client_create vs c vm t = Some (0, 0, t\<lparr>ct_generations := (ct_generations t)[i := ?g]\<rparr>)"
      using top T(3) gi push by (auto simp: client_create_def Let_def)
    then show ?thesis using bump_inv [OF inv T(2)] by simp
  next
    case False
    have "unat (of_nat i :: u32) = i" "unat (ucast ?g :: u32) < 256"
      using T(1) unat_byte [of ?g] by (simp_all add: unsigned_of_nat take_bit_nat_eq_self)
    then obtain b where b: "badge_make (of_nat i) (ucast ?g) 0 = Some b" "badge_id b = of_nat i" "badge_gen b = ucast ?g"
      using badge_round [of "of_nat i" "ucast ?g" 0] T(1) by auto
    let ?cl = "\<lparr>cl_id = i, cl_gen = ?g, cl_vspace = vs, cl_vm_state = vm\<rparr>"
    let ?t2 = "?t1\<lparr>ct_clients := (ct_clients t)[i := c], ct_heap := (ct_heap t)(c \<mapsto> ?cl)\<rparr>"
    have run: "client_create vs c vm t = Some (c, b, ?t2)"
      using False top T(1,3) gi b(1) D(1,2) by (simp add: client_create_def Let_def arr_set_def)
    have "ct_inv ?t2" using add_inv [OF inv _ _ top, of c ?cl ?g] False c unfolding i_def by simp
    then show ?thesis using run False b T(1) \<open>unat (of_nat i :: u32) = i\<close> by simp
  qed
qed


lemma create_full: "ct_free_top t = 0 \<Longrightarrow> client_create vs c vm t = Some (0, 0, t)"
  by (simp add: client_create_def)

lemma live_not_all_free:
  assumes inv: "ct_inv t" and i: "i < 128" "ct_clients t ! i \<noteq> 0"
  shows "ct_free_top t < 128"
proof -
  note D = ct_invD [OF inv]
  define F where "F = set (take (ct_free_top t) (ct_free_ids t))"
  have F: "card F = ct_free_top t" using D(3,4) distinct_card [OF D(5)] by (simp add: F_def)
  have "F \<subseteq> {0..<128} - {i}" unfolding F_def D(6) using i(2) by (intro subsetI) clarsimp
  then have "card F \<le> card ({0..<128} - {i})" by (intro card_mono) simp_all
  also have "\<dots> = 127" using i(1) by (subst card_Diff_singleton) simp_all
  finally show ?thesis using F by simp
qed

lemma destroy_inv:
  assumes inv: "ct_inv t" and c: "ct_heap t c = Some cl"
  shows "\<exists>t'. client_destroy c t = Some t' \<and> ct_inv t' \<and> ct_generations t' = ct_generations t \<and> ct_clients t' = (ct_clients t)[cl_id cl := 0] \<and>
    ct_heap t' = (ct_heap t)(c := None)"
proof -
  note D = ct_invD [OF inv]
  let ?i = "cl_id cl"
  have i: "?i < 128" "ct_clients t ! ?i = c" "c \<noteq> 0" using D(8) [OF c] by simp_all
  have top: "ct_free_top t < 128" using live_not_all_free [OF inv i(1)] i(2,3) by simp
  let ?t = "t\<lparr>ct_clients := (ct_clients t)[?i := 0], ct_free_ids := (ct_free_ids t)[ct_free_top t := ?i], ct_free_top := ct_free_top t + 1, ct_heap := (ct_heap t)(c := None)\<rparr>"
  have run: "client_destroy c t = Some ?t" using c i top D(1,3) by (simp add: client_destroy_def push_id_def arr_set_def)
  have tk: "take (ct_free_top t + 1) ((ct_free_ids t)[ct_free_top t := ?i]) = take (ct_free_top t) (ct_free_ids t) @ [?i]"
    using top D(3) by (simp add: take_Suc_conv_app_nth)
  have free: "distinct (take (ct_free_top t) (ct_free_ids t) @ [?i])" using D(5,6) i by auto
  have fs: "set (take (ct_free_top t) (ct_free_ids t) @ [?i]) = {j. j < 128 \<and> (ct_clients t)[?i := 0] ! j = 0}"
    using D(1,6) i by (auto simp: nth_list_update)
  have live: "\<exists>cl'. ((ct_heap t)(c := None)) ((ct_clients t)[?i := 0] ! j) = Some cl' \<and> cl_id cl' = j \<and> cl_gen cl' = ct_generations t ! j"
    if j: "j < 128" "(ct_clients t)[?i := 0] ! j \<noteq> 0" for j
  proof -
    have ne: "j \<noteq> ?i" using j i(1) D(1) by auto
    then have nz: "ct_clients t ! j \<noteq> 0" using j(2) by simp
    obtain cl' where cl': "ct_heap t (ct_clients t ! j) = Some cl'" "cl_id cl' = j" "cl_gen cl' = ct_generations t ! j" using D(7) [OF j(1) nz] by blast
    then show ?thesis using ne c by (cases "ct_clients t ! j = c") auto
  qed
  have heap: "p \<noteq> 0 \<and> cl_id cl' < 128 \<and> (ct_clients t)[?i := 0] ! cl_id cl' = p" if "((ct_heap t)(c := None)) p = Some cl'" for p cl'
  proof -
    have h: "ct_heap t p = Some cl'" "p \<noteq> c" using that by (auto split: if_splits)
    then show ?thesis using D(8) [OF h(1)] i(2) by (cases "cl_id cl' = ?i") auto
  qed
  have "ct_inv ?t" using D(1-3) top tk free fs live heap by (simp add: ct_inv_def MAX_CLIENTS_def)
  then show ?thesis using run by simp
qed

lemma badge_id_small: "unat (badge_id b) < 128"
proof -
  have "badge_id b = ucast (take_bit 7 b)" by (simp add: badge_id_def badge_consts take_bit_eq_mask)
  then have "unat (badge_id b) = take_bit 7 (unat b)" by (simp add: unsigned_ucast_eq unsigned_take_bit_eq take_bit_nat_eq_self_iff)
  then show ?thesis by (simp add: take_bit_eq_mod)
qed

lemma lookup_eq:
  assumes "ct_inv t" "unat (badge_id b) = i"
  shows "client_lookup b t = Some (if (ucast (ct_generations t ! i) :: u32) = badge_gen b then ct_clients t ! i else 0)"
proof -
  have i: "i < 128" using badge_id_small [of b] assms(2) by simp
  show ?thesis using ct_invD(1,2) [OF assms(1)] i unfolding client_lookup_def Let_def assms(2)
    by (cases "ct_clients t ! i = 0") (simp_all add: MAX_CLIENTS_def arr_get_def)
qed

section \<open>Histories\<close>

text \<open>Sequences of operations, with the identifiers whose generation was advanced. A new client gets memory that is not in use, and only live
  clients are destroyed.\<close>

inductive client_run :: "client_table \<Rightarrow> nat list \<Rightarrow> client_table \<Rightarrow> bool" for t where
  run_nil: "client_run t [] t"
| run_create: "client_run t ids t1 \<Longrightarrow> c = 0 \<or> ct_heap t1 c = None \<Longrightarrow> client_create vs c vm t1 = Some (r, b, t2) \<Longrightarrow> client_run t (ids @ next_id t1) t2"
| run_destroy: "client_run t ids t1 \<Longrightarrow> ct_heap t1 c = Some cl \<Longrightarrow> client_destroy c t1 = Some t2 \<Longrightarrow> client_run t ids t2"

inductive_cases client_run_snocE: "client_run t (ids @ [i]) t'"

lemma client_run_inv:
  assumes "client_run t ids t'" "ct_inv t"
  shows "ct_inv t' \<and> (\<forall>i < 128. ct_generations t' ! i = ct_generations t ! i + of_nat (count_list ids i))"
  using assms
proof induction
  case run_nil then show ?case by simp
next
  case (run_create ids t1 c vs vm r b t2)
  then have inv: "ct_inv t1" and g: "\<forall>i < 128. ct_generations t1 ! i = ct_generations t ! i + of_nat (count_list ids i)" by simp_all
  show ?case
  proof (cases "ct_free_top t1 = 0")
    case True then show ?thesis using run_create.hyps(3) inv g by (simp add: create_full next_id_def)
  next
    case False
    let ?i = "ct_free_ids t1 ! (ct_free_top t1 - 1)"
    have "ct_inv t2" "ct_generations t2 = (ct_generations t1)[?i := ct_generations t1 ! ?i + 1]"
      using create_inv [OF inv run_create.hyps(2) False, of vs vm] run_create.hyps(3) by auto
    then show ?thesis using g False ct_invD(2) [OF inv] by (auto simp: next_id_def nth_list_update)
  qed
next
  case (run_destroy ids t1 c cl t2)
  then show ?case using destroy_inv [of t1 c cl] by auto
qed

lemma run_keeps_slot:
  assumes "client_run t ids t'" "ct_inv t" "i < 128" "count_list ids i = 0"
  shows "ct_clients t' ! i = ct_clients t ! i \<or> ct_clients t' ! i = 0"
  using assms
proof induction
  case run_nil then show ?case by simp
next
  case (run_create ids t1 c vs vm r b t2)
  then have inv: "ct_inv t1" and old: "ct_clients t1 ! i = ct_clients t ! i \<or> ct_clients t1 ! i = 0"
    using client_run_inv by auto
  show ?case
  proof (cases "ct_free_top t1 = 0")
    case True then show ?thesis using run_create.hyps(3) old by (simp add: create_full)
  next
    case False
    let ?i = "ct_free_ids t1 ! (ct_free_top t1 - 1)"
    have "?i \<noteq> i" using run_create.prems(3) False by (auto simp: next_id_def split: if_splits)
    then have "ct_clients t2 ! i = ct_clients t1 ! i"
      using create_inv [OF inv run_create.hyps(2) False, of vs vm] run_create.hyps(3) by auto
    then show ?thesis using old by simp
  qed
next
  case (run_destroy ids t1 c cl t2)
  then have inv: "ct_inv t1" using client_run_inv by blast
  then have "ct_clients t2 = (ct_clients t1)[cl_id cl := 0]" using destroy_inv run_destroy.hyps(2,3) by fastforce
  then show ?case using run_destroy.IH [OF run_destroy.prems] ct_invD(1) [OF inv] run_destroy.prems(2) by (cases "cl_id cl = i") auto
qed

lemma ucast_byte: "(ucast (w :: u8) :: u32) = ucast w' \<longleftrightarrow> w = w'"
proof -
  have u: "unat (ucast v :: u32) = unat v" for v :: u8 using unat_byte [of v] unsigned_less [of v, where 'a = nat]
    by (simp add: unsigned_ucast_eq take_bit_nat_eq_self)
  show ?thesis by (metis u word_unat_eq_iff)
qed

lemma plus_count_eq: "(g :: u8) + of_nat n = g \<longleftrightarrow> 256 dvd n"
  by (simp add: word_of_nat_eq_0_iff)

text \<open>One client that comes and goes advances the generation of its identifier and changes nothing else.\<close>

lemma create_destroy_steps:
  assumes inv: "ct_inv t" and top: "ct_free_top t \<noteq> 0" and c: "c \<noteq> 0" "ct_heap t c = None"
  defines "i \<equiv> ct_free_ids t ! (ct_free_top t - 1)"
  shows "\<exists>b t1 cl. client_create 0 c 1 t = Some (c, b, t1) \<and> ct_heap t1 = (ct_heap t)(c \<mapsto> cl) \<and> ct_clients t1 = (ct_clients t)[i := c] \<and>
    client_destroy c t1 = Some (t\<lparr>ct_generations := (ct_generations t)[i := ct_generations t ! i + 1]\<rparr>)"
proof -
  note D = ct_invD [OF inv] and T = top_id [OF inv top, folded i_def]
  let ?g = "ct_generations t ! i + 1"
  let ?cl = "\<lparr>cl_id = i, cl_gen = ?g, cl_vspace = 0, cl_vm_state = 1\<rparr>"
  let ?t1 = "t\<lparr>ct_free_top := ct_free_top t - 1, ct_generations := (ct_generations t)[i := ?g], ct_clients := (ct_clients t)[i := c], ct_heap := (ct_heap t)(c \<mapsto> ?cl)\<rparr>"
  obtain b where b: "badge_make (of_nat i) (ucast ?g) 0 = Some b" by (simp add: badge_make_def)
  have gi: "arr_get (ct_generations t) i = Some (ct_generations t ! i)" using D(2) T(1) by (simp add: arr_get_def)
  have 1: "client_create 0 c 1 t = Some (c, b, ?t1)"
    using top T(1,3) gi c(1) b D(1,2) by (simp add: client_create_def Let_def arr_set_def)
  have same: "(ct_free_ids t)[ct_free_top t - 1 := i] = ct_free_ids t" "(ct_heap t)(c := None) = ct_heap t"
    using c(2) by (auto simp: i_def)
  have same0: "(ct_clients t)[i := 0] = ct_clients t" using list_update_id [of "ct_clients t" i] unfolding T(2) .
  have "client_destroy c ?t1 = Some (t\<lparr>ct_generations := (ct_generations t)[i := ?g]\<rparr>)"
    using c(1) T(1) D(1,3,4) top same same0 by (simp add: client_destroy_def push_id_def arr_set_def)
  then show ?thesis using 1 by fastforce
qed

lemma create_destroy:
  assumes inv: "ct_inv t" and top: "ct_free_top t \<noteq> 0" and c: "c \<noteq> 0" "ct_heap t c = None"
  defines "i \<equiv> ct_free_ids t ! (ct_free_top t - 1)"
  shows "client_run t [i] (t\<lparr>ct_generations := (ct_generations t)[i := ct_generations t ! i + 1]\<rparr>)"
proof -
  obtain b t1 cl where 1: "client_create 0 c 1 t = Some (c, b, t1)" "ct_heap t1 c = Some cl"
    and 2: "client_destroy c t1 = Some (t\<lparr>ct_generations := (ct_generations t)[i := ct_generations t ! i + 1]\<rparr>)"
    using create_destroy_steps [OF assms(1-4)] unfolding i_def by auto
  have "client_run t ([] @ next_id t) t1" by (rule run_create [OF run_nil _ 1(1)]) (simp add: c(2))
  then have "client_run t [i] t1" using top by (simp add: next_id_def i_def)
  then show ?thesis by (rule run_destroy [OF _ 1(2) 2])
qed

lemma client_run_trans: "client_run t1 js t2 \<Longrightarrow> client_run t is t1 \<Longrightarrow> client_run t (is @ js) t2"
  by (induction rule: client_run.induct) (auto intro: client_run.intros simp flip: append_assoc)

lemma create_destroy_rounds:
  assumes inv: "ct_inv t" and top: "ct_free_top t \<noteq> 0" and c: "c \<noteq> 0" "ct_heap t c = None"
  defines "i \<equiv> ct_free_ids t ! (ct_free_top t - 1)"
  shows "client_run t (replicate n i) (t\<lparr>ct_generations := (ct_generations t)[i := ct_generations t ! i + of_nat n]\<rparr>)"
proof (induction n)
  case 0 show ?case by (simp add: run_nil)
next
  case (Suc n)
  let ?t = "t\<lparr>ct_generations := (ct_generations t)[i := ct_generations t ! i + of_nat n]\<rparr>"
  have i: "i < length (ct_generations t)" using top_id(1) [OF inv top] ct_invD(2) [OF inv] by (simp add: i_def)
  have "ct_inv ?t" using client_run_inv [OF Suc inv] by simp
  from create_destroy [OF this, of c] have "client_run ?t [i] (t\<lparr>ct_generations := (ct_generations t)[i := ct_generations t ! i + of_nat n + 1]\<rparr>)"
    using top c i by (simp add: i_def)
  from client_run_trans [OF this Suc] show ?case by (simp add: replicate_append_same [symmetric] ac_simps)
qed

lemma count_replicate: "count_list (replicate n x) x = n"
  by (induction n) simp_all

lemma badge_history:
  assumes inv: "ct_inv t" and c: "c = 0 \<or> ct_heap t c = None" and cr: "client_create vs c vm t = Some (r, b, t1)" "r \<noteq> 0"
    and run: "client_run t1 ids t2"
  shows "client_lookup b t1 = Some r" "ct_clients t1 ! unat (badge_id b) = r"
    "client_lookup b t2 = Some (if 256 dvd count_list ids (unat (badge_id b)) then ct_clients t2 ! unat (badge_id b) else 0)"
proof -
  have top: "ct_free_top t \<noteq> 0" using cr create_full [of t vs c vm] by (intro notI) simp
  define i where "i = ct_free_ids t ! (ct_free_top t - 1)"
  have i: "i < 128" using top_id(1) [OF inv top] by (simp add: i_def)
  have t1: "ct_inv t1" "ct_generations t1 = (ct_generations t)[i := ct_generations t ! i + 1]" "ct_clients t1 = (ct_clients t)[i := r]"
    and b: "unat (badge_id b) = i" "badge_gen b = ucast (ct_generations t ! i + 1)"
    using create_inv [OF inv c top, of vs vm] cr unfolding i_def by auto
  note R = client_run_inv [OF run t1(1)] and L = ct_invD(1,2) [OF inv]
  have g: "ct_generations t1 ! i = ct_generations t ! i + 1" "ct_clients t1 ! i = r" using t1 i L by simp_all
  show "client_lookup b t1 = Some r" using lookup_eq [OF t1(1) b(1)] g b(2) by simp
  show "ct_clients t1 ! unat (badge_id b) = r" using g b by simp
  have "ct_generations t2 ! i = (ct_generations t ! i + 1) + of_nat (count_list ids i)" using R i g(1) by simp
  then show "client_lookup b t2 = Some (if 256 dvd count_list ids (unat (badge_id b)) then ct_clients t2 ! unat (badge_id b) else 0)"
    unfolding lookup_eq [OF conjunct1 [OF R] b(1)] b ucast_byte by (simp only: plus_count_eq)
qed

section \<open>Properties\<close>

text \<open>C22. On every history that starts from the initialised table, the table is well formed: the unused identifiers are exactly those on
  the free stack, each of them once, and every other identifier has a live record with its own identifier and generation. In such a state
  every operation runs to its end: creation with fresh memory, the destruction of a live client, and the lookup of any badge, which answers
  a live client with the identifier of the badge or null.\<close>

theorem client_table_well_formed:
  assumes "ct_heap t0 = Map.empty" "client_run (client_table_init t0) ids t"
  shows "ct_inv t \<and>
    (\<forall>c vs vm. c = 0 \<or> ct_heap t c = None \<longrightarrow> (\<exists>r b t'. client_create vs c vm t = Some (r, b, t') \<and> ct_inv t')) \<and>
    (\<forall>c cl. ct_heap t c = Some cl \<longrightarrow> (\<exists>t'. client_destroy c t = Some t' \<and> ct_inv t')) \<and>
    (\<forall>b. \<exists>r. client_lookup b t = Some r \<and> (r = 0 \<or> (\<exists>cl. ct_heap t r = Some cl \<and> cl_id cl = unat (badge_id b))))"
proof (intro conjI allI impI)
  show inv: "ct_inv t" using client_run_inv [OF assms(2)] init_inv [OF assms(1)] by blast
  show "\<exists>r b t'. client_create vs c vm t = Some (r, b, t') \<and> ct_inv t'" if "c = 0 \<or> ct_heap t c = None" for c vs vm
    using create_inv [OF inv that, of vs vm] create_full [of t vs c vm] inv by (cases "ct_free_top t = 0") auto
  show "\<exists>t'. client_destroy d t = Some t' \<and> ct_inv t'" if "ct_heap t d = Some cl" for d cl using destroy_inv [OF inv that] by blast
  show "\<exists>r. client_lookup b t = Some r \<and> (r = 0 \<or> (\<exists>cl. ct_heap t r = Some cl \<and> cl_id cl = unat (badge_id b)))" for b
    using lookup_eq [OF inv refl, of b] ct_invD(7) [OF inv badge_id_small [of b]] by auto
qed

definition ex_table :: client_table where
  "ex_table = client_table_init \<lparr>ct_clients = [], ct_generations = [], ct_free_ids = [], ct_free_top = 0, ct_heap = Map.empty\<rparr>"

lemma ex_table: "ct_inv ex_table" "ct_free_top ex_table \<noteq> 0" "ct_heap ex_table p = None"
  using init_inv [of "\<lparr>ct_clients = [], ct_generations = [], ct_free_ids = [], ct_free_top = 0, ct_heap = Map.empty\<rparr>"]
  by (simp_all add: ex_table_def client_table_init_def MAX_CLIENTS_def)

theorem client_table_well_formed_witness:
  "ct_inv ex_table \<and> (\<exists>r b t'. client_create 0 5 1 ex_table = Some (r, b, t') \<and> ct_inv t')"
  using client_table_well_formed [OF _ run_nil, of "\<lparr>ct_clients = [], ct_generations = [], ct_free_ids = [], ct_free_top = 0, ct_heap = Map.empty\<rparr>"]
    ex_table(3) [of 5] unfolding ex_table_def by simp





text \<open>With at least four message registers a serialised message is read back as it was and the other registers keep their contents;
  a message without its four words, or one that carries capabilities, is read as the zero message with an error.\<close>

theorem sos_ipc_msg_round_trip:
  assumes "SOS_IPC_MSG_WORDS \<le> length mrs"
  shows "\<exists>info mrs'. sos_serialise_ipc_msg (Some msg) mrs = Some (info, mrs') \<and> sos_deserialise_ipc_msg (Some info) True mrs' = Some (0, Some msg) \<and>
    drop SOS_IPC_MSG_WORDS mrs' = drop SOS_IPC_MSG_WORDS mrs \<and>
    (\<forall>info'. mi_length info' < SOS_IPC_MSG_WORDS \<or> mi_extraCaps info' \<noteq> 0 \<longrightarrow>
      sos_deserialise_ipc_msg (Some info') True mrs' = Some (-1, Some \<lparr>im_sysno = 0, im_arg = 0, im_buf_addr = 0, im_buf_size = 0\<rparr>))"
proof -
  have "(ucast (ucast x :: u64) :: u32) = x" for x :: u32 by (rule bit_word_eqI) (simp add: bit_unsigned_iff)
  moreover have "mrs \<noteq> []" using assms by (auto simp: SOS_IPC_MSG_WORDS_def)
  ultimately show ?thesis using assms by (simp add: sos_serialise_ipc_msg_def sos_deserialise_ipc_msg_def SOS_IPC_MSG_WORDS_def arr_set_def arr_get_def)
qed

theorem sos_ipc_msg_round_trip_witness:
  "\<exists>info mrs'. sos_serialise_ipc_msg (Some \<lparr>im_sysno = 2, im_arg = 3, im_buf_addr = 4096, im_buf_size = 17\<rparr>) [0, 0, 0, 0, 9] = Some (info, mrs') \<and>
     sos_deserialise_ipc_msg (Some info) True mrs' = Some (0, Some \<lparr>im_sysno = 2, im_arg = 3, im_buf_addr = 4096, im_buf_size = 17\<rparr>) \<and> drop 4 mrs' = [9]"
  using sos_ipc_msg_round_trip [of "[0, 0, 0, 0, 9]" "\<lparr>im_sysno = 2, im_arg = 3, im_buf_addr = 4096, im_buf_size = 17\<rparr>"]
  by (auto simp: SOS_IPC_MSG_WORDS_def)

end
