(* ===== verification/Memory.thy ===== *)
theory Memory
  imports Sos_Prelude
begin

text \<open>
  Byte memory of the root server, for the code that parses files in place. An address that is not mapped has no value, so that a read or
  write of it is no result. Addresses wrap around like the pointers of the machine; numbers are little endian.
\<close>

type_synonym memory = "u64 \<Rightarrow> u8 option"

primrec mem_bytes :: "memory \<Rightarrow> u64 \<Rightarrow> nat \<Rightarrow> u8 list option" where
  "mem_bytes m a 0 = Some []"
| "mem_bytes m a (Suc n) = do { b \<leftarrow> m a; bs \<leftarrow> mem_bytes m (a + 1) n; Some (b # bs) }"

primrec le_val :: "u8 list \<Rightarrow> nat" where
  "le_val [] = 0"
| "le_val (b # bs) = unat b + 256 * le_val bs"

definition rd16 :: "memory \<Rightarrow> u64 \<Rightarrow> u16 option" where
  "rd16 m a = map_option (\<lambda>bs. of_nat (le_val bs)) (mem_bytes m a 2)"

definition rd32 :: "memory \<Rightarrow> u64 \<Rightarrow> u32 option" where
  "rd32 m a = map_option (\<lambda>bs. of_nat (le_val bs)) (mem_bytes m a 4)"

definition rd64 :: "memory \<Rightarrow> u64 \<Rightarrow> u64 option" where
  "rd64 m a = map_option (\<lambda>bs. of_nat (le_val bs)) (mem_bytes m a 8)"

definition mem_store :: "u64 \<Rightarrow> u8 \<Rightarrow> memory \<Rightarrow> memory option" where
  "mem_store a b m = (case m a of None \<Rightarrow> None | Some _ \<Rightarrow> Some (m(a \<mapsto> b)))"

text \<open>\<open>memcpy\<close> and \<open>memset\<close> of the C library.\<close>

primrec mem_write :: "u64 \<Rightarrow> u8 list \<Rightarrow> memory \<Rightarrow> memory option" where
  "mem_write a [] m = Some m"
| "mem_write a (b # bs) m = do { m \<leftarrow> mem_store a b m; mem_write (a + 1) bs m }"

definition mem_copy :: "u64 \<Rightarrow> u64 \<Rightarrow> nat \<Rightarrow> memory \<Rightarrow> memory option" where
  "mem_copy dest src n m = do { bs \<leftarrow> mem_bytes m src n; mem_write dest bs m }"

definition mem_zero :: "u64 \<Rightarrow> nat \<Rightarrow> memory \<Rightarrow> memory option" where
  "mem_zero a n m = mem_write a (replicate n 0) m"

lemma unat_small: "n < 2 ^ 64 \<Longrightarrow> unat (of_nat n :: u64) = n"
  by (simp add: unsigned_of_nat take_bit_nat_eq_self)

lemma unat_ucast_16_64 [simp]: "unat (ucast (w :: u16) :: u64) = unat w"
proof -
  have "unat w < 2 ^ 64" using unsigned_less [of w, where 'a = nat] by simp
  then show ?thesis by (simp add: unsigned_ucast_eq take_bit_nat_eq_self)
qed

section \<open>Mapped ranges\<close>

definition mapped :: "memory \<Rightarrow> u64 \<Rightarrow> nat \<Rightarrow> bool" where
  "mapped m a n \<longleftrightarrow> (\<forall>k < n. m (a + of_nat k) \<noteq> None)"

lemma mapped_0 [simp]: "mapped m a 0"
  by (simp add: mapped_def)

lemma mapped_Suc: "mapped m a (Suc n) \<longleftrightarrow> m a \<noteq> None \<and> mapped m (a + 1) n"
  unfolding mapped_def by (auto simp: less_Suc_eq_0_disj add.assoc)

lemma mem_bytes_mapped: "(\<exists>bs. mem_bytes m a n = Some bs) \<longleftrightarrow> mapped m a n"
  by (induction n arbitrary: a) (auto simp: mapped_Suc bind_eq_Some_conv)

lemma mem_bytes_length: "mem_bytes m a n = Some bs \<Longrightarrow> length bs = n"
  by (induction n arbitrary: a bs) (auto simp: bind_eq_Some_conv)

lemma mem_bytes_nth: "mem_bytes m a n = Some bs \<Longrightarrow> k < n \<Longrightarrow> m (a + of_nat k) = Some (bs ! k)"
proof (induction n arbitrary: a bs k)
  case (Suc n)
  then show ?case by (cases k) (auto simp: bind_eq_Some_conv simp flip: add.assoc)
qed simp

lemma mapped_sub:
  assumes "mapped m a n" "k + l \<le> n"
  shows "mapped m (a + of_nat k) l"
  unfolding mapped_def
proof (intro allI impI)
  fix j assume "j < l"
  then have "m (a + of_nat (k + j)) \<noteq> None" using assms unfolding mapped_def by (metis add_less_le_mono add_leD2 le_add_diff_inverse nat_add_left_cancel_less order_less_le_trans)
  then show "m (a + of_nat k + of_nat j) \<noteq> None" by (simp add: add.assoc)
qed

lemma rd_mapped:
  "(\<exists>v. rd16 m a = Some v) \<longleftrightarrow> mapped m a 2" "(\<exists>v. rd32 m a = Some v) \<longleftrightarrow> mapped m a 4" "(\<exists>v. rd64 m a = Some v) \<longleftrightarrow> mapped m a 8"
  by (simp_all add: rd16_def rd32_def rd64_def flip: mem_bytes_mapped)

text \<open>A list of bytes at an address.\<close>

primrec bytes_at :: "memory \<Rightarrow> u64 \<Rightarrow> u8 list \<Rightarrow> bool" where
  "bytes_at m a [] \<longleftrightarrow> True"
| "bytes_at m a (b # bs) \<longleftrightarrow> m a = Some b \<and> bytes_at m (a + 1) bs"

lemma bytes_at_append: "bytes_at m a (xs @ ys) \<longleftrightarrow> bytes_at m a xs \<and> bytes_at m (a + of_nat (length xs)) ys"
  by (induction xs arbitrary: a) (auto simp: add.assoc)

lemma bytes_at_nth: "bytes_at m a bs \<Longrightarrow> k < length bs \<Longrightarrow> m (a + of_nat k) = Some (bs ! k)"
proof (induction bs arbitrary: a k)
  case (Cons b bs)
  then show ?case by (cases k) (auto simp flip: add.assoc)
qed simp

lemma mem_bytes_at: "bytes_at m a bs \<longleftrightarrow> mem_bytes m a (length bs) = Some bs"
  by (induction bs arbitrary: a) (auto simp: bind_eq_Some_conv)

end
