(* ===== verification/Cpio.thy ===== *)
theory Cpio
  imports Memory
begin

text \<open>
  The archive of programs linked into the root server, \<^verbatim>\<open>libcpio/src/cpio.c\<close>: entries with a header of hexadecimal fields, a name and
  data, each padded to four bytes. A string is a reader from positions to bytes; pointers into the archive are addresses of \<open>memory\<close>.
\<close>

section \<open>Helpers\<close>

type_synonym cstring = "u64 \<Rightarrow> u8 option"

definition at :: "memory \<Rightarrow> u64 \<Rightarrow> cstring" where
  "at m p = (\<lambda>i. m (p + i))"

text \<open>A string literal with its terminator.\<close>

definition literal :: "string \<Rightarrow> cstring" where
  "literal s = (\<lambda>i. if unat i < length s then Some (of_char (s ! unat i)) else if unat i = length s then Some 0 else None)"

definition CPIO_HEADER_MAGIC :: string where "CPIO_HEADER_MAGIC = ''070701''"
definition CPIO_FOOTER_MAGIC :: string where "CPIO_FOOTER_MAGIC = ''TRAILER!!!''"
definition CPIO_ALIGNMENT :: u64 where "CPIO_ALIGNMENT = 4"

text \<open>The layout of \<^verbatim>\<open>struct cpio_header\<close>: six bytes of magic and thirteen fields of eight.\<close>

definition OFF_c_magic :: u64 where "OFF_c_magic = 0"
definition OFF_c_filesize :: u64 where "OFF_c_filesize = 6 + 8 * 6"
definition OFF_c_namesize :: u64 where "OFF_c_namesize = 6 + 8 * 11"
definition SIZEOF_cpio_header :: u64 where "SIZEOF_cpio_header = 6 + 8 * 13"

record cpio_header_info =
  hi_filename :: u64
  hi_filesize :: u64
  hi_data :: u64
  hi_next :: u64

definition align_up :: "u64 \<Rightarrow> u64 \<Rightarrow> u64" where
  "align_up n align = (n + align - 1) AND NOT (align - 1)"

text \<open>The value of a hexadecimal digit.\<close>

definition hex_digit :: "u8 \<Rightarrow> u64 option" where
  "hex_digit c =
     (if 48 \<le> c \<and> c \<le> 57 then Some (ucast c - 48)
      else if 97 \<le> c \<and> c \<le> 102 then Some (ucast c - 97 + 10)
      else if 65 \<le> c \<and> c \<le> 70 then Some (ucast c - 65 + 10)
      else None)"

text \<open>The first argument is the number of rounds that remain.\<close>

primrec parse_hex_loop :: "nat \<Rightarrow> cstring \<Rightarrow> u64 \<Rightarrow> u64 \<Rightarrow> u64 option" where
  "parse_hex_loop 0 s i r = Some r"
| "parse_hex_loop (Suc n) s i r = do {
     let r = r * 16;
     c \<leftarrow> s i;
     case hex_digit c of
       Some d \<Rightarrow> parse_hex_loop n s (i + 1) (r + d)
     | None \<Rightarrow> Some r }"

definition parse_hex_str :: "cstring \<Rightarrow> u32 \<Rightarrow> u64 option" where
  "parse_hex_str s max_len = parse_hex_loop (unat max_len) s 0 0"

function strncmp_loop :: "cstring \<Rightarrow> cstring \<Rightarrow> u64 \<Rightarrow> u64 \<Rightarrow> int option" where
  "strncmp_loop a b n i =
     (if i < n then do {
        x \<leftarrow> a i;
        y \<leftarrow> b i;
        if x \<noteq> y then Some (uint x - uint y)
        else if x = 0 then Some 0
        else strncmp_loop a b n (i + 1) }
      else Some 0)"
  by pat_completeness auto
termination
proof (relation "measure (\<lambda>(a, b, n, i). unat n - unat i)", simp, clarsimp)
  fix n i :: u64 assume "i < n"
  then have "unat i < unat n" by (simp add: word_less_nat_alt)
  then show "unat n - unat (i + 1) < unat n - unat i"
    using unsigned_less [of n, where 'a = nat] by (simp add: unat_word_ariths)
qed

definition cpio_strncmp :: "cstring \<Rightarrow> cstring \<Rightarrow> u64 \<Rightarrow> int option" where
  "cpio_strncmp a b n = strncmp_loop a b n 0"

text \<open>The copy leaves out the terminator.\<close>

partial_function (option) cpio_strcpy :: "u64 \<Rightarrow> u64 \<Rightarrow> memory \<Rightarrow> memory option" where
  "cpio_strcpy to from m = do {
     c \<leftarrow> m from;
     if c \<noteq> 0 then do { m \<leftarrow> mem_store to c m; cpio_strcpy (to + 1) (from + 1) m }
     else Some m }"

partial_function (option) strlen_loop :: "memory \<Rightarrow> u64 \<Rightarrow> u64 option" where
  "strlen_loop m s = do {
     c \<leftarrow> m s;
     if c \<noteq> 0 then strlen_loop m (s + 1) else Some s }"

definition cpio_strlen :: "memory \<Rightarrow> u64 \<Rightarrow> u32 option" where
  "cpio_strlen m str = do {
     s \<leftarrow> strlen_loop m str;
     Some (ucast (s - str)) }"

definition cpio_len_next :: "u64 \<Rightarrow> u64 \<Rightarrow> u64 \<Rightarrow> u64" where
  "cpio_len_next len prev next =
     (let diff = next - prev in if len < diff then 0 else len)"

section \<open>Headers\<close>

text \<open>The answer is the error code and, without an error, what is stored in the structure of the caller.\<close>

definition cpio_parse_header :: "memory \<Rightarrow> u64 \<Rightarrow> u64 \<Rightarrow> (int \<times> cpio_header_info option) option" where
  "cpio_parse_header m archive len =
     (if len < SIZEOF_cpio_header then Some (-1, None)
      else do {
        c \<leftarrow> cpio_strncmp (at m (archive + OFF_c_magic)) (literal CPIO_HEADER_MAGIC) 6;
        if c \<noteq> 0 then Some (-1, None)
        else do {
          filesize \<leftarrow> parse_hex_str (at m (archive + OFF_c_filesize)) 8;
          filename_length \<leftarrow> parse_hex_str (at m (archive + OFF_c_namesize)) 8;
          if len < SIZEOF_cpio_header + filename_length + filesize then Some (-1, None)
          else do {
            let filename = archive + SIZEOF_cpio_header;
            z \<leftarrow> m (filename + (filename_length - 1));
            if z \<noteq> 0 then Some (-1, None)
            else do {
              eof \<leftarrow> (if 11 \<le> filename_length then do {
                         c \<leftarrow> cpio_strncmp (at m filename) (literal CPIO_FOOTER_MAGIC) 11;
                         Some (c = 0) }
                      else Some False);
              if eof then Some (1, None)
              else do {
                let data = align_up (archive + SIZEOF_cpio_header + filename_length) CPIO_ALIGNMENT;
                let next = align_up (data + filesize) CPIO_ALIGNMENT;
                Some (0, Some \<lparr>hi_filename = filename, hi_filesize = filesize, hi_data = data, hi_next = next\<rparr>) } } } } })"

section \<open>Searching the archive\<close>

text \<open>The rounds of the loop that remain. Results are the address of the data, zero for none, the name and the size.\<close>

primrec get_entry_loop :: "nat \<Rightarrow> memory \<Rightarrow> u64 \<Rightarrow> u64 \<Rightarrow> cpio_header_info option \<Rightarrow> cpio_header_info option option" where
  "get_entry_loop 0 m header len info = Some info"
| "get_entry_loop (Suc n) m header len info = do {
     (error, info) \<leftarrow> cpio_parse_header m header len;
     case info of
       None \<Rightarrow> Some None
     | Some h \<Rightarrow> get_entry_loop n m (hi_next h) (cpio_len_next len header (hi_next h)) (Some h) }"

text \<open>A negative index leaves the header uninitialised, which is no result.\<close>

definition cpio_get_entry :: "memory \<Rightarrow> u64 \<Rightarrow> u64 \<Rightarrow> int \<Rightarrow> (u64 \<times> (u64 \<times> u64) option) option" where
  "cpio_get_entry m archive len n =
     (if n < 0 then None
      else do {
        info \<leftarrow> get_entry_loop (nat n + 1) m archive len None;
        Some (case info of
                None \<Rightarrow> (0, None)
              | Some h \<Rightarrow> (hi_data h, Some (hi_filename h, hi_filesize h))) })"

partial_function (option) get_file_loop :: "memory \<Rightarrow> cstring \<Rightarrow> u64 \<Rightarrow> u64 \<Rightarrow> cpio_header_info option option" where
  "get_file_loop m name header len = do {
     (error, info) \<leftarrow> cpio_parse_header m header len;
     case info of
       None \<Rightarrow> Some None
     | Some h \<Rightarrow> do {
         c \<leftarrow> cpio_strncmp (at m (hi_filename h)) name (- 1);
         if c = 0 then Some (Some h)
         else get_file_loop m name (hi_next h) (cpio_len_next len header (hi_next h)) } }"

definition cpio_get_file :: "memory \<Rightarrow> u64 \<Rightarrow> u64 \<Rightarrow> cstring \<Rightarrow> (u64 \<times> u64 option) option" where
  "cpio_get_file m archive len name = do {
     info \<leftarrow> get_file_loop m name archive len;
     Some (case info of
             None \<Rightarrow> (0, None)
           | Some h \<Rightarrow> (hi_data h, Some (hi_filesize h))) }"

record cpio_info_t =
  ci_file_count :: u32
  ci_max_path_sz :: u32

partial_function (option) info_loop :: "memory \<Rightarrow> u64 \<Rightarrow> u64 \<Rightarrow> cpio_info_t \<Rightarrow> (int \<times> cpio_info_t) option" where
  "info_loop m header len info = do {
     (error, hi) \<leftarrow> cpio_parse_header m header len;
     case hi of
       None \<Rightarrow> Some (if error = 1 then 0 else error, info)
     | Some h \<Rightarrow> do {
         current_path_sz \<leftarrow> cpio_strlen m (hi_filename h);
         let info = info\<lparr>ci_file_count := ci_file_count info + 1\<rparr>;
         let info = (if ci_max_path_sz info < current_path_sz then info\<lparr>ci_max_path_sz := current_path_sz\<rparr> else info);
         info_loop m (hi_next h) (cpio_len_next len header (hi_next h)) info } }"

text \<open>The flag says whether the caller gave a structure to fill.\<close>

definition cpio_info :: "memory \<Rightarrow> u64 \<Rightarrow> u64 \<Rightarrow> bool \<Rightarrow> (int \<times> cpio_info_t option) option" where
  "cpio_info m archive len has_info =
     (if \<not> has_info then Some (1, None)
      else do {
        (error, info) \<leftarrow> info_loop m archive len \<lparr>ci_file_count = 0, ci_max_path_sz = 0\<rparr>;
        Some (error, Some info) })"

text \<open>The buffers that remain to be filled.\<close>

primrec cpio_ls_loop :: "u64 list \<Rightarrow> u64 \<Rightarrow> u64 \<Rightarrow> memory \<Rightarrow> memory option" where
  "cpio_ls_loop [] header len m = Some m"
| "cpio_ls_loop (b # bs) header len m = do {
     (error, info) \<leftarrow> cpio_parse_header m header len;
     case info of
       None \<Rightarrow> Some m
     | Some h \<Rightarrow> do {
         m \<leftarrow> cpio_strcpy b (hi_filename h) m;
         cpio_ls_loop bs (hi_next h) (cpio_len_next len header (hi_next h)) m } }"

definition cpio_ls :: "u64 \<Rightarrow> u64 \<Rightarrow> u64 list \<Rightarrow> memory \<Rightarrow> memory option" where
  "cpio_ls archive len buf m = cpio_ls_loop buf archive len m"

section \<open>Numbers and strings\<close>

lemma unat_and_not_3: "unat (w AND - 4 :: u64) = 4 * (unat w div 4)"
proof -
  have "unat (w AND NOT (mask 2)) = push_bit 2 (drop_bit 2 (unat w))"
  proof (rule bit_eqI)
    fix n show "bit (unat (w AND NOT (mask 2))) n = bit (push_bit 2 (drop_bit 2 (unat w))) n"
    proof (cases "2 \<le> n")
      case True
      then obtain j where "n = 2 + j" using le_Suc_ex by blast
      then show ?thesis by (auto simp: bit_unsigned_iff bit_push_bit_iff bit_drop_bit_eq bit_and_iff bit_not_iff bit_mask_iff dest: bit_imp_le_length)
    qed (auto simp: bit_unsigned_iff bit_push_bit_iff bit_and_iff bit_not_iff bit_mask_iff)
  qed
  then show ?thesis by (simp add: push_bit_eq_mult drop_bit_eq_div mask_eq_exp_minus_1)
qed

definition up4 :: "nat \<Rightarrow> nat" where
  "up4 n = 4 * ((n + 3) div 4)"

lemma up4_bounds: "n \<le> up4 n" "up4 n \<le> n + 3" "up4 n mod 4 = 0"
  by (simp_all add: up4_def)

lemma align_up_4:
  assumes "n + 3 < 2 ^ 64"
  shows "align_up (of_nat n) CPIO_ALIGNMENT = of_nat (up4 n)"
proof -
  have "unat (of_nat n + 3 :: u64) = n + 3" using assms by (simp add: unat_word_ariths unsigned_of_nat take_bit_nat_eq_self)
  then have "unat (align_up (of_nat n) CPIO_ALIGNMENT) = up4 n"
    using unat_and_not_3 [of "3 + of_nat n"] by (simp add: align_up_def CPIO_ALIGNMENT_def up4_def add.commute)
  moreover have "up4 n < 2 ^ 64" using unsigned_less [of "align_up (of_nat n) CPIO_ALIGNMENT", where 'a = nat] calculation by simp
  ultimately show ?thesis by (simp add: word_unat_eq_iff unsigned_of_nat take_bit_nat_eq_self)
qed

text \<open>A terminated string without zero bytes.\<close>

definition cstr :: "cstring \<Rightarrow> u8 list \<Rightarrow> bool" where
  "cstr s xs \<longleftrightarrow> 0 \<notin> set xs \<and> length xs < 2 ^ 64 - 1 \<and> (\<forall>k \<le> length xs. s (of_nat k) = Some ((xs @ [0]) ! k))"

lemma cstr_nth: "cstr s xs \<Longrightarrow> k < length xs \<Longrightarrow> s (of_nat k) = Some (xs ! k) \<and> xs ! k \<noteq> 0"
  unfolding cstr_def by (metis le_simps(1) nth_append nth_mem)

lemma cstr_end: "cstr s xs \<Longrightarrow> s (of_nat (length xs)) = Some 0"
  by (simp add: cstr_def)

lemma uint_diff: "uint (x :: u8) - uint y = 0 \<longleftrightarrow> x = y"
  by (simp add: word_uint_eq_iff)

lemma strncmp_loop_unfold:
  assumes "k < unat n" "a (of_nat k) = Some x" "b (of_nat k) = Some y"
  shows "strncmp_loop a b n (of_nat k) = (if x \<noteq> y then Some (uint x - uint y) else if x = 0 then Some 0 else strncmp_loop a b n (of_nat (Suc k)))"
proof -
  have "(of_nat k :: u64) < n" using assms(1) unsigned_less [of n, where 'a = nat]
    by (simp add: word_less_nat_alt unsigned_of_nat take_bit_nat_eq_self)
  then show ?thesis using assms(2,3) by (subst strncmp_loop.simps) (simp add: add.commute)
qed

declare strncmp_loop.simps [simp del]

lemma strncmp_string:
  assumes "cstr a xs" "cstr b ys" "length ys < unat n" "k \<le> length xs" "k \<le> length ys" "take k xs = take k ys"
  shows "\<exists>c. strncmp_loop a b n (of_nat k) = Some c \<and> (c = 0 \<longleftrightarrow> xs = ys)"
  using assms(4-6)
proof (induction "length ys - k" arbitrary: k)
  case 0
  then have k: "k = length ys" by simp
  have y: "b (of_nat k) = Some 0" using cstr_end [OF assms(2)] k by simp
  show ?case
  proof (cases "k = length xs")
    case True
    then have "a (of_nat k) = Some 0" using cstr_end [OF assms(1)] by simp
    then show ?thesis using strncmp_loop_unfold [of k n a 0 b 0] y assms(3) k True 0(4) by simp
  next
    case False
    then have x: "a (of_nat k) = Some (xs ! k)" "xs ! k \<noteq> 0" using cstr_nth [OF assms(1), of k] 0(2) by auto
    have "xs \<noteq> ys" using False k by auto
    then show ?thesis using strncmp_loop_unfold [of k n a "xs ! k" b 0] x y assms(3) k uint_diff [of "xs ! k" 0] by simp
  qed
next
  case (Suc d)
  then have k: "k < length ys" by simp
  have y: "b (of_nat k) = Some (ys ! k)" "ys ! k \<noteq> 0" using cstr_nth [OF assms(2) k] by auto
  have kn: "k < unat n" using k assms(3) by simp
  show ?case
  proof (cases "k = length xs")
    case True
    then have x: "a (of_nat k) = Some 0" using cstr_end [OF assms(1)] by simp
    have "xs \<noteq> ys" using True k by auto
    then show ?thesis using strncmp_loop_unfold [of k n a 0 b "ys ! k"] kn x y uint_diff [of 0 "ys ! k"] by simp
  next
    case False
    then have kx: "k < length xs" using Suc.prems(1) by simp
    have x: "a (of_nat k) = Some (xs ! k)" "xs ! k \<noteq> 0" using cstr_nth [OF assms(1) kx] by auto
    show ?thesis
    proof (cases "xs ! k = ys ! k")
      case True
      then have "take (Suc k) xs = take (Suc k) ys" using Suc.prems(3) kx k by (simp add: take_Suc_conv_app_nth)
      then have "\<exists>c. strncmp_loop a b n (of_nat (Suc k)) = Some c \<and> (c = 0 \<longleftrightarrow> xs = ys)"
        using Suc.hyps(1) [of "Suc k"] Suc.hyps(2) kx k by simp
      then show ?thesis using strncmp_loop_unfold [of k n a "xs ! k" b "ys ! k"] kn x y True by simp
    next
      case False
      then have "xs \<noteq> ys" by auto
      then show ?thesis using strncmp_loop_unfold [of k n a "xs ! k" b "ys ! k"] kn x y False uint_diff by simp
    qed
  qed
qed

lemma cpio_strncmp_string:
  assumes "cstr a xs" "cstr b ys" "length ys < unat n"
  shows "\<exists>c. cpio_strncmp a b n = Some c \<and> (c = 0 \<longleftrightarrow> xs = ys)"
  using strncmp_string [OF assms, of 0] by (simp add: cpio_strncmp_def)

section \<open>Hexadecimal fields\<close>

definition hex_char :: "nat \<Rightarrow> u8" where
  "hex_char d = (if d < 10 then 48 + of_nat d else 55 + of_nat d)"

primrec hexd :: "nat \<Rightarrow> nat \<Rightarrow> nat list" where
  "hexd 0 n = []"
| "hexd (Suc k) n = hexd k (n div 16) @ [n mod 16]"

definition hex_field :: "nat \<Rightarrow> u8 list" where
  "hex_field n = map hex_char (hexd 8 n)"

lemma hexd_length [simp]: "length (hexd k n) = k"
  by (induction k arbitrary: n) simp_all

lemma hexd_small: "d \<in> set (hexd k n) \<Longrightarrow> d < 16"
  by (induction k arbitrary: n) auto

lemma hexd_value: "foldl (\<lambda>r d. r * 16 + of_nat d) r (hexd k n) = r * 16 ^ k + (of_nat (n mod 16 ^ k) :: u64)"
proof (induction k arbitrary: n)
  case (Suc k)
  have "n mod 16 ^ Suc k = 16 * (n div 16 mod 16 ^ k) + n mod 16" using mod_mult2_eq [of n 16 "16 ^ k"] by simp
  then show ?case by (simp add: Suc)
qed simp

lemma hex_digit_char: "d < 16 \<Longrightarrow> hex_digit (hex_char d) = Some (of_nat d)"
proof -
  have "\<forall>d \<in> set [0..<16]. hex_digit (hex_char d) = Some (of_nat d)" by code_simp
  then show "d < 16 \<Longrightarrow> hex_digit (hex_char d) = Some (of_nat d)" by simp
qed

lemma parse_hex_digits:
  assumes "\<forall>d \<in> set ds. d < 16" "\<forall>k < length ds. s (i + of_nat k) = Some (hex_char (ds ! k))"
  shows "parse_hex_loop (length ds) s i r = Some (foldl (\<lambda>r d. r * 16 + of_nat d) r ds)"
  using assms
proof (induction ds arbitrary: i r)
  case (Cons d ds)
  have "\<forall>k < length ds. s (i + 1 + of_nat k) = Some (hex_char (ds ! k))"
  proof (intro allI impI)
    fix k assume "k < length ds"
    then show "s (i + 1 + of_nat k) = Some (hex_char (ds ! k))" using Cons.prems(2) [rule_format, of "Suc k"] by (simp add: add.assoc)
  qed
  moreover have "s i = Some (hex_char d)" using Cons.prems(2) [rule_format, of 0] by simp
  ultimately show ?case using Cons by (simp add: hex_digit_char)
qed simp

lemma parse_hex_field:
  assumes "bytes_at m p (hex_field n)" "n < 2 ^ 32"
  shows "parse_hex_str (at m p) 8 = Some (of_nat n)"
proof -
  have "\<forall>k < length (hexd 8 n). at m p (0 + of_nat k) = Some (hex_char (hexd 8 n ! k))"
    using bytes_at_nth [OF assms(1)] by (simp add: at_def hex_field_def)
  then have "parse_hex_loop (length (hexd 8 n)) (at m p) 0 0 = Some (of_nat n)"
    using parse_hex_digits [of "hexd 8 n" "at m p" 0 0] hexd_small hexd_value [of 0 8 n] assms(2) by simp
  then show ?thesis by (simp add: parse_hex_str_def)
qed

lemma strncmp_same:
  assumes "\<forall>k < unat n. \<exists>x. x \<noteq> 0 \<and> a (of_nat k) = Some x \<and> b (of_nat k) = Some x" "k \<le> unat n"
  shows "strncmp_loop a b n (of_nat k) = Some 0"
  using assms(2)
proof (induction "unat n - k" arbitrary: k)
  case 0
  then have "k = unat n" by simp
  then have "of_nat k = n" by simp
  then show ?case by (subst strncmp_loop.simps) simp
next
  case (Suc d)
  then have k: "k < unat n" by simp
  then obtain x where "x \<noteq> 0" "a (of_nat k) = Some x" "b (of_nat k) = Some x" using assms(1) by blast
  moreover have "strncmp_loop a b n (of_nat (Suc k)) = Some 0" using Suc.hyps(1) [of "Suc k"] Suc.hyps(2) k by simp
  ultimately show ?case using strncmp_loop_unfold [of k n a x b x] k by simp
qed

section \<open>Layout of an archive\<close>

text \<open>The fields that the code does not look at are kept as bytes.\<close>

record cpio_entry =
  ce_meta1 :: "u8 list"
  ce_meta2 :: "u8 list"
  ce_check :: "u8 list"
  ce_name :: "u8 list"
  ce_data :: "u8 list"

definition str_bytes :: "string \<Rightarrow> u8 list" where
  "str_bytes s = map of_char s"

definition entry_ok :: "cpio_entry \<Rightarrow> bool" where
  "entry_ok e \<longleftrightarrow> length (ce_meta1 e) = 48 \<and> length (ce_meta2 e) = 32 \<and> length (ce_check e) = 8 \<and> 0 \<notin> set (ce_name e) \<and>
     length (ce_name e) + 1 < 2 ^ 32 \<and> length (ce_data e) < 2 ^ 32"

definition header_bytes :: "cpio_entry \<Rightarrow> u8 list" where
  "header_bytes e = str_bytes CPIO_HEADER_MAGIC @ ce_meta1 e @ hex_field (length (ce_data e)) @ ce_meta2 e @
     hex_field (length (ce_name e) + 1) @ ce_check e @ ce_name e @ [0]"

definition data_off :: "cpio_entry \<Rightarrow> nat" where
  "data_off e = up4 (111 + length (ce_name e))"

definition entry_size :: "cpio_entry \<Rightarrow> nat" where
  "entry_size e = data_off e + up4 (length (ce_data e))"

primrec entries_at :: "memory \<Rightarrow> u64 \<Rightarrow> cpio_entry list \<Rightarrow> bool" where
  "entries_at m a [] \<longleftrightarrow> True"
| "entries_at m a (e # es) \<longleftrightarrow> entry_ok e \<and> ce_name e \<noteq> str_bytes CPIO_FOOTER_MAGIC \<and> bytes_at m a (header_bytes e) \<and>
     bytes_at m (a + of_nat (data_off e)) (ce_data e) \<and> entries_at m (a + of_nat (entry_size e)) es"

definition entries_size :: "cpio_entry list \<Rightarrow> nat" where
  "entries_size es = sum_list (map entry_size es)"

lemma up4_add: "n mod 4 = 0 \<Longrightarrow> up4 (n + k) = n + up4 k"
proof -
  assume "n mod 4 = 0"
  then obtain j where "n = 4 * j" by auto
  then show ?thesis by (simp add: up4_def add.assoc)
qed

lemma align_up_word:
  assumes "unat a mod 4 = 0" "unat a + up4 k < 2 ^ 64"
  shows "align_up (of_nat (unat a + k)) CPIO_ALIGNMENT = (a :: u64) + of_nat (up4 k)"
proof -
  have e: "up4 (unat a + k) = unat a + up4 k" using up4_add [OF assms(1)] .
  have "(unat a + k + 3) div 4 < 2 ^ 62" using e assms(2) by (simp add: up4_def)
  then have "unat a + k + 3 < 2 ^ 64" using div_less_iff_less_mult [of 4 "unat a + k + 3" "2 ^ 62"] by simp
  from align_up_4 [OF this] show ?thesis by (simp add: e)
qed

text \<open>Where the parts of a header lie.\<close>

lemma header_parts:
  assumes "bytes_at m a (header_bytes e)" "entry_ok e"
  shows "bytes_at m a (str_bytes CPIO_HEADER_MAGIC)" "bytes_at m (a + OFF_c_filesize) (hex_field (length (ce_data e)))"
    "bytes_at m (a + OFF_c_namesize) (hex_field (length (ce_name e) + 1))" "bytes_at m (a + SIZEOF_cpio_header) (ce_name e @ [0])"
proof -
  have "length (str_bytes CPIO_HEADER_MAGIC) = 6" "\<And>n. length (hex_field n) = 8" by (simp_all add: str_bytes_def CPIO_HEADER_MAGIC_def hex_field_def)
  then show "bytes_at m a (str_bytes CPIO_HEADER_MAGIC)" "bytes_at m (a + OFF_c_filesize) (hex_field (length (ce_data e)))"
    "bytes_at m (a + OFF_c_namesize) (hex_field (length (ce_name e) + 1))" "bytes_at m (a + SIZEOF_cpio_header) (ce_name e @ [0])"
    using assms by (simp_all add: header_bytes_def entry_ok_def bytes_at_append OFF_c_filesize_def OFF_c_namesize_def SIZEOF_cpio_header_def add.assoc)
qed

lemma magic_ok:
  assumes "bytes_at m a (str_bytes CPIO_HEADER_MAGIC)"
  shows "cpio_strncmp (at m (a + OFF_c_magic)) (literal CPIO_HEADER_MAGIC) 6 = Some 0"
proof -
  have l: "length CPIO_HEADER_MAGIC = 6" and nz: "\<forall>c \<in> set CPIO_HEADER_MAGIC. (of_char c :: u8) \<noteq> 0" by (simp_all add: CPIO_HEADER_MAGIC_def)
  have "\<exists>x. x \<noteq> 0 \<and> at m a (of_nat k) = Some x \<and> literal CPIO_HEADER_MAGIC (of_nat k) = Some x" if k: "k < 6" for k
  proof (intro exI conjI)
    show "(of_char (CPIO_HEADER_MAGIC ! k) :: u8) \<noteq> 0" using nz k l by (metis nth_mem)
    show "at m a (of_nat k) = Some (of_char (CPIO_HEADER_MAGIC ! k))" using bytes_at_nth [OF assms, of k] k l by (simp add: at_def str_bytes_def)
    show "literal CPIO_HEADER_MAGIC (of_nat k) = Some (of_char (CPIO_HEADER_MAGIC ! k))" using k l unat_small [of k] by (simp add: literal_def)
  qed
  then show ?thesis using strncmp_same [of 6 "at m a" "literal CPIO_HEADER_MAGIC" 0] by (simp add: cpio_strncmp_def OFF_c_magic_def)
qed

lemma cstr_at:
  assumes "bytes_at m p (xs @ [0])" "0 \<notin> set xs" "length xs < 2 ^ 64 - 1"
  shows "cstr (at m p) xs"
  using assms(2,3) bytes_at_nth [OF assms(1)] by (simp add: cstr_def at_def)

lemma cstr_literal:
  assumes "0 \<notin> set (str_bytes s)" "length s < 2 ^ 64 - 1"
  shows "cstr (literal s) (str_bytes s)"
  using assms by (auto simp: cstr_def literal_def str_bytes_def nth_append unsigned_of_nat take_bit_nat_eq_self)

lemma footer_cstr: "cstr (literal CPIO_FOOTER_MAGIC) (str_bytes CPIO_FOOTER_MAGIC)" "length (str_bytes CPIO_FOOTER_MAGIC) = 10"
  by (rule cstr_literal) (simp_all add: str_bytes_def CPIO_FOOTER_MAGIC_def)

lemma parse_entry:
  assumes e: "entry_ok e" and h: "bytes_at m a (header_bytes e)" and al: "unat a mod 4 = 0" and sp: "unat a + entry_size e < 2 ^ 64"
    and len: "111 + length (ce_name e) + length (ce_data e) \<le> unat len"
  shows "cpio_parse_header m a len = Some (if ce_name e = str_bytes CPIO_FOOTER_MAGIC then (1, None) else
    (0, Some \<lparr>hi_filename = a + SIZEOF_cpio_header, hi_filesize = of_nat (length (ce_data e)), hi_data = a + of_nat (data_off e),
      hi_next = a + of_nat (entry_size e)\<rparr>))"
proof -
  note P = header_parts [OF h e]
  let ?n = "length (ce_name e)" and ?d = "length (ce_data e)"
  have nd: "?n + 1 < 2 ^ 32" "?d < 2 ^ 32" "0 \<notin> set (ce_name e)" using e by (simp_all add: entry_ok_def)
  note fs = parse_hex_field [OF P(2) nd(2)] and ns = parse_hex_field [OF P(3) nd(1)]
  have len1: "\<not> len < SIZEOF_cpio_header" using len by (simp add: SIZEOF_cpio_header_def word_less_nat_alt)
  have "unat (SIZEOF_cpio_header + of_nat (?n + 1) + of_nat ?d :: u64) = 111 + ?n + ?d"
    using nd(1,2) by (simp add: SIZEOF_cpio_header_def unat_word_ariths unsigned_of_nat take_bit_nat_eq_self)
  then have len2: "\<not> len < SIZEOF_cpio_header + of_nat (?n + 1) + of_nat ?d" using len by (simp add: word_less_nat_alt)
  have z: "m (a + SIZEOF_cpio_header + (of_nat (?n + 1) - 1)) = Some 0" using bytes_at_nth [OF P(4), of ?n] by simp
  have eof: "(if 11 \<le> (of_nat (?n + 1) :: u64) then do { c \<leftarrow> cpio_strncmp (at m (a + SIZEOF_cpio_header)) (literal CPIO_FOOTER_MAGIC) 11; Some (c = 0) } else Some False)
      = Some (ce_name e = str_bytes CPIO_FOOTER_MAGIC)"
  proof (cases "11 \<le> ?n + 1")
    case True
    then have "11 \<le> (of_nat (?n + 1) :: u64)" using nd(1) unat_small [of "?n + 1"] unfolding word_le_nat_alt by simp
    moreover have "cstr (at m (a + SIZEOF_cpio_header)) (ce_name e)" using cstr_at [OF P(4) nd(3)] nd(1) by simp
    ultimately show ?thesis using cpio_strncmp_string [OF _ footer_cstr(1), of "at m (a + SIZEOF_cpio_header)" "ce_name e" 11] footer_cstr(2) by auto
  next
    case False
    then have "ce_name e \<noteq> str_bytes CPIO_FOOTER_MAGIC" using footer_cstr(2) by auto
    moreover have "\<not> 11 \<le> (of_nat (?n + 1) :: u64)" using False nd(1) unat_small [of "?n + 1"] unfolding word_le_nat_alt by simp
    ultimately show ?thesis by simp
  qed
  have b: "unat a + data_off e + ?d \<le> unat a + entry_size e" "unat a + 111 + ?n \<le> unat a + data_off e" "data_off e mod 4 = 0" "unat a + data_off e \<le> unat a + entry_size e"
    using up4_bounds [of "111 + ?n"] up4_bounds [of ?d] by (simp_all add: data_off_def entry_size_def)
  have w1: "a + SIZEOF_cpio_header + of_nat (?n + 1) = of_nat (unat a + (111 + ?n))" by (simp add: SIZEOF_cpio_header_def)
  have w2: "a + of_nat (data_off e) + of_nat ?d = of_nat (unat a + (data_off e + ?d))" by (simp add: add.assoc)
  have data: "align_up (a + SIZEOF_cpio_header + of_nat (?n + 1)) CPIO_ALIGNMENT = a + of_nat (data_off e)"
    unfolding w1 data_off_def by (rule align_up_word [OF al]) (use sp b in \<open>simp add: data_off_def\<close>)
  have "up4 (data_off e + ?d) = entry_size e" using up4_add [OF b(3)] by (simp add: entry_size_def)
  then have nxt: "align_up (a + of_nat (data_off e) + of_nat ?d) CPIO_ALIGNMENT = a + of_nat (entry_size e)"
    unfolding w2 using align_up_word [OF al, of "data_off e + ?d"] sp by simp
  show ?thesis unfolding cpio_parse_header_def Let_def
    using len1 magic_ok [OF P(1)] fs ns len2 z eof data nxt by simp
qed

section \<open>Walking the archive\<close>

definition entry_info :: "u64 \<Rightarrow> cpio_entry \<Rightarrow> cpio_header_info" where
  "entry_info a e = \<lparr>hi_filename = a + SIZEOF_cpio_header, hi_filesize = of_nat (length (ce_data e)), hi_data = a + of_nat (data_off e),
     hi_next = a + of_nat (entry_size e)\<rparr>"

lemma entry_size_bounds: "111 + length (ce_name e) + length (ce_data e) \<le> entry_size e" "entry_size e mod 4 = 0"
proof -
  have "data_off e mod 4 = 0" "up4 (length (ce_data e)) mod 4 = 0" using up4_bounds by (simp_all add: data_off_def)
  then show "entry_size e mod 4 = 0" unfolding entry_size_def by presburger
  show "111 + length (ce_name e) + length (ce_data e) \<le> entry_size e"
    using up4_bounds [of "111 + length (ce_name e)"] up4_bounds [of "length (ce_data e)"] by (simp add: entry_size_def data_off_def)
qed

lemma entries_size_simps [simp]: "entries_size [] = 0" "entries_size (e # es) = entry_size e + entries_size es"
  "entries_size (es @ fs) = entries_size es + entries_size fs"
  by (simp_all add: entries_size_def)

lemma entries_at_append: "entries_at m a (es @ fs) \<longleftrightarrow> entries_at m a es \<and> entries_at m (a + of_nat (entries_size es)) fs"
  by (induction es arbitrary: a) (auto simp: add.assoc)

text \<open>Room for the entries and for a trailer, at an address with the alignment of the format; the length covers each entry.\<close>

definition roomy :: "u64 \<Rightarrow> cpio_entry list \<Rightarrow> u64 \<Rightarrow> bool" where
  "roomy a es len \<longleftrightarrow> unat a mod 4 = 0 \<and> unat a + entries_size es + 124 < 2 ^ 64 \<and> (\<forall>e \<in> set es. entry_size e \<le> unat len)"

lemma roomy_Cons:
  assumes "roomy a (e # es) len"
  shows "roomy (a + of_nat (entry_size e)) es len" "cpio_len_next len a (a + of_nat (entry_size e)) = len"
proof -
  have "unat (a + of_nat (entry_size e)) = unat a + entry_size e"
    using assms by (simp add: roomy_def unat_word_ariths unat_small)
  moreover have "(unat a + entry_size e) mod 4 = 0" using assms entry_size_bounds(2) [of e] unfolding roomy_def by (simp flip: dvd_eq_mod_eq_0)
  ultimately show "roomy (a + of_nat (entry_size e)) es len" using assms by (simp add: roomy_def)
  have "unat (of_nat (entry_size e) :: u64) = entry_size e" using assms by (intro unat_small) (simp add: roomy_def)
  then show "cpio_len_next len a (a + of_nat (entry_size e)) = len" using assms by (simp add: roomy_def cpio_len_next_def word_less_nat_alt)
qed

lemma roomy_append: "roomy a (es @ fs) len \<Longrightarrow> roomy a es len \<and> roomy (a + of_nat (entries_size es)) fs len"
proof (induction es arbitrary: a)
  case Nil then show ?case by (simp add: roomy_def)
next
  case (Cons e es)
  have "roomy (a + of_nat (entry_size e)) (es @ fs) len" using roomy_Cons(1) Cons.prems by simp
  then have "roomy (a + of_nat (entry_size e) + of_nat (entries_size es)) fs len" using Cons.IH by blast
  then show ?case using Cons.prems by (simp add: roomy_def add.assoc)
qed

lemma parse_first:
  assumes "entries_at m a (e # es)" "roomy a (e # es) len"
  shows "cpio_parse_header m a len = Some (0, Some (entry_info a e))"
  using parse_entry [of e m a len] assms entry_size_bounds(1) [of e] by (simp add: roomy_def entry_info_def)

lemma name_of:
  assumes "entries_at m a (e # es)"
  shows "cstr (at m (hi_filename (entry_info a e))) (ce_name e)"
  using header_parts(4) [of m a e] assms cstr_at [of m "a + SIZEOF_cpio_header" "ce_name e"] by (simp add: entry_info_def entry_ok_def)

lemma get_file_step:
  assumes "entries_at m a (e # es)" "roomy a (e # es) len" "cstr name ys"
  shows "get_file_loop m name a len = (if ce_name e = ys then Some (Some (entry_info a e)) else get_file_loop m name (a + of_nat (entry_size e)) len)"
proof -
  have "length ys < unat (- 1 :: u64)" using assms(3) by (simp add: cstr_def unsigned_minus_1_eq_mask mask_eq_exp_minus_1)
  then obtain c where c: "cpio_strncmp (at m (hi_filename (entry_info a e))) name (- 1) = Some c" "c = 0 \<longleftrightarrow> ce_name e = ys"
    using cpio_strncmp_string [OF name_of [OF assms(1)] assms(3)] by blast
  have "hi_next (entry_info a e) = a + of_nat (entry_size e)" by (simp add: entry_info_def)
  then show ?thesis using c roomy_Cons(2) [OF assms(2)] by (subst get_file_loop.simps) (simp add: parse_first [OF assms(1,2)])
qed

lemma get_file_skips:
  assumes "entries_at m a es" "roomy a es len" "cstr name ys" "ys \<notin> ce_name ` set es"
  shows "get_file_loop m name a len = get_file_loop m name (a + of_nat (entries_size es)) len"
  using assms
proof (induction es arbitrary: a)
  case (Cons e es)
  then show ?case using get_file_step [OF Cons.prems(1-3)] roomy_Cons(1) [OF Cons.prems(2)] Cons.IH [of "a + of_nat (entry_size e)"] by (auto simp: add.assoc)
qed simp

section \<open>Encoded archives\<close>

definition trailer :: cpio_entry where
  "trailer = \<lparr>ce_meta1 = replicate 48 48, ce_meta2 = replicate 32 48, ce_check = replicate 8 48, ce_name = str_bytes CPIO_FOOTER_MAGIC, ce_data = []\<rparr>"

definition entry_bytes :: "cpio_entry \<Rightarrow> u8 list" where
  "entry_bytes e = header_bytes e @ replicate (data_off e - length (header_bytes e)) 0 @ ce_data e @ replicate (up4 (length (ce_data e)) - length (ce_data e)) 0"

definition archive_bytes :: "cpio_entry list \<Rightarrow> u8 list" where
  "archive_bytes es = concat (map entry_bytes es) @ header_bytes trailer"

definition file_entry :: "cpio_entry \<Rightarrow> bool" where
  "file_entry e \<longleftrightarrow> entry_ok e \<and> ce_name e \<noteq> str_bytes CPIO_FOOTER_MAGIC"

lemma header_length: "entry_ok e \<Longrightarrow> length (header_bytes e) = 111 + length (ce_name e)"
  by (simp add: header_bytes_def entry_ok_def str_bytes_def CPIO_HEADER_MAGIC_def hex_field_def)

lemma entry_bytes_length: "entry_ok e \<Longrightarrow> length (entry_bytes e) = entry_size e"
  using up4_bounds(1) [of "111 + length (ce_name e)"] up4_bounds(1) [of "length (ce_data e)"]
  by (simp add: entry_bytes_def header_length entry_size_def data_off_def)

lemma entry_bytes_at:
  assumes "entry_ok e" "bytes_at m a (entry_bytes e)"
  shows "bytes_at m a (header_bytes e)" "bytes_at m (a + of_nat (data_off e)) (ce_data e)"
proof -
  have "length (header_bytes e) \<le> data_off e" using up4_bounds(1) [of "111 + length (ce_name e)"] assms(1) by (simp add: header_length data_off_def)
  then have "of_nat (length (header_bytes e)) + of_nat (data_off e - length (header_bytes e)) = (of_nat (data_off e) :: u64)"
    by (metis of_nat_add le_add_diff_inverse)
  then show "bytes_at m a (header_bytes e)" "bytes_at m (a + of_nat (data_off e)) (ce_data e)"
    using assms(2) by (simp_all add: entry_bytes_def bytes_at_append add.assoc)
qed

lemma encoded_entries:
  assumes "\<forall>e \<in> set es. file_entry e" "bytes_at m a (concat (map entry_bytes es) @ rest)"
  shows "entries_at m a es" "bytes_at m (a + of_nat (entries_size es)) rest"
proof -
  have "entries_at m a es \<and> bytes_at m (a + of_nat (entries_size es)) rest"
    using assms
  proof (induction es arbitrary: a)
    case (Cons e es)
    then have ok: "entry_ok e" "bytes_at m a (entry_bytes e)" by (simp_all add: file_entry_def bytes_at_append)
    have "bytes_at m (a + of_nat (entry_size e)) (concat (map entry_bytes es) @ rest)"
      using Cons.prems(2) entry_bytes_length [OF ok(1)] by (simp add: bytes_at_append add.assoc)
    then show ?case using Cons.IH [of "a + of_nat (entry_size e)"] Cons.prems(1) ok(1) entry_bytes_at [OF ok] by (simp add: file_entry_def add.assoc)
  qed simp
  then show "entries_at m a es" "bytes_at m (a + of_nat (entries_size es)) rest" by simp_all
qed

lemma trailer_ok: "entry_ok trailer" "ce_name trailer = str_bytes CPIO_FOOTER_MAGIC" "entry_size trailer = 124" "ce_data trailer = []"
  by (simp_all add: trailer_def entry_ok_def entry_size_def data_off_def up4_def footer_cstr(2)) (simp add: str_bytes_def CPIO_FOOTER_MAGIC_def)

text \<open>The encoded entries fit into memory and the length of the archive is known to the caller.\<close>

definition archive_in :: "memory \<Rightarrow> u64 \<Rightarrow> u64 \<Rightarrow> cpio_entry list \<Rightarrow> bool" where
  "archive_in m a len es \<longleftrightarrow> (\<forall>e \<in> set es. file_entry e) \<and> bytes_at m a (archive_bytes es) \<and> unat a mod 4 = 0 \<and>
     unat a + entries_size es + 124 < 2 ^ 64 \<and> length (archive_bytes es) \<le> unat len"

lemma archive_length: "\<forall>e \<in> set es. file_entry e \<Longrightarrow> length (archive_bytes es) = entries_size es + 121"
  by (induction es) (auto simp: archive_bytes_def header_length trailer_ok footer_cstr(2) entry_bytes_length file_entry_def)

lemma archive_inD:
  assumes "archive_in m a len es"
  shows "entries_at m a es" "roomy a es len" "cpio_parse_header m (a + of_nat (entries_size es)) len = Some (1, None)"
proof -
  have ok: "\<forall>e \<in> set es. file_entry e" and bt: "bytes_at m a (archive_bytes es)" using assms by (simp_all add: archive_in_def)
  note E = encoded_entries [OF ok bt [unfolded archive_bytes_def]]
  show "entries_at m a es" by (rule E(1))
  have sz: "entry_size e \<le> entries_size es" if "e \<in> set es" for e using that member_le_sum_list [of "entry_size e" "map entry_size es"] by (simp add: entries_size_def)
  have len: "entries_size es + 121 \<le> unat len" using assms archive_length [OF ok] by (simp add: archive_in_def)
  show r: "roomy a es len" using assms sz len by (fastforce simp: roomy_def archive_in_def)
  then have "roomy (a + of_nat (entries_size es)) [] len" using roomy_append [of a es "[]" len] by simp
  then have "unat (a + of_nat (entries_size es)) mod 4 = 0" "unat (a + of_nat (entries_size es)) + 124 < 2 ^ 64" by (simp_all add: roomy_def)
  then show "cpio_parse_header m (a + of_nat (entries_size es)) len = Some (1, None)"
    using parse_entry [OF trailer_ok(1) E(2), of len] len by (simp add: trailer_ok footer_cstr(2))
qed

lemma get_entry_walk:
  assumes "entries_at m a (xs @ e # zs)" "roomy a (xs @ e # zs) len"
  shows "get_entry_loop (Suc (length xs)) m a len i = Some (Some (entry_info (a + of_nat (entries_size xs)) e))"
  using assms
proof (induction xs arbitrary: a i)
  case Nil
  then show ?case using parse_first [of m a e zs len] by simp
next
  case (Cons x xs)
  have "hi_next (entry_info a x) = a + of_nat (entry_size x)" by (simp add: entry_info_def)
  then show ?case
    using Cons parse_first [of m a x "xs @ e # zs" len] roomy_Cons [of a x "xs @ e # zs" len]
    by (simp add: add.assoc del: get_entry_loop.simps) (simp add: add.assoc)
qed

lemma get_entry_past:
  assumes "entries_at m a es" "roomy a es len" "cpio_parse_header m (a + of_nat (entries_size es)) len = Some (1, None)" "length es \<le> n"
  shows "get_entry_loop (Suc n) m a len i = Some None"
  using assms
proof (induction es arbitrary: a n i)
  case (Cons x xs)
  then obtain n' where n: "n = Suc n'" "length xs \<le> n'" by (cases n) auto
  have "hi_next (entry_info a x) = a + of_nat (entry_size x)" by (simp add: entry_info_def)
  moreover have "get_entry_loop (Suc n') m (a + of_nat (entry_size x)) len (Some (entry_info a x)) = Some None"
    using Cons.IH [of "a + of_nat (entry_size x)" n'] Cons.prems n(2) roomy_Cons(1) [OF Cons.prems(2)] by (simp add: add.assoc)
  ultimately show ?case using n(1) parse_first [OF Cons.prems(1,2)] roomy_Cons(2) [OF Cons.prems(2)] by (simp add: del: get_entry_loop.simps(2)) (subst get_entry_loop.simps(2), simp)
qed simp

lemma ucast_of_nat_32: "(ucast (of_nat n :: u64) :: u32) = of_nat n"
  by (simp add: word_unat_eq_iff unsigned_ucast_eq unsigned_of_nat)

lemma strlen_string:
  assumes "bytes_at m p (xs @ [0])" "0 \<notin> set xs"
  shows "strlen_loop m p = Some (p + of_nat (length xs))"
  using assms
proof (induction xs arbitrary: p)
  case Nil then show ?case by (subst strlen_loop.simps) simp
next
  case (Cons x xs)
  then have "m p = Some x" "x \<noteq> 0" "strlen_loop m (p + 1) = Some (p + 1 + of_nat (length xs))" by auto
  then show ?case by (subst strlen_loop.simps) (simp add: add.assoc)
qed

lemma info_walk:
  assumes "entries_at m a es" "roomy a es len" "cpio_parse_header m (a + of_nat (entries_size es)) len = Some (1, None)"
  shows "info_loop m a len \<lparr>ci_file_count = c, ci_max_path_sz = p\<rparr> = Some (0, \<lparr>ci_file_count = c + of_nat (length es),
    ci_max_path_sz = foldl (\<lambda>p e. max p (of_nat (length (ce_name e)))) p es\<rparr>)"
  using assms
proof (induction es arbitrary: a c p)
  case Nil then show ?case by (subst info_loop.simps) simp
next
  case (Cons x xs)
  have x: "hi_next (entry_info a x) = a + of_nat (entry_size x)" "hi_filename (entry_info a x) = a + SIZEOF_cpio_header" by (simp_all add: entry_info_def)
  have "bytes_at m (a + SIZEOF_cpio_header) (ce_name x @ [0])" "0 \<notin> set (ce_name x)" using Cons.prems(1) header_parts(4) [of m a x] by (simp_all add: entry_ok_def)
  then have sl: "cpio_strlen m (a + SIZEOF_cpio_header) = Some (of_nat (length (ce_name x)))" using strlen_string
    by (simp add: cpio_strlen_def ucast_of_nat_32)
  have IH: "info_loop m (a + of_nat (entry_size x)) len \<lparr>ci_file_count = c', ci_max_path_sz = p'\<rparr> = Some (0, \<lparr>ci_file_count = c' + of_nat (length xs),
    ci_max_path_sz = foldl (\<lambda>p e. max p (of_nat (length (ce_name e)))) p' xs\<rparr>)" for c' p'
    using Cons.IH [of "a + of_nat (entry_size x)"] Cons.prems roomy_Cons(1) [OF Cons.prems(2)] by (simp add: add.assoc)
  show ?case using x sl roomy_Cons(2) [OF Cons.prems(2)] IH
    by (subst info_loop.simps, cases "p < of_nat (length (ce_name x))") (simp_all add: parse_first [OF Cons.prems(1,2)] Let_def max.absorb1 max.absorb2 add.assoc)
qed

section \<open>Properties\<close>

text \<open>C33. In an archive that encodes the entries \<open>es\<close>, the search for a name finds the first entry of that name: the address and size
  that it returns are those of the entry's data. It returns null exactly when no entry has the name.\<close>

theorem cpio_get_file_finds:
  assumes "archive_in m a len es" "cstr name ys"
  shows "case List.find (\<lambda>e. ce_name e = ys) es of
      None \<Rightarrow> cpio_get_file m a len name = Some (0, None)
    | Some e \<Rightarrow> \<exists>p. cpio_get_file m a len name = Some (p, Some (of_nat (length (ce_data e)))) \<and> bytes_at m p (ce_data e)"
proof (cases "List.find (\<lambda>e. ce_name e = ys) es")
  case None
  then have "ys \<notin> ce_name ` set es" by (auto simp: find_None_iff)
  note S = get_file_skips [OF archive_inD(1,2) [OF assms(1)] assms(2) this]
  have "get_file_loop m name (a + of_nat (entries_size es)) len = Some None"
    by (subst get_file_loop.simps) (simp add: archive_inD(3) [OF assms(1)])
  then show ?thesis using None S by (simp add: cpio_get_file_def)
next
  case (Some e)
  then obtain i where i: "i < length es" "ce_name (es ! i) = ys" "e = es ! i" "\<forall>j < i. ce_name (es ! j) \<noteq> ys" by (auto simp: find_Some_iff)
  then have es: "es = take i es @ e # drop (Suc i) es" using id_take_nth_drop by blast
  have no: "ys \<notin> ce_name ` set (take i es)" using i(1,4) by (fastforce simp: in_set_conv_nth)
  let ?b = "a + of_nat (entries_size (take i es))"
  have E: "entries_at m a (take i es)" "entries_at m ?b (e # drop (Suc i) es)"
    using archive_inD(1) [OF assms(1)] es entries_at_append [of m a "take i es" "e # drop (Suc i) es"] by simp_all
  have R: "roomy a (take i es) len" "roomy ?b (e # drop (Suc i) es) len"
    using archive_inD(2) [OF assms(1)] es roomy_append [of a "take i es" "e # drop (Suc i) es" len] by simp_all
  have "get_file_loop m name a len = Some (Some (entry_info ?b e))"
    using get_file_skips [OF E(1) R(1) assms(2) no] get_file_step [OF E(2) R(2) assms(2)] i(2,3) by simp
  then have "cpio_get_file m a len name = Some (?b + of_nat (data_off e), Some (of_nat (length (ce_data e))))"
    by (simp add: cpio_get_file_def entry_info_def)
  moreover have "bytes_at m (?b + of_nat (data_off e)) (ce_data e)" using E(2) by simp
  ultimately show ?thesis using Some by auto
qed

text \<open>A memory that holds only the given bytes, and an archive with one file.\<close>

definition mem_of :: "u64 \<Rightarrow> u8 list \<Rightarrow> memory" where
  "mem_of a bs = (\<lambda>p. if unat (p - a) < length bs then Some (bs ! unat (p - a)) else None)"

lemma mem_of_read:
  assumes l: "length bs < 2 ^ 64"
  shows "k + n \<le> length bs \<Longrightarrow> mem_bytes (mem_of a bs) (a + of_nat k) n = Some (take n (drop k bs))"
proof (induction n arbitrary: k)
  case (Suc n)
  then have "mem_of a bs (a + of_nat k) = Some (bs ! k)" using l by (simp add: mem_of_def unat_small)
  moreover have "mem_bytes (mem_of a bs) (a + of_nat k + 1) n = Some (take n (drop (Suc k) bs))" using Suc.IH [of "Suc k"] Suc.prems by (simp add: ac_simps)
  ultimately show ?case using Suc.prems by (simp add: Cons_nth_drop_Suc [symmetric])
qed simp

lemma mem_of_bytes: "length bs < 2 ^ 64 \<Longrightarrow> bytes_at (mem_of a bs) a bs"
  using mem_of_read [of bs 0 "length bs" a] by (simp add: mem_bytes_at)

definition ex_file :: cpio_entry where
  "ex_file = \<lparr>ce_meta1 = replicate 48 48, ce_meta2 = replicate 32 48, ce_check = replicate 8 48, ce_name = str_bytes ''sosh'', ce_data = [7, 8, 9]\<rparr>"

lemma ex_file: "file_entry ex_file" "entry_size ex_file = 120" "length (entry_bytes ex_file) = 120"
proof -
  show f: "file_entry ex_file" by (simp add: ex_file_def file_entry_def entry_ok_def str_bytes_def CPIO_FOOTER_MAGIC_def)
  show s: "entry_size ex_file = 120" by (simp add: ex_file_def entry_size_def data_off_def up4_def str_bytes_def)
  show "length (entry_bytes ex_file) = 120" using entry_bytes_length [of ex_file] f s by (simp add: file_entry_def)
qed

lemma ex_archive: "archive_in (mem_of 4096 (archive_bytes [ex_file])) 4096 241 [ex_file]"
  using mem_of_bytes [of "archive_bytes [ex_file]" 4096] archive_length [of "[ex_file]"] ex_file by (simp add: archive_in_def)

lemma ex_name: "cstr (literal ''sosh'') (str_bytes ''sosh'')"
  by (rule cstr_literal) (simp_all add: str_bytes_def)

theorem cpio_get_file_finds_witness:
  "\<exists>p. cpio_get_file (mem_of 4096 (archive_bytes [ex_file])) 4096 241 (literal ''sosh'') = Some (p, Some 3) \<and>
     bytes_at (mem_of 4096 (archive_bytes [ex_file])) p [7, 8, 9]"
  using cpio_get_file_finds [OF ex_archive ex_name] by (simp add: ex_file_def)

text \<open>The \<open>n\<close>-th entry is found by its number, with the addresses of its data and name, and a number past the end gives null; the
  summary of the archive counts its entries and gives the length of the longest name.\<close>

theorem cpio_archive_listing:
  assumes "archive_in m a len es"
  shows "(\<forall>n. cpio_get_entry m a len (int n) = Some (if n < length es
      then (let b = a + of_nat (entries_size (take n es)) in
        (b + of_nat (data_off (es ! n)), Some (b + SIZEOF_cpio_header, of_nat (length (ce_data (es ! n))))))
      else (0, None))) \<and>
    cpio_info m a len True = Some (0, Some \<lparr>ci_file_count = of_nat (length es),
      ci_max_path_sz = foldl (\<lambda>p e. max p (of_nat (length (ce_name e)))) 0 es\<rparr>)"
proof (intro conjI allI)
  note A = archive_inD [OF assms]
  show "cpio_info m a len True = Some (0, Some \<lparr>ci_file_count = of_nat (length es),
      ci_max_path_sz = foldl (\<lambda>p e. max p (of_nat (length (ce_name e)))) 0 es\<rparr>)"
    using info_walk [OF A] by (simp add: cpio_info_def)
  fix n show "cpio_get_entry m a len (int n) = Some (if n < length es
      then (let b = a + of_nat (entries_size (take n es)) in
        (b + of_nat (data_off (es ! n)), Some (b + SIZEOF_cpio_header, of_nat (length (ce_data (es ! n))))))
      else (0, None))"
  proof (cases "n < length es")
    case True
    then have es: "es = take n es @ es ! n # drop (Suc n) es" by (rule id_take_nth_drop)
    have "get_entry_loop (Suc (length (take n es))) m a len None = Some (Some (entry_info (a + of_nat (entries_size (take n es))) (es ! n)))"
      using get_entry_walk [of m a "take n es" "es ! n" "drop (Suc n) es" len None] A(1,2) es by simp
    then show ?thesis using True by (simp add: cpio_get_entry_def entry_info_def Let_def del: get_entry_loop.simps)
  next
    case False
    then have "get_entry_loop (Suc n) m a len None = Some None" using get_entry_past [OF A] by simp
    then show ?thesis using False by (simp add: cpio_get_entry_def del: get_entry_loop.simps)
  qed
qed

theorem cpio_archive_listing_witness:
  "cpio_get_entry (mem_of 4096 (archive_bytes [ex_file])) 4096 241 (int 1) = Some (0, None) \<and>
   cpio_info (mem_of 4096 (archive_bytes [ex_file])) 4096 241 True = Some (0, Some \<lparr>ci_file_count = 1, ci_max_path_sz = 4\<rparr>)"
proof -
  have "max 0 4 = (4 :: u32)" "length (ce_name ex_file) = 4" by (simp_all add: max_def ex_file_def str_bytes_def)
  then show ?thesis
    using conjunct1 [OF cpio_archive_listing [OF ex_archive], THEN spec, of 1] conjunct2 [OF cpio_archive_listing [OF ex_archive]] by simp
qed

text \<open>C34. The length that remains is not reduced from entry to entry, so an archive cut off behind an entry is read past its end: when
  the byte behind it is not accessible, the search for a name that does not occur is no result.\<close>

theorem cpio_get_file_overread:
  assumes "\<forall>e \<in> set es. file_entry e" "es \<noteq> []" "bytes_at m a (concat (map entry_bytes es))" "unat a mod 4 = 0"
    "unat a + entries_size es + 124 < 2 ^ 64" "len = of_nat (entries_size es)" "m (a + len) = None" "cstr name ys" "ys \<notin> ce_name ` set es"
  shows "cpio_get_file m a len name = None"
proof -
  have E: "entries_at m a es" using encoded_entries(1) [OF assms(1), of m a "[]"] assms(3) by simp
  have len: "unat len = entries_size es" using assms(5,6) by (simp add: unat_small)
  have "entry_size e \<le> entries_size es" if "e \<in> set es" for e using that member_le_sum_list [of "entry_size e" "map entry_size es"] by (simp add: entries_size_def)
  then have "roomy a es len" using assms(4,5) len by (simp add: roomy_def)
  from get_file_skips [OF E this assms(8,9)] have s: "get_file_loop m name a len = get_file_loop m name (a + len) len" using assms(6) by simp
  obtain e fs where "es = e # fs" using assms(2) by (cases es) auto
  then have "111 \<le> entries_size es" using entry_size_bounds(1) [of e] by simp
  then have "\<not> len < SIZEOF_cpio_header" using len by (simp add: word_less_nat_alt SIZEOF_cpio_header_def)
  moreover have "cpio_strncmp (at m (a + len + OFF_c_magic)) (literal CPIO_HEADER_MAGIC) 6 = None"
    unfolding cpio_strncmp_def by (subst strncmp_loop.simps) (simp add: at_def OFF_c_magic_def assms(7))
  ultimately have "cpio_parse_header m (a + len) len = None" by (simp add: cpio_parse_header_def)
  then have "get_file_loop m name (a + len) len = None" by (subst get_file_loop.simps) simp
  then show ?thesis using s by (simp add: cpio_get_file_def)
qed

theorem cpio_get_file_overread_witness:
  "cpio_get_file (mem_of 4096 (entry_bytes ex_file)) 4096 120 (literal ''app'') = None"
proof -
  have "cstr (literal ''app'') (str_bytes ''app'')" by (rule cstr_literal) (simp_all add: str_bytes_def)
  moreover have "str_bytes ''app'' \<noteq> ce_name ex_file" by (simp add: str_bytes_def ex_file_def)
  ultimately show ?thesis
    using cpio_get_file_overread [of "[ex_file]" "mem_of 4096 (entry_bytes ex_file)" 4096 120 "literal ''app''" "str_bytes ''app''"]
      ex_file mem_of_bytes [of "entry_bytes ex_file" 4096] by (simp add: mem_of_def)
qed

end
