(* ===== verification/Elf.thy ===== *)
theory Elf
  imports Cpio
begin

text \<open>
  The ELF library, \<^verbatim>\<open>libelf\<close>: validation of a file in memory and access to its header, program headers and sections, for both classes of
  files. Structures lie in memory in the layout of \<^verbatim>\<open>elf.h\<close> of the C library, so a field is a little endian number at its offset; a pointer to a
  table is an address.
\<close>

section \<open>Structures\<close>

record elf_t =
  elfFile :: u64
  elfSize :: u64
  elfClass :: u8

datatype elf_addr_type_t = VIRTUAL | PHYSICAL

record Elf32_Ehdr =
  e32_ident :: "u8 list"
  e32_type :: u16
  e32_machine :: u16
  e32_version :: u32
  e32_entry :: u32
  e32_phoff :: u32
  e32_shoff :: u32
  e32_flags :: u32
  e32_ehsize :: u16
  e32_phentsize :: u16
  e32_phnum :: u16
  e32_shentsize :: u16
  e32_shnum :: u16
  e32_shstrndx :: u16

record Elf64_Ehdr =
  e64_ident :: "u8 list"
  e64_type :: u16
  e64_machine :: u16
  e64_version :: u32
  e64_entry :: u64
  e64_phoff :: u64
  e64_shoff :: u64
  e64_flags :: u32
  e64_ehsize :: u16
  e64_phentsize :: u16
  e64_phnum :: u16
  e64_shentsize :: u16
  e64_shnum :: u16
  e64_shstrndx :: u16

definition SIZEOF_Elf32_Ehdr :: nat where "SIZEOF_Elf32_Ehdr = 52"
definition SIZEOF_Elf64_Ehdr :: nat where "SIZEOF_Elf64_Ehdr = 64"
definition SIZEOF_Elf32_Phdr :: nat where "SIZEOF_Elf32_Phdr = 32"
definition SIZEOF_Elf64_Phdr :: nat where "SIZEOF_Elf64_Phdr = 56"
definition SIZEOF_Elf32_Shdr :: nat where "SIZEOF_Elf32_Shdr = 40"
definition SIZEOF_Elf64_Shdr :: nat where "SIZEOF_Elf64_Shdr = 64"

definition ELFMAG :: "u8 list" where "ELFMAG = [127, 69, 76, 70]"
definition EI_CLASS :: u64 where "EI_CLASS = 4"
definition ELFCLASS32 :: u8 where "ELFCLASS32 = 1"
definition ELFCLASS64 :: u8 where "ELFCLASS64 = 2"
definition SHT_STRTAB :: u32 where "SHT_STRTAB = 3"

section \<open>Validation\<close>

definition elf_check_magic :: "memory \<Rightarrow> u64 \<Rightarrow> int option" where
  "elf_check_magic m file = do {
     bs \<leftarrow> mem_bytes m file 4;
     Some (if bs \<noteq> ELFMAG then -1 else 0) }"

text \<open>The product of two fields of sixteen bits is taken in signed integers of 32 bits, whose overflow is undefined.\<close>

definition table_size :: "u16 \<Rightarrow> u16 \<Rightarrow> nat option" where
  "table_size entsize num = do {
     cassert (unat entsize * unat num < 2 ^ 31);
     Some (unat entsize * unat num) }"

definition elf32_checkFile :: "memory \<Rightarrow> elf_t \<Rightarrow> (int \<times> elf_t) option" where
  "elf32_checkFile m elf =
     (if unat (elfSize elf) < SIZEOF_Elf32_Ehdr then Some (-1, elf)
      else do {
        magic \<leftarrow> elf_check_magic m (elfFile elf);
        if magic < 0 then Some (-1, elf)
        else do {
          let header = elfFile elf;
          cls \<leftarrow> m (header + EI_CLASS);
          if cls \<noteq> ELFCLASS32 then Some (-1, elf)
          else do {
            e_phentsize \<leftarrow> rd16 m (header + 42);
            if unat e_phentsize \<noteq> SIZEOF_Elf32_Phdr then Some (-1, elf)
            else do {
              e_shentsize \<leftarrow> rd16 m (header + 46);
              if unat e_shentsize \<noteq> SIZEOF_Elf32_Shdr then Some (-1, elf)
              else do {
                e_shstrndx \<leftarrow> rd16 m (header + 50);
                e_shnum \<leftarrow> rd16 m (header + 48);
                if e_shstrndx \<ge> e_shnum then Some (-1, elf)
                else Some (0, elf\<lparr>elfClass := cls\<rparr>) } } } } })"

definition elf32_checkProgramHeaderTable :: "memory \<Rightarrow> elf_t \<Rightarrow> int option" where
  "elf32_checkProgramHeaderTable m elf = do {
     let header = elfFile elf;
     off \<leftarrow> rd32 m (header + 28);
     entsize \<leftarrow> rd16 m (header + 42);
     num \<leftarrow> rd16 m (header + 44);
     size \<leftarrow> table_size entsize num;
     let table_end = off + of_nat size;
     Some (if elfSize elf < ucast table_end \<or> table_end < off then -1 else 0) }"

definition elf32_checkSectionTable :: "memory \<Rightarrow> elf_t \<Rightarrow> int option" where
  "elf32_checkSectionTable m elf = do {
     let header = elfFile elf;
     off \<leftarrow> rd32 m (header + 32);
     entsize \<leftarrow> rd16 m (header + 46);
     num \<leftarrow> rd16 m (header + 48);
     size \<leftarrow> table_size entsize num;
     let table_end = off + of_nat size;
     Some (if elfSize elf < ucast table_end \<or> table_end < off then -1 else 0) }"

definition elf64_checkFile :: "memory \<Rightarrow> elf_t \<Rightarrow> (int \<times> elf_t) option" where
  "elf64_checkFile m elf =
     (if unat (elfSize elf) < SIZEOF_Elf64_Ehdr then Some (-1, elf)
      else do {
        magic \<leftarrow> elf_check_magic m (elfFile elf);
        if magic < 0 then Some (-1, elf)
        else do {
          let header = elfFile elf;
          cls \<leftarrow> m (header + EI_CLASS);
          if cls \<noteq> ELFCLASS64 then Some (-1, elf)
          else do {
            e_phentsize \<leftarrow> rd16 m (header + 54);
            if unat e_phentsize \<noteq> SIZEOF_Elf64_Phdr then Some (-1, elf)
            else do {
              e_shentsize \<leftarrow> rd16 m (header + 58);
              if unat e_shentsize \<noteq> SIZEOF_Elf64_Shdr then Some (-1, elf)
              else do {
                e_shstrndx \<leftarrow> rd16 m (header + 62);
                e_shnum \<leftarrow> rd16 m (header + 60);
                if e_shstrndx \<ge> e_shnum then Some (-1, elf)
                else Some (0, elf\<lparr>elfClass := cls\<rparr>) } } } } })"

definition elf64_checkProgramHeaderTable :: "memory \<Rightarrow> elf_t \<Rightarrow> int option" where
  "elf64_checkProgramHeaderTable m elf = do {
     let header = elfFile elf;
     off \<leftarrow> rd64 m (header + 32);
     entsize \<leftarrow> rd16 m (header + 54);
     num \<leftarrow> rd16 m (header + 56);
     size \<leftarrow> table_size entsize num;
     let table_end = off + of_nat size;
     Some (if elfSize elf < table_end \<or> table_end < off then -1 else 0) }"

definition elf64_checkSectionTable :: "memory \<Rightarrow> elf_t \<Rightarrow> int option" where
  "elf64_checkSectionTable m elf = do {
     let header = elfFile elf;
     off \<leftarrow> rd64 m (header + 40);
     entsize \<leftarrow> rd16 m (header + 58);
     num \<leftarrow> rd16 m (header + 60);
     size \<leftarrow> table_size entsize num;
     let table_end = off + of_nat size;
     Some (if elfSize elf < table_end \<or> table_end < off then -1 else 0) }"

definition elf_isElf32 :: "elf_t \<Rightarrow> bool" where
  "elf_isElf32 elf \<longleftrightarrow> elfClass elf = ELFCLASS32"

definition elf_isElf64 :: "elf_t \<Rightarrow> bool" where
  "elf_isElf64 elf \<longleftrightarrow> elfClass elf = ELFCLASS64"

definition elf_checkFile :: "memory \<Rightarrow> elf_t \<Rightarrow> (int \<times> elf_t) option" where
  "elf_checkFile m elf = do {
     (res, elf) \<leftarrow> elf32_checkFile m elf;
     if res = 0 then Some (0, elf)
     else do {
       (res, elf) \<leftarrow> elf64_checkFile m elf;
       Some (if res = 0 then 0 else -1, elf) } }"

definition elf_checkProgramHeaderTable :: "memory \<Rightarrow> elf_t \<Rightarrow> int option" where
  "elf_checkProgramHeaderTable m elf = (if elf_isElf32 elf then elf32_checkProgramHeaderTable m elf else elf64_checkProgramHeaderTable m elf)"

definition elf_checkSectionTable :: "memory \<Rightarrow> elf_t \<Rightarrow> int option" where
  "elf_checkSectionTable m elf = (if elf_isElf32 elf then elf32_checkSectionTable m elf else elf64_checkSectionTable m elf)"

text \<open>The second result is what is stored for the caller. A class that is not set explicitly is zero in the initialiser.\<close>

definition elf_newFile_maybe_unsafe :: "memory \<Rightarrow> u64 \<Rightarrow> u64 \<Rightarrow> bool \<Rightarrow> bool \<Rightarrow> (int \<times> elf_t option) option" where
  "elf_newFile_maybe_unsafe m file file_size check_pht check_st = do {
     (status, new_file) \<leftarrow> elf_checkFile m \<lparr>elfFile = file, elfSize = file_size, elfClass = 0\<rparr>;
     if status < 0 then Some (status, None)
     else do {
       status \<leftarrow> (if check_pht then elf_checkProgramHeaderTable m new_file else Some status);
       if check_pht \<and> status < 0 then Some (status, None)
       else do {
         status \<leftarrow> (if check_st then elf_checkSectionTable m new_file else Some status);
         if check_st \<and> status < 0 then Some (status, None)
         else Some (status, Some new_file) } } }"

definition elf_newFile :: "memory \<Rightarrow> u64 \<Rightarrow> u64 \<Rightarrow> (int \<times> elf_t option) option" where
  "elf_newFile m file file_size = elf_newFile_maybe_unsafe m file file_size True True"

section \<open>Fields of each class\<close>

definition elf32_getHeader :: "memory \<Rightarrow> elf_t \<Rightarrow> Elf32_Ehdr option" where
  "elf32_getHeader m elf = do {
     let a = elfFile elf;
     ident \<leftarrow> mem_bytes m a 16;
     x_type \<leftarrow> rd16 m (a + 16);
     x_machine \<leftarrow> rd16 m (a + 18);
     x_version \<leftarrow> rd32 m (a + 20);
     x_entry \<leftarrow> rd32 m (a + 24);
     x_phoff \<leftarrow> rd32 m (a + 28);
     x_shoff \<leftarrow> rd32 m (a + 32);
     x_flags \<leftarrow> rd32 m (a + 36);
     x_ehsize \<leftarrow> rd16 m (a + 40);
     x_phentsize \<leftarrow> rd16 m (a + 42);
     x_phnum \<leftarrow> rd16 m (a + 44);
     x_shentsize \<leftarrow> rd16 m (a + 46);
     x_shnum \<leftarrow> rd16 m (a + 48);
     x_shstrndx \<leftarrow> rd16 m (a + 50);
     Some \<lparr>e32_ident = ident, e32_type = x_type, e32_machine = x_machine, e32_version = x_version, e32_entry = x_entry, e32_phoff = x_phoff, e32_shoff = x_shoff, e32_flags = x_flags, e32_ehsize = x_ehsize, e32_phentsize = x_phentsize, e32_phnum = x_phnum, e32_shentsize = x_shentsize, e32_shnum = x_shnum, e32_shstrndx = x_shstrndx\<rparr> }"

definition elf32_getEntryPoint :: "memory \<Rightarrow> elf_t \<Rightarrow> u64 option" where
  "elf32_getEntryPoint m elf = do { h \<leftarrow> elf32_getHeader m elf; Some (ucast (e32_entry h)) }"

definition elf32_getProgramHeaderTable :: "memory \<Rightarrow> elf_t \<Rightarrow> u64 option" where
  "elf32_getProgramHeaderTable m elf = do { h \<leftarrow> elf32_getHeader m elf; Some (elfFile elf + ucast (e32_phoff h)) }"

definition elf32_getSectionTable :: "memory \<Rightarrow> elf_t \<Rightarrow> u64 option" where
  "elf32_getSectionTable m elf = do { h \<leftarrow> elf32_getHeader m elf; Some (elfFile elf + ucast (e32_shoff h)) }"

definition elf32_getNumProgramHeaders :: "memory \<Rightarrow> elf_t \<Rightarrow> u64 option" where
  "elf32_getNumProgramHeaders m elf = do { h \<leftarrow> elf32_getHeader m elf; Some (ucast (e32_phnum h)) }"

definition elf32_getNumSections :: "memory \<Rightarrow> elf_t \<Rightarrow> u64 option" where
  "elf32_getNumSections m elf = do { h \<leftarrow> elf32_getHeader m elf; Some (ucast (e32_shnum h)) }"

definition elf32_getSectionStringTableIndex :: "memory \<Rightarrow> elf_t \<Rightarrow> u64 option" where
  "elf32_getSectionStringTableIndex m elf = do { h \<leftarrow> elf32_getHeader m elf; Some (ucast (e32_shstrndx h)) }"

definition elf64_getHeader :: "memory \<Rightarrow> elf_t \<Rightarrow> Elf64_Ehdr option" where
  "elf64_getHeader m elf = do {
     let a = elfFile elf;
     ident \<leftarrow> mem_bytes m a 16;
     x_type \<leftarrow> rd16 m (a + 16);
     x_machine \<leftarrow> rd16 m (a + 18);
     x_version \<leftarrow> rd32 m (a + 20);
     x_entry \<leftarrow> rd64 m (a + 24);
     x_phoff \<leftarrow> rd64 m (a + 32);
     x_shoff \<leftarrow> rd64 m (a + 40);
     x_flags \<leftarrow> rd32 m (a + 48);
     x_ehsize \<leftarrow> rd16 m (a + 52);
     x_phentsize \<leftarrow> rd16 m (a + 54);
     x_phnum \<leftarrow> rd16 m (a + 56);
     x_shentsize \<leftarrow> rd16 m (a + 58);
     x_shnum \<leftarrow> rd16 m (a + 60);
     x_shstrndx \<leftarrow> rd16 m (a + 62);
     Some \<lparr>e64_ident = ident, e64_type = x_type, e64_machine = x_machine, e64_version = x_version, e64_entry = x_entry, e64_phoff = x_phoff, e64_shoff = x_shoff, e64_flags = x_flags, e64_ehsize = x_ehsize, e64_phentsize = x_phentsize, e64_phnum = x_phnum, e64_shentsize = x_shentsize, e64_shnum = x_shnum, e64_shstrndx = x_shstrndx\<rparr> }"

definition elf64_getEntryPoint :: "memory \<Rightarrow> elf_t \<Rightarrow> u64 option" where
  "elf64_getEntryPoint m elf = do { h \<leftarrow> elf64_getHeader m elf; Some ((e64_entry h)) }"

definition elf64_getProgramHeaderTable :: "memory \<Rightarrow> elf_t \<Rightarrow> u64 option" where
  "elf64_getProgramHeaderTable m elf = do { h \<leftarrow> elf64_getHeader m elf; Some (elfFile elf + (e64_phoff h)) }"

definition elf64_getSectionTable :: "memory \<Rightarrow> elf_t \<Rightarrow> u64 option" where
  "elf64_getSectionTable m elf = do { h \<leftarrow> elf64_getHeader m elf; Some (elfFile elf + (e64_shoff h)) }"

definition elf64_getNumProgramHeaders :: "memory \<Rightarrow> elf_t \<Rightarrow> u64 option" where
  "elf64_getNumProgramHeaders m elf = do { h \<leftarrow> elf64_getHeader m elf; Some (ucast (e64_phnum h)) }"

definition elf64_getNumSections :: "memory \<Rightarrow> elf_t \<Rightarrow> u64 option" where
  "elf64_getNumSections m elf = do { h \<leftarrow> elf64_getHeader m elf; Some (ucast (e64_shnum h)) }"

definition elf64_getSectionStringTableIndex :: "memory \<Rightarrow> elf_t \<Rightarrow> u64 option" where
  "elf64_getSectionStringTableIndex m elf = do { h \<leftarrow> elf64_getHeader m elf; Some (ucast (e64_shstrndx h)) }"

definition elf32_getSectionNameOffset :: "memory \<Rightarrow> elf_t \<Rightarrow> u64 \<Rightarrow> u64 option" where
  "elf32_getSectionNameOffset m elf i = do { t \<leftarrow> elf32_getSectionTable m elf; map_option ucast (rd32 m (t + of_nat SIZEOF_Elf32_Shdr * i)) }"

definition elf32_getSectionType :: "memory \<Rightarrow> elf_t \<Rightarrow> u64 \<Rightarrow> u32 option" where
  "elf32_getSectionType m elf i = do { t \<leftarrow> elf32_getSectionTable m elf; (rd32 m (t + of_nat SIZEOF_Elf32_Shdr * i + 4)) }"

definition elf32_getSectionFlags :: "memory \<Rightarrow> elf_t \<Rightarrow> u64 \<Rightarrow> u64 option" where
  "elf32_getSectionFlags m elf i = do { t \<leftarrow> elf32_getSectionTable m elf; map_option ucast (rd32 m (t + of_nat SIZEOF_Elf32_Shdr * i + 8)) }"

definition elf32_getSectionAddr :: "memory \<Rightarrow> elf_t \<Rightarrow> u64 \<Rightarrow> u64 option" where
  "elf32_getSectionAddr m elf i = do { t \<leftarrow> elf32_getSectionTable m elf; map_option ucast (rd32 m (t + of_nat SIZEOF_Elf32_Shdr * i + 12)) }"

definition elf32_getSectionOffset :: "memory \<Rightarrow> elf_t \<Rightarrow> u64 \<Rightarrow> u64 option" where
  "elf32_getSectionOffset m elf i = do { t \<leftarrow> elf32_getSectionTable m elf; map_option ucast (rd32 m (t + of_nat SIZEOF_Elf32_Shdr * i + 16)) }"

definition elf32_getSectionSize :: "memory \<Rightarrow> elf_t \<Rightarrow> u64 \<Rightarrow> u64 option" where
  "elf32_getSectionSize m elf i = do { t \<leftarrow> elf32_getSectionTable m elf; map_option ucast (rd32 m (t + of_nat SIZEOF_Elf32_Shdr * i + 20)) }"

definition elf32_getSectionLink :: "memory \<Rightarrow> elf_t \<Rightarrow> u64 \<Rightarrow> u32 option" where
  "elf32_getSectionLink m elf i = do { t \<leftarrow> elf32_getSectionTable m elf; (rd32 m (t + of_nat SIZEOF_Elf32_Shdr * i + 24)) }"

definition elf32_getSectionInfo :: "memory \<Rightarrow> elf_t \<Rightarrow> u64 \<Rightarrow> u32 option" where
  "elf32_getSectionInfo m elf i = do { t \<leftarrow> elf32_getSectionTable m elf; (rd32 m (t + of_nat SIZEOF_Elf32_Shdr * i + 28)) }"

definition elf32_getSectionAddrAlign :: "memory \<Rightarrow> elf_t \<Rightarrow> u64 \<Rightarrow> u64 option" where
  "elf32_getSectionAddrAlign m elf i = do { t \<leftarrow> elf32_getSectionTable m elf; map_option ucast (rd32 m (t + of_nat SIZEOF_Elf32_Shdr * i + 32)) }"

definition elf32_getSectionEntrySize :: "memory \<Rightarrow> elf_t \<Rightarrow> u64 \<Rightarrow> u64 option" where
  "elf32_getSectionEntrySize m elf i = do { t \<leftarrow> elf32_getSectionTable m elf; map_option ucast (rd32 m (t + of_nat SIZEOF_Elf32_Shdr * i + 36)) }"

definition elf32_getProgramHeaderType :: "memory \<Rightarrow> elf_t \<Rightarrow> u64 \<Rightarrow> u32 option" where
  "elf32_getProgramHeaderType m elf i = do { t \<leftarrow> elf32_getProgramHeaderTable m elf; (rd32 m (t + of_nat SIZEOF_Elf32_Phdr * i)) }"

definition elf32_getProgramHeaderOffset :: "memory \<Rightarrow> elf_t \<Rightarrow> u64 \<Rightarrow> u64 option" where
  "elf32_getProgramHeaderOffset m elf i = do { t \<leftarrow> elf32_getProgramHeaderTable m elf; map_option ucast (rd32 m (t + of_nat SIZEOF_Elf32_Phdr * i + 4)) }"

definition elf32_getProgramHeaderVaddr :: "memory \<Rightarrow> elf_t \<Rightarrow> u64 \<Rightarrow> u64 option" where
  "elf32_getProgramHeaderVaddr m elf i = do { t \<leftarrow> elf32_getProgramHeaderTable m elf; map_option ucast (rd32 m (t + of_nat SIZEOF_Elf32_Phdr * i + 8)) }"

definition elf32_getProgramHeaderPaddr :: "memory \<Rightarrow> elf_t \<Rightarrow> u64 \<Rightarrow> u64 option" where
  "elf32_getProgramHeaderPaddr m elf i = do { t \<leftarrow> elf32_getProgramHeaderTable m elf; map_option ucast (rd32 m (t + of_nat SIZEOF_Elf32_Phdr * i + 12)) }"

definition elf32_getProgramHeaderFileSize :: "memory \<Rightarrow> elf_t \<Rightarrow> u64 \<Rightarrow> u64 option" where
  "elf32_getProgramHeaderFileSize m elf i = do { t \<leftarrow> elf32_getProgramHeaderTable m elf; map_option ucast (rd32 m (t + of_nat SIZEOF_Elf32_Phdr * i + 16)) }"

definition elf32_getProgramHeaderMemorySize :: "memory \<Rightarrow> elf_t \<Rightarrow> u64 \<Rightarrow> u64 option" where
  "elf32_getProgramHeaderMemorySize m elf i = do { t \<leftarrow> elf32_getProgramHeaderTable m elf; map_option ucast (rd32 m (t + of_nat SIZEOF_Elf32_Phdr * i + 20)) }"

definition elf32_getProgramHeaderFlags :: "memory \<Rightarrow> elf_t \<Rightarrow> u64 \<Rightarrow> u32 option" where
  "elf32_getProgramHeaderFlags m elf i = do { t \<leftarrow> elf32_getProgramHeaderTable m elf; (rd32 m (t + of_nat SIZEOF_Elf32_Phdr * i + 24)) }"

definition elf32_getProgramHeaderAlign :: "memory \<Rightarrow> elf_t \<Rightarrow> u64 \<Rightarrow> u64 option" where
  "elf32_getProgramHeaderAlign m elf i = do { t \<leftarrow> elf32_getProgramHeaderTable m elf; map_option ucast (rd32 m (t + of_nat SIZEOF_Elf32_Phdr * i + 28)) }"

definition elf64_getSectionNameOffset :: "memory \<Rightarrow> elf_t \<Rightarrow> u64 \<Rightarrow> u64 option" where
  "elf64_getSectionNameOffset m elf i = do { t \<leftarrow> elf64_getSectionTable m elf; map_option ucast (rd32 m (t + of_nat SIZEOF_Elf64_Shdr * i)) }"

definition elf64_getSectionType :: "memory \<Rightarrow> elf_t \<Rightarrow> u64 \<Rightarrow> u32 option" where
  "elf64_getSectionType m elf i = do { t \<leftarrow> elf64_getSectionTable m elf; (rd32 m (t + of_nat SIZEOF_Elf64_Shdr * i + 4)) }"

definition elf64_getSectionFlags :: "memory \<Rightarrow> elf_t \<Rightarrow> u64 \<Rightarrow> u64 option" where
  "elf64_getSectionFlags m elf i = do { t \<leftarrow> elf64_getSectionTable m elf; (rd64 m (t + of_nat SIZEOF_Elf64_Shdr * i + 8)) }"

definition elf64_getSectionAddr :: "memory \<Rightarrow> elf_t \<Rightarrow> u64 \<Rightarrow> u64 option" where
  "elf64_getSectionAddr m elf i = do { t \<leftarrow> elf64_getSectionTable m elf; (rd64 m (t + of_nat SIZEOF_Elf64_Shdr * i + 16)) }"

definition elf64_getSectionOffset :: "memory \<Rightarrow> elf_t \<Rightarrow> u64 \<Rightarrow> u64 option" where
  "elf64_getSectionOffset m elf i = do { t \<leftarrow> elf64_getSectionTable m elf; (rd64 m (t + of_nat SIZEOF_Elf64_Shdr * i + 24)) }"

definition elf64_getSectionSize :: "memory \<Rightarrow> elf_t \<Rightarrow> u64 \<Rightarrow> u64 option" where
  "elf64_getSectionSize m elf i = do { t \<leftarrow> elf64_getSectionTable m elf; (rd64 m (t + of_nat SIZEOF_Elf64_Shdr * i + 32)) }"

definition elf64_getSectionLink :: "memory \<Rightarrow> elf_t \<Rightarrow> u64 \<Rightarrow> u32 option" where
  "elf64_getSectionLink m elf i = do { t \<leftarrow> elf64_getSectionTable m elf; (rd32 m (t + of_nat SIZEOF_Elf64_Shdr * i + 40)) }"

definition elf64_getSectionInfo :: "memory \<Rightarrow> elf_t \<Rightarrow> u64 \<Rightarrow> u32 option" where
  "elf64_getSectionInfo m elf i = do { t \<leftarrow> elf64_getSectionTable m elf; (rd32 m (t + of_nat SIZEOF_Elf64_Shdr * i + 44)) }"

definition elf64_getSectionAddrAlign :: "memory \<Rightarrow> elf_t \<Rightarrow> u64 \<Rightarrow> u64 option" where
  "elf64_getSectionAddrAlign m elf i = do { t \<leftarrow> elf64_getSectionTable m elf; (rd64 m (t + of_nat SIZEOF_Elf64_Shdr * i + 48)) }"

definition elf64_getSectionEntrySize :: "memory \<Rightarrow> elf_t \<Rightarrow> u64 \<Rightarrow> u64 option" where
  "elf64_getSectionEntrySize m elf i = do { t \<leftarrow> elf64_getSectionTable m elf; (rd64 m (t + of_nat SIZEOF_Elf64_Shdr * i + 56)) }"

definition elf64_getProgramHeaderType :: "memory \<Rightarrow> elf_t \<Rightarrow> u64 \<Rightarrow> u32 option" where
  "elf64_getProgramHeaderType m elf i = do { t \<leftarrow> elf64_getProgramHeaderTable m elf; (rd32 m (t + of_nat SIZEOF_Elf64_Phdr * i)) }"

definition elf64_getProgramHeaderOffset :: "memory \<Rightarrow> elf_t \<Rightarrow> u64 \<Rightarrow> u64 option" where
  "elf64_getProgramHeaderOffset m elf i = do { t \<leftarrow> elf64_getProgramHeaderTable m elf; (rd64 m (t + of_nat SIZEOF_Elf64_Phdr * i + 8)) }"

definition elf64_getProgramHeaderVaddr :: "memory \<Rightarrow> elf_t \<Rightarrow> u64 \<Rightarrow> u64 option" where
  "elf64_getProgramHeaderVaddr m elf i = do { t \<leftarrow> elf64_getProgramHeaderTable m elf; (rd64 m (t + of_nat SIZEOF_Elf64_Phdr * i + 16)) }"

definition elf64_getProgramHeaderPaddr :: "memory \<Rightarrow> elf_t \<Rightarrow> u64 \<Rightarrow> u64 option" where
  "elf64_getProgramHeaderPaddr m elf i = do { t \<leftarrow> elf64_getProgramHeaderTable m elf; (rd64 m (t + of_nat SIZEOF_Elf64_Phdr * i + 24)) }"

definition elf64_getProgramHeaderFileSize :: "memory \<Rightarrow> elf_t \<Rightarrow> u64 \<Rightarrow> u64 option" where
  "elf64_getProgramHeaderFileSize m elf i = do { t \<leftarrow> elf64_getProgramHeaderTable m elf; (rd64 m (t + of_nat SIZEOF_Elf64_Phdr * i + 32)) }"

definition elf64_getProgramHeaderMemorySize :: "memory \<Rightarrow> elf_t \<Rightarrow> u64 \<Rightarrow> u64 option" where
  "elf64_getProgramHeaderMemorySize m elf i = do { t \<leftarrow> elf64_getProgramHeaderTable m elf; (rd64 m (t + of_nat SIZEOF_Elf64_Phdr * i + 40)) }"

definition elf64_getProgramHeaderFlags :: "memory \<Rightarrow> elf_t \<Rightarrow> u64 \<Rightarrow> u32 option" where
  "elf64_getProgramHeaderFlags m elf i = do { t \<leftarrow> elf64_getProgramHeaderTable m elf; (rd32 m (t + of_nat SIZEOF_Elf64_Phdr * i + 4)) }"

definition elf64_getProgramHeaderAlign :: "memory \<Rightarrow> elf_t \<Rightarrow> u64 \<Rightarrow> u64 option" where
  "elf64_getProgramHeaderAlign m elf i = do { t \<leftarrow> elf64_getProgramHeaderTable m elf; (rd64 m (t + of_nat SIZEOF_Elf64_Phdr * i + 48)) }"

section \<open>Fields of a file\<close>

definition elf_getEntryPoint :: "memory \<Rightarrow> elf_t \<Rightarrow> u64 option" where
  "elf_getEntryPoint m elf = (if elf_isElf32 elf then elf32_getEntryPoint m elf else elf64_getEntryPoint m elf)"

definition elf_getNumProgramHeaders :: "memory \<Rightarrow> elf_t \<Rightarrow> u64 option" where
  "elf_getNumProgramHeaders m elf = (if elf_isElf32 elf then elf32_getNumProgramHeaders m elf else elf64_getNumProgramHeaders m elf)"

definition elf_getNumSections :: "memory \<Rightarrow> elf_t \<Rightarrow> u64 option" where
  "elf_getNumSections m elf = (if elf_isElf32 elf then elf32_getNumSections m elf else elf64_getNumSections m elf)"

definition elf_getSectionStringTableIndex :: "memory \<Rightarrow> elf_t \<Rightarrow> u64 option" where
  "elf_getSectionStringTableIndex m elf = (if elf_isElf32 elf then elf32_getSectionStringTableIndex m elf else elf64_getSectionStringTableIndex m elf)"

definition elf_getSectionNameOffset :: "memory \<Rightarrow> elf_t \<Rightarrow> u64 \<Rightarrow> u64 option" where
  "elf_getSectionNameOffset m elf i = (if elf_isElf32 elf then elf32_getSectionNameOffset m elf i else elf64_getSectionNameOffset m elf i)"

definition elf_getSectionType :: "memory \<Rightarrow> elf_t \<Rightarrow> u64 \<Rightarrow> u32 option" where
  "elf_getSectionType m elf i = (if elf_isElf32 elf then elf32_getSectionType m elf i else elf64_getSectionType m elf i)"

definition elf_getSectionFlags :: "memory \<Rightarrow> elf_t \<Rightarrow> u64 \<Rightarrow> u64 option" where
  "elf_getSectionFlags m elf i = (if elf_isElf32 elf then elf32_getSectionFlags m elf i else elf64_getSectionFlags m elf i)"

definition elf_getSectionAddr :: "memory \<Rightarrow> elf_t \<Rightarrow> u64 \<Rightarrow> u64 option" where
  "elf_getSectionAddr m elf i = (if elf_isElf32 elf then elf32_getSectionAddr m elf i else elf64_getSectionAddr m elf i)"

definition elf_getSectionOffset :: "memory \<Rightarrow> elf_t \<Rightarrow> u64 \<Rightarrow> u64 option" where
  "elf_getSectionOffset m elf i = (if elf_isElf32 elf then elf32_getSectionOffset m elf i else elf64_getSectionOffset m elf i)"

definition elf_getSectionSize :: "memory \<Rightarrow> elf_t \<Rightarrow> u64 \<Rightarrow> u64 option" where
  "elf_getSectionSize m elf i = (if elf_isElf32 elf then elf32_getSectionSize m elf i else elf64_getSectionSize m elf i)"

definition elf_getSectionLink :: "memory \<Rightarrow> elf_t \<Rightarrow> u64 \<Rightarrow> u32 option" where
  "elf_getSectionLink m elf i = (if elf_isElf32 elf then elf32_getSectionLink m elf i else elf64_getSectionLink m elf i)"

definition elf_getSectionInfo :: "memory \<Rightarrow> elf_t \<Rightarrow> u64 \<Rightarrow> u32 option" where
  "elf_getSectionInfo m elf i = (if elf_isElf32 elf then elf32_getSectionInfo m elf i else elf64_getSectionInfo m elf i)"

definition elf_getSectionAddrAlign :: "memory \<Rightarrow> elf_t \<Rightarrow> u64 \<Rightarrow> u64 option" where
  "elf_getSectionAddrAlign m elf i = (if elf_isElf32 elf then elf32_getSectionAddrAlign m elf i else elf64_getSectionAddrAlign m elf i)"

definition elf_getSectionEntrySize :: "memory \<Rightarrow> elf_t \<Rightarrow> u64 \<Rightarrow> u64 option" where
  "elf_getSectionEntrySize m elf i = (if elf_isElf32 elf then elf32_getSectionEntrySize m elf i else elf64_getSectionEntrySize m elf i)"

definition elf_getProgramHeaderType :: "memory \<Rightarrow> elf_t \<Rightarrow> u64 \<Rightarrow> u32 option" where
  "elf_getProgramHeaderType m elf i = (if elf_isElf32 elf then elf32_getProgramHeaderType m elf i else elf64_getProgramHeaderType m elf i)"

definition elf_getProgramHeaderOffset :: "memory \<Rightarrow> elf_t \<Rightarrow> u64 \<Rightarrow> u64 option" where
  "elf_getProgramHeaderOffset m elf i = (if elf_isElf32 elf then elf32_getProgramHeaderOffset m elf i else elf64_getProgramHeaderOffset m elf i)"

definition elf_getProgramHeaderVaddr :: "memory \<Rightarrow> elf_t \<Rightarrow> u64 \<Rightarrow> u64 option" where
  "elf_getProgramHeaderVaddr m elf i = (if elf_isElf32 elf then elf32_getProgramHeaderVaddr m elf i else elf64_getProgramHeaderVaddr m elf i)"

definition elf_getProgramHeaderPaddr :: "memory \<Rightarrow> elf_t \<Rightarrow> u64 \<Rightarrow> u64 option" where
  "elf_getProgramHeaderPaddr m elf i = (if elf_isElf32 elf then elf32_getProgramHeaderPaddr m elf i else elf64_getProgramHeaderPaddr m elf i)"

definition elf_getProgramHeaderFileSize :: "memory \<Rightarrow> elf_t \<Rightarrow> u64 \<Rightarrow> u64 option" where
  "elf_getProgramHeaderFileSize m elf i = (if elf_isElf32 elf then elf32_getProgramHeaderFileSize m elf i else elf64_getProgramHeaderFileSize m elf i)"

definition elf_getProgramHeaderMemorySize :: "memory \<Rightarrow> elf_t \<Rightarrow> u64 \<Rightarrow> u64 option" where
  "elf_getProgramHeaderMemorySize m elf i = (if elf_isElf32 elf then elf32_getProgramHeaderMemorySize m elf i else elf64_getProgramHeaderMemorySize m elf i)"

definition elf_getProgramHeaderFlags :: "memory \<Rightarrow> elf_t \<Rightarrow> u64 \<Rightarrow> u32 option" where
  "elf_getProgramHeaderFlags m elf i = (if elf_isElf32 elf then elf32_getProgramHeaderFlags m elf i else elf64_getProgramHeaderFlags m elf i)"

definition elf_getProgramHeaderAlign :: "memory \<Rightarrow> elf_t \<Rightarrow> u64 \<Rightarrow> u64 option" where
  "elf_getProgramHeaderAlign m elf i = (if elf_isElf32 elf then elf32_getProgramHeaderAlign m elf i else elf64_getProgramHeaderAlign m elf i)"

section \<open>Sections and segments\<close>

text \<open>Null is the address zero.\<close>

definition elf_getSection :: "memory \<Rightarrow> elf_t \<Rightarrow> u64 \<Rightarrow> u64 option" where
  "elf_getSection m elf i = do {
     num \<leftarrow> (if i = 0 then Some 0 else elf_getNumSections m elf);
     if i = 0 \<or> i \<ge> num then Some 0
     else do {
       section_offset \<leftarrow> elf_getSectionOffset m elf i;
       section_size \<leftarrow> elf_getSectionSize m elf i;
       if section_size = 0 then Some 0
       else do {
         let section_end = section_offset + section_size;
         if section_end > elfSize elf \<or> section_end < section_offset then Some 0
         else Some (elfFile elf + section_offset) } } }"

definition elf_getStringTable :: "memory \<Rightarrow> elf_t \<Rightarrow> u64 \<Rightarrow> u64 option" where
  "elf_getStringTable m elf string_segment = do {
     string_table \<leftarrow> elf_getSection m elf string_segment;
     if string_table = 0 then Some 0
     else do {
       ty \<leftarrow> elf_getSectionType m elf string_segment;
       if ty \<noteq> SHT_STRTAB then Some 0
       else do {
         size \<leftarrow> elf_getSectionSize m elf string_segment;
         c \<leftarrow> m (string_table + (size - 1));
         if c \<noteq> 0 then Some 0 else Some string_table } } }"

definition elf_getSectionStringTable :: "memory \<Rightarrow> elf_t \<Rightarrow> u64 option" where
  "elf_getSectionStringTable m elf = do {
     index \<leftarrow> elf_getSectionStringTableIndex m elf;
     elf_getStringTable m elf index }"

text \<open>The name is the string that the returned pointer points to.\<close>

definition elf_getSectionName :: "memory \<Rightarrow> elf_t \<Rightarrow> u64 \<Rightarrow> cstring option" where
  "elf_getSectionName m elf i = do {
     str_table_idx \<leftarrow> elf_getSectionStringTableIndex m elf;
     str_table \<leftarrow> elf_getStringTable m elf str_table_idx;
     offset \<leftarrow> elf_getSectionNameOffset m elf i;
     size \<leftarrow> elf_getSectionSize m elf str_table_idx;
     Some (if str_table = 0 \<or> offset > size then literal ''<corrupted>'' else at m (str_table + offset)) }"

text \<open>\<open>strcmp\<close> of the C library.\<close>

partial_function (option) strcmp :: "cstring \<Rightarrow> cstring \<Rightarrow> u64 \<Rightarrow> int option" where
  "strcmp a b i = do {
     x \<leftarrow> a i;
     y \<leftarrow> b i;
     if x \<noteq> y \<or> x = 0 then Some (uint x - uint y) else strcmp a b (i + 1) }"

text \<open>The indices that remain to be tried. The result is the section and its index.\<close>

primrec section_named_loop :: "nat list \<Rightarrow> memory \<Rightarrow> elf_t \<Rightarrow> cstring \<Rightarrow> (u64 \<times> u64 option) option" where
  "section_named_loop [] m elf str = Some (0, None)"
| "section_named_loop (i # is) m elf str = do {
     name \<leftarrow> elf_getSectionName m elf (of_nat i);
     c \<leftarrow> strcmp str name 0;
     if c = 0 then do {
       s \<leftarrow> elf_getSection m elf (of_nat i);
       Some (s, Some (of_nat i)) }
     else section_named_loop is m elf str }"

definition elf_getSectionNamed :: "memory \<Rightarrow> elf_t \<Rightarrow> cstring \<Rightarrow> (u64 \<times> u64 option) option" where
  "elf_getSectionNamed m elf str = do {
     numSections \<leftarrow> elf_getNumSections m elf;
     section_named_loop [0..<unat numSections] m elf str }"

definition elf_getProgramSegment :: "memory \<Rightarrow> elf_t \<Rightarrow> u64 \<Rightarrow> u64 option" where
  "elf_getProgramSegment m elf ph = do {
     offset \<leftarrow> elf_getProgramHeaderOffset m elf ph;
     file_size \<leftarrow> elf_getProgramHeaderFileSize m elf ph;
     let segment_end = offset + file_size;
     if elfSize elf < segment_end \<or> segment_end < offset then Some 0
     else Some (elfFile elf + offset) }"

section \<open>Utilities\<close>

definition header_addr :: "memory \<Rightarrow> elf_t \<Rightarrow> elf_addr_type_t \<Rightarrow> u64 \<Rightarrow> u64 option" where
  "header_addr m elf addr_type i =
     (if addr_type = PHYSICAL then elf_getProgramHeaderPaddr m elf i else elf_getProgramHeaderVaddr m elf i)"

primrec mem_bounds_loop :: "nat list \<Rightarrow> memory \<Rightarrow> elf_t \<Rightarrow> elf_addr_type_t \<Rightarrow> u64 \<Rightarrow> u64 \<Rightarrow> (u64 \<times> u64) option" where
  "mem_bounds_loop [] m elf addr_type mem_min mem_max = Some (mem_min, mem_max)"
| "mem_bounds_loop (i # is) m elf addr_type mem_min mem_max = do {
     memsz \<leftarrow> elf_getProgramHeaderMemorySize m elf (of_nat i);
     if memsz = 0 then mem_bounds_loop is m elf addr_type mem_min mem_max
     else do {
       sect_min \<leftarrow> header_addr m elf addr_type (of_nat i);
       let sect_max = sect_min + memsz;
       mem_bounds_loop is m elf addr_type (if sect_min < mem_min then sect_min else mem_min) (if sect_max > mem_max then sect_max else mem_max) } }"

text \<open>The answer is always one; the bounds are the minimum and the maximum.\<close>

definition elf_getMemoryBounds :: "memory \<Rightarrow> elf_t \<Rightarrow> elf_addr_type_t \<Rightarrow> (int \<times> u64 \<times> u64) option" where
  "elf_getMemoryBounds m elf addr_type = do {
     n \<leftarrow> elf_getNumProgramHeaders m elf;
     (mem_min, mem_max) \<leftarrow> mem_bounds_loop [0..<unat n] m elf addr_type (- 1) 0;
     Some (1, mem_min, mem_max) }"

definition elf_vaddrInProgramHeader :: "memory \<Rightarrow> elf_t \<Rightarrow> u64 \<Rightarrow> u64 \<Rightarrow> int option" where
  "elf_vaddrInProgramHeader m elf ph vaddr = do {
     mn \<leftarrow> elf_getProgramHeaderVaddr m elf ph;
     sz \<leftarrow> elf_getProgramHeaderMemorySize m elf ph;
     let mx = mn + sz;
     Some (if vaddr \<ge> mn \<and> vaddr < mx then 1 else 0) }"

definition elf_vtopProgramHeader :: "memory \<Rightarrow> elf_t \<Rightarrow> u64 \<Rightarrow> u64 \<Rightarrow> u64 option" where
  "elf_vtopProgramHeader m elf ph vaddr = do {
     ph_phys \<leftarrow> elf_getProgramHeaderPaddr m elf ph;
     ph_virt \<leftarrow> elf_getProgramHeaderVaddr m elf ph;
     Some (vaddr - ph_virt + ph_phys) }"

text \<open>The file is read again in each round, from memory that the earlier rounds may have changed.\<close>

partial_function (option) load_loop :: "elf_t \<Rightarrow> elf_addr_type_t \<Rightarrow> u64 \<Rightarrow> memory \<Rightarrow> memory option" where
  "load_loop elf addr_type i m = do {
     n \<leftarrow> elf_getNumProgramHeaders m elf;
     if i < n then do {
       dest \<leftarrow> header_addr m elf addr_type i;
       len \<leftarrow> elf_getProgramHeaderFileSize m elf i;
       offset \<leftarrow> elf_getProgramHeaderOffset m elf i;
       m \<leftarrow> mem_copy dest (elfFile elf + offset) (unat len) m;
       memsz \<leftarrow> elf_getProgramHeaderMemorySize m elf i;
       m \<leftarrow> mem_zero (dest + len) (unat (memsz - len)) m;
       load_loop elf addr_type (i + 1) m }
     else Some m }"

definition elf_loadFile :: "elf_t \<Rightarrow> elf_addr_type_t \<Rightarrow> memory \<Rightarrow> (int \<times> memory) option" where
  "elf_loadFile elf addr_type m = do {
     m \<leftarrow> load_loop elf addr_type 0 m;
     Some (1, m) }"

end
