(* ===== verification/Elf_Load.thy ===== *)
theory Elf_Load
  imports Elf Frame_Table Dma
begin

text \<open>
  Loading a program, \<^verbatim>\<open>sos/src/elf.c\<close>: every page of a loadable segment gets a frame of the frame table and a copy of the frame's
  capability, is mapped for the program and filled with file content and zeros. The state is that of the frame table with its environment, and
  the memory of the root server, in which the file lies and in which every frame has its window. Operations of the virtual memory module, and
  those of the capability space and of mapping with arguments that the frame table does not use, are fields of \<open>load_env\<close>.
\<close>

section \<open>Environment\<close>

record 'e load_env =
  lo_sos :: "'e sos_env"
  lo_lim :: nat
  lo_AllRights :: nat
  lo_CapRights_new :: "bool \<Rightarrow> bool \<Rightarrow> bool \<Rightarrow> bool \<Rightarrow> nat"
  lo_cspace_copy :: "nat \<Rightarrow> cptr \<Rightarrow> nat \<Rightarrow> cptr \<Rightarrow> nat \<Rightarrow> 'e \<Rightarrow> nat \<times> 'e"
  lo_map_frame :: "nat \<Rightarrow> cptr \<Rightarrow> cptr \<Rightarrow> u64 \<Rightarrow> nat \<Rightarrow> 'e \<Rightarrow> nat \<times> 'e"
  lo_vm_add_elf_region :: "nat \<Rightarrow> u64 \<Rightarrow> u64 \<Rightarrow> int \<Rightarrow> 'e st \<Rightarrow> int \<times> 'e st"
  lo_vm_map_owned_frame :: "nat \<Rightarrow> u64 \<Rightarrow> frame_ref \<Rightarrow> cptr \<Rightarrow> bool \<Rightarrow> bool \<Rightarrow> bool \<Rightarrow> bool \<Rightarrow> bool \<Rightarrow> 'e st \<Rightarrow> int \<times> 'e st"

type_synonym 'e load_st = "'e st \<times> memory"

definition PT_LOAD :: u32 where "PT_LOAD = 1"
definition PF_X :: u64 where "PF_X = 1"
definition PF_W :: u64 where "PF_W = 2"
definition PF_R :: u64 where "PF_R = 4"
definition PROT_READ :: int where "PROT_READ = 1"
definition PROT_WRITE :: int where "PROT_WRITE = 2"
definition PROT_EXEC :: int where "PROT_EXEC = 4"
definition EEXIST :: int where "EEXIST = 17"
definition seL4_DeleteFirst :: nat where "seL4_DeleteFirst = 8"

definition PAGE :: u64 where "PAGE = 4096"

definition ROUND_DOWN :: "u64 \<Rightarrow> u64 \<Rightarrow> u64" where
  "ROUND_DOWN n b = n - n mod b"

section \<open>One page\<close>

definition get_sel4_rights_from_elf :: "'e load_env \<Rightarrow> u64 \<Rightarrow> nat" where
  "get_sel4_rights_from_elf X permissions =
     (let canRead = (permissions AND PF_R \<noteq> 0 \<or> permissions AND PF_X \<noteq> 0);
          canWrite = (permissions AND PF_W \<noteq> 0) in
      if \<not> canRead \<and> \<not> canWrite then lo_AllRights X
      else lo_CapRights_new X False False canRead canWrite)"

text \<open>The content of a page: zeros up to the start of the segment, then what is left of the file content, then zeros.\<close>

definition fill_page :: "u64 \<Rightarrow> u64 \<Rightarrow> u64 \<Rightarrow> u64 \<Rightarrow> u32 \<Rightarrow> memory \<Rightarrow> memory option" where
  "fill_page loader_data src file_size dst pos m = do {
     let leading_zeroes = dst mod PAGE;
     m \<leftarrow> mem_zero loader_data (unat leading_zeroes) m;
     let loader_data = loader_data + leading_zeroes;
     let segment_bytes = PAGE - leading_zeroes;
     if ucast pos < file_size then do {
       let file_bytes = min segment_bytes (file_size - ucast pos);
       m \<leftarrow> mem_copy loader_data src (unat file_bytes) m;
       let loader_data = loader_data + file_bytes;
       let trailing_zeroes = PAGE - (leading_zeroes + file_bytes);
       mem_zero loader_data (unat trailing_zeroes) m }
     else mem_zero loader_data (unat segment_bytes) m }"

text \<open>Mapping the frame, for a program with and without a state in the virtual memory module. The result says whether the page was
  mapped before; \<open>None\<close> inside is an error.\<close>

definition map_loadee :: "'e load_env \<Rightarrow> nat \<Rightarrow> cptr \<Rightarrow> nat \<Rightarrow> nat \<Rightarrow> u64 \<Rightarrow> u64 \<Rightarrow> frame_ref \<Rightarrow> cptr \<Rightarrow> 'e st \<Rightarrow> bool option \<times> 'e st" where
  "map_loadee X cspace loadee vm_handle permissions elf_flags loadee_vaddr frame loadee_frame s =
     (if vm_handle \<noteq> 0 then
        (let readable = (elf_flags AND PF_R \<noteq> 0 \<or> elf_flags AND PF_X \<noteq> 0);
             writable = (elf_flags AND PF_W \<noteq> 0);
             executable = (elf_flags AND PF_X \<noteq> 0);
             (vm_err, s) = lo_vm_map_owned_frame X vm_handle loadee_vaddr frame loadee_frame readable writable executable True True s in
         if vm_err = - EEXIST then (Some True, s)
         else if vm_err < 0 then (None, s)
         else (Some False, s))
      else
        (let (err, e) = lo_map_frame X cspace loadee_frame loadee loadee_vaddr permissions (snd s);
             already_mapped = (err = seL4_DeleteFirst) in
         if \<not> already_mapped \<and> err \<noteq> 0 then (None, (fst s, e))
         else (Some already_mapped, (fst s, e))))"

text \<open>A page that was mapped before gives its frame and capability back.\<close>

definition give_back :: "'e load_env \<Rightarrow> nat \<Rightarrow> cptr \<Rightarrow> frame_ref \<Rightarrow> 'e st \<Rightarrow> 'e st option" where
  "give_back X cspace loadee_frame frame s = do {
     let (_, e) = x_cspace_delete (lo_sos X) cspace loadee_frame (snd s);
     let e = x_cspace_free_slot (lo_sos X) cspace loadee_frame e;
     ft \<leftarrow> free_frame frame (fst s);
     Some (ft, e) }"

definition load_page :: "'e load_env \<Rightarrow> nat \<Rightarrow> cptr \<Rightarrow> nat \<Rightarrow> nat \<Rightarrow> u64 \<Rightarrow> u64 \<Rightarrow> u64 \<Rightarrow> u64 \<Rightarrow> u32 \<Rightarrow> 'e load_st \<Rightarrow> (int \<times> 'e load_st) option" where
  "load_page X cspace loadee vm_handle permissions elf_flags src file_size dst pos = (\<lambda>((ft, e), m). do {
     let loadee_vaddr = ROUND_DOWN dst PAGE;
     (loadee_frame, e) \<leftarrow> Some (x_cspace_alloc_slot (lo_sos X) cspace e);
     if loadee_frame = seL4_CapNull then Some (-1, ((ft, e), m))
     else do {
       (frame, s) \<leftarrow> alloc_frame (lo_sos X) (lo_lim X) FRAME_OWNER_USER FRAME_FLAG_EVICTABLE (ft, e);
       if frame = NULL_FRAME then Some (-1, (s, m))
       else do {
         page \<leftarrow> frame_page frame (fst s);
         (err, e) \<leftarrow> Some (lo_cspace_copy X cspace loadee_frame (frame_table_cspace (fst s)) page (lo_AllRights X) (snd s));
         if err \<noteq> 0 then Some (-1, ((fst s, e), m))
         else do {
           (already_mapped, s) \<leftarrow> Some (map_loadee X cspace loadee vm_handle permissions elf_flags loadee_vaddr frame loadee_frame (fst s, e));
           if already_mapped = None then Some (-1, (s, m))
           else do {
             s \<leftarrow> (if already_mapped = Some True then give_back X cspace loadee_frame frame s else Some s);
             loader_data \<leftarrow> frame_data frame (fst s);
             m \<leftarrow> fill_page loader_data src file_size dst pos m;
             Some (0, (s, m)) } } } } })"

section \<open>Segments and files\<close>

text \<open>The position has 32 bits, the size of the segment 64: the loop does not end when the position wraps around.\<close>

partial_function (option) load_pages ::
    "'e load_env \<Rightarrow> nat \<Rightarrow> cptr \<Rightarrow> nat \<Rightarrow> nat \<Rightarrow> u64 \<Rightarrow> u64 \<Rightarrow> u64 \<Rightarrow> u64 \<Rightarrow> u64 \<Rightarrow> u32 \<Rightarrow> 'e load_st \<Rightarrow> (int \<times> 'e load_st) option" where
  "load_pages X cspace loadee vm_handle permissions elf_flags segment_size file_size src dst pos s =
     (if ucast pos < segment_size then
        Option.bind (load_page X cspace loadee vm_handle permissions elf_flags src file_size dst pos s) (\<lambda>(err, s).
          if err \<noteq> 0 then Some (err, s)
          else
            (let segment_bytes = PAGE - dst mod PAGE in
             load_pages X cspace loadee vm_handle permissions elf_flags segment_size file_size
               (src + segment_bytes) (dst + segment_bytes) (pos + ucast segment_bytes) s))
      else Some (0, s))"

definition load_segment_into_vspace ::
    "'e load_env \<Rightarrow> nat \<Rightarrow> cptr \<Rightarrow> u64 \<Rightarrow> u64 \<Rightarrow> u64 \<Rightarrow> u64 \<Rightarrow> nat \<Rightarrow> nat \<Rightarrow> u64 \<Rightarrow> 'e load_st \<Rightarrow> (int \<times> 'e load_st) option" where
  "load_segment_into_vspace X cspace loadee src segment_size file_size dst permissions vm_handle elf_flags = (\<lambda>(s, m). do {
     cassert (file_size \<le> segment_size);
     (region_err, s) \<leftarrow>
       (if vm_handle \<noteq> 0 then do {
          let segment_start = ROUND_DOWN dst PAGE;
          segment_end \<leftarrow> ROUND_UP (dst + segment_size) PAGE;
          let prot = (if elf_flags AND PF_R \<noteq> 0 then PROT_READ else 0) + (if elf_flags AND PF_W \<noteq> 0 then PROT_WRITE else 0) +
            (if elf_flags AND PF_X \<noteq> 0 then PROT_EXEC else 0);
          Some (lo_vm_add_elf_region X vm_handle segment_start segment_end prot s) }
        else Some (0, s));
     if region_err < 0 then Some (-1, (s, m))
     else load_pages X cspace loadee vm_handle permissions elf_flags segment_size file_size src dst 0 (s, m) })"

text \<open>The headers that remain.\<close>

primrec load_headers :: "'e load_env \<Rightarrow> nat \<Rightarrow> cptr \<Rightarrow> elf_t \<Rightarrow> nat \<Rightarrow> nat list \<Rightarrow> 'e load_st \<Rightarrow> (int \<times> 'e load_st) option" where
  "load_headers X cspace loadee elf_file vm_handle [] s = Some (0, s)"
| "load_headers X cspace loadee elf_file vm_handle (i # is) s = do {
     ty \<leftarrow> elf_getProgramHeaderType (snd s) elf_file (of_nat i);
     if ty \<noteq> PT_LOAD then load_headers X cspace loadee elf_file vm_handle is s
     else do {
       offset \<leftarrow> elf_getProgramHeaderOffset (snd s) elf_file (of_nat i);
       file_size \<leftarrow> elf_getProgramHeaderFileSize (snd s) elf_file (of_nat i);
       segment_size \<leftarrow> elf_getProgramHeaderMemorySize (snd s) elf_file (of_nat i);
       vaddr \<leftarrow> elf_getProgramHeaderVaddr (snd s) elf_file (of_nat i);
       flags \<leftarrow> elf_getProgramHeaderFlags (snd s) elf_file (of_nat i);
       (err, s) \<leftarrow> load_segment_into_vspace X cspace loadee (elfFile elf_file + offset) segment_size file_size vaddr
         (get_sel4_rights_from_elf X (ucast flags)) vm_handle (ucast flags) s;
       if err \<noteq> 0 then Some (-1, s)
       else load_headers X cspace loadee elf_file vm_handle is s } }"

definition elf_load :: "'e load_env \<Rightarrow> nat \<Rightarrow> cptr \<Rightarrow> elf_t \<Rightarrow> nat \<Rightarrow> 'e load_st \<Rightarrow> (int \<times> 'e load_st) option" where
  "elf_load X cspace loadee_vspace elf_file vm_handle s = do {
     num_headers \<leftarrow> elf_getNumProgramHeaders (snd s) elf_file;
     load_headers X cspace loadee_vspace elf_file vm_handle [0..<unat num_headers] s }"

end
