(* ===== verification/Elf_Spec.thy ===== *)
theory Elf_Spec
  imports Elf
begin

text \<open>
  What validation of an ELF file guarantees: every access to its header and tables stays inside the file, and so do the sections and segments
  that the library hands out.
\<close>

section \<open>Reading inside a mapped range\<close>

lemma rd_in:
  assumes "mapped m f n"
  shows "k + 2 \<le> n \<Longrightarrow> \<exists>v. rd16 m (f + of_nat k) = Some v" "k + 4 \<le> n \<Longrightarrow> \<exists>v. rd32 m (f + of_nat k) = Some v"
    "k + 8 \<le> n \<Longrightarrow> \<exists>v. rd64 m (f + of_nat k) = Some v" "k + j \<le> n \<Longrightarrow> \<exists>v. mem_bytes m (f + of_nat k) j = Some v"
    "k < n \<Longrightarrow> \<exists>v. m (f + of_nat k) = Some v"
  using mapped_sub [OF assms] by (auto simp: rd_mapped mem_bytes_mapped) (use assms in \<open>auto simp: mapped_def\<close>)

lemma header64_reads:
  assumes "elf64_getHeader m elf = Some h"
  shows "rd16 m (elfFile elf + 54) = Some (e64_phentsize h)" "rd16 m (elfFile elf + 58) = Some (e64_shentsize h)"
    "rd16 m (elfFile elf + 62) = Some (e64_shstrndx h)" "rd16 m (elfFile elf + 60) = Some (e64_shnum h)" "rd16 m (elfFile elf + 56) = Some (e64_phnum h)"
    "rd64 m (elfFile elf + 32) = Some (e64_phoff h)" "rd64 m (elfFile elf + 40) = Some (e64_shoff h)"
  using assms by (auto simp: elf64_getHeader_def Let_def elim!: c_elims)

lemma header32_reads:
  assumes "elf32_getHeader m elf = Some h"
  shows "rd16 m (elfFile elf + 42) = Some (e32_phentsize h)" "rd16 m (elfFile elf + 46) = Some (e32_shentsize h)"
    "rd16 m (elfFile elf + 50) = Some (e32_shstrndx h)" "rd16 m (elfFile elf + 48) = Some (e32_shnum h)" "rd16 m (elfFile elf + 44) = Some (e32_phnum h)"
    "rd32 m (elfFile elf + 28) = Some (e32_phoff h)" "rd32 m (elfFile elf + 32) = Some (e32_shoff h)"
  using assms by (auto simp: elf32_getHeader_def Let_def elim!: c_elims)

lemma header64_in:
  assumes "mapped m (elfFile elf) n" "64 \<le> n"
  shows "\<exists>h. elf64_getHeader m elf = Some h"
proof -
  note R16 = rd_in(1) [OF assms(1)] and R32 = rd_in(2) [OF assms(1)] and R64 = rd_in(3) [OF assms(1)]
  obtain b where "mem_bytes m (elfFile elf) 16 = Some b" using rd_in(4) [OF assms(1), of 0 16] assms(2) by auto
  moreover obtain v1 v2 v3 v4 v5 v6 v7 v8 where "rd16 m (elfFile elf + 16) = Some v1" "rd16 m (elfFile elf + 18) = Some v2" "rd16 m (elfFile elf + 52) = Some v3"
    "rd16 m (elfFile elf + 54) = Some v4" "rd16 m (elfFile elf + 56) = Some v5" "rd16 m (elfFile elf + 58) = Some v6" "rd16 m (elfFile elf + 60) = Some v7"
    "rd16 m (elfFile elf + 62) = Some v8"
    using R16 [of 16] R16 [of 18] R16 [of 52] R16 [of 54] R16 [of 56] R16 [of 58] R16 [of 60] R16 [of 62] assms(2) by auto
  moreover obtain w1 w2 where "rd32 m (elfFile elf + 20) = Some w1" "rd32 m (elfFile elf + 48) = Some w2" using R32 [of 20] R32 [of 48] assms(2) by auto
  moreover obtain x1 x2 x3 where "rd64 m (elfFile elf + 24) = Some x1" "rd64 m (elfFile elf + 32) = Some x2" "rd64 m (elfFile elf + 40) = Some x3"
    using R64 [of 24] R64 [of 32] R64 [of 40] assms(2) by auto
  ultimately show ?thesis by (simp add: elf64_getHeader_def)
qed

lemma header32_in:
  assumes "mapped m (elfFile elf) n" "52 \<le> n"
  shows "\<exists>h. elf32_getHeader m elf = Some h"
proof -
  note R16 = rd_in(1) [OF assms(1)] and R32 = rd_in(2) [OF assms(1)]
  obtain b where "mem_bytes m (elfFile elf) 16 = Some b" using rd_in(4) [OF assms(1), of 0 16] assms(2) by auto
  moreover obtain v1 v2 v3 v4 v5 v6 v7 v8 where "rd16 m (elfFile elf + 16) = Some v1" "rd16 m (elfFile elf + 18) = Some v2" "rd16 m (elfFile elf + 40) = Some v3"
    "rd16 m (elfFile elf + 42) = Some v4" "rd16 m (elfFile elf + 44) = Some v5" "rd16 m (elfFile elf + 46) = Some v6" "rd16 m (elfFile elf + 48) = Some v7"
    "rd16 m (elfFile elf + 50) = Some v8"
    using R16 [of 16] R16 [of 18] R16 [of 40] R16 [of 42] R16 [of 44] R16 [of 46] R16 [of 48] R16 [of 50] assms(2) by auto
  moreover obtain w1 w2 w3 w4 w5 where "rd32 m (elfFile elf + 20) = Some w1" "rd32 m (elfFile elf + 24) = Some w2" "rd32 m (elfFile elf + 28) = Some w3"
    "rd32 m (elfFile elf + 32) = Some w4" "rd32 m (elfFile elf + 36) = Some w5" using R32 [of 20] R32 [of 24] R32 [of 28] R32 [of 32] R32 [of 36] assms(2) by auto
  ultimately show ?thesis by (simp add: elf32_getHeader_def)
qed

section \<open>Valid files\<close>

text \<open>The header is readable, the entries have the expected sizes, and both tables lie inside the file.\<close>

definition valid64 :: "memory \<Rightarrow> elf_t \<Rightarrow> bool" where
  "valid64 m elf \<longleftrightarrow> elfClass elf = ELFCLASS64 \<and> (\<exists>h. elf64_getHeader m elf = Some h \<and> e64_shstrndx h < e64_shnum h \<and>
     unat (e64_phoff h) + SIZEOF_Elf64_Phdr * unat (e64_phnum h) \<le> unat (elfSize elf) \<and>
     unat (e64_shoff h) + SIZEOF_Elf64_Shdr * unat (e64_shnum h) \<le> unat (elfSize elf))"

definition valid32 :: "memory \<Rightarrow> elf_t \<Rightarrow> bool" where
  "valid32 m elf \<longleftrightarrow> elfClass elf = ELFCLASS32 \<and> (\<exists>h. elf32_getHeader m elf = Some h \<and> e32_shstrndx h < e32_shnum h \<and>
     unat (e32_phoff h) + SIZEOF_Elf32_Phdr * unat (e32_phnum h) \<le> unat (elfSize elf) \<and>
     unat (e32_shoff h) + SIZEOF_Elf32_Shdr * unat (e32_shnum h) \<le> unat (elfSize elf))"

definition in_memory :: "memory \<Rightarrow> elf_t \<Rightarrow> bool" where
  "in_memory m elf \<longleftrightarrow> mapped m (elfFile elf) (unat (elfSize elf))"

lemma in_memory_class [simp]: "in_memory m (elf\<lparr>elfClass := c\<rparr>) = in_memory m elf"
  by (simp add: in_memory_def)

lemma getHeader_class [simp]: "elf64_getHeader m (elf\<lparr>elfClass := c\<rparr>) = elf64_getHeader m elf" "elf32_getHeader m (elf\<lparr>elfClass := c\<rparr>) = elf32_getHeader m elf"
  by (simp_all add: elf64_getHeader_def elf32_getHeader_def)

lemma magic_in:
  assumes "in_memory m elf" "4 \<le> unat (elfSize elf)"
  shows "\<exists>r. elf_check_magic m (elfFile elf) = Some r"
proof -
  obtain b where "mem_bytes m (elfFile elf) 4 = Some b" using rd_in(4) [OF assms(1) [unfolded in_memory_def], of 0 4] assms(2) by auto
  then show ?thesis by (simp add: elf_check_magic_def)
qed

lemma check64_total:
  assumes "in_memory m elf"
  shows "\<exists>r. elf64_checkFile m elf = Some (r, elf) \<and> r = -1 \<or>
    elf64_checkFile m elf = Some (0, elf\<lparr>elfClass := ELFCLASS64\<rparr>) \<and> 64 \<le> unat (elfSize elf) \<and>
    (\<exists>h. elf64_getHeader m elf = Some h \<and> unat (e64_phentsize h) = 56 \<and> unat (e64_shentsize h) = 64 \<and> e64_shstrndx h < e64_shnum h)"
proof (cases "64 \<le> unat (elfSize elf)")
  case True
  obtain h where h: "elf64_getHeader m elf = Some h" using header64_in [OF assms [unfolded in_memory_def] True] by blast
  obtain c where c: "m (elfFile elf + EI_CLASS) = Some c" using rd_in(5) [OF assms [unfolded in_memory_def], of 4] True by (auto simp: EI_CLASS_def)
  obtain r where r: "elf_check_magic m (elfFile elf) = Some r" using magic_in [OF assms] True by auto
  show ?thesis using True h c r header64_reads [OF h]
    by (auto simp: elf64_checkFile_def SIZEOF_Elf64_Ehdr_def SIZEOF_Elf64_Phdr_def SIZEOF_Elf64_Shdr_def Let_def)
qed (simp add: elf64_checkFile_def SIZEOF_Elf64_Ehdr_def)

lemma check32_total:
  assumes "in_memory m elf"
  shows "\<exists>r. elf32_checkFile m elf = Some (r, elf) \<and> r = -1 \<or>
    elf32_checkFile m elf = Some (0, elf\<lparr>elfClass := ELFCLASS32\<rparr>) \<and> 52 \<le> unat (elfSize elf) \<and>
    (\<exists>h. elf32_getHeader m elf = Some h \<and> unat (e32_phentsize h) = 32 \<and> unat (e32_shentsize h) = 40 \<and> e32_shstrndx h < e32_shnum h)"
proof (cases "52 \<le> unat (elfSize elf)")
  case True
  obtain h where h: "elf32_getHeader m elf = Some h" using header32_in [OF assms [unfolded in_memory_def] True] by blast
  obtain c where c: "m (elfFile elf + EI_CLASS) = Some c" using rd_in(5) [OF assms [unfolded in_memory_def], of 4] True by (auto simp: EI_CLASS_def)
  obtain r where r: "elf_check_magic m (elfFile elf) = Some r" using magic_in [OF assms] True by auto
  show ?thesis using True h c r header32_reads [OF h]
    by (auto simp: elf32_checkFile_def SIZEOF_Elf32_Ehdr_def SIZEOF_Elf32_Phdr_def SIZEOF_Elf32_Shdr_def Let_def)
qed (simp add: elf32_checkFile_def SIZEOF_Elf32_Ehdr_def)

text \<open>The test for wrap around makes the end of a table the sum of the numbers.\<close>

lemma no_wrap:
  fixes off :: "'a :: len word"
  assumes "n < 2 ^ LENGTH('a)" "\<not> off + of_nat n < off"
  shows "unat (off + of_nat n) = unat off + n"
proof (rule ccontr)
  have u: "unat (of_nat n :: 'a word) = n" using assms(1) by (simp add: unsigned_of_nat take_bit_nat_eq_self)
  assume "unat (off + of_nat n) \<noteq> unat off + n"
  have less: "unat off + n - 2 ^ LENGTH('a) < 2 ^ LENGTH('a)" using assms(1) unsigned_less [of off, where 'a = nat] by linarith
  from \<open>unat (off + of_nat n) \<noteq> unat off + n\<close> have "unat off + n \<ge> 2 ^ LENGTH('a)" by (metis not_le u unat_word_ariths(1) mod_less)
  then have "unat (off + of_nat n) = unat off + n - 2 ^ LENGTH('a)"
    using less unfolding unat_word_ariths u by (subst le_mod_geq) simp_all
  then have "unat (off + of_nat n) < unat off" using assms(1) \<open>unat off + n \<ge> 2 ^ LENGTH('a)\<close> by linarith
  then show False using assms(2) by (simp add: word_less_nat_alt)
qed

lemma table_size_small:
  assumes "unat entsize \<le> 64"
  shows "table_size entsize num = Some (unat entsize * unat num)" "unat entsize * unat num < 2 ^ 32"
proof -
  have "unat num < 65536" using unsigned_less [of num, where 'a = nat] by simp
  then have "unat entsize * unat num \<le> 64 * 65536" using assms by (intro mult_le_mono) simp_all
  then show "table_size entsize num = Some (unat entsize * unat num)" "unat entsize * unat num < 2 ^ 32" by (simp_all add: table_size_def)
qed

lemma checked64:
  assumes h: "elf64_getHeader m elf = Some h" "unat (e64_phentsize h) = 56" "unat (e64_shentsize h) = 64"
  shows "\<exists>r. elf64_checkProgramHeaderTable m elf = Some r \<and> (r = 0 \<longrightarrow> unat (e64_phoff h) + 56 * unat (e64_phnum h) \<le> unat (elfSize elf)) \<and> (r = 0 \<or> r = -1)"
    "\<exists>r. elf64_checkSectionTable m elf = Some r \<and> (r = 0 \<longrightarrow> unat (e64_shoff h) + 64 * unat (e64_shnum h) \<le> unat (elfSize elf)) \<and> (r = 0 \<or> r = -1)"
proof -
  have p: "table_size (e64_phentsize h) (e64_phnum h) = Some (56 * unat (e64_phnum h))" "56 * unat (e64_phnum h) < 2 ^ 64"
    and s: "table_size (e64_shentsize h) (e64_shnum h) = Some (64 * unat (e64_shnum h))" "64 * unat (e64_shnum h) < 2 ^ 64"
    using table_size_small [of "e64_phentsize h" "e64_phnum h"] table_size_small [of "e64_shentsize h" "e64_shnum h"] h(2,3) by simp_all
  note R = header64_reads [OF h(1)]
  show "\<exists>r. elf64_checkProgramHeaderTable m elf = Some r \<and> (r = 0 \<longrightarrow> unat (e64_phoff h) + 56 * unat (e64_phnum h) \<le> unat (elfSize elf)) \<and> (r = 0 \<or> r = -1)"
    using no_wrap [of "56 * unat (e64_phnum h)" "e64_phoff h"] p R(1,5,6) unfolding elf64_checkProgramHeaderTable_def Let_def
    by (simp add: not_less word_le_nat_alt)
  show "\<exists>r. elf64_checkSectionTable m elf = Some r \<and> (r = 0 \<longrightarrow> unat (e64_shoff h) + 64 * unat (e64_shnum h) \<le> unat (elfSize elf)) \<and> (r = 0 \<or> r = -1)"
    using no_wrap [of "64 * unat (e64_shnum h)" "e64_shoff h"] s R(2,4,7) unfolding elf64_checkSectionTable_def Let_def
    by (simp add: not_less word_le_nat_alt)
qed

lemma checked32:
  assumes h: "elf32_getHeader m elf = Some h" "unat (e32_phentsize h) = 32" "unat (e32_shentsize h) = 40"
  shows "\<exists>r. elf32_checkProgramHeaderTable m elf = Some r \<and> (r = 0 \<longrightarrow> unat (e32_phoff h) + 32 * unat (e32_phnum h) \<le> unat (elfSize elf)) \<and> (r = 0 \<or> r = -1)"
    "\<exists>r. elf32_checkSectionTable m elf = Some r \<and> (r = 0 \<longrightarrow> unat (e32_shoff h) + 40 * unat (e32_shnum h) \<le> unat (elfSize elf)) \<and> (r = 0 \<or> r = -1)"
proof -
  have p: "table_size (e32_phentsize h) (e32_phnum h) = Some (32 * unat (e32_phnum h))" "32 * unat (e32_phnum h) < 2 ^ 32"
    and s: "table_size (e32_shentsize h) (e32_shnum h) = Some (40 * unat (e32_shnum h))" "40 * unat (e32_shnum h) < 2 ^ 32"
    using table_size_small [of "e32_phentsize h" "e32_phnum h"] table_size_small [of "e32_shentsize h" "e32_shnum h"] h(2,3) by simp_all
  note R = header32_reads [OF h(1)]
  show "\<exists>r. elf32_checkProgramHeaderTable m elf = Some r \<and> (r = 0 \<longrightarrow> unat (e32_phoff h) + 32 * unat (e32_phnum h) \<le> unat (elfSize elf)) \<and> (r = 0 \<or> r = -1)"
    using no_wrap [of "32 * unat (e32_phnum h)" "e32_phoff h"] p R(1,5,6) unfolding elf32_checkProgramHeaderTable_def Let_def
    by (simp add: not_less word_le_nat_alt)
  show "\<exists>r. elf32_checkSectionTable m elf = Some r \<and> (r = 0 \<longrightarrow> unat (e32_shoff h) + 40 * unat (e32_shnum h) \<le> unat (elfSize elf)) \<and> (r = 0 \<or> r = -1)"
    using no_wrap [of "40 * unat (e32_shnum h)" "e32_shoff h"] s R(2,4,7) unfolding elf32_checkSectionTable_def Let_def
    by (simp add: not_less word_le_nat_alt)
qed

lemma newFile_total:
  assumes "in_memory m \<lparr>elfFile = f, elfSize = sz, elfClass = 0\<rparr>"
  shows "\<exists>elf. elf_newFile m f sz = Some (0, Some elf) \<and> elfFile elf = f \<and> elfSize elf = sz \<and> (valid64 m elf \<or> valid32 m elf) \<or>
    elf_newFile m f sz = Some (-1, None)"
proof -
  let ?e = "\<lparr>elfFile = f, elfSize = sz, elfClass = 0\<rparr>"
  consider (c32) h where "elf32_checkFile m ?e = Some (0, ?e\<lparr>elfClass := ELFCLASS32\<rparr>)" "elf32_getHeader m ?e = Some h" "unat (e32_phentsize h) = 32"
      "unat (e32_shentsize h) = 40" "e32_shstrndx h < e32_shnum h"
    | (c64) h where "elf32_checkFile m ?e = Some (-1, ?e)" "elf64_checkFile m ?e = Some (0, ?e\<lparr>elfClass := ELFCLASS64\<rparr>)" "elf64_getHeader m ?e = Some h"
      "unat (e64_phentsize h) = 56" "unat (e64_shentsize h) = 64" "e64_shstrndx h < e64_shnum h"
    | (none) "elf32_checkFile m ?e = Some (-1, ?e)" "elf64_checkFile m ?e = Some (-1, ?e)"
    using check32_total [OF assms] check64_total [OF assms] by blast
  then show ?thesis
  proof cases
    case c32
    let ?f = "?e\<lparr>elfClass := ELFCLASS32\<rparr>"
    have h: "elf32_getHeader m ?f = Some h" using c32(2) getHeader_class(2) [of m _ ?e] by (simp only:)
    have chk: "elf_checkFile m ?e = Some (0, ?f)" "elf_isElf32 ?f" using c32(1) by (simp_all add: elf_checkFile_def elf_isElf32_def)
    obtain p s where "elf32_checkProgramHeaderTable m ?f = Some p" "p = 0 \<longrightarrow> unat (e32_phoff h) + 32 * unat (e32_phnum h) \<le> unat (elfSize ?f)" "p = 0 \<or> p = -1"
      "elf32_checkSectionTable m ?f = Some s" "s = 0 \<longrightarrow> unat (e32_shoff h) + 40 * unat (e32_shnum h) \<le> unat (elfSize ?f)" "s = 0 \<or> s = -1"
      using checked32 [OF h c32(3,4)] by blast
    then show ?thesis using chk h c32(5) unfolding elf_newFile_def elf_newFile_maybe_unsafe_def elf_checkProgramHeaderTable_def elf_checkSectionTable_def
      by (auto simp: valid32_def SIZEOF_Elf32_Phdr_def SIZEOF_Elf32_Shdr_def)
  next
    case c64
    let ?f = "?e\<lparr>elfClass := ELFCLASS64\<rparr>"
    have h: "elf64_getHeader m ?f = Some h" using c64(3) getHeader_class(1) [of m _ ?e] by (simp only:)
    have chk: "elf_checkFile m ?e = Some (0, ?f)" "\<not> elf_isElf32 ?f"
      using c64(1,2) by (simp_all add: elf_checkFile_def elf_isElf32_def ELFCLASS32_def ELFCLASS64_def)
    obtain p s where "elf64_checkProgramHeaderTable m ?f = Some p" "p = 0 \<longrightarrow> unat (e64_phoff h) + 56 * unat (e64_phnum h) \<le> unat (elfSize ?f)" "p = 0 \<or> p = -1"
      "elf64_checkSectionTable m ?f = Some s" "s = 0 \<longrightarrow> unat (e64_shoff h) + 64 * unat (e64_shnum h) \<le> unat (elfSize ?f)" "s = 0 \<or> s = -1"
      using checked64 [OF h c64(4,5)] by blast
    then show ?thesis using chk h c64(6) unfolding elf_newFile_def elf_newFile_maybe_unsafe_def elf_checkProgramHeaderTable_def elf_checkSectionTable_def
      by (auto simp: valid64_def SIZEOF_Elf64_Phdr_def SIZEOF_Elf64_Shdr_def)
  next
    case none
    then show ?thesis by (simp add: elf_newFile_def elf_newFile_maybe_unsafe_def elf_checkFile_def)
  qed
qed

section \<open>Tables\<close>

lemma table_mapped:
  fixes off :: "'a :: len word"
  assumes "mapped m f sz" "unat off + es * num \<le> sz" "unat (i :: u64) < num" "k + n \<le> es"
  shows "mapped m (f + ucast off + of_nat es * i + of_nat k) n"
proof -
  have "es * unat i + es \<le> es * num" using mult_le_mono2 [of "Suc (unat i)" num es] assms(3) by simp
  then have "mapped m (f + of_nat (unat off + es * unat i + k)) n" using assms(2,4) by (intro mapped_sub [OF assms(1)]) simp
  moreover have "f + ucast off + of_nat es * i + of_nat k = f + of_nat (unat off + es * unat i + k)"
    by simp
  ultimately show ?thesis by (simp only:)
qed

definition phdr_readable :: "memory \<Rightarrow> elf_t \<Rightarrow> u64 \<Rightarrow> bool" where
  "phdr_readable m elf i \<longleftrightarrow> elf_getProgramHeaderType m elf i \<noteq> None \<and>
     elf_getProgramHeaderOffset m elf i \<noteq> None \<and>
     elf_getProgramHeaderVaddr m elf i \<noteq> None \<and>
     elf_getProgramHeaderPaddr m elf i \<noteq> None \<and>
     elf_getProgramHeaderFileSize m elf i \<noteq> None \<and>
     elf_getProgramHeaderMemorySize m elf i \<noteq> None \<and>
     elf_getProgramHeaderFlags m elf i \<noteq> None \<and>
     elf_getProgramHeaderAlign m elf i \<noteq> None"

definition shdr_readable :: "memory \<Rightarrow> elf_t \<Rightarrow> u64 \<Rightarrow> bool" where
  "shdr_readable m elf i \<longleftrightarrow> elf_getSectionNameOffset m elf i \<noteq> None \<and>
     elf_getSectionType m elf i \<noteq> None \<and>
     elf_getSectionFlags m elf i \<noteq> None \<and>
     elf_getSectionAddr m elf i \<noteq> None \<and>
     elf_getSectionOffset m elf i \<noteq> None \<and>
     elf_getSectionSize m elf i \<noteq> None \<and>
     elf_getSectionLink m elf i \<noteq> None \<and>
     elf_getSectionInfo m elf i \<noteq> None \<and>
     elf_getSectionAddrAlign m elf i \<noteq> None \<and>
     elf_getSectionEntrySize m elf i \<noteq> None"

lemmas getters32 = elf_getProgramHeaderType_def elf32_getProgramHeaderType_def elf_getProgramHeaderOffset_def elf32_getProgramHeaderOffset_def elf_getProgramHeaderVaddr_def elf32_getProgramHeaderVaddr_def elf_getProgramHeaderPaddr_def elf32_getProgramHeaderPaddr_def elf_getProgramHeaderFileSize_def elf32_getProgramHeaderFileSize_def elf_getProgramHeaderMemorySize_def elf32_getProgramHeaderMemorySize_def elf_getProgramHeaderFlags_def elf32_getProgramHeaderFlags_def elf_getProgramHeaderAlign_def elf32_getProgramHeaderAlign_def
  elf_getSectionNameOffset_def elf32_getSectionNameOffset_def elf_getSectionType_def elf32_getSectionType_def elf_getSectionFlags_def elf32_getSectionFlags_def elf_getSectionAddr_def elf32_getSectionAddr_def elf_getSectionOffset_def elf32_getSectionOffset_def elf_getSectionSize_def elf32_getSectionSize_def elf_getSectionLink_def elf32_getSectionLink_def elf_getSectionInfo_def elf32_getSectionInfo_def elf_getSectionAddrAlign_def elf32_getSectionAddrAlign_def elf_getSectionEntrySize_def elf32_getSectionEntrySize_def

lemmas getters64 = elf_getProgramHeaderType_def elf64_getProgramHeaderType_def elf_getProgramHeaderOffset_def elf64_getProgramHeaderOffset_def elf_getProgramHeaderVaddr_def elf64_getProgramHeaderVaddr_def elf_getProgramHeaderPaddr_def elf64_getProgramHeaderPaddr_def elf_getProgramHeaderFileSize_def elf64_getProgramHeaderFileSize_def elf_getProgramHeaderMemorySize_def elf64_getProgramHeaderMemorySize_def elf_getProgramHeaderFlags_def elf64_getProgramHeaderFlags_def elf_getProgramHeaderAlign_def elf64_getProgramHeaderAlign_def
  elf_getSectionNameOffset_def elf64_getSectionNameOffset_def elf_getSectionType_def elf64_getSectionType_def elf_getSectionFlags_def elf64_getSectionFlags_def elf_getSectionAddr_def elf64_getSectionAddr_def elf_getSectionOffset_def elf64_getSectionOffset_def elf_getSectionSize_def elf64_getSectionSize_def elf_getSectionLink_def elf64_getSectionLink_def elf_getSectionInfo_def elf64_getSectionInfo_def elf_getSectionAddrAlign_def elf64_getSectionAddrAlign_def elf_getSectionEntrySize_def elf64_getSectionEntrySize_def

lemma rd_ne: "rd16 m a \<noteq> None \<longleftrightarrow> mapped m a 2" "rd32 m a \<noteq> None \<longleftrightarrow> mapped m a 4" "rd64 m a \<noteq> None \<longleftrightarrow> mapped m a 8"
  using rd_mapped [of m a] by auto

lemmas num_defs = elf_getNumProgramHeaders_def elf_getNumSections_def elf32_getNumProgramHeaders_def elf64_getNumProgramHeaders_def
  elf32_getNumSections_def elf64_getNumSections_def elf_isElf32_def ELFCLASS32_def ELFCLASS64_def

lemma ph32_readable:
  assumes "valid32 m elf" "in_memory m elf" "elf_getNumProgramHeaders m elf = Some num" "i < num"
  shows "phdr_readable m elf i"
proof -
  obtain h where h: "elf32_getHeader m elf = Some h" "unat (e32_phoff h) + 32 * unat (e32_phnum h) \<le> unat (elfSize elf)" and c: "elfClass elf = ELFCLASS32"
    using assms(1) by (auto simp: valid32_def SIZEOF_Elf32_Phdr_def)
  let ?t = "elfFile elf + ucast (e32_phoff h)"
  have "num = ucast (e32_phnum h)" using assms(3) c h(1) by (simp add: num_defs)
  then have i: "unat i < unat (e32_phnum h)" using assms(4) by (simp add: word_less_nat_alt unat_ucast_16_64)
  have t: "elf32_getProgramHeaderTable m elf = Some ?t" using h(1) by (simp add: elf32_getProgramHeaderTable_def)
  have M: "k + n \<le> 32 \<Longrightarrow> mapped m (?t + of_nat 32 * i + of_nat k) n" for k n
    by (rule table_mapped [OF assms(2) [unfolded in_memory_def] h(2) i])
  show ?thesis
    using M [of 0 4] M [of 4 4] M [of 8 4] M [of 12 4] M [of 16 4] M [of 20 4] M [of 24 4] M [of 28 4]
    unfolding phdr_readable_def getters32 elf_isElf32_def c SIZEOF_Elf32_Phdr_def by (simp add: t rd_ne ELFCLASS32_def ELFCLASS64_def flip: not_None_eq)
qed

lemma sh32_readable:
  assumes "valid32 m elf" "in_memory m elf" "elf_getNumSections m elf = Some num" "i < num"
  shows "shdr_readable m elf i"
proof -
  obtain h where h: "elf32_getHeader m elf = Some h" "unat (e32_shoff h) + 40 * unat (e32_shnum h) \<le> unat (elfSize elf)" and c: "elfClass elf = ELFCLASS32"
    using assms(1) by (auto simp: valid32_def SIZEOF_Elf32_Shdr_def)
  let ?t = "elfFile elf + ucast (e32_shoff h)"
  have "num = ucast (e32_shnum h)" using assms(3) c h(1) by (simp add: num_defs)
  then have i: "unat i < unat (e32_shnum h)" using assms(4) by (simp add: word_less_nat_alt unat_ucast_16_64)
  have t: "elf32_getSectionTable m elf = Some ?t" using h(1) by (simp add: elf32_getSectionTable_def)
  have M: "k + n \<le> 40 \<Longrightarrow> mapped m (?t + of_nat 40 * i + of_nat k) n" for k n
    by (rule table_mapped [OF assms(2) [unfolded in_memory_def] h(2) i])
  show ?thesis
    using M [of 0 4] M [of 4 4] M [of 8 4] M [of 12 4] M [of 16 4] M [of 20 4] M [of 24 4] M [of 28 4] M [of 32 4] M [of 36 4]
    unfolding shdr_readable_def getters32 elf_isElf32_def c SIZEOF_Elf32_Shdr_def by (simp add: t rd_ne ELFCLASS32_def ELFCLASS64_def flip: not_None_eq)
qed

lemma ph64_readable:
  assumes "valid64 m elf" "in_memory m elf" "elf_getNumProgramHeaders m elf = Some num" "i < num"
  shows "phdr_readable m elf i"
proof -
  obtain h where h: "elf64_getHeader m elf = Some h" "unat (e64_phoff h) + 56 * unat (e64_phnum h) \<le> unat (elfSize elf)" and c: "elfClass elf = ELFCLASS64"
    using assms(1) by (auto simp: valid64_def SIZEOF_Elf64_Phdr_def)
  let ?t = "elfFile elf + ucast (e64_phoff h)"
  have "num = ucast (e64_phnum h)" using assms(3) c h(1) by (simp add: num_defs)
  then have i: "unat i < unat (e64_phnum h)" using assms(4) by (simp add: word_less_nat_alt unat_ucast_16_64)
  have t: "elf64_getProgramHeaderTable m elf = Some ?t" using h(1) by (simp add: elf64_getProgramHeaderTable_def)
  have M: "k + n \<le> 56 \<Longrightarrow> mapped m (?t + of_nat 56 * i + of_nat k) n" for k n
    by (rule table_mapped [OF assms(2) [unfolded in_memory_def] h(2) i])
  show ?thesis
    using M [of 0 4] M [of 4 4] M [of 8 8] M [of 16 8] M [of 24 8] M [of 32 8] M [of 40 8] M [of 48 8]
    unfolding phdr_readable_def getters64 elf_isElf32_def c SIZEOF_Elf64_Phdr_def by (simp add: t rd_ne ELFCLASS32_def ELFCLASS64_def flip: not_None_eq)
qed

lemma sh64_readable:
  assumes "valid64 m elf" "in_memory m elf" "elf_getNumSections m elf = Some num" "i < num"
  shows "shdr_readable m elf i"
proof -
  obtain h where h: "elf64_getHeader m elf = Some h" "unat (e64_shoff h) + 64 * unat (e64_shnum h) \<le> unat (elfSize elf)" and c: "elfClass elf = ELFCLASS64"
    using assms(1) by (auto simp: valid64_def SIZEOF_Elf64_Shdr_def)
  let ?t = "elfFile elf + ucast (e64_shoff h)"
  have "num = ucast (e64_shnum h)" using assms(3) c h(1) by (simp add: num_defs)
  then have i: "unat i < unat (e64_shnum h)" using assms(4) by (simp add: word_less_nat_alt unat_ucast_16_64)
  have t: "elf64_getSectionTable m elf = Some ?t" using h(1) by (simp add: elf64_getSectionTable_def)
  have M: "k + n \<le> 64 \<Longrightarrow> mapped m (?t + of_nat 64 * i + of_nat k) n" for k n
    by (rule table_mapped [OF assms(2) [unfolded in_memory_def] h(2) i])
  show ?thesis
    using M [of 0 4] M [of 4 4] M [of 8 8] M [of 16 8] M [of 24 8] M [of 32 8] M [of 40 4] M [of 44 4] M [of 48 8] M [of 56 8]
    unfolding shdr_readable_def getters64 elf_isElf32_def c SIZEOF_Elf64_Shdr_def by (simp add: t rd_ne ELFCLASS32_def ELFCLASS64_def flip: not_None_eq)
qed

lemma newFile_valid:
  assumes "mapped m f (unat sz)" "elf_newFile m f sz = Some (0, Some elf)"
  shows "elfFile elf = f" "elfSize elf = sz" "valid64 m elf \<or> valid32 m elf" "in_memory m elf"
  using newFile_total [of m f sz] assms by (auto simp: in_memory_def)

lemma counts:
  assumes "valid64 m elf \<or> valid32 m elf"
  shows "\<exists>n s x p. elf_getNumProgramHeaders m elf = Some n \<and> elf_getNumSections m elf = Some s \<and> elf_getSectionStringTableIndex m elf = Some x \<and> x < s \<and>
    elf_getEntryPoint m elf = Some p"
  using assms by (auto simp: valid64_def valid32_def num_defs elf_getSectionStringTableIndex_def elf64_getSectionStringTableIndex_def
      elf32_getSectionStringTableIndex_def elf_getEntryPoint_def elf64_getEntryPoint_def elf32_getEntryPoint_def word_less_nat_alt)

lemma readable:
  assumes "valid64 m elf \<or> valid32 m elf" "in_memory m elf"
  shows "elf_getNumProgramHeaders m elf = Some n \<Longrightarrow> i < n \<Longrightarrow> phdr_readable m elf i" "elf_getNumSections m elf = Some s \<Longrightarrow> i < s \<Longrightarrow> shdr_readable m elf i"
  using assms ph64_readable ph32_readable sh64_readable sh32_readable by blast+

text \<open>The test for wrap around of a range with a size from the file.\<close>

lemma inside:
  fixes off s sz f :: u64
  assumes "\<not> sz < off + s" "\<not> off + s < off"
  shows "unat (f + off - f) + unat s \<le> unat sz"
  using no_wrap [of "unat s" off] assms unsigned_less [of s, where 'a = nat] by (simp add: word_less_nat_alt)

section \<open>Properties\<close>

text \<open>C27. Validation of a file that is accessible in memory always returns. When it succeeds, the description that it gives refers to that file,
  the counts and the entry point can be read, the index of the string table is that of a section, and every field of every program header
  and of every section header can be read without leaving the file.\<close>

theorem elf_newFile_safe:
  assumes "mapped m f (unat sz)"
  shows "elf_newFile m f sz = Some (-1, None) \<or>
    (\<exists>elf n s x p. elf_newFile m f sz = Some (0, Some elf) \<and> elfFile elf = f \<and> elfSize elf = sz \<and> elf_getEntryPoint m elf = Some p \<and>
      elf_getNumProgramHeaders m elf = Some n \<and> elf_getNumSections m elf = Some s \<and> elf_getSectionStringTableIndex m elf = Some x \<and> x < s \<and>
      (\<forall>i < n. phdr_readable m elf i) \<and> (\<forall>i < s. shdr_readable m elf i))"
proof -
  have im: "in_memory m \<lparr>elfFile = f, elfSize = sz, elfClass = 0\<rparr>" using assms by (simp add: in_memory_def)
  show ?thesis
  proof (cases "elf_newFile m f sz = Some (-1, None)")
    case False
    then obtain elf where n: "elf_newFile m f sz = Some (0, Some elf)" using newFile_total [OF im] by blast
    note V = newFile_valid [OF assms n]
    obtain n' s x p where c: "elf_getNumProgramHeaders m elf = Some n'" "elf_getNumSections m elf = Some s"
      "elf_getSectionStringTableIndex m elf = Some x" "x < s" "elf_getEntryPoint m elf = Some p" using counts [OF V(3)] by blast
    then show ?thesis using n V readable [OF V(3,4)] by blast
  qed simp
qed

text \<open>A file of 184 bytes: the header, one program header and one section header.\<close>

definition ex_elf :: "u8 list" where
  "ex_elf = [127, 69, 76, 70, 2, 1, 1, 0, 0, 0, 0, 0, 0, 0, 0, 0, 2, 0, 183, 0, 1, 0, 0, 0, 0, 0, 64, 0, 0, 0, 0, 0,
     64, 0, 0, 0, 0, 0, 0, 0, 120, 0, 0, 0, 0, 0, 0, 0, 0, 0, 0, 0, 64, 0, 56, 0, 1, 0, 64, 0, 1, 0, 0, 0] @
     [1, 0, 0, 0, 5, 0, 0, 0, 0, 0, 0, 0, 0, 0, 0, 0, 0, 0, 64, 0, 0, 0, 0, 0, 0, 0, 64, 0, 0, 0, 0, 0,
     184, 0, 0, 0, 0, 0, 0, 0, 184, 0, 0, 0, 0, 0, 0, 0, 0, 16, 0, 0, 0, 0, 0, 0] @ replicate 64 0"

lemma ex_elf_reads:
  "mem_bytes (mem_of 4096 ex_elf) 4096 4 = Some ELFMAG" "mem_of 4096 ex_elf 4100 = Some 2" "rd64 (mem_of 4096 ex_elf) 4128 = Some 64"
  "rd64 (mem_of 4096 ex_elf) 4136 = Some 120" "rd16 (mem_of 4096 ex_elf) 4150 = Some 56" "rd16 (mem_of 4096 ex_elf) 4152 = Some 1"
  "rd16 (mem_of 4096 ex_elf) 4154 = Some 64" "rd16 (mem_of 4096 ex_elf) 4156 = Some 1" "rd16 (mem_of 4096 ex_elf) 4158 = Some 0"
  "mapped (mem_of 4096 ex_elf) 4096 184"
proof -
  have l: "length ex_elf = 184" by (simp add: ex_elf_def)
  note R = mem_of_read [of ex_elf _ _ 4096]
  show "mem_bytes (mem_of 4096 ex_elf) 4096 4 = Some ELFMAG" using R [of 0 4] l by (simp add: ex_elf_def ELFMAG_def)
  show "mem_of 4096 ex_elf 4100 = Some 2" by (simp add: mem_of_def ex_elf_def)
  show "rd64 (mem_of 4096 ex_elf) 4128 = Some 64" using R [of 32 8] l by (simp add: ex_elf_def rd64_def)
  show "rd64 (mem_of 4096 ex_elf) 4136 = Some 120" using R [of 40 8] l by (simp add: ex_elf_def rd64_def)
  show "rd16 (mem_of 4096 ex_elf) 4150 = Some 56" using R [of 54 2] l by (simp add: ex_elf_def rd16_def)
  show "rd16 (mem_of 4096 ex_elf) 4152 = Some 1" using R [of 56 2] l by (simp add: ex_elf_def rd16_def)
  show "rd16 (mem_of 4096 ex_elf) 4154 = Some 64" using R [of 58 2] l by (simp add: ex_elf_def rd16_def)
  show "rd16 (mem_of 4096 ex_elf) 4156 = Some 1" using R [of 60 2] l by (simp add: ex_elf_def rd16_def)
  show "rd16 (mem_of 4096 ex_elf) 4158 = Some 0" using R [of 62 2] l by (simp add: ex_elf_def rd16_def)
  show "mapped (mem_of 4096 ex_elf) 4096 184" using R [of 0 184] l mem_bytes_mapped [of "mem_of 4096 ex_elf" 4096 184] by auto
qed

lemma ex_elf_new: "elf_newFile (mem_of 4096 ex_elf) 4096 184 = Some (0, Some \<lparr>elfFile = 4096, elfSize = 184, elfClass = 2\<rparr>)"
  by (simp add: elf_newFile_def elf_newFile_maybe_unsafe_def elf_checkFile_def elf32_checkFile_def elf64_checkFile_def elf_check_magic_def ex_elf_reads
      elf_checkProgramHeaderTable_def elf_checkSectionTable_def elf64_checkProgramHeaderTable_def elf64_checkSectionTable_def elf_isElf32_def
      SIZEOF_Elf32_Ehdr_def SIZEOF_Elf64_Ehdr_def SIZEOF_Elf64_Phdr_def SIZEOF_Elf64_Shdr_def EI_CLASS_def ELFCLASS32_def ELFCLASS64_def table_size_def Let_def)

lemma ex_elf_num: "elf_getNumProgramHeaders (mem_of 4096 ex_elf) \<lparr>elfFile = 4096, elfSize = 184, elfClass = 2\<rparr> = Some 1"
proof -
  let ?e = "\<lparr>elfFile = 4096, elfSize = 184, elfClass = 2\<rparr> :: elf_t"
  obtain h where h: "elf64_getHeader (mem_of 4096 ex_elf) ?e = Some h" using header64_in [of "mem_of 4096 ex_elf" ?e 184] ex_elf_reads(10) by auto
  then have "e64_phnum h = 1" using header64_reads(5) [OF h] ex_elf_reads(6) by simp
  then show ?thesis using h by (simp add: num_defs)
qed

theorem elf_newFile_safe_witness:
  "\<exists>elf. elf_newFile (mem_of 4096 ex_elf) 4096 184 = Some (0, Some elf) \<and> phdr_readable (mem_of 4096 ex_elf) elf 0"
  using elf_newFile_safe [of "mem_of 4096 ex_elf" 4096 184] ex_elf_reads(10) ex_elf_new ex_elf_num by auto

text \<open>C32. The sections and segments of a validated file that the library hands out lie inside the file, with the size that the file gives for
  them; sizes that would wrap around or reach past the end give null, and so do numbers without a section.\<close>

theorem elf_parts_inside:
  assumes "mapped m f (unat sz)" "elf_newFile m f sz = Some (0, Some elf)"
  shows "(\<forall>i. \<exists>p. elf_getSection m elf i = Some p \<and>
      (p = 0 \<or> (\<exists>s. elf_getSectionSize m elf i = Some s \<and> s \<noteq> 0 \<and> unat (p - f) + unat s \<le> unat sz))) \<and>
    (\<forall>i n. elf_getNumProgramHeaders m elf = Some n \<longrightarrow> i < n \<longrightarrow> (\<exists>p. elf_getProgramSegment m elf i = Some p \<and>
      (p = 0 \<or> (\<exists>s. elf_getProgramHeaderFileSize m elf i = Some s \<and> unat (p - f) + unat s \<le> unat sz))))"
proof (intro conjI allI impI)
  note V = newFile_valid [OF assms]
  obtain num where num: "elf_getNumSections m elf = Some num" using counts [OF V(3)] by blast
  fix i show "\<exists>p. elf_getSection m elf i = Some p \<and> (p = 0 \<or> (\<exists>s. elf_getSectionSize m elf i = Some s \<and> s \<noteq> 0 \<and> unat (p - f) + unat s \<le> unat sz))"
  proof (cases "i = 0 \<or> i \<ge> num")
    case True then show ?thesis using num by (auto simp: elf_getSection_def)
  next
    case False
    then have "shdr_readable m elf i" using readable(2) [OF V(3,4) num] by (simp add: not_le)
    then obtain off s where r: "elf_getSectionOffset m elf i = Some off" "elf_getSectionSize m elf i = Some s" by (auto simp: shdr_readable_def)
    show ?thesis
    proof (cases "s = 0 \<or> off + s > sz \<or> off + s < off")
      case True then show ?thesis using False num r V(2) by (auto simp: elf_getSection_def Let_def)
    next
      case ok: False
      then have "elf_getSection m elf i = Some (f + off)" using False num r V(1,2) by (simp add: elf_getSection_def Let_def)
      then show ?thesis using r(2) ok inside [of sz off s f] by simp
    qed
  qed
next
  note V = newFile_valid [OF assms]
  fix i n assume n: "elf_getNumProgramHeaders m elf = Some n" "i < n"
  then have "phdr_readable m elf i" by (rule readable(1) [OF V(3,4)])
  then obtain off s where r: "elf_getProgramHeaderOffset m elf i = Some off" "elf_getProgramHeaderFileSize m elf i = Some s" by (auto simp: phdr_readable_def)
  show "\<exists>p. elf_getProgramSegment m elf i = Some p \<and> (p = 0 \<or> (\<exists>s. elf_getProgramHeaderFileSize m elf i = Some s \<and> unat (p - f) + unat s \<le> unat sz))"
    using r V(1,2) inside [of sz off s f] by (cases "sz < off + s \<or> off + s < off") (auto simp: elf_getProgramSegment_def Let_def)
qed

theorem elf_parts_inside_witness:
  "\<exists>p. elf_getProgramSegment (mem_of 4096 ex_elf) \<lparr>elfFile = 4096, elfSize = 184, elfClass = 2\<rparr> 0 = Some p \<and>
     (p = 0 \<or> (\<exists>s. elf_getProgramHeaderFileSize (mem_of 4096 ex_elf) \<lparr>elfFile = 4096, elfSize = 184, elfClass = 2\<rparr> 0 = Some s \<and> unat (p - 4096) + unat s \<le> 184))"
  using elf_parts_inside [OF _ ex_elf_new] ex_elf_reads(10) ex_elf_num by simp

end
