(* ===== verification/Elf_Load_Spec.thy ===== *)
theory Elf_Load_Spec
  imports Elf_Load Elf_Spec Frame_Spec
begin

text \<open>What loading a segment does: the content of each page, the pages that are visited, and the frame table afterwards.\<close>

section \<open>Writing memory\<close>

lemma unat_pred:
  assumes "p \<noteq> (a :: u64)"
  shows "unat (p - a) = Suc (unat (p - (a + 1)))"
proof -
  have "p - a \<noteq> 0" using assms by simp
  then have "unat (p - a) \<noteq> 0" using unat_eq_zero by blast
  moreover have "p - (a + 1) = p - a - 1" by simp
  moreover have "unat (p - a - 1) = unat (p - a) - 1" using \<open>p - a \<noteq> 0\<close> by (metis unat_minus_one)
  ultimately show ?thesis by (metis One_nat_def Suc_pred neq0_conv)
qed

definition overlay :: "u64 \<Rightarrow> u8 list \<Rightarrow> memory \<Rightarrow> memory" where
  "overlay a bs m = (\<lambda>p. if unat (p - a) < length bs then Some (bs ! unat (p - a)) else m p)"

lemma mem_write_overlay:
  assumes "length bs < 2 ^ 64" "mapped m a (length bs)"
  shows "mem_write a bs m = Some (overlay a bs m)"
  using assms
proof (induction bs arbitrary: a m)
  case Nil then show ?case by (simp add: overlay_def)
next
  case (Cons b bs)
  have a: "m a \<noteq> None" and r: "mapped m (a + 1) (length bs)" using Cons.prems(2) by (simp_all add: mapped_Suc)
  then have "mapped (m(a \<mapsto> b)) (a + 1) (length bs)" by (auto simp: mapped_def)
  then have IH: "mem_write (a + 1) bs (m(a \<mapsto> b)) = Some (overlay (a + 1) bs (m(a \<mapsto> b)))" using Cons by simp
  have "overlay (a + 1) bs (m(a \<mapsto> b)) = overlay a (b # bs) m"
  proof
    fix p show "overlay (a + 1) bs (m(a \<mapsto> b)) p = overlay a (b # bs) m p"
    proof (cases "p = a")
      case True
      have "unat (- 1 :: u64) = 2 ^ 64 - 1" by (simp add: unsigned_minus_1_eq_mask mask_eq_exp_minus_1)
      then show ?thesis using True Cons.prems(1) by (simp add: overlay_def)
    next
      case False
      then show ?thesis using unat_pred [OF False] by (simp add: overlay_def)
    qed
  qed
  then show ?case using a IH by (auto simp: mem_store_def)
qed

lemma mem_write_append: "mem_write a (xs @ ys) m = do { m \<leftarrow> mem_write a xs m; mem_write (a + of_nat (length xs)) ys m }"
  by (induction xs arbitrary: a m) (simp_all add: add.assoc)

lemma mapped_overlay: "mapped m b n \<Longrightarrow> mapped (overlay a bs m) b n"
  by (simp add: mapped_def overlay_def)

lemma mem_bytes_cong: "(\<forall>k < n. m (a + of_nat k) = m' (a + of_nat k)) \<Longrightarrow> mem_bytes m a n = mem_bytes m' a n"
proof (induction n arbitrary: a)
  case (Suc n)
  have "m a = m' a" using Suc.prems [rule_format, of 0] by simp
  moreover have "\<forall>k < n. m (a + 1 + of_nat k) = m' (a + 1 + of_nat k)"
  proof (intro allI impI)
    fix k assume "k < n"
    then show "m (a + 1 + of_nat k) = m' (a + 1 + of_nat k)" using Suc.prems [rule_format, of "Suc k"] by (simp add: add.assoc)
  qed
  ultimately show ?case using Suc.IH [of "a + 1"] by simp
qed simp

section \<open>The content of a page\<close>

text \<open>What the segment has at an address: the byte of the file, or zero.\<close>

definition segment_image :: "memory \<Rightarrow> u64 \<Rightarrow> u64 \<Rightarrow> u64 \<Rightarrow> u64 \<Rightarrow> u8 option" where
  "segment_image m src file_size dst a = (if a - dst < file_size then m (src + (a - dst)) else Some 0)"

text \<open>The file content is readable and lies outside the window of the page.\<close>

definition source_ok :: "memory \<Rightarrow> u64 \<Rightarrow> u64 \<Rightarrow> u64 \<Rightarrow> bool" where
  "source_ok m src file_size d \<longleftrightarrow> mapped m src (unat file_size) \<and> (\<forall>k < unat file_size. 4096 \<le> unat (src + of_nat k - d))"

lemma fill_page_writes:
  assumes d: "mapped m d 4096" and n: "mapped m src n" "\<forall>k < n. 4096 \<le> unat (src + of_nat k - d)"
    and lead: "lead + n \<le> 4096"
  shows "\<exists>bs. mem_bytes m src n = Some bs \<and>
    do { m \<leftarrow> mem_zero d lead m; m \<leftarrow> mem_copy (d + of_nat lead) src n m; mem_zero (d + of_nat lead + of_nat n) (4096 - (lead + n)) m } =
    Some (overlay d (replicate lead 0 @ bs @ replicate (4096 - (lead + n)) 0) m)"
proof -
  obtain bs where bs: "mem_bytes m src n = Some bs" using n(1) mem_bytes_mapped by blast
  note l = mem_bytes_length [OF bs]
  let ?z = "replicate lead 0 :: u8 list" and ?t = "replicate (4096 - (lead + n)) 0 :: u8 list"
  have "mapped m d lead" using mapped_sub [OF d, of 0 lead] lead by simp
  then have z: "mem_zero d lead m = Some (overlay d ?z m)" using mem_write_overlay [of ?z m d] lead by (simp add: mem_zero_def)
  have "mem_bytes (overlay d ?z m) src n = Some bs"
  proof (subst mem_bytes_cong [of n _ src m])
    show "\<forall>k < n. overlay d ?z m (src + of_nat k) = m (src + of_nat k)"
    proof (intro allI impI)
      fix k assume "k < n"
      then have "4096 \<le> unat (src + of_nat k - d)" using n(2) by blast
      then show "overlay d ?z m (src + of_nat k) = m (src + of_nat k)" using lead by (simp add: overlay_def)
    qed
  qed (rule bs)
  then have "do { m \<leftarrow> mem_zero d lead m; m \<leftarrow> mem_copy (d + of_nat lead) src n m; mem_zero (d + of_nat lead + of_nat n) (4096 - (lead + n)) m } =
      mem_write d (?z @ bs @ ?t) m"
    using z l by (simp add: mem_write_append mem_copy_def mem_zero_def add.assoc)
  moreover have "mem_write d (?z @ bs @ ?t) m = Some (overlay d (?z @ bs @ ?t) m)"
    using d l lead by (intro mem_write_overlay) simp_all
  ultimately show ?thesis using bs by simp
qed

lemma unat_mod_page: "unat (dst mod PAGE) = unat dst mod 4096" "unat (dst mod PAGE) < 4096"
  by (simp_all add: PAGE_def unat_mod)

lemma fill_page_eq:
  assumes "lead = unat (dst mod PAGE)" "n = min (4096 - lead) (unat file_size - unat pos)"
  shows "fill_page d src file_size dst pos m =
    do { m \<leftarrow> mem_zero d lead m; m \<leftarrow> mem_copy (d + of_nat lead) src n m; mem_zero (d + of_nat lead + of_nat n) (4096 - (lead + n)) m }"
proof -
  have l: "dst mod PAGE = of_nat lead" "lead < 4096" using assms(1) unat_mod_page(2) [of dst] by simp_all
  have ul: "unat (of_nat lead :: u64) = lead" using l(2) by (intro unat_small) simp
  have sb: "unat (PAGE - of_nat lead :: u64) = 4096 - lead" using l(2) by (simp add: PAGE_def unat_sub word_le_nat_alt unat_small)
  have pos: "unat (ucast pos :: u64) = unat pos" by simp
  show ?thesis
  proof (cases "unat pos < unat file_size")
    case True
    then have lt: "ucast pos < file_size" by (simp add: word_less_nat_alt)
    have "unat (file_size - ucast pos) = unat file_size - unat pos" using True by (simp add: unat_sub word_le_nat_alt)
    then have fb: "unat (min (PAGE - of_nat lead) (file_size - ucast pos)) = n" using sb assms(2) by (simp add: min_def word_le_nat_alt)
    then have fb': "min (PAGE - of_nat lead) (file_size - ucast pos) = of_nat n" by (metis of_nat_unat ucast_id)
    have "lead + n \<le> 4096" using assms(2) l(2) by simp
    then have tz: "unat (PAGE - (of_nat lead + of_nat n) :: u64) = 4096 - (lead + n)"
      using unat_small [of "lead + n"] by (simp add: PAGE_def unat_sub word_le_nat_alt)
    show ?thesis using lt fb fb' tz unfolding fill_page_def l(1) Let_def by (simp add: ul)
  next
    case False
    then have "\<not> ucast pos < file_size" "n = 0" using assms(2) by (simp_all add: word_less_nat_alt)
    then show ?thesis using sb unfolding fill_page_def l(1) Let_def by (simp add: ul mem_copy_def)
  qed
qed

lemma fill_page_image_lemma:
  fixes pos :: u32
  assumes d: "mapped m d 4096" and s: "source_ok m src0 file_size d" and small: "unat file_size \<le> 2 ^ 64 - 4096"
    and al: "pos = 0 \<or> (dst0 + ucast pos) mod PAGE = 0"
  shows "\<exists>m'. fill_page d (src0 + ucast pos) file_size (dst0 + ucast pos) pos m = Some m' \<and>
    (\<forall>k < 4096. m' (d + of_nat k) = segment_image m src0 file_size dst0 (ROUND_DOWN (dst0 + ucast pos) PAGE + of_nat k)) \<and>
    (\<forall>p. 4096 \<le> unat (p - d) \<longrightarrow> m' p = m p)"
proof -
  let ?dst = "dst0 + ucast pos :: u64" and ?src = "src0 + ucast pos :: u64"
  define lead where "lead = unat (?dst mod PAGE)"
  define n where "n = min (4096 - lead) (unat file_size - unat pos)"
  have lead: "lead < 4096" by (simp add: lead_def unat_mod_page)
  have P: "unat pos < 2 ^ 32" using unsigned_less [of pos, where 'a = nat] by simp
  have up: "(ucast pos :: u64) = of_nat (unat pos)" by simp
  have src: "?src + of_nat k = src0 + of_nat (unat pos + k)" for k by (simp add: add.assoc)
  have nF: "unat pos + k < unat file_size" if "k < n" for k using that unfolding n_def by linarith
  have n1: "mapped m ?src n" using s nF unfolding source_ok_def mapped_def src by blast
  have n2: "\<forall>k < n. 4096 \<le> unat (?src + of_nat k - d)" using s nF unfolding source_ok_def src by blast
  have ln: "lead + n \<le> 4096" using lead unfolding n_def by linarith
  obtain bs where bs: "mem_bytes m ?src n = Some bs"
    and w: "fill_page d ?src file_size ?dst pos m = Some (overlay d (replicate lead 0 @ bs @ replicate (4096 - (lead + n)) 0) m)"
    using fill_page_writes [OF d n1 n2 ln] fill_page_eq [OF lead_def n_def, of d ?src m] by auto
  note l = mem_bytes_length [OF bs]
  show ?thesis
  proof (intro exI conjI allI impI)
    show "fill_page d ?src file_size ?dst pos m = Some (overlay d (replicate lead 0 @ bs @ replicate (4096 - (lead + n)) 0) m)" by (rule w)
    show "overlay d (replicate lead 0 @ bs @ replicate (4096 - (lead + n)) 0) m p = m p" if "4096 \<le> unat (p - d)" for p
      using that l ln by (simp add: overlay_def)
    fix k :: nat assume k: "k < 4096"
    have o: "overlay d (replicate lead 0 @ bs @ replicate (4096 - (lead + n)) 0) m (d + of_nat k) = Some ((replicate lead 0 @ bs @ replicate (4096 - (lead + n)) 0) ! k)"
      using k l ln by (simp add: overlay_def unat_small)
    define D where "D = ROUND_DOWN ?dst PAGE + of_nat k - dst0"
    have im: "segment_image m src0 file_size dst0 (ROUND_DOWN ?dst PAGE + of_nat k) = (if D < file_size then m (src0 + D) else Some 0)" by (simp add: segment_image_def D_def)
    have off: "D = of_nat (unat pos) + of_nat k - of_nat lead" by (simp add: D_def ROUND_DOWN_def lead_def)
    show "overlay d (replicate lead 0 @ bs @ replicate (4096 - (lead + n)) 0) m (d + of_nat k) = segment_image m src0 file_size dst0 (ROUND_DOWN ?dst PAGE + of_nat k)"
    proof (cases "k < lead")
      case True
      then have "lead \<noteq> 0" by simp
      then have "pos = 0" using al unfolding lead_def by (metis unsigned_0)
      then have "unat D = k + 2 ^ 64 - lead" using True lead off by (simp add: unat_sub_if' unat_small)
      then have "\<not> D < file_size" using small lead unfolding word_less_nat_alt by linarith
      then show ?thesis using o True im by (simp add: nth_append)
    next
      case False
      then have D: "D = of_nat (unat pos + (k - lead))" using off by (simp add: of_nat_diff)
      then have "unat D = unat pos + (k - lead)" using P k unat_small [of "unat pos + (k - lead)"] by simp
      then have a: "D < file_size \<longleftrightarrow> k - lead < n" using False k unfolding word_less_nat_alt n_def by linarith
      have "src0 + D = ?src + of_nat (k - lead)" unfolding D src ..
      then have b: "k - lead < n \<Longrightarrow> m (src0 + D) = Some (bs ! (k - lead))" using mem_bytes_nth [OF bs, of "k - lead"] by (simp only:)
      show ?thesis unfolding o im using False l a b k by (cases "k - lead < n") (simp_all add: nth_append)
    qed
  qed
qed

section \<open>The pages of a segment\<close>

text \<open>Rounds at the given positions, up to the first error.\<close>

primrec load_rounds :: "(nat \<Rightarrow> 's \<Rightarrow> (int \<times> 's) option) \<Rightarrow> nat list \<Rightarrow> 's \<Rightarrow> (int \<times> 's) option" where
  "load_rounds f [] s = Some (0, s)"
| "load_rounds f (p # ps) s = do {
     (err, s) \<leftarrow> f p s;
     if err \<noteq> 0 then Some (err, s) else load_rounds f ps s }"

text \<open>The start of the segment and the page boundaries inside it, as offsets from the start.\<close>

definition page_starts :: "u64 \<Rightarrow> nat \<Rightarrow> nat list" where
  "page_starts dst n = filter (\<lambda>p. p = 0 \<or> (unat dst + p) mod 4096 = 0) [0..<n]"

lemma unat_offset_mod: "unat ((dst + of_nat p) mod PAGE) = (unat dst + p) mod 4096"
proof -
  have "unat ((dst + of_nat p) mod PAGE) = (unat dst + unat (of_nat p :: u64)) mod 2 ^ 64 mod 4096" unfolding unat_mod_page(1) unat_word_ariths(1) by simp
  also have "\<dots> = (unat dst + unat (of_nat p :: u64)) mod 4096" by (simp add: mod_mod_cancel)
  also have "\<dots> = (unat dst + p mod 2 ^ 64 mod 4096) mod 4096" by (simp add: unsigned_of_nat take_bit_eq_mod mod_simps)
  also have "\<dots> = (unat dst + p mod 4096) mod 4096" by (simp add: mod_mod_cancel)
  finally show ?thesis by (simp add: mod_simps)
qed

lemma next_start:
  fixes a p n :: nat
  defines "P \<equiv> \<lambda>p. p = 0 \<or> (a + p) mod 4096 = 0" and "q \<equiv> p + (4096 - (a + p) mod 4096)"
  assumes "P p" "p < n"
  shows "filter P [p..<n] = p # filter P [q..<n]" "P q"
proof -
  have q: "p < q" "(a + q) mod 4096 = 0"
  proof -
    show "p < q" using mod_less_divisor [of 4096 "a + p"] by (simp add: q_def)
    have "a + q = 4096 * ((a + p) div 4096) + 4096" using mod_less_divisor [of 4096 "a + p"] div_mult_mod_eq [of "a + p" 4096] unfolding q_def by linarith
    then show "(a + q) mod 4096 = 0" by simp
  qed
  show "P q" using q(2) by (simp add: P_def)
  have no: "\<not> P j" if "p < j" "j < q" for j
  proof -
    have "a + j = 4096 * ((a + p) div 4096) + ((a + p) mod 4096 + (j - p))" "(a + p) mod 4096 + (j - p) < 4096" "0 < (a + p) mod 4096 + (j - p)"
      using that mod_less_divisor [of 4096 "a + p"] div_mult_mod_eq [of "a + p" 4096] unfolding q_def by linarith+
    then have "(a + j) mod 4096 = (a + p) mod 4096 + (j - p)" by (metis mod_less mod_mult_self4)
    then show ?thesis using that \<open>0 < (a + p) mod 4096 + (j - p)\<close> by (simp add: P_def)
  qed
  let ?k = "min q n"
  have "[p..<n] = p # [Suc p..<?k] @ [?k..<n]" using assms(4) q(1) upt_add_eq_append [of "Suc p" ?k "n - ?k"] by (simp add: upt_conv_Cons)
  moreover have "filter P [Suc p..<?k] = []" using no by (auto simp: filter_empty_conv)
  moreover have "[?k..<n] = [q..<n]" by (cases "q \<le> n") simp_all
  ultimately show "filter P [p..<n] = p # filter P [q..<n]" using assms(3) by (metis append_Nil filter.simps(2) filter_append)
qed

lemma load_pages_from:
  fixes dst src segment_size :: u64
  assumes n: "unat segment_size + 4096 \<le> 2 ^ 32" and "p = 0 \<or> (unat dst + p) mod 4096 = 0" "p < unat segment_size + 4096"
  shows "load_pages X c l v perm fl segment_size file_size (src + of_nat p) (dst + of_nat p) (of_nat p) s =
    load_rounds (\<lambda>p. load_page X c l v perm fl (src + of_nat p) file_size (dst + of_nat p) (of_nat p))
      (filter (\<lambda>p. p = 0 \<or> (unat dst + p) mod 4096 = 0) [p..<unat segment_size]) s"
  using assms(2,3)
proof (induction "unat segment_size - p" arbitrary: p s rule: less_induct)
  case less
  have p32: "unat (of_nat p :: u32) = p" using less.prems(2) n by (simp add: unsigned_of_nat take_bit_nat_eq_self)
  then have cond: "(ucast (of_nat p :: u32) < segment_size) = (p < unat segment_size)" by (simp add: word_less_nat_alt)
  show ?case
  proof (cases "p < unat segment_size")
    case False
    then show ?thesis using cond by (subst load_pages.simps) simp
  next
    case True
    define q where "q = p + (4096 - (unat dst + p) mod 4096)"
    let ?b = "PAGE - (dst + of_nat p) mod PAGE"
    have lt: "(unat dst + p) mod 4096 < 4096" by simp
    have uo: "unat ((dst + of_nat p) mod PAGE) = (unat dst + p) mod 4096" by (rule unat_offset_mod)
    have up: "unat PAGE = 4096" by (simp add: PAGE_def)
    have "unat ?b = 4096 - (unat dst + p) mod 4096" using lt by (subst unat_sub) (simp_all only: word_le_nat_alt uo up less_imp_le)
    then have "unat ?b = q - p" by (simp add: q_def)
    moreover have "?b = of_nat (unat ?b)" by simp
    ultimately have b: "?b = of_nat (q - p)" by metis
    have pq: "p < q" "q \<le> p + 4096" using lt by (simp_all add: q_def)
    have e: "src + of_nat p + ?b = src + of_nat q" "dst + of_nat p + ?b = dst + of_nat q" "of_nat p + ucast ?b = (of_nat q :: u32)"
      unfolding b ucast_of_nat_32 using pq(1) by (simp_all add: of_nat_diff)
    note S = next_start [of p "unat dst" "unat segment_size", OF less.prems(1) True, folded q_def]
    have "load_pages X c l v perm fl segment_size file_size (src + of_nat q) (dst + of_nat q) (of_nat q) s' =
        load_rounds (\<lambda>p. load_page X c l v perm fl (src + of_nat p) file_size (dst + of_nat p) (of_nat p))
          (filter (\<lambda>p. p = 0 \<or> (unat dst + p) mod 4096 = 0) [q..<unat segment_size]) s'" for s'
      using pq True S(2) by (intro less.hyps) linarith+
    then show ?thesis using cond True by (subst load_pages.simps) (simp only: S(1) e Let_def load_rounds.simps if_True)
  qed
qed

section \<open>The frame table\<close>

text \<open>The virtual memory module keeps the structure of the frame table.\<close>

definition load_env_ok :: "'e load_env \<Rightarrow> bool" where
  "load_env_ok X \<longleftrightarrow> env_ok (lo_lim X) (lo_sos X) \<and>
     (\<forall>h a b p ft e. table_step (lo_lim X) ft (fst (snd (lo_vm_add_elf_region X h a b p (ft, e))))) \<and>
     (\<forall>h a f c r w x y z ft e. table_step (lo_lim X) ft (fst (snd (lo_vm_map_owned_frame X h a f c r w x y z (ft, e)))))"

lemma alloc_frame_ok:
  assumes "env_ok lim X" "frame_ok lim ft" "alloc_frame X lim owner flags (ft, e) = Some (r, (ft', e'))"
  shows "frame_ok lim ft' \<and> (r \<noteq> 0 \<longrightarrow> r < ft_used ft' \<and> fr_list_id (ft_frames ft' r) = ALLOCATED_LIST)"
proof -
  obtain res ft1 where ob: "obtained lim owner (frame_reserve ft) (ft_used ft) res ft1"
    and res: "case res of None \<Rightarrow> r = 0 \<and> ft' = ft1 | Some f \<Rightarrow> hand_out owner flags f ft1 = Some (r, ft')"
    using alloc_frame_obtained [OF assms] unfolding fst_conv by blast
  show ?thesis
  proof (cases res)
    case (Some f)
    then obtain L cs where inv: "frame_inv lim ft1 L cs {f}" using ob by (auto simp: obtained_def)
    then have h: "r = f" "frame_inv lim ft' (L(Allocated_p := L Allocated_p @ [f])) cs {}"
      using hand_out_inv [OF inv, of f owner flags] res Some by auto
    then have "f < ft_used ft'" "fr_list_id (ft_frames ft' f) = ALLOCATED_LIST"
      using ft_listsD(11,12) [OF frame_invD(1) [OF h(2)], of f Allocated_p] by simp_all
    then show ?thesis using h by (auto simp: frame_ok_def)
  qed (use ob res in \<open>simp add: obtained_None\<close>)
qed

lemma free_frame_ok:
  assumes "frame_ok lim ft" "0 < r" "r < ft_used ft" "free_frame r ft = Some ft'"
  shows "frame_ok lim ft' \<and> r < ft_used ft' \<and> fr_list_id (ft_frames ft' r) = FREE_LIST"
proof -
  obtain L cs where inv: "frame_inv lim ft L cs {}" using assms(1) by (auto simp: frame_ok_def)
  from inv assms(2,3) show ?thesis
  proof (cases rule: frame_inv_cases)
    case 1 then show ?thesis using free_frame_refused [OF inv] assms(1,3,4) by simp
  next
    case 2
    then have i: "frame_inv lim ft' (L(Allocated_p := remove1 r (L Allocated_p), Free_p := r # L Free_p)) (remove1 r cs) {}"
      using free_frame_inv [OF inv, of r] assms(4) by auto
    then show ?thesis using ft_listsD(11,12) [OF frame_invD(1) [OF i], of r Free_p] by (auto simp: frame_ok_def)
  qed simp
qed

lemma free_frame_total:
  assumes "frame_ok lim ft" "0 < r" "r < ft_used ft"
  shows "\<exists>ft'. free_frame r ft = Some ft'"
proof -
  obtain L cs where inv: "frame_inv lim ft L cs {}" using assms(1) by (auto simp: frame_ok_def)
  from inv assms(2,3) show ?thesis
    by (cases rule: frame_inv_cases) (use free_frame_refused [OF inv, of r] free_frame_inv [OF inv, of r] in auto)
qed

lemma frame_window:
  assumes "frame_ok lim ft" "0 < r" "r < ft_used ft"
  shows "\<exists>d. frame_data r ft = Some d \<and> ft_capacity ft \<le> lim"
  using assms by (auto simp: frame_ok_def frame_data_def NULL_FRAME_def dest: frame_invD(9,10))

lemma map_loadee_ok:
  assumes "load_env_ok X" "map_loadee X c l h perm fl a f k (ft, e) = (res, (ft', e'))"
  shows "table_step (lo_lim X) ft ft'"
  using assms unfolding map_loadee_def load_env_ok_def Let_def
  by (auto split: if_splits prod.splits) (metis fst_conv snd_conv)+

lemma load_page_ok:
  assumes env: "load_env_ok X" and ok: "frame_ok (lo_lim X) (fst (fst s))"
    and run: "load_page X c l h perm fl src file_size dst pos s = Some (err, s')"
  shows "frame_ok (lo_lim X) (fst (fst s')) \<and> err \<in> {0, -1}"
proof -
  obtain ft e m where s: "s = ((ft, e), m)" by (metis prod.collapse)
  obtain k e0 where k: "x_cspace_alloc_slot (lo_sos X) c e = (k, e0)" by (meson surj_pair)
  consider "k = seL4_CapNull" | "k \<noteq> seL4_CapNull" by blast
  then show ?thesis
  proof cases
    case 1 then show ?thesis using run ok k s by (auto simp: load_page_def)
  next
    case 2
    then obtain r ft1 e1 where al: "alloc_frame (lo_sos X) (lo_lim X) FRAME_OWNER_USER FRAME_FLAG_EVICTABLE (ft, e0) = Some (r, (ft1, e1))"
      using run k s by (auto simp: load_page_def elim!: c_elims)
    have a: "frame_ok (lo_lim X) ft1" "r \<noteq> 0 \<longrightarrow> r < ft_used ft1"
      using alloc_frame_ok [OF _ _ al] env ok s by (auto simp: load_env_ok_def)
    show ?thesis
    proof (cases "r = 0")
      case True then show ?thesis using run k s 2 al a by (auto simp: load_page_def NULL_FRAME_def)
    next
      case False
      then obtain pg where pg: "frame_page r ft1 = Some pg" using run k s 2 al by (auto simp: load_page_def NULL_FRAME_def elim!: c_elims)
      obtain cerr e2 where cp: "lo_cspace_copy X c k (frame_table_cspace ft1) pg (lo_AllRights X) e1 = (cerr, e2)" by (meson surj_pair)
      obtain am ft3 e3 where mp: "map_loadee X c l h perm fl (ROUND_DOWN dst PAGE) r k (ft1, e2) = (am, (ft3, e3))" by (metis prod_cases3)
      have st: "frame_ok (lo_lim X) ft3" "r < ft_used ft3" using map_loadee_ok [OF env mp] a False by (auto simp: table_step_def)
      have gb: "frame_ok (lo_lim X) (fst t)" if "give_back X c k r (ft3, e3) = Some t" for t
        using that free_frame_ok [OF st(1) _ st(2)] False by (auto simp: give_back_def elim!: c_elims split: prod.splits)
      show ?thesis
        using run k s 2 al a(1) False pg cp mp st(1) gb
        by (auto simp: load_page_def NULL_FRAME_def elim!: c_elims split: if_splits)
    qed
  qed
qed

lemma load_pages_ok:
  assumes run: "load_pages X c l h perm fl n file_size src dst pos s = Some res" and "load_env_ok X" "frame_ok (lo_lim X) (fst (fst s))"
  shows "frame_ok (lo_lim X) (fst (fst (snd res))) \<and> fst res \<in> {0, -1}"
proof (rule mp [OF load_pages.raw_induct
    [where P = "\<lambda>X c l h perm fl n file_size src dst pos s res. load_env_ok X \<and> frame_ok (lo_lim X) (fst (fst s)) \<longrightarrow>
      frame_ok (lo_lim X) (fst (fst (snd res))) \<and> fst res \<in> {0, -1}", OF _ run]], rule impI)
  show "load_env_ok X \<and> frame_ok (lo_lim X) (fst (fst s))" using assms by simp
next
  fix rec :: "'a load_env \<Rightarrow> nat \<Rightarrow> nat \<Rightarrow> nat \<Rightarrow> nat \<Rightarrow> u64 \<Rightarrow> u64 \<Rightarrow> u64 \<Rightarrow> u64 \<Rightarrow> u64 \<Rightarrow> u32 \<Rightarrow> 'a load_st \<Rightarrow> (int \<times> 'a load_st) option"
    and X c l h perm fl n file_size src dst pos s res
  assume IH: "\<And>X c l h perm fl n file_size src dst pos s y. rec X c l h perm fl n file_size src dst pos s = Some y \<Longrightarrow>
      load_env_ok X \<and> frame_ok (lo_lim X) (fst (fst s)) \<longrightarrow> frame_ok (lo_lim X) (fst (fst (snd y))) \<and> fst y \<in> {0, -1}"
    and pre: "load_env_ok X \<and> frame_ok (lo_lim X) (fst (fst s))"
    and body: "(if ucast pos < n then
        Option.bind (load_page X c l h perm fl src file_size dst pos s) (\<lambda>(err, s).
          if err \<noteq> 0 then Some (err, s)
          else
            (let segment_bytes = PAGE - dst mod PAGE in
             rec X c l h perm fl n file_size (src + segment_bytes) (dst + segment_bytes) (pos + ucast segment_bytes) s))
      else Some (0, s)) = Some res"
  show "frame_ok (lo_lim X) (fst (fst (snd res))) \<and> fst res \<in> {0, -1}"
  proof (cases "ucast pos < n")
    case True
    then obtain err t where p: "load_page X c l h perm fl src file_size dst pos s = Some (err, t)" using body by (auto elim!: c_elims)
    have "frame_ok (lo_lim X) (fst (fst t)) \<and> err \<in> {0, -1}" using load_page_ok [OF _ _ p] pre by simp
    then show ?thesis using body True p IH pre by (cases "err = 0") (auto simp: Let_def)
  qed (use body pre in auto)
qed

lemma load_segment_ok:
  assumes run: "load_segment_into_vspace X c l src n fs dst perm h fl s = Some (err, s')" and env: "load_env_ok X"
    and ok: "frame_ok (lo_lim X) (fst (fst s))"
  shows "frame_ok (lo_lim X) (fst (fst s')) \<and> err \<in> {0, -1}"
proof -
  obtain ft e m where s: "s = ((ft, e), m)" by (metis prod.collapse)
  obtain rerr ft1 e1 where
    1: "frame_ok (lo_lim X) ft1" and 2: "(if rerr < (0 :: int) then Some (-1, ((ft1, e1), m)) else load_pages X c l h perm fl n fs src dst 0 ((ft1, e1), m)) = Some (err, s')"
  proof (cases "h = 0")
    case True
    then show ?thesis using run ok s that [of ft 0 e] by (auto simp: load_segment_into_vspace_def elim!: c_elims split: if_splits)
  next
    case False
    then obtain b prot where *: "(case lo_vm_add_elf_region X h (ROUND_DOWN dst PAGE) b prot (ft, e) of (rerr, s) \<Rightarrow>
        if rerr < 0 then Some (-1, (s, m)) else load_pages X c l h perm fl n fs src dst 0 (s, m)) = Some (err, s')"
      using run s by (auto simp: load_segment_into_vspace_def Let_def elim!: c_elims split: if_splits)
    obtain rerr ft1 e1 where r: "lo_vm_add_elf_region X h (ROUND_DOWN dst PAGE) b prot (ft, e) = (rerr, (ft1, e1))" by (metis prod_cases3)
    have "table_step (lo_lim X) ft ft1" using env r unfolding load_env_ok_def by (metis fst_conv snd_conv)
    then show ?thesis using that [of ft1 rerr e1] * r ok s by (simp add: table_step_def)
  qed
  show ?thesis
  proof (cases "rerr < 0")
    case False
    then show ?thesis using load_pages_ok [of X c l h perm fl n fs src dst 0 "((ft1, e1), m)" "(err, s')"] 1 2 env by simp
  qed (use 1 2 in auto)
qed

lemma load_headers_ok:
  assumes "load_headers X c l elf h is s = Some (err, s')" "load_env_ok X" "frame_ok (lo_lim X) (fst (fst s))"
  shows "frame_ok (lo_lim X) (fst (fst s')) \<and> err \<in> {0, -1}"
  using assms(1,3)
proof (induction "is" arbitrary: s)
  case (Cons i "is")
  show ?case
  proof (cases "elf_getProgramHeaderType (snd s) elf (of_nat i) = Some PT_LOAD")
    case True
    then obtain off fs n a fl err1 t where
      seg: "load_segment_into_vspace X c l (elfFile elf + off) n fs a (get_sel4_rights_from_elf X (ucast (fl :: u64))) h (ucast fl) s = Some (err1, t)"
        (is "?seg = _")
      and rest: "(if err1 \<noteq> 0 then Some (-1, t) else load_headers X c l elf h is t) = Some (err, s')"
      using Cons.prems(1) by (auto elim!: c_elims)
    have "frame_ok (lo_lim X) (fst (fst t))" using load_segment_ok [OF seg assms(2) Cons.prems(2)] by simp
    then show ?thesis using rest Cons.IH by (cases "err1 = 0") auto
  next
    case False
    then have "load_headers X c l elf h is s = Some (err, s')" using Cons.prems(1) by (auto elim!: c_elims split: if_splits)
    then show ?thesis using Cons.IH Cons.prems(2) by blast
  qed
qed simp

section \<open>A concrete run\<close>

text \<open>The example file at 4096 in a memory that is zero elsewhere, and an environment whose operations succeed.\<close>

definition ex_memory :: memory where
  "ex_memory a = (case mem_of 4096 ex_elf a of None \<Rightarrow> Some 0 | Some b \<Rightarrow> Some b)"

definition ex_load_env :: "frame_ref load_env" where
  "ex_load_env = \<lparr>lo_sos = ex_env False, lo_lim = 64, lo_AllRights = 15, lo_CapRights_new = (\<lambda>_ _ r w. (if r then 2 else 0) + (if w then 1 else 0)),
     lo_cspace_copy = (\<lambda>_ _ _ _ _ e. (0, e)), lo_map_frame = (\<lambda>_ _ _ _ _ e. (0, e)),
     lo_vm_add_elf_region = (\<lambda>_ _ _ _ s. (0, s)), lo_vm_map_owned_frame = (\<lambda>_ _ _ _ _ _ _ _ _ s. (0, s))\<rparr>"

text \<open>A second mapping of a page is refused in this environment.\<close>

definition ex_refuse_env :: "frame_ref load_env" where
  "ex_refuse_env = ex_load_env\<lparr>lo_map_frame := (\<lambda>_ _ _ _ _ e. (seL4_DeleteFirst, e))\<rparr>"

definition ex_elf_t :: elf_t where
  "ex_elf_t = \<lparr>elfFile = 4096, elfSize = 184, elfClass = 2\<rparr>"

lemma ex_load_env_ok: "load_env_ok ex_load_env"
  by (simp add: load_env_ok_def ex_load_env_def ex_env_ok)

lemma ex_memory_mapped: "mapped ex_memory a n"
  by (simp add: mapped_def ex_memory_def split: option.splits)

lemma ex_alloc:
  "\<exists>ft. alloc_frame (ex_env False) 64 FRAME_OWNER_USER FRAME_FLAG_EVICTABLE (ex_ft, 0) = Some (5, (ft, 0)) \<and> 5 < ft_capacity ft \<and> ft_capacity ft \<le> 64"
proof -
  have not: "x_pagefile_is_ready (ex_env False) e = False" for e by (simp add: ex_env_def)
  have tf: "take_free FRAME_OWNER_USER (frame_reserve ex_ft) (ex_ft, 0) = Some (None, (ex_ft, 0))"
    by (simp add: take_free_def frame_reserve_def ex_ft_def)
  have hp: "heap_preflight (ex_env False) e = e" for e by (simp add: heap_preflight_def not)
  have ev: "evict_loop (ex_env False) ow n k t = Some (None, t)" for ow n k t by (subst evict_loop.simps) (simp add: not)
  have at: "alloc_frame_at (ex_env False) v (ft, e) = (9, e)" for v ft e by (simp add: alloc_frame_at_def ex_env_def Frame_Table.seL4_CapNull_def)
  obtain ft1 where fr: "alloc_fresh_frame (ex_env False) 64 (ex_ft, 0) = Some (Some 5, (ft1, 0))"
    by (simp add: alloc_fresh_frame_def at ex_ft_def frame_data_def frame_ref_defs Frame_Table.seL4_CapNull_def Let_def)
  then have "frame_inv 64 ft1 ex_L [1, 2] {5}" using alloc_fresh_frame_inv [OF ex_ft_inv, of "ex_env False" 0] by auto
  then obtain ft where ft: "hand_out FRAME_OWNER_USER FRAME_FLAG_EVICTABLE 5 ft1 = Some (5, ft)"
    "frame_inv 64 ft (ex_L(Allocated_p := ex_L Allocated_p @ [5])) [1, 2] {}"
    using hand_out_inv [of 64 ft1 ex_L "[1, 2]" "{5}" 5 FRAME_OWNER_USER FRAME_FLAG_EVICTABLE] by auto
  have "5 < ft_used ft" using ft_listsD(12) [OF frame_invD(1) [OF ft(2)], of 5 Allocated_p] by simp
  then show ?thesis using frame_invD(9,10) [OF ft(2)] ft(1) by (simp add: alloc_frame_def Let_def tf not hp ev fr)
qed

lemma ex_source:
  assumes "frame_data r ft = Some d" "ft_capacity ft \<le> 64"
  shows "source_ok ex_memory 4096 184 d"
proof -
  have "limit_ok 64" by (simp add: limit_ok_def)
  then have d: "0x8200000000 \<le> unat d" "unat d \<le> 0x8300000000"
    using frame_data_regions [OF _ assms(2) assms(1) assms(1)] by (auto simp: SOS_FRAME_DATA_def)
  have "4096 \<le> unat (4096 + of_nat k - d)" if "k < 184" for k
  proof -
    have "unat (4096 + of_nat k :: u64) = 4096 + k" using unat_small [of "4096 + k"] that by simp
    then show ?thesis using d that by (simp add: unat_sub_if' word_le_nat_alt)
  qed
  then show ?thesis by (simp add: source_ok_def ex_memory_mapped)
qed

lemma ex_load_page:
  "\<exists>s'. load_page ex_load_env 0 1 0 2 5 4096 184 0x400000 0 ((ex_ft, 0), ex_memory) = Some (0, s') \<and> ft_capacity (fst (fst s')) \<le> 64"
proof -
  obtain ft where al: "alloc_frame (ex_env False) 64 FRAME_OWNER_USER FRAME_FLAG_EVICTABLE (ex_ft, 0) = Some (5, (ft, 0))"
    and c: "5 < ft_capacity ft" "ft_capacity ft \<le> 64" using ex_alloc by blast
  then obtain d where d: "frame_data 5 ft = Some d" by (simp add: frame_data_def NULL_FRAME_def)
  obtain m' where "fill_page d 4096 184 0x400000 0 ex_memory = Some m'"
    using fill_page_image_lemma [OF ex_memory_mapped ex_source [OF d c(2)], of 0 "0x400000"] by auto
  moreover have "frame_page 5 ft = Some (sos_page (ft_frames ft 5))" using c(1) by (simp add: frame_page_def frame_ref_defs)
  moreover have "x_cspace_alloc_slot (ex_env False) k e = (9, e)" for k e by (simp add: ex_env_def)
  ultimately show ?thesis using al c d
    by (simp add: load_page_def ex_load_env_def map_loadee_def Let_def Cspace.seL4_CapNull_def NULL_FRAME_def seL4_DeleteFirst_def)
qed

lemma ex_memory_read:
  assumes "k + n \<le> 184"
  shows "mem_bytes ex_memory (4096 + of_nat k) n = Some (take n (drop k ex_elf))"
proof -
  have l: "length ex_elf = 184" by (simp add: ex_elf_def)
  have r: "mem_bytes (mem_of 4096 ex_elf) (4096 + of_nat k) n = Some (take n (drop k ex_elf))" using mem_of_read [of ex_elf k n 4096] l assms by simp
  then have "mapped (mem_of 4096 ex_elf) (4096 + of_nat k) n" using mem_bytes_mapped [of "mem_of 4096 ex_elf" "4096 + of_nat k" n] by auto
  then have "\<forall>j < n. ex_memory (4096 + of_nat k + of_nat j) = mem_of 4096 ex_elf (4096 + of_nat k + of_nat j)"
    by (auto simp: mapped_def ex_memory_def split: option.splits)
  then show ?thesis using r mem_bytes_cong by metis
qed

lemma ex_header:
  "elf_getNumProgramHeaders ex_memory ex_elf_t = Some 1"
  "elf64_getProgramHeaderTable ex_memory ex_elf_t = Some 4160"
proof -
  obtain h where h: "elf64_getHeader ex_memory ex_elf_t = Some h" using header64_in [of ex_memory ex_elf_t 184] ex_memory_mapped by auto
  note H = header64_reads [OF h]
  have "rd16 ex_memory 4152 = Some 1" using ex_memory_read [of 56 2] by (simp add: rd16_def ex_elf_def)
  then have "e64_phnum h = 1" using H(5) by (simp add: ex_elf_t_def)
  then show "elf_getNumProgramHeaders ex_memory ex_elf_t = Some 1" using h by (simp add: num_defs ex_elf_t_def)
  have "rd64 ex_memory 4128 = Some 64" using ex_memory_read [of 32 8] by (simp add: rd64_def ex_elf_def)
  then have "e64_phoff h = 64" using H(6) by (simp add: ex_elf_t_def)
  then show "elf64_getProgramHeaderTable ex_memory ex_elf_t = Some 4160" using h by (simp add: elf64_getProgramHeaderTable_def ex_elf_t_def)
qed

lemma ex_not32: "\<not> elf_isElf32 ex_elf_t"
  by (simp add: elf_isElf32_def ex_elf_t_def ELFCLASS32_def)

lemma ex_program_header:
  "elf_getProgramHeaderType ex_memory ex_elf_t 0 = Some PT_LOAD" "elf_getProgramHeaderOffset ex_memory ex_elf_t 0 = Some 0"
  "elf_getProgramHeaderFileSize ex_memory ex_elf_t 0 = Some 184" "elf_getProgramHeaderMemorySize ex_memory ex_elf_t 0 = Some 184"
  "elf_getProgramHeaderVaddr ex_memory ex_elf_t 0 = Some 0x400000" "elf_getProgramHeaderFlags ex_memory ex_elf_t 0 = Some 5"
  using ex_memory_read [of 64 4] ex_memory_read [of 72 8] ex_memory_read [of 96 8] ex_memory_read [of 104 8] ex_memory_read [of 80 8] ex_memory_read [of 68 4]
  by (simp_all add: ex_not32 ex_header(2) rd32_def rd64_def PT_LOAD_def ex_elf_def
      elf_getProgramHeaderType_def elf64_getProgramHeaderType_def elf_getProgramHeaderOffset_def elf64_getProgramHeaderOffset_def
      elf_getProgramHeaderFileSize_def elf64_getProgramHeaderFileSize_def elf_getProgramHeaderMemorySize_def elf64_getProgramHeaderMemorySize_def
      elf_getProgramHeaderVaddr_def elf64_getProgramHeaderVaddr_def elf_getProgramHeaderFlags_def elf64_getProgramHeaderFlags_def)

lemma ex_load_pages: "\<exists>s'. load_pages ex_load_env 0 1 0 2 5 184 184 4096 0x400000 0 ((ex_ft, 0), ex_memory) = Some (0, s')"
proof -
  obtain s' where "load_page ex_load_env 0 1 0 2 5 4096 184 0x400000 0 ((ex_ft, 0), ex_memory) = Some (0, s')" using ex_load_page by blast
  then show ?thesis by (subst load_pages.simps) (subst load_pages.simps, simp add: PAGE_def)
qed

lemma ex_elf_load: "\<exists>s'. elf_load ex_load_env 0 1 ex_elf_t 0 ((ex_ft, 0), ex_memory) = Some (0, s')"
proof -
  obtain s' where s': "load_pages ex_load_env 0 1 0 2 5 184 184 4096 0x400000 0 ((ex_ft, 0), ex_memory) = Some (0, s')" using ex_load_pages by blast
  have p: "get_sel4_rights_from_elf ex_load_env 5 = 2" by (simp add: get_sel4_rights_from_elf_def PF_R_def PF_X_def PF_W_def ex_load_env_def)
  have "load_segment_into_vspace ex_load_env 0 1 4096 184 184 0x400000 2 0 5 ((ex_ft, 0), ex_memory) = Some (0, s')"
    using s' by (simp add: load_segment_into_vspace_def)
  moreover have "[0..<unat (1 :: u64)] = [0]" by simp
  ultimately have "elf_load ex_load_env 0 1 ex_elf_t 0 ((ex_ft, 0), ex_memory) = Some (0, s')"
    by (simp add: elf_load_def ex_header(1) ex_program_header p) (simp add: ex_elf_t_def)
  then show ?thesis by blast
qed

section \<open>Properties\<close>

text \<open>C28. When a page of a segment is reported as loaded, the data window of some frame holds, byte for byte, what the segment has in
  that page: zeros before its start, the bytes of the file as far as they go, zeros behind them; the rest of the memory is unchanged. The
  windows of the frames are accessible and the file content lies outside them, and the page is the first of the segment or starts at a
  page boundary.\<close>

theorem load_page_content:
  fixes pos :: u32
  assumes "load_page X c l h perm fl (src0 + ucast pos) file_size (dst0 + ucast pos) pos s = Some (0, s')"
    and "\<And>r d. frame_data r (fst (fst s')) = Some d \<Longrightarrow> mapped (snd s) d 4096 \<and> source_ok (snd s) src0 file_size d"
    and "unat file_size \<le> 2 ^ 64 - 4096" "pos = 0 \<or> (dst0 + ucast pos) mod PAGE = 0"
  shows "\<exists>r d. r \<noteq> NULL_FRAME \<and> frame_data r (fst (fst s')) = Some d \<and>
    (\<forall>k < 4096. snd s' (d + of_nat k) = segment_image (snd s) src0 file_size dst0 (ROUND_DOWN (dst0 + ucast pos) PAGE + of_nat k)) \<and>
    (\<forall>p. 4096 \<le> unat (p - d) \<longrightarrow> snd s' p = snd s p)"
proof -
  obtain ft e m where s: "s = ((ft, e), m)" by (metis prod.collapse)
  obtain r d where r: "r \<noteq> NULL_FRAME" "frame_data r (fst (fst s')) = Some d"
    "fill_page d (src0 + ucast pos) file_size (dst0 + ucast pos) pos m = Some (snd s')"
    using assms(1) unfolding load_page_def s by (auto simp: Let_def elim!: c_elims split: if_splits prod.splits)
  have "mapped m d 4096" "source_ok m src0 file_size d" using assms(2) [OF r(2)] s by simp_all
  then show ?thesis using fill_page_image_lemma [of m d src0 file_size pos dst0] assms(3,4) s r by auto
qed

theorem load_page_content_witness:
  "\<exists>r d s'. load_page ex_load_env 0 1 0 2 5 4096 184 0x400000 0 ((ex_ft, 0), ex_memory) = Some (0, s') \<and> frame_data r (fst (fst s')) = Some d \<and>
    (\<forall>k < 4096. snd s' (d + of_nat k) = segment_image ex_memory 4096 184 0x400000 (0x400000 + of_nat k))"
proof -
  obtain s' where s': "load_page ex_load_env 0 1 0 2 5 4096 184 0x400000 0 ((ex_ft, 0), ex_memory) = Some (0, s')" "ft_capacity (fst (fst s')) \<le> 64"
    using ex_load_page by blast
  have w: "mapped ex_memory d 4096 \<and> source_ok ex_memory 4096 184 d" if "frame_data r (fst (fst s')) = Some d" for r d
    using ex_source [OF that s'(2)] ex_memory_mapped by simp
  have z: "ROUND_DOWN (0x400000 + ucast (0 :: u32)) PAGE = 0x400000" by (simp add: ROUND_DOWN_def PAGE_def)
  show ?thesis
    using load_page_content [of ex_load_env 0 1 0 2 5 4096 0 184 "0x400000" "((ex_ft, 0), ex_memory)" s', unfolded z] s'(1) w by auto
qed

text \<open>C30. For every segment of at most 4 GiB less a page, the loop over its pages ends: it is one round at the start of the segment and one
  at every page boundary inside it, in this order, up to the first round that fails.\<close>

theorem load_pages_rounds:
  assumes "unat segment_size + 4096 \<le> 2 ^ 32"
  shows "load_pages X c l h perm fl segment_size file_size src dst 0 s =
    load_rounds (\<lambda>p. load_page X c l h perm fl (src + of_nat p) file_size (dst + of_nat p) (of_nat p)) (page_starts dst (unat segment_size)) s"
proof -
  have "load_pages X c l h perm fl segment_size file_size (src + of_nat 0) (dst + of_nat 0) (of_nat 0) s =
    load_rounds (\<lambda>p. load_page X c l h perm fl (src + of_nat p) file_size (dst + of_nat p) (of_nat p)) (page_starts dst (unat segment_size)) s"
    unfolding page_starts_def by (rule load_pages_from [OF assms]) simp_all
  then show ?thesis by simp
qed

theorem load_pages_rounds_witness:
  "\<exists>s'. load_pages ex_load_env 0 1 0 2 5 184 184 4096 0x400000 0 ((ex_ft, 0), ex_memory) = Some (0, s')"
proof -
  have "page_starts 0x400000 184 = [0]" using next_start(1) [of 0 "unat (0x400000 :: u64)" 184] by (simp add: page_starts_def)
  then show ?thesis using load_pages_rounds [of 184 ex_load_env 0 1 0 2 5 184 4096 "0x400000"] ex_load_page by auto
qed



text \<open>C31. When the page of a segment is already mapped, its frame is freed before the data are written: nothing but the window of a
  frame on the free list changes, and the page that the program has keeps what it had. The two segments share a page without an error, but the
  content of the second one is lost.\<close>

theorem load_page_overlap_lost:
  fixes pos :: u32
  assumes "load_env_ok X" "frame_ok (lo_lim X) (fst (fst s))"
    and "\<And>f a e. fst (lo_map_frame X c f l a perm e) = seL4_DeleteFirst"
    and "load_page X c l 0 perm fl (src0 + ucast pos) file_size (dst0 + ucast pos) pos s = Some (0, s')"
    and "\<And>r d. frame_data r (fst (fst s')) = Some d \<Longrightarrow> mapped (snd s) d 4096 \<and> source_ok (snd s) src0 file_size d"
    and "unat file_size \<le> 2 ^ 64 - 4096" "pos = 0 \<or> (dst0 + ucast pos) mod PAGE = 0"
  shows "\<exists>r d. frame_data r (fst (fst s')) = Some d \<and> fr_list_id (ft_frames (fst (fst s')) r) = FREE_LIST \<and>
    (\<forall>p. 4096 \<le> unat (p - d) \<longrightarrow> snd s' p = snd s p)"
proof -
  obtain ft e m where s: "s = ((ft, e), m)" by (metis prod.collapse)
  have mp: "map_loadee X c l 0 perm fl a f k t = (Some True, (fst t, snd (lo_map_frame X c k l a perm (snd t))))" for a f k t
    using assms(3) [of k a "snd t"] by (cases "lo_map_frame X c k l a perm (snd t)") (simp add: map_loadee_def Let_def)
  obtain e0 r ft1 e1 k e2 e3 d where r: "alloc_frame (lo_sos X) (lo_lim X) FRAME_OWNER_USER FRAME_FLAG_EVICTABLE (ft, e0) = Some (r, (ft1, e1))" "r \<noteq> 0"
    "give_back X c k r (ft1, e2) = Some (fst (fst s'), e3)" "frame_data r (fst (fst s')) = Some d"
    "fill_page d (src0 + ucast pos) file_size (dst0 + ucast pos) pos m = Some (snd s')"
    using assms(4) unfolding load_page_def s
    by (auto simp: Let_def NULL_FRAME_def mp elim!: c_elims split: if_splits prod.splits)
  have "env_ok (lo_lim X) (lo_sos X)" "frame_ok (lo_lim X) ft" using assms(1,2) s by (simp_all add: load_env_ok_def)
  then have a: "frame_ok (lo_lim X) ft1" "r < ft_used ft1" using alloc_frame_ok [OF _ _ r(1)] r(2) by simp_all
  have "free_frame r ft1 = Some (fst (fst s'))" using r(3) by (auto simp: give_back_def elim!: c_elims split: prod.splits)
  then have fl: "fr_list_id (ft_frames (fst (fst s')) r) = FREE_LIST" using free_frame_ok [OF a(1) _ a(2)] r(2) by simp
  have "mapped m d 4096" "source_ok m src0 file_size d" using assms(5) [OF r(4)] s by simp_all
  then show ?thesis using fill_page_image_lemma [of m d src0 file_size pos dst0] assms(6,7) s r(4,5) fl by auto
qed

theorem load_page_overlap_lost_witness:
  "\<exists>r d s'. load_page ex_refuse_env 0 1 0 2 5 4096 184 0x400000 0 ((ex_ft, 0), ex_memory) = Some (0, s') \<and>
    frame_data r (fst (fst s')) = Some d \<and> fr_list_id (ft_frames (fst (fst s')) r) = FREE_LIST"
proof -
  obtain ft where al: "alloc_frame (ex_env False) 64 FRAME_OWNER_USER FRAME_FLAG_EVICTABLE (ex_ft, 0) = Some (5, (ft, 0))"
    and c: "5 < ft_capacity ft" "ft_capacity ft \<le> 64" using ex_alloc by blast
  have ok: "frame_ok 64 ex_ft" using ex_ft_inv by (auto simp: frame_ok_def)
  have a: "frame_ok 64 ft" "5 < ft_used ft" using alloc_frame_ok [OF ex_env_ok ok al] by simp_all
  then obtain ft' where fr: "free_frame 5 ft = Some ft'" using free_frame_total [OF a(1) _ a(2)] by auto
  then have "frame_ok 64 ft'" "5 < ft_used ft'" using free_frame_ok [OF a(1) _ a(2) fr] by simp_all
  then obtain d where d: "frame_data 5 ft' = Some d" "ft_capacity ft' \<le> 64" using frame_window [of 64 ft' 5] by auto
  obtain m' where m': "fill_page d 4096 184 0x400000 0 ex_memory = Some m'"
    using fill_page_image_lemma [OF ex_memory_mapped ex_source [OF d], of 0 "0x400000"] by auto
  have "frame_page 5 ft = Some (sos_page (ft_frames ft 5))" using c(1) by (simp add: frame_page_def frame_ref_defs)
  moreover have "x_cspace_alloc_slot (ex_env False) k e = (9, e)" "x_cspace_delete (ex_env False) k j e = (0, e)" "x_cspace_free_slot (ex_env False) k j e = e"
    for k j e by (simp_all add: ex_env_def)
  ultimately have run: "load_page ex_refuse_env 0 1 0 2 5 4096 184 0x400000 0 ((ex_ft, 0), ex_memory) = Some (0, ((ft', 0), m'))"
    using al fr d m'
    by (simp add: load_page_def ex_refuse_env_def ex_load_env_def map_loadee_def give_back_def Let_def Cspace.seL4_CapNull_def NULL_FRAME_def)
  have w: "mapped ex_memory d 4096 \<and> source_ok ex_memory 4096 184 d" if "frame_data r ft' = Some d" for r d
    using ex_source [OF that d(2)] ex_memory_mapped by simp
  have env: "load_env_ok ex_refuse_env" by (simp add: load_env_ok_def ex_refuse_env_def ex_load_env_def ex_env_ok)
  show ?thesis
    using load_page_overlap_lost [OF env, of "((ex_ft, 0), ex_memory)" 0 1 2 5 4096 0 184 "0x400000" "((ft', 0), m')"] run w ok
    by (fastforce simp: ex_refuse_env_def ex_load_env_def)
qed

end
