(* ===== verification/Rbtree.thy ===== *)
theory Rbtree
  imports Sos_Prelude
begin

text \<open>
  Red-black trees, \<^verbatim>\<open>librbtree/src/rbtree.zig\<close>: nodes embedded in other structures and linked by their addresses, with a shared node \<open>nil\<close>
  in place of null. The address of \<open>nil\<close>, and the key and the comparison that a tree type is made for, are arguments. A store gives every
  address its node; the colour has the lowest bit of the word that holds the parent, which therefore has 63 bits. Loops are functions
  into an option, \<open>None\<close> for a loop that runs for ever.
\<close>

section \<open>Nodes\<close>

datatype col = Black | Red

datatype math_order = LT | EQ | GT

record rb_node =
  n_left :: u64
  n_right :: u64
  n_parent_int :: "63 word"
  n_col :: col

type_synonym nodes = "u64 \<Rightarrow> rb_node"

definition set_left :: "nodes \<Rightarrow> u64 \<Rightarrow> u64 \<Rightarrow> nodes" where
  "set_left h x v = h(x := (h x)\<lparr>n_left := v\<rparr>)"

definition set_right :: "nodes \<Rightarrow> u64 \<Rightarrow> u64 \<Rightarrow> nodes" where
  "set_right h x v = h(x := (h x)\<lparr>n_right := v\<rparr>)"

definition set_col :: "nodes \<Rightarrow> u64 \<Rightarrow> col \<Rightarrow> nodes" where
  "set_col h x c = h(x := (h x)\<lparr>n_col := c\<rparr>)"

definition parent :: "nodes \<Rightarrow> u64 \<Rightarrow> u64" where
  "parent h x = ucast (push_bit 1 (n_parent_int (h x)))"

definition setParent :: "nodes \<Rightarrow> u64 \<Rightarrow> u64 \<Rightarrow> nodes" where
  "setParent h x p = h(x := (h x)\<lparr>n_parent_int := ucast (drop_bit 1 p)\<rparr>)"

partial_function (option) minChild :: "u64 \<Rightarrow> nodes \<Rightarrow> u64 \<Rightarrow> u64 option" where
  "minChild nil h x = (if n_left (h x) \<noteq> nil then minChild nil h (n_left (h x)) else Some x)"

partial_function (option) maxChild :: "u64 \<Rightarrow> nodes \<Rightarrow> u64 \<Rightarrow> u64 option" where
  "maxChild nil h x = (if n_right (h x) \<noteq> nil then maxChild nil h (n_right (h x)) else Some x)"

partial_function (option) succ_loop :: "u64 \<Rightarrow> nodes \<Rightarrow> u64 \<Rightarrow> u64 \<Rightarrow> u64 option" where
  "succ_loop nil h x y = (if y \<noteq> nil \<and> x = n_right (h y) then succ_loop nil h y (parent h y) else Some y)"

definition succ :: "u64 \<Rightarrow> nodes \<Rightarrow> u64 \<Rightarrow> u64 option" where
  "succ nil h x = (if n_right (h x) \<noteq> nil then minChild nil h (n_right (h x)) else succ_loop nil h x (parent h x))"

partial_function (option) pred_loop :: "u64 \<Rightarrow> nodes \<Rightarrow> u64 \<Rightarrow> u64 \<Rightarrow> u64 option" where
  "pred_loop nil h x y = (if y \<noteq> nil \<and> x = n_left (h y) then pred_loop nil h y (parent h y) else Some y)"

definition pred :: "u64 \<Rightarrow> nodes \<Rightarrow> u64 \<Rightarrow> u64 option" where
  "pred nil h x = (if n_left (h x) \<noteq> nil then maxChild nil h (n_left (h x)) else pred_loop nil h x (parent h x))"

definition nilChecked :: "u64 \<Rightarrow> u64 \<Rightarrow> u64 option" where
  "nilChecked nil x = (if x \<noteq> nil then Some x else None)"

section \<open>Trees\<close>

record rb_tree =
  rt_root :: u64
  rt_len :: u64

type_synonym rb = "rb_tree \<times> nodes"

text \<open>What a tree type is made for, with the address of \<open>nil\<close>.\<close>

record 'k rb_type =
  rb_nil :: u64
  rb_key :: "u64 \<Rightarrow> 'k"
  rb_cmp :: "'k \<Rightarrow> 'k \<Rightarrow> math_order"

text \<open>The first tree initialises \<open>nil\<close>; the flag says whether that has happened.\<close>

definition rb_init :: "u64 \<Rightarrow> bool \<Rightarrow> nodes \<Rightarrow> rb_tree \<times> bool \<times> nodes" where
  "rb_init nil nil_init h =
     (let (nil_init, h) =
        (if \<not> nil_init then (True, h(nil := \<lparr>n_left = nil, n_right = nil, n_parent_int = ucast (drop_bit 1 nil), n_col = Black\<rparr>))
         else (nil_init, h)) in
      (\<lparr>rt_root = nil, rt_len = 0\<rparr>, nil_init, h))"

partial_function (option) lowerBound_loop :: "'k rb_type \<Rightarrow> nodes \<Rightarrow> 'k \<Rightarrow> u64 \<Rightarrow> u64 \<Rightarrow> u64 option" where
  "lowerBound_loop R h k p x =
     (if x \<noteq> rb_nil R then
        (case rb_cmp R (rb_key R x) k of
           LT \<Rightarrow> lowerBound_loop R h k p (n_right (h x))
         | EQ \<Rightarrow> lowerBound_loop R h k x (n_left (h x))
         | GT \<Rightarrow> lowerBound_loop R h k x (n_left (h x)))
      else Some p)"

definition lowerBound :: "'k rb_type \<Rightarrow> 'k \<Rightarrow> rb \<Rightarrow> u64 option option" where
  "lowerBound R k = (\<lambda>(T, h). do {
     p \<leftarrow> lowerBound_loop R h k (rb_nil R) (rt_root T);
     Some (nilChecked (rb_nil R) p) })"

partial_function (option) find_loop :: "'k rb_type \<Rightarrow> nodes \<Rightarrow> 'k \<Rightarrow> u64 \<Rightarrow> u64 option option" where
  "find_loop R h k x =
     (if x \<noteq> rb_nil R then
        (case rb_cmp R (rb_key R x) k of
           LT \<Rightarrow> find_loop R h k (n_right (h x))
         | EQ \<Rightarrow> Some (Some x)
         | GT \<Rightarrow> find_loop R h k (n_left (h x)))
      else Some None)"

definition rb_find :: "'k rb_type \<Rightarrow> 'k \<Rightarrow> rb \<Rightarrow> u64 option option" where
  "rb_find R k = (\<lambda>(T, h). find_loop R h k (rt_root T))"

section \<open>Rotations\<close>

definition leftRotate :: "u64 \<Rightarrow> u64 \<Rightarrow> rb \<Rightarrow> rb" where
  "leftRotate nil x = (\<lambda>(T, h).
     let y = n_right (h x);
         h = set_right h x (n_left (h y));
         h = (if n_left (h y) \<noteq> nil then setParent h (n_left (h y)) x else h);
         h = setParent h y (parent h x);
         (T, h) =
           (if parent h x = nil then (T\<lparr>rt_root := y\<rparr>, h)
            else if x = n_left (h (parent h x)) then (T, set_left h (parent h x) y)
            else (T, set_right h (parent h x) y));
         h = set_left h y x;
         h = setParent h x y in
     (T, h))"

definition rightRotate :: "u64 \<Rightarrow> u64 \<Rightarrow> rb \<Rightarrow> rb" where
  "rightRotate nil x = (\<lambda>(T, h).
     let y = n_left (h x);
         h = set_left h x (n_right (h y));
         h = (if n_right (h y) \<noteq> nil then setParent h (n_right (h y)) x else h);
         h = setParent h y (parent h x);
         (T, h) =
           (if parent h x = nil then (T\<lparr>rt_root := y\<rparr>, h)
            else if x = n_right (h (parent h x)) then (T, set_right h (parent h x) y)
            else (T, set_left h (parent h x) y));
         h = set_right h y x;
         h = setParent h x y in
     (T, h))"

section \<open>Insertion\<close>

text \<open>One round of the loop of \<open>insertFixup\<close>, with the node at which it goes on.\<close>

definition insertFixup_round :: "u64 \<Rightarrow> u64 \<Rightarrow> rb \<Rightarrow> u64 \<times> rb" where
  "insertFixup_round nil z = (\<lambda>(T, h).
     let p = parent h z; g = parent h p in
     if p = n_left (h g) then
       (let u = n_right (h g) in
        if n_col (h u) = Red then (g, (T, set_col (set_col (set_col h p Black) u Black) g Red))
        else
          (let (z, p, g, (T, h)) =
             (if z = n_right (h p) then
                (let z = p; (T, h) = leftRotate nil z (T, h); p = parent h z; g = parent h p in (z, p, g, (T, h)))
              else (z, p, g, (T, h)))
           in (z, rightRotate nil g (T, set_col (set_col h p Black) g Red))))
     else
       (let u = n_left (h g) in
        if n_col (h u) = Red then (g, (T, set_col (set_col (set_col h p Black) u Black) g Red))
        else
          (let (z, p, g, (T, h)) =
             (if z = n_left (h p) then
                (let z = p; (T, h) = rightRotate nil z (T, h); p = parent h z; g = parent h p in (z, p, g, (T, h)))
              else (z, p, g, (T, h)))
           in (z, leftRotate nil g (T, set_col (set_col h p Black) g Red)))))"

partial_function (option) insertFixup_loop :: "u64 \<Rightarrow> u64 \<Rightarrow> rb \<Rightarrow> rb option" where
  "insertFixup_loop nil z s =
     (if n_col (snd s (parent (snd s) z)) = Red then
        (let (z, s) = insertFixup_round nil z s in insertFixup_loop nil z s)
      else Some s)"

definition insertFixup :: "u64 \<Rightarrow> u64 \<Rightarrow> rb \<Rightarrow> rb option" where
  "insertFixup nil node s = do {
     (T, h) \<leftarrow> insertFixup_loop nil node s;
     Some (T, set_col h (rt_root T) Black) }"

text \<open>The place below which a node is added.\<close>

partial_function (option) add_loop :: "'k rb_type \<Rightarrow> nodes \<Rightarrow> u64 \<Rightarrow> u64 \<Rightarrow> u64 \<Rightarrow> u64 option" where
  "add_loop R h z y x =
     (if x \<noteq> rb_nil R then
        (case rb_cmp R (rb_key R x) (rb_key R z) of
           LT \<Rightarrow> add_loop R h z x (n_right (h x))
         | EQ \<Rightarrow> add_loop R h z x (n_right (h x))
         | GT \<Rightarrow> add_loop R h z x (n_left (h x)))
      else Some y)"

definition new_leaf :: "u64 \<Rightarrow> u64 \<Rightarrow> u64 \<Rightarrow> nodes \<Rightarrow> nodes" where
  "new_leaf nil z y h = set_col (setParent (set_right (set_left h z nil) z nil) z y) z Red"

definition rb_add :: "'k rb_type \<Rightarrow> u64 \<Rightarrow> rb \<Rightarrow> rb option" where
  "rb_add R z = (\<lambda>(T, h). do {
     y \<leftarrow> add_loop R h z (rb_nil R) (rt_root T);
     let h = new_leaf (rb_nil R) z y h;
     let (T, h) =
       (if y = rb_nil R then (T\<lparr>rt_root := z\<rparr>, h)
        else
          (case rb_cmp R (rb_key R y) (rb_key R z) of
             LT \<Rightarrow> (T, set_right h y z)
           | EQ \<Rightarrow> (T, set_right h y z)
           | GT \<Rightarrow> (T, set_left h y z)));
     (T, h) \<leftarrow> insertFixup (rb_nil R) z (T, h);
     cassert (rt_len T \<noteq> - 1);
     Some (T\<lparr>rt_len := rt_len T + 1\<rparr>, h) })"

text \<open>The same walk, which stops at a node with the key: then the first component of the result is that node.\<close>

partial_function (option) findOrAdd_loop :: "'k rb_type \<Rightarrow> nodes \<Rightarrow> u64 \<Rightarrow> u64 \<Rightarrow> u64 \<Rightarrow> (u64 option \<times> u64) option" where
  "findOrAdd_loop R h z y x =
     (if x \<noteq> rb_nil R then
        (case rb_cmp R (rb_key R x) (rb_key R z) of
           LT \<Rightarrow> findOrAdd_loop R h z x (n_right (h x))
         | EQ \<Rightarrow> Some (Some x, x)
         | GT \<Rightarrow> findOrAdd_loop R h z x (n_left (h x)))
      else Some (None, y))"

definition findOrAdd :: "'k rb_type \<Rightarrow> u64 \<Rightarrow> rb \<Rightarrow> (u64 option \<times> rb) option" where
  "findOrAdd R z = (\<lambda>(T, h). do {
     (found, y) \<leftarrow> findOrAdd_loop R h z (rb_nil R) (rt_root T);
     case found of
       Some x \<Rightarrow> Some (Some x, (T, h))
     | None \<Rightarrow> do {
         let h = new_leaf (rb_nil R) z y h;
         (T, h) \<leftarrow>
           (if y = rb_nil R then Some (T\<lparr>rt_root := z\<rparr>, h)
            else
              (case rb_cmp R (rb_key R y) (rb_key R z) of
                 LT \<Rightarrow> Some (T, set_right h y z)
               | EQ \<Rightarrow> None
               | GT \<Rightarrow> Some (T, set_left h y z)));
         (T, h) \<leftarrow> insertFixup (rb_nil R) z (T, h);
         cassert (rt_len T \<noteq> - 1);
         Some (None, (T\<lparr>rt_len := rt_len T + 1\<rparr>, h)) } })"

section \<open>Removal\<close>

definition transplant :: "u64 \<Rightarrow> u64 \<Rightarrow> u64 \<Rightarrow> rb \<Rightarrow> rb" where
  "transplant nil u v = (\<lambda>(T, h).
     let (T, h) =
       (if parent h u = nil then (T\<lparr>rt_root := v\<rparr>, h)
        else if u = n_left (h (parent h u)) then (T, set_left h (parent h u) v)
        else (T, set_right h (parent h u) v)) in
     (T, setParent h v (parent h u)))"

definition eraseFixup_round :: "u64 \<Rightarrow> u64 \<Rightarrow> rb \<Rightarrow> u64 \<times> rb" where
  "eraseFixup_round nil x = (\<lambda>(T, h).
     if x = n_left (h (parent h x)) then
       (let w = n_right (h (parent h x));
            (w, (T, h)) =
              (if n_col (h w) = Red then
                 (let h = set_col h w Black;
                      h = set_col h (parent h x) Red;
                      (T, h) = leftRotate nil (parent h x) (T, h) in
                  (n_right (h (parent h x)), (T, h)))
               else (w, (T, h))) in
        if n_col (h (n_left (h w))) = Black \<and> n_col (h (n_right (h w))) = Black then
          (let h = set_col h w Red in (parent h x, (T, h)))
        else
          (let (w, (T, h)) =
                 (if n_col (h (n_right (h w))) = Black then
                    (let h = set_col h (n_left (h w)) Black;
                         h = set_col h w Red;
                         (T, h) = rightRotate nil w (T, h) in
                     (n_right (h (parent h x)), (T, h)))
                  else (w, (T, h)));
               h = (if n_col (h (parent h x)) = Red then set_col h w Red else set_col h w Black);
               h = set_col h (parent h x) Black;
               h = set_col h (n_right (h w)) Black;
               (T, h) = leftRotate nil (parent h x) (T, h) in
           (rt_root T, (T, h))))
     else
       (let w = n_left (h (parent h x));
            (w, (T, h)) =
              (if n_col (h w) = Red then
                 (let h = set_col h w Black;
                      h = set_col h (parent h w) Red;
                      (T, h) = rightRotate nil (parent h x) (T, h) in
                  (n_left (h (parent h x)), (T, h)))
               else (w, (T, h))) in
        if n_col (h (n_right (h w))) = Black \<and> n_col (h (n_left (h w))) = Black then
          (let h = set_col h w Red in (parent h x, (T, h)))
        else
          (let (w, (T, h)) =
                 (if n_col (h (n_left (h w))) = Black then
                    (let h = set_col h (n_right (h w)) Black;
                         h = set_col h w Red;
                         (T, h) = leftRotate nil w (T, h) in
                     (n_left (h (parent h x)), (T, h)))
                  else (w, (T, h)));
               h = (if n_col (h (parent h x)) = Red then set_col h w Red else set_col h w Black);
               h = set_col h (parent h x) Black;
               h = set_col h (n_left (h w)) Black;
               (T, h) = rightRotate nil (parent h x) (T, h) in
           (rt_root T, (T, h)))))"

partial_function (option) eraseFixup_loop :: "u64 \<Rightarrow> u64 \<Rightarrow> rb \<Rightarrow> rb option" where
  "eraseFixup_loop nil x s =
     (if x \<noteq> rt_root (fst s) \<and> n_col (snd s x) = Black then
        (let (x, s) = eraseFixup_round nil x s in eraseFixup_loop nil x s)
      else Some s)"

text \<open>What is made black at the end is the root, not the node at which the loop stopped.\<close>

definition eraseFixup :: "u64 \<Rightarrow> u64 \<Rightarrow> rb \<Rightarrow> rb option" where
  "eraseFixup nil node s = do {
     (T, h) \<leftarrow> eraseFixup_loop nil node s;
     Some (T, set_col h (rt_root T) Black) }"

text \<open>The successor of a node with two children takes its place, its left subtree and its colour.\<close>

definition replace_node :: "u64 \<Rightarrow> u64 \<Rightarrow> u64 \<Rightarrow> rb \<Rightarrow> rb" where
  "replace_node nil z y s =
     (let (T, h) = transplant nil z y s;
          h = set_left h y (n_left (h z));
          h = setParent h (n_left (h y)) y;
          h = (if n_col (h z) = Red then set_col h y Red else set_col h y Black) in
      (T, h))"

text \<open>The part of \<open>erase\<close> that unlinks the node: the node that moved up and the colour that went away with it.\<close>

definition unlink :: "u64 \<Rightarrow> u64 \<Rightarrow> rb \<Rightarrow> (u64 \<times> col \<times> rb) option" where
  "unlink nil z = (\<lambda>(T, h).
     if n_left (h z) = nil then Some (n_right (h z), n_col (h z), transplant nil z (n_right (h z)) (T, h))
     else if n_right (h z) = nil then Some (n_left (h z), n_col (h z), transplant nil z (n_left (h z)) (T, h))
     else do {
       y \<leftarrow> minChild nil h (n_right (h z));
       let y_origin_col = n_col (h y);
       let x = n_right (h y);
       let s =
         (if parent h y = z then (T, setParent h x y)
          else
            (let (T, h) = transplant nil y (n_right (h y)) (T, h);
                 h = set_right h y (n_right (h z));
                 h = setParent h (n_right (h y)) y in
             (T, h)));
       Some (x, y_origin_col, replace_node nil z y s) })"

definition rb_erase :: "u64 \<Rightarrow> u64 \<Rightarrow> rb \<Rightarrow> (u64 option \<times> rb) option" where
  "rb_erase nil z s = do {
     nxt \<leftarrow> succ nil (snd s) z;
     (x, y_origin_col, s) \<leftarrow> unlink nil z s;
     (T, h) \<leftarrow> (if y_origin_col = Black then eraseFixup nil x s else Some s);
     cassert (rt_len T \<noteq> 0);
     Some (nilChecked nil nxt, (T\<lparr>rt_len := rt_len T - 1\<rparr>, h)) }"

section \<open>Traversal\<close>

definition rb_min :: "u64 \<Rightarrow> rb \<Rightarrow> u64 option option" where
  "rb_min nil = (\<lambda>(T, h). do { x \<leftarrow> minChild nil h (rt_root T); Some (nilChecked nil x) })"

definition rb_max :: "u64 \<Rightarrow> rb \<Rightarrow> u64 option option" where
  "rb_max nil = (\<lambda>(T, h). do { x \<leftarrow> maxChild nil h (rt_root T); Some (nilChecked nil x) })"

text \<open>An iterator is the node it returns next.\<close>

definition rb_iter :: "u64 \<Rightarrow> rb \<Rightarrow> u64 option" where
  "rb_iter nil = (\<lambda>(T, h). minChild nil h (rt_root T))"

definition iterator_next :: "u64 \<Rightarrow> nodes \<Rightarrow> u64 \<Rightarrow> (u64 option \<times> u64) option" where
  "iterator_next nil h cur = do {
     nxt \<leftarrow> succ nil h cur;
     Some (nilChecked nil cur, nxt) }"

end
