(* ===== verification/Rbtree_Shape.thy ===== *)
theory Rbtree_Shape
  imports Rbtree
begin

text \<open>
  The trees that nodes in the store form: \<open>tr\<close> is a tree with the colours and addresses of its nodes, and a list of \<open>crumb\<close>s is the way from
  a position in it up to the root. \<open>zip_at\<close> relates both to the store, and the lemmas say what the rotations, the repair loops and the
  walks do to a tree seen from a position.
\<close>

section \<open>Access to nodes\<close>

text \<open>Addresses that survive being packed into 63 bits.\<close>

definition ok_ptr :: "u64 \<Rightarrow> bool" where
  "ok_ptr p \<longleftrightarrow> ucast (push_bit 1 (ucast (drop_bit 1 p) :: 63 word)) = p"

lemma node_reads [simp]:
  "n_left (set_left h x v y) = (if y = x then v else n_left (h y))" "n_left (set_right h x v y) = n_left (h y)"
  "n_left (setParent h x v y) = n_left (h y)" "n_left (set_col h x c y) = n_left (h y)"
  "n_right (set_left h x v y) = n_right (h y)" "n_right (set_right h x v y) = (if y = x then v else n_right (h y))"
  "n_right (setParent h x v y) = n_right (h y)" "n_right (set_col h x c y) = n_right (h y)"
  "n_col (set_left h x v y) = n_col (h y)" "n_col (set_right h x v y) = n_col (h y)"
  "n_col (setParent h x v y) = n_col (h y)" "n_col (set_col h x c y) = (if y = x then c else n_col (h y))"
  "parent (set_left h x v) y = parent h y" "parent (set_right h x v) y = parent h y" "parent (set_col h x c) y = parent h y"
  by (simp_all add: set_left_def set_right_def setParent_def set_col_def parent_def)

lemma parent_setParent [simp]: "ok_ptr p \<Longrightarrow> parent (setParent h x p) y = (if y = x then p else parent h y)"
  by (simp add: parent_def setParent_def ok_ptr_def)

lemma node_other [simp]:
  "y \<noteq> x \<Longrightarrow> set_left h x v y = h y" "y \<noteq> x \<Longrightarrow> set_right h x v y = h y"
  "y \<noteq> x \<Longrightarrow> setParent h x v y = h y" "y \<noteq> x \<Longrightarrow> set_col h x c y = h y"
  by (simp_all add: set_left_def set_right_def setParent_def set_col_def)

section \<open>Trees\<close>

datatype tr = Lf | Nd col tr u64 tr

primrec inorder :: "tr \<Rightarrow> u64 list" where
  "inorder Lf = []"
| "inorder (Nd c l x r) = inorder l @ x # inorder r"

fun rt :: "u64 \<Rightarrow> tr \<Rightarrow> u64" where
  "rt nil Lf = nil"
| "rt nil (Nd c l x r) = x"

fun col_of :: "tr \<Rightarrow> col" where
  "col_of Lf = Black"
| "col_of (Nd c l x r) = c"

primrec tree_at :: "u64 \<Rightarrow> nodes \<Rightarrow> u64 \<Rightarrow> tr \<Rightarrow> bool" where
  "tree_at nil h p Lf = True"
| "tree_at nil h p (Nd c l x r) \<longleftrightarrow> x \<noteq> nil \<and> ok_ptr x \<and> n_left (h x) = rt nil l \<and> n_right (h x) = rt nil r \<and>
     parent h x = p \<and> n_col (h x) = c \<and> tree_at nil h x l \<and> tree_at nil h x r"

lemma parent_cong: "h' x = h x \<Longrightarrow> parent h' x = parent h x"
  by (simp add: parent_def)

lemma tree_at_cong: "(\<And>y. y \<in> set (inorder t) \<Longrightarrow> h' y = h y) \<Longrightarrow> tree_at nil h' p t = tree_at nil h p t"
  by (induction t arbitrary: p) (simp_all add: parent_cong [of h' _ h])

lemma tree_at_nodes: "tree_at nil h p t \<Longrightarrow> x \<in> set (inorder t) \<Longrightarrow> x \<noteq> nil \<and> ok_ptr x"
  by (induction t arbitrary: p) auto

lemma rt_inorder: "t \<noteq> Lf \<Longrightarrow> rt nil t \<in> set (inorder t)"
  by (cases t) auto

text \<open>A subtree whose root gets another parent.\<close>

lemma tree_at_reparent:
  assumes "tree_at nil h p t" "distinct (inorder t)" "\<And>y. y \<in> set (inorder t) \<Longrightarrow> y \<noteq> rt nil t \<Longrightarrow> h' y = h y"
    and "t \<noteq> Lf \<Longrightarrow> n_left (h' (rt nil t)) = n_left (h (rt nil t)) \<and> n_right (h' (rt nil t)) = n_right (h (rt nil t)) \<and>
      n_col (h' (rt nil t)) = n_col (h (rt nil t)) \<and> parent h' (rt nil t) = q"
  shows "tree_at nil h' q t"
proof (cases t)
  case (Nd c l x r)
  have "tree_at nil h' x l = tree_at nil h x l" by (rule tree_at_cong) (use assms(2,3) Nd in auto)
  moreover have "tree_at nil h' x r = tree_at nil h x r" by (rule tree_at_cong) (use assms(2,3) Nd in auto)
  ultimately show ?thesis using assms(1,4) Nd by simp
qed simp

section \<open>Positions\<close>

text \<open>A step up from a left or a right child.\<close>

datatype crumb = CL col u64 tr | CR tr col u64

fun plug :: "crumb list \<Rightarrow> tr \<Rightarrow> tr" where
  "plug [] t = t"
| "plug (CL c x r # C) t = plug C (Nd c t x r)"
| "plug (CR l c x # C) t = plug C (Nd c l x t)"

fun up :: "u64 \<Rightarrow> crumb list \<Rightarrow> u64" where
  "up nil [] = nil"
| "up nil (CL c x r # C) = x"
| "up nil (CR l c x # C) = x"

fun before :: "crumb list \<Rightarrow> u64 list" where
  "before [] = []"
| "before (CL c x r # C) = before C"
| "before (CR l c x # C) = before C @ inorder l @ [x]"

fun behind :: "crumb list \<Rightarrow> u64 list" where
  "behind [] = []"
| "behind (CL c x r # C) = x # inorder r @ behind C"
| "behind (CR l c x # C) = behind C"

lemma inorder_plug: "inorder (plug C t) = before C @ inorder t @ behind C"
  by (induction C arbitrary: t rule: before.induct) simp_all

fun ctx_at :: "u64 \<Rightarrow> nodes \<Rightarrow> u64 \<Rightarrow> u64 \<Rightarrow> crumb list \<Rightarrow> bool" where
  "ctx_at nil h root a [] \<longleftrightarrow> root = a"
| "ctx_at nil h root a (CL c x r # C) \<longleftrightarrow> x \<noteq> nil \<and> ok_ptr x \<and> n_left (h x) = a \<and> n_right (h x) = rt nil r \<and>
     parent h x = up nil C \<and> n_col (h x) = c \<and> tree_at nil h x r \<and> ctx_at nil h root x C"
| "ctx_at nil h root a (CR l c x # C) \<longleftrightarrow> x \<noteq> nil \<and> ok_ptr x \<and> n_left (h x) = rt nil l \<and> n_right (h x) = a \<and>
     parent h x = up nil C \<and> n_col (h x) = c \<and> tree_at nil h x l \<and> ctx_at nil h root x C"

lemma ctx_at_cong: "(\<And>y. y \<in> set (before C) \<union> set (behind C) \<Longrightarrow> h' y = h y) \<Longrightarrow> ctx_at nil h' root a C = ctx_at nil h root a C"
proof (induction C arbitrary: a rule: before.induct)
  case (2 c x r C)
  have "tree_at nil h' x r = tree_at nil h x r" by (rule tree_at_cong) (use "2.prems" in simp)
  moreover have "ctx_at nil h' root x C = ctx_at nil h root x C" by (rule "2.IH") (use "2.prems" in auto)
  ultimately show ?case using "2.prems" [of x] parent_cong [of h' x h] by simp
next
  case (3 l c x C)
  have "tree_at nil h' x l = tree_at nil h x l" by (rule tree_at_cong) (use "3.prems" in simp)
  moreover have "ctx_at nil h' root x C = ctx_at nil h root x C" by (rule "3.IH") (use "3.prems" in auto)
  ultimately show ?case using "3.prems" [of x] parent_cong [of h' x h] by simp
qed simp

definition zip_at :: "u64 \<Rightarrow> rb \<Rightarrow> crumb list \<Rightarrow> tr \<Rightarrow> bool" where
  "zip_at nil s C t \<longleftrightarrow> tree_at nil (snd s) (up nil C) t \<and> ctx_at nil (snd s) (rt_root (fst s)) (rt nil t) C \<and>
     distinct (inorder (plug C t)) \<and> ok_ptr nil"

lemma zip_CL: "zip_at nil s (CL c x r # C) l \<longleftrightarrow> zip_at nil s C (Nd c l x r)"
  by (auto simp: zip_at_def)

lemma zip_CR: "zip_at nil s (CR l c x # C) r \<longleftrightarrow> zip_at nil s C (Nd c l x r)"
  by (auto simp: zip_at_def)

lemmas zip_upL = zip_CL [THEN iffD1] and zip_upR = zip_CR [THEN iffD1] and zip_downL = zip_CL [THEN iffD2] and zip_downR = zip_CR [THEN iffD2]

lemma zip_plug: "zip_at nil s [] (plug C t) \<longleftrightarrow> zip_at nil s C t"
  by (induction C t rule: plug.induct) (simp_all add: zip_CL zip_CR)

lemma zip_node:
  assumes "zip_at nil s C (Nd c l x r)"
  shows "x \<noteq> nil" "ok_ptr x" "n_left (snd s x) = rt nil l" "n_right (snd s x) = rt nil r" "n_col (snd s x) = c" "parent (snd s) x = up nil C"
    "ok_ptr nil"
  using assms by (simp_all add: zip_at_def)

text \<open>The nodes of the whole tree.\<close>

definition members :: "crumb list \<Rightarrow> tr \<Rightarrow> u64 set" where
  "members C t = set (inorder (plug C t))"

lemma members_simps [simp]: "members (CL c x r # C) l = members C (Nd c l x r)" "members (CR l c x # C) r = members C (Nd c l x r)"
  by (simp_all add: members_def)

section \<open>Rotations\<close>

text \<open>The link from above to a position, in the two forms in which the code looks for it.\<close>

definition relink :: "u64 \<Rightarrow> u64 \<Rightarrow> u64 \<Rightarrow> u64 \<Rightarrow> rb \<Rightarrow> rb" where
  "relink nil p x y = (\<lambda>(T, h).
     if p = nil then (T\<lparr>rt_root := y\<rparr>, h)
     else if x = n_left (h p) then (T, set_left h p y)
     else (T, set_right h p y))"

definition relink' :: "u64 \<Rightarrow> u64 \<Rightarrow> u64 \<Rightarrow> u64 \<Rightarrow> rb \<Rightarrow> rb" where
  "relink' nil p x y = (\<lambda>(T, h).
     if p = nil then (T\<lparr>rt_root := y\<rparr>, h)
     else if x = n_right (h p) then (T, set_right h p y)
     else (T, set_left h p y))"

lemma up_member: "C \<noteq> [] \<Longrightarrow> up nil C \<in> set (before C) \<union> set (behind C)"
  by (cases C rule: before.cases) auto

lemma ctx_at_nodes: "ctx_at nil h root a C \<Longrightarrow> x \<in> set (before C) \<union> set (behind C) \<Longrightarrow> x \<noteq> nil \<and> ok_ptr x"
  by (induction C arbitrary: a rule: before.induct) (auto dest: tree_at_nodes)

lemma ctx_up: "ctx_at nil h root a C \<Longrightarrow> C \<noteq> [] \<Longrightarrow> up nil C \<noteq> nil \<and> ok_ptr (up nil C)"
  by (cases C rule: before.cases) auto

lemma relink_frame:
  assumes "relink nil p x y (T, h) = (T', h') \<or> relink' nil p x y (T, h) = (T', h')"
  shows "rt_len T' = rt_len T" "z \<noteq> p \<Longrightarrow> h' z = h z" "parent h' z = parent h z" "n_col (h' z) = n_col (h z)" "p = nil \<Longrightarrow> h' = h"
  using assms by (auto simp: relink_def relink'_def split: if_splits)

lemma relink_ctx:
  assumes ctx: "ctx_at nil h (rt_root T) a C" and a: "a \<notin> set (before C) \<union> set (behind C)" "a \<noteq> nil"
    and d: "distinct (before C @ behind C)"
    and run: "relink nil (up nil C) a y (T, h) = (T', h') \<or> relink' nil (up nil C) a y (T, h) = (T', h')"
  shows "ctx_at nil h' (rt_root T') y C"
proof (cases C rule: before.cases)
  case 1
  then show ?thesis using run by (auto simp: relink_def relink'_def)
next
  case (2 c x r C')
  have r: "a \<noteq> rt nil r" using a 2 rt_inorder [of r nil] by (cases "r = Lf") auto
  then have h': "h' = set_left h x y" "T' = T" using run ctx 2 by (auto simp: relink_def relink'_def)
  have "tree_at nil h' x r = tree_at nil h x r" by (rule tree_at_cong) (use d 2 h' in \<open>auto intro!: node_other\<close>)
  moreover have "ctx_at nil h' (rt_root T) x C' = ctx_at nil h (rt_root T) x C'" by (rule ctx_at_cong) (use d 2 h' in \<open>auto intro!: node_other\<close>)
  ultimately show ?thesis using ctx 2 h' by simp
next
  case (3 l c x C')
  have l: "a \<noteq> rt nil l" using a 3 rt_inorder [of l nil] by (cases "l = Lf") auto
  then have h': "h' = set_right h x y" "T' = T" using run ctx 3 by (auto simp: relink_def relink'_def)
  have "tree_at nil h' x l = tree_at nil h x l" by (rule tree_at_cong) (use d 3 h' in \<open>auto intro!: node_other\<close>)
  moreover have "ctx_at nil h' (rt_root T) x C' = ctx_at nil h (rt_root T) x C'" by (rule ctx_at_cong) (use d 3 h' in \<open>auto intro!: node_other\<close>)
  ultimately show ?thesis using ctx 3 h' by simp
qed

lemma leftRotate_relink:
  "leftRotate nil x (T, h) =
    (let y = n_right (h x); b = n_left (h y); h = set_right h x b; h = (if n_left (h y) \<noteq> nil then setParent h (n_left (h y)) x else h);
       h = setParent h y (parent h x); (T, h) = relink nil (parent h x) x y (T, h) in (T, setParent (set_left h y x) x y))"
  by (simp add: leftRotate_def relink_def Let_def)

lemma rightRotate_relink:
  "rightRotate nil x (T, h) =
    (let y = n_left (h x); b = n_right (h y); h = set_left h x b; h = (if n_right (h y) \<noteq> nil then setParent h (n_right (h y)) x else h);
       h = setParent h y (parent h x); (T, h) = relink' nil (parent h x) x y (T, h) in (T, setParent (set_right h y x) x y))"
  by (simp add: rightRotate_def relink'_def Let_def)

lemma leftRotate_zip:
  assumes zip: "zip_at nil (T, h) C (Nd c a x (Nd d b y e))" and run: "leftRotate nil x (T, h) = (T', h')"
  shows "zip_at nil (T', h') C (Nd d (Nd c a x b) y e)" "rt_len T' = rt_len T" "z \<notin> members C (Nd c a x (Nd d b y e)) \<Longrightarrow> h' z = h z"
proof -
  have D: "distinct (before C @ (inorder a @ x # inorder b @ y # inorder e) @ behind C)" "ok_ptr nil"
    using zip by (simp_all add: zip_at_def inorder_plug)
  have T: "tree_at nil h (up nil C) (Nd c a x (Nd d b y e))" and ctx: "ctx_at nil h (rt_root T) x C" using zip by (simp_all add: zip_at_def)
  have nil: "x \<noteq> nil" "y \<noteq> nil" "nil \<notin> set (inorder a)" "nil \<notin> set (inorder b)" "nil \<notin> set (inorder e)" "nil \<notin> set (before C)" "nil \<notin> set (behind C)"
    using T tree_at_nodes [OF T] ctx_at_nodes [OF ctx] by auto
  have okx: "ok_ptr x" "ok_ptr y" "ok_ptr (up nil C)" using T D(2) ctx_up [OF ctx] by (cases C; simp)+
  have xy: "x \<noteq> y" using D(1) by auto
  have rb: "b \<noteq> Lf \<Longrightarrow> rt nil b \<in> set (inorder b)" by (rule rt_inorder)
  have rbn: "(rt nil b \<noteq> nil) = (b \<noteq> Lf)" using rb nil(4) by (cases b) auto
  have rbx: "rt nil b \<noteq> x" "rt nil b \<noteq> y" using rb D(1) nil by (cases "b = Lf"; auto)+
  define h3 where "h3 = setParent (if b \<noteq> Lf then setParent (set_right h x (rt nil b)) (rt nil b) x else set_right h x (rt nil b)) y (up nil C)"
  have up: "up nil C \<noteq> x" "up nil C \<noteq> y" "up nil C \<notin> set (inorder a)" "up nil C \<notin> set (inorder b)" "up nil C \<notin> set (inorder e)"
    using D(1) up_member [of C nil] nil by (cases "C = []"; auto)+
  obtain T4 h4 where re: "relink nil (up nil C) x y (T, h3) = (T4, h4)" by (meson surj_pair)
  have run': "T' = T4" "h' = setParent (set_left h4 y x) x y"
    using run T re xy rbn rbx unfolding leftRotate_relink h3_def Let_def by (auto simp: okx split: if_splits)
  have h3o: "h3 z = h z" if "z \<noteq> x" "z \<noteq> y" "b \<noteq> Lf \<longrightarrow> z \<noteq> rt nil b" for z using that by (simp add: h3_def)
  have c3: "ctx_at nil h3 (rt_root T) x C"
    by (subst ctx_at_cong [of C h3 h]) (use ctx D(1) rb in \<open>auto intro!: h3o\<close>)
  note F = relink_frame [OF disjI1, OF re]
  have "ctx_at nil h4 (rt_root T4) y C" by (rule relink_ctx [OF c3 _ nil(1) _ disjI1, OF _ _ re]) (use D(1) in auto)
  moreover have h4o: "h' z = h4 z" if "z \<noteq> x" "z \<noteq> y" for z using that run'(2) by simp
  have "ctx_at nil h' (rt_root T4) y C = ctx_at nil h4 (rt_root T4) y C" by (rule ctx_at_cong, rule h4o) (use D(1) in auto)
  ultimately have ctx': "ctx_at nil h' (rt_root T') y C" using run'(1) by simp
  have h'o: "h' z = h z" if "z \<noteq> x" "z \<noteq> y" "z \<noteq> up nil C" "b \<noteq> Lf \<longrightarrow> z \<noteq> rt nil b" for z
    using that F(2) [of z] h3o [of z] run'(2) by simp
  have "tree_at nil h' x a = tree_at nil h x a" by (rule tree_at_cong, rule h'o) (use D(1) up rb in auto)
  moreover have "tree_at nil h' y e = tree_at nil h y e" by (rule tree_at_cong, rule h'o) (use D(1) up rb in auto)
  moreover have "tree_at nil h' x b"
  proof (rule tree_at_reparent [of nil h y b])
    show "h' z = h z" if "z \<in> set (inorder b)" "z \<noteq> rt nil b" for z by (rule h'o) (use that D(1) up in auto)
    assume b: "b \<noteq> Lf"
    then have "rt nil b \<noteq> up nil C" using rb up(4) by auto
    then show "n_left (h' (rt nil b)) = n_left (h (rt nil b)) \<and> n_right (h' (rt nil b)) = n_right (h (rt nil b)) \<and>
        n_col (h' (rt nil b)) = n_col (h (rt nil b)) \<and> parent h' (rt nil b) = x"
      using F(2-4) [of "rt nil b"] rbx b okx xy by (simp add: run'(2) h3_def)
  qed (use T D(1) in auto)
  moreover have "n_left (h' x) = rt nil a" "n_right (h' x) = rt nil b" "n_col (h' x) = c" "parent h' x = y"
    "n_left (h' y) = x" "n_right (h' y) = rt nil e" "n_col (h' y) = d" "parent h' y = up nil C"
    using F(2-4) [of x] F(2-4) [of y] T xy up(1,2) okx by (simp_all add: run'(2) h3_def)
  ultimately show "zip_at nil (T', h') C (Nd d (Nd c a x b) y e)" using T D ctx' okx nil by (simp add: zip_at_def inorder_plug)
  show "rt_len T' = rt_len T" using F(1) run'(1) by simp
  show "h' z = h z" if "z \<notin> members C (Nd c a x (Nd d b y e))"
  proof (cases "z = up nil C")
    case True
    then have "C = []" using that up_member [of C nil] by (auto simp: members_def inorder_plug)
    then show ?thesis using True F(5) that h3o [of z] rbn nil by (auto simp: run'(2) members_def inorder_plug)
  qed (use that rb in \<open>auto simp: members_def inorder_plug intro!: h'o\<close>)
qed

lemma rightRotate_zip:
  assumes zip: "zip_at nil (T, h) C (Nd c (Nd d e y b) x a)" and run: "rightRotate nil x (T, h) = (T', h')"
  shows "zip_at nil (T', h') C (Nd d e y (Nd c b x a))" "rt_len T' = rt_len T" "z \<notin> members C (Nd c (Nd d e y b) x a) \<Longrightarrow> h' z = h z"
proof -
  have D: "distinct (before C @ (inorder e @ y # inorder b @ x # inorder a) @ behind C)" "ok_ptr nil"
    using zip by (simp_all add: zip_at_def inorder_plug)
  have T: "tree_at nil h (up nil C) (Nd c (Nd d e y b) x a)" and ctx: "ctx_at nil h (rt_root T) x C" using zip by (simp_all add: zip_at_def)
  have nil: "x \<noteq> nil" "y \<noteq> nil" "nil \<notin> set (inorder a)" "nil \<notin> set (inorder b)" "nil \<notin> set (inorder e)" "nil \<notin> set (before C)" "nil \<notin> set (behind C)"
    using T tree_at_nodes [OF T] ctx_at_nodes [OF ctx] by auto
  have okx: "ok_ptr x" "ok_ptr y" "ok_ptr (up nil C)" using T D(2) ctx_up [OF ctx] by (cases C; simp)+
  have xy: "x \<noteq> y" using D(1) by auto
  have rb: "b \<noteq> Lf \<Longrightarrow> rt nil b \<in> set (inorder b)" by (rule rt_inorder)
  have rbn: "(rt nil b \<noteq> nil) = (b \<noteq> Lf)" using rb nil(4) by (cases b) auto
  have rbx: "rt nil b \<noteq> x" "rt nil b \<noteq> y" using rb D(1) nil by (cases "b = Lf"; auto)+
  define h3 where "h3 = setParent (if b \<noteq> Lf then setParent (set_left h x (rt nil b)) (rt nil b) x else set_left h x (rt nil b)) y (up nil C)"
  have up: "up nil C \<noteq> x" "up nil C \<noteq> y" "up nil C \<notin> set (inorder a)" "up nil C \<notin> set (inorder b)" "up nil C \<notin> set (inorder e)"
    using D(1) up_member [of C nil] nil by (cases "C = []"; auto)+
  obtain T4 h4 where re: "relink' nil (up nil C) x y (T, h3) = (T4, h4)" by (meson surj_pair)
  have run': "T' = T4" "h' = setParent (set_right h4 y x) x y"
    using run T re xy rbn rbx unfolding rightRotate_relink h3_def Let_def by (auto simp: okx split: if_splits)
  have h3o: "h3 z = h z" if "z \<noteq> x" "z \<noteq> y" "b \<noteq> Lf \<longrightarrow> z \<noteq> rt nil b" for z using that by (simp add: h3_def)
  have c3: "ctx_at nil h3 (rt_root T) x C"
    by (subst ctx_at_cong [of C h3 h]) (use ctx D(1) rb in \<open>auto intro!: h3o\<close>)
  note F = relink_frame [OF disjI2, OF re]
  have "ctx_at nil h4 (rt_root T4) y C" by (rule relink_ctx [OF c3 _ nil(1) _ disjI2, OF _ _ re]) (use D(1) in auto)
  moreover have h4o: "h' z = h4 z" if "z \<noteq> x" "z \<noteq> y" for z using that run'(2) by simp
  have "ctx_at nil h' (rt_root T4) y C = ctx_at nil h4 (rt_root T4) y C" by (rule ctx_at_cong, rule h4o) (use D(1) in auto)
  ultimately have ctx': "ctx_at nil h' (rt_root T') y C" using run'(1) by simp
  have h'o: "h' z = h z" if "z \<noteq> x" "z \<noteq> y" "z \<noteq> up nil C" "b \<noteq> Lf \<longrightarrow> z \<noteq> rt nil b" for z
    using that F(2) [of z] h3o [of z] run'(2) by simp
  have "tree_at nil h' x a = tree_at nil h x a" by (rule tree_at_cong, rule h'o) (use D(1) up rb in auto)
  moreover have "tree_at nil h' y e = tree_at nil h y e" by (rule tree_at_cong, rule h'o) (use D(1) up rb in auto)
  moreover have "tree_at nil h' x b"
  proof (rule tree_at_reparent [of nil h y b])
    show "h' z = h z" if "z \<in> set (inorder b)" "z \<noteq> rt nil b" for z by (rule h'o) (use that D(1) up in auto)
    assume b: "b \<noteq> Lf"
    then have "rt nil b \<noteq> up nil C" using rb up(4) by auto
    then show "n_left (h' (rt nil b)) = n_left (h (rt nil b)) \<and> n_right (h' (rt nil b)) = n_right (h (rt nil b)) \<and>
        n_col (h' (rt nil b)) = n_col (h (rt nil b)) \<and> parent h' (rt nil b) = x"
      using F(2-4) [of "rt nil b"] rbx b okx xy by (simp add: run'(2) h3_def)
  qed (use T D(1) in auto)
  moreover have "n_right (h' x) = rt nil a" "n_left (h' x) = rt nil b" "n_col (h' x) = c" "parent h' x = y"
    "n_right (h' y) = x" "n_left (h' y) = rt nil e" "n_col (h' y) = d" "parent h' y = up nil C"
    using F(2-4) [of x] F(2-4) [of y] T xy up(1,2) okx by (simp_all add: run'(2) h3_def)
  ultimately show "zip_at nil (T', h') C (Nd d e y (Nd c b x a))" using T D ctx' okx nil by (simp add: zip_at_def inorder_plug)
  show "rt_len T' = rt_len T" using F(1) run'(1) by simp
  show "h' z = h z" if "z \<notin> members C (Nd c (Nd d e y b) x a)"
  proof (cases "z = up nil C")
    case True
    then have "C = []" using that up_member [of C nil] by (auto simp: members_def inorder_plug)
    then show ?thesis using True F(5) that h3o [of z] rbn nil by (auto simp: run'(2) members_def inorder_plug)
  qed (use that rb in \<open>auto simp: members_def inorder_plug intro!: h'o\<close>)
qed

section \<open>Changes at a position\<close>

text \<open>Only the given nodes changed.\<close>

definition only :: "u64 set \<Rightarrow> rb \<Rightarrow> rb \<Rightarrow> bool" where
  "only A s s' \<longleftrightarrow> rt_len (fst s') = rt_len (fst s) \<and> (\<forall>z. z \<notin> A \<longrightarrow> snd s' z = snd s z)"

lemma only_refl [simp]: "only A s s"
  by (simp add: only_def)

lemma only_trans: "only A s s' \<Longrightarrow> only A s' s'' \<Longrightarrow> only A s s''"
  by (simp add: only_def)

lemma rotate_left:
  assumes "zip_at nil s C (Nd c a x (Nd d b y e))"
  shows "zip_at nil (leftRotate nil x s) C (Nd d (Nd c a x b) y e)" "only (members C (Nd c a x (Nd d b y e))) s (leftRotate nil x s)"
proof -
  obtain T h T' h' where s: "s = (T, h)" "leftRotate nil x s = (T', h')" by (metis surj_pair)
  note R = leftRotate_zip [OF assms [unfolded s(1)] s(2) [unfolded s(1)]]
  show "zip_at nil (leftRotate nil x s) C (Nd d (Nd c a x b) y e)" "only (members C (Nd c a x (Nd d b y e))) s (leftRotate nil x s)"
    unfolding s(2) using R by (simp_all add: s(1) only_def)
qed

lemma rotate_right:
  assumes "zip_at nil s C (Nd c (Nd d e y b) x a)"
  shows "zip_at nil (rightRotate nil x s) C (Nd d e y (Nd c b x a))" "only (members C (Nd c (Nd d e y b) x a)) s (rightRotate nil x s)"
proof -
  obtain T h T' h' where s: "s = (T, h)" "rightRotate nil x s = (T', h')" by (metis surj_pair)
  note R = rightRotate_zip [OF assms [unfolded s(1)] s(2) [unfolded s(1)]]
  show "zip_at nil (rightRotate nil x s) C (Nd d e y (Nd c b x a))" "only (members C (Nd c (Nd d e y b) x a)) s (rightRotate nil x s)"
    unfolding s(2) using R by (simp_all add: s(1) only_def)
qed

definition paint :: "u64 \<Rightarrow> col \<Rightarrow> rb \<Rightarrow> rb" where
  "paint x c s = (fst s, set_col (snd s) x c)"

lemma paint_eq: "(T, set_col h x c) = paint x c (T, h)"
  by (simp add: paint_def)

lemma paint_zip:
  assumes "zip_at nil s C (Nd c l x r)"
  shows "zip_at nil (paint x c' s) C (Nd c' l x r)" "only (members C (Nd c l x r)) s (paint x c' s)"
proof -
  obtain T h where s: "s = (T, h)" by (metis surj_pair)
  have D: "distinct (before C @ (inorder l @ x # inorder r) @ behind C)" using assms by (simp add: zip_at_def inorder_plug)
  have "ctx_at nil (set_col h x c') (rt_root T) x C = ctx_at nil h (rt_root T) x C" by (rule ctx_at_cong, rule node_other) (use D in auto)
  moreover have "tree_at nil (set_col h x c') x l = tree_at nil h x l" by (rule tree_at_cong, rule node_other) (use D in auto)
  moreover have "tree_at nil (set_col h x c') x r = tree_at nil h x r" by (rule tree_at_cong, rule node_other) (use D in auto)
  ultimately show "zip_at nil (paint x c' s) C (Nd c' l x r)" using assms s by (simp add: zip_at_def paint_def inorder_plug)
  show "only (members C (Nd c l x r)) s (paint x c' s)" using s by (auto simp: only_def paint_def members_def inorder_plug intro!: node_other)
qed

lemma zip_root_col: "zip_at nil s C t \<Longrightarrow> n_col (snd s nil) = Black \<Longrightarrow> n_col (snd s (rt nil t)) = col_of t"
  by (cases t) (simp_all add: zip_at_def)

lemma zip_nil: "zip_at nil s C t \<Longrightarrow> nil \<notin> members C t"
  using tree_at_nodes [of nil "snd s" "up nil C" t nil] ctx_at_nodes [of nil "snd s" "rt_root (fst s)" "rt nil t" C nil]
  by (auto simp: zip_at_def members_def inorder_plug)

lemma zip_sides: "zip_at nil s C (Nd c l x r) \<Longrightarrow> l \<noteq> Lf \<or> r \<noteq> Lf \<Longrightarrow> rt nil l \<noteq> rt nil r"
  using zip_nil [of nil s C "Nd c l x r"] rt_inorder [of l nil] rt_inorder [of r nil]
  by (cases "l = Lf"; cases "r = Lf") (auto simp: zip_at_def members_def inorder_plug)

lemma zip_distinct: "zip_at nil s C t \<Longrightarrow> distinct (inorder (plug C t))"
  by (simp add: zip_at_def)

section \<open>Repair after an insertion\<close>

text \<open>One round when the sibling of the parent is red: its colour and that of the parent move up.\<close>

lemma insert_round_red:
  assumes z: "zip_at nil s Cz (Nd Red zl z zr)" "Cz = CL Red p b # Cp \<or> Cz = CR b Red p # Cp"
    and g: "Cp = CL cg g (Nd Red ul u ur) # C \<or> Cp = CR (Nd Red ul u ur) cg g # C"
  defines "P \<equiv> (if Cz = CL Red p b # Cp then Nd Black (Nd Red zl z zr) p b else Nd Black b p (Nd Red zl z zr))"
  defines "G \<equiv> (if Cp = CL cg g (Nd Red ul u ur) # C then Nd Red P g (Nd Black ul u ur) else Nd Red (Nd Black ul u ur) g P)"
  shows "\<exists>s'. insertFixup_round nil z s = (g, s') \<and> zip_at nil s' C G \<and> only (members Cz (Nd Red zl z zr)) s s'"
proof -
  obtain T h where s: "s = (T, h)" by (metis surj_pair)
  let ?s = "paint g Red (paint u Black (paint p Black s))"
  define P0 where "P0 = (if Cz = CL Red p b # Cp then Nd Red (Nd Red zl z zr) p b else Nd Red b p (Nd Red zl z zr))"
  have zp: "zip_at nil s Cp P0" using z by (auto simp: P0_def zip_CL zip_CR)
  have nd: "\<exists>pl pr. P0 = Nd Red pl p pr \<and> P = Nd Black pl p pr" using z(2) by (auto simp: P0_def P_def)
  then obtain pl pr where pp: "P0 = Nd Red pl p pr" "P = Nd Black pl p pr" by blast
  have mem: "members Cz (Nd Red zl z zr) = members Cp P0" using z(2) by (auto simp: P0_def)
  have par: "parent h z = p" "parent h p = g" using zip_node(6) [OF z(1)] zip_node(6) [OF zp [unfolded pp]] z(2) g s by auto
  note z1 = paint_zip [OF zp [unfolded pp], of Black, folded pp]
  from g show ?thesis
  proof
    assume L: "Cp = CL cg g (Nd Red ul u ur) # C"
    note b = paint_zip [OF zip_downR [OF zip_upL [OF z1(1) [unfolded L]]], of Black]
    note c = paint_zip [OF zip_upR [OF b(1)], of Red]
    note g = zip_upL [OF zp [unfolded L]]
    have node: "n_left (h g) = p" "n_right (h g) = u" "n_col (h u) = Red"
      using zip_node(3,4) [OF g] zip_node(5) [OF zip_downR [OF g]] s pp by simp_all
    have "zip_at nil ?s C G" using c(1) by (simp add: G_def L)
    moreover have "only (members Cp P0) s ?s" using z1(2) b(2) c(2) by (auto simp: pp L members_def inorder_plug intro: only_trans)
    ultimately show ?thesis using mem node par by (auto simp: insertFixup_round_def s Let_def paint_eq)
  next
    assume R: "Cp = CR (Nd Red ul u ur) cg g # C"
    note b = paint_zip [OF zip_downL [OF zip_upR [OF z1(1) [unfolded R]]], of Black]
    note c = paint_zip [OF zip_upL [OF b(1)], of Red]
    note g = zip_upR [OF zp [unfolded R]]
    have node: "n_left (h g) = u" "n_right (h g) = p" "n_col (h u) = Red" "u \<noteq> p"
      using zip_node(3,4) [OF g] zip_node(5) [OF zip_downL [OF g]] zip_sides [OF g] s pp by simp_all
    have "zip_at nil ?s C G" using c(1) by (simp add: G_def R)
    moreover have "only (members Cp P0) s ?s" using z1(2) b(2) c(2) by (auto simp: pp R members_def inorder_plug intro: only_trans)
    ultimately show ?thesis using mem node par by (auto simp: insertFixup_round_def s Let_def paint_eq)
  qed
qed

text \<open>The rounds in which the sibling of the parent is black, for the four positions of the node.\<close>

lemma insert_round_LL:
  assumes zip: "zip_at nil s (CL Red p b # CL cg g u # C) (Nd Red zl z zr)" and u: "col_of u = Black" "n_col (snd s nil) = Black"
  shows "\<exists>s'. insertFixup_round nil z s = (z, s') \<and> zip_at nil s' C (Nd Black (Nd Red zl z zr) p (Nd Red b g u)) \<and>
    only (members C (Nd cg (Nd Red (Nd Red zl z zr) p b) g u)) s s'"
proof -
  obtain T h where s: "s = (T, h)" by (metis surj_pair)
  note zp = zip_upL [OF zip]
  note zg = zip_upL [OF zp]
  have n: "parent h z = p" "parent h p = g" "n_left (h g) = p" "n_right (h g) = rt nil u" "n_right (h p) = rt nil b" "n_col (h (rt nil u)) = Black" "z \<noteq> rt nil b"
    using zip_node [OF zip] zip_node [OF zp] zip_node [OF zg] zip_root_col [OF zip_downR [OF zg] u(2)] u zip_sides [OF zp] by (simp_all add: s)
  note a = paint_zip [OF zp, of Black]
  note b = paint_zip [OF zip_upL [OF a(1)], of Red]
  note c = rotate_right [OF b(1)]
  have "only (members C (Nd cg (Nd Red (Nd Red zl z zr) p b) g u)) s (rightRotate nil g (paint g Red (paint p Black s)))"
    using a(2) b(2) c(2) by (auto simp: members_def inorder_plug intro: only_trans)
  then show ?thesis using n c(1) by (simp add: insertFixup_round_def s Let_def paint_eq)
qed

lemma insert_round_LR:
  assumes zip: "zip_at nil s (CR a Red p # CL cg g u # C) (Nd Red zl z zr)" and u: "col_of u = Black" "n_col (snd s nil) = Black"
  shows "\<exists>s'. insertFixup_round nil z s = (p, s') \<and> zip_at nil s' C (Nd Black (Nd Red a p zl) z (Nd Red zr g u)) \<and>
    only (members C (Nd cg (Nd Red a p (Nd Red zl z zr)) g u)) s s'"
proof -
  obtain T h where s: "s = (T, h)" by (metis surj_pair)
  note zp = zip_upR [OF zip]
  note zg = zip_upL [OF zp]
  have n: "parent h z = p" "parent h p = g" "n_left (h g) = p" "n_right (h g) = rt nil u" "n_right (h p) = z" "n_col (h (rt nil u)) = Black"
    using zip_node [OF zip] zip_node [OF zp] zip_node [OF zg] zip_root_col [OF zip_downR [OF zg] u(2)] u by (simp_all add: s)
  note r = rotate_left [OF zp]
  obtain T1 h1 where s1: "leftRotate nil p (T, h) = (T1, h1)" by (metis surj_pair)
  have n1: "parent h1 p = z" "parent h1 z = g" using zip_node(6) [OF zip_downL [OF r(1)]] zip_node(6) [OF r(1)] by (simp_all add: s s1)
  note a = paint_zip [OF r(1), of Black]
  note b = paint_zip [OF zip_upL [OF a(1)], of Red]
  note c = rotate_right [OF b(1)]
  have "only (members C (Nd cg (Nd Red a p (Nd Red zl z zr)) g u)) s (rightRotate nil g (paint g Red (paint z Black (leftRotate nil p s))))"
    using r(2) a(2) b(2) c(2) by (auto simp: members_def inorder_plug intro: only_trans)
  then show ?thesis using n n1 c(1) by (simp add: insertFixup_round_def s s1 Let_def paint_eq)
qed

lemma insert_round_RR:
  assumes zip: "zip_at nil s (CR b Red p # CR u cg g # C) (Nd Red zl z zr)" and u: "col_of u = Black" "n_col (snd s nil) = Black"
  shows "\<exists>s'. insertFixup_round nil z s = (z, s') \<and> zip_at nil s' C (Nd Black (Nd Red u g b) p (Nd Red zl z zr)) \<and>
    only (members C (Nd cg u g (Nd Red b p (Nd Red zl z zr)))) s s'"
proof -
  obtain T h where s: "s = (T, h)" by (metis surj_pair)
  note zp = zip_upR [OF zip]
  note zg = zip_upR [OF zp]
  have n: "parent h z = p" "parent h p = g" "n_right (h g) = p" "n_left (h g) = rt nil u" "n_left (h p) = rt nil b" "n_col (h (rt nil u)) = Black" "z \<noteq> rt nil b" "rt nil u \<noteq> p"
    using zip_node [OF zip] zip_node [OF zp] zip_node [OF zg] zip_root_col [OF zip_downL [OF zg] u(2)] u zip_sides [OF zp] zip_sides [OF zg] by (simp_all add: s)
  note a = paint_zip [OF zp, of Black]
  note b = paint_zip [OF zip_upR [OF a(1)], of Red]
  note c = rotate_left [OF b(1)]
  have "only (members C (Nd cg u g (Nd Red b p (Nd Red zl z zr)))) s (leftRotate nil g (paint g Red (paint p Black s)))"
    using a(2) b(2) c(2) by (auto simp: members_def inorder_plug intro: only_trans)
  then show ?thesis using n c(1) by (simp add: insertFixup_round_def s Let_def paint_eq)
qed

lemma insert_round_RL:
  assumes zip: "zip_at nil s (CL Red p a # CR u cg g # C) (Nd Red zl z zr)" and u: "col_of u = Black" "n_col (snd s nil) = Black"
  shows "\<exists>s'. insertFixup_round nil z s = (p, s') \<and> zip_at nil s' C (Nd Black (Nd Red u g zl) z (Nd Red zr p a)) \<and>
    only (members C (Nd cg u g (Nd Red (Nd Red zl z zr) p a))) s s'"
proof -
  obtain T h where s: "s = (T, h)" by (metis surj_pair)
  note zp = zip_upL [OF zip]
  note zg = zip_upR [OF zp]
  have n: "parent h z = p" "parent h p = g" "n_right (h g) = p" "n_left (h g) = rt nil u" "n_left (h p) = z" "n_col (h (rt nil u)) = Black" "rt nil u \<noteq> p"
    using zip_sides [OF zg] zip_node [OF zip] zip_node [OF zp] zip_node [OF zg] zip_root_col [OF zip_downL [OF zg] u(2)] u by (simp_all add: s)
  note r = rotate_right [OF zp]
  obtain T1 h1 where s1: "rightRotate nil p (T, h) = (T1, h1)" by (metis surj_pair)
  have n1: "parent h1 p = z" "parent h1 z = g" using zip_node(6) [OF zip_downR [OF r(1)]] zip_node(6) [OF r(1)] by (simp_all add: s s1)
  note a = paint_zip [OF r(1), of Black]
  note b = paint_zip [OF zip_upR [OF a(1)], of Red]
  note c = rotate_left [OF b(1)]
  have "only (members C (Nd cg u g (Nd Red (Nd Red zl z zr) p a))) s (leftRotate nil g (paint g Red (paint z Black (rightRotate nil p s))))"
    using r(2) a(2) b(2) c(2) by (auto simp: members_def inorder_plug intro: only_trans)
  then show ?thesis using n n1 c(1) by (simp add: insertFixup_round_def s s1 Let_def paint_eq)
qed

end
