(* ===== verification/Rbtree_Insert.thy ===== *)
theory Rbtree_Insert
  imports Rbtree_Shape
begin

text \<open>
  The colours of a red-black tree, for trees and for the way up from a position, and the repair after an insertion: it keeps the nodes in
  their order for every tree with a black root, and for a tree with a red node in a place where red is allowed but for its parent it
  gives a red-black tree again.
\<close>

section \<open>Colours\<close>

text \<open>Every way down meets the given number of black nodes.\<close>

primrec bal :: "tr \<Rightarrow> nat \<Rightarrow> bool" where
  "bal Lf n \<longleftrightarrow> n = 0"
| "bal (Nd c l x r) n \<longleftrightarrow> (if c = Black then n \<noteq> 0 \<and> bal l (n - 1) \<and> bal r (n - 1) else bal l n \<and> bal r n)"

text \<open>No red node has a red child.\<close>

primrec rbc :: "tr \<Rightarrow> bool" where
  "rbc Lf \<longleftrightarrow> True"
| "rbc (Nd c l x r) \<longleftrightarrow> (c = Red \<longrightarrow> col_of l = Black \<and> col_of r = Black) \<and> rbc l \<and> rbc r"

definition rb_ok :: "tr \<Rightarrow> bool" where
  "rb_ok t \<longleftrightarrow> rbc t \<and> col_of t = Black \<and> (\<exists>n. bal t n)"

fun ccol :: "crumb list \<Rightarrow> col" where
  "ccol [] = Black"
| "ccol (CL c x r # C) = c"
| "ccol (CR l c x # C) = c"

fun cbal :: "crumb list \<Rightarrow> nat \<Rightarrow> bool" where
  "cbal [] n \<longleftrightarrow> True"
| "cbal (CL c x r # C) n \<longleftrightarrow> bal r n \<and> cbal C (if c = Black then Suc n else n)"
| "cbal (CR l c x # C) n \<longleftrightarrow> bal l n \<and> cbal C (if c = Black then Suc n else n)"

fun crbc :: "crumb list \<Rightarrow> bool" where
  "crbc [] \<longleftrightarrow> True"
| "crbc (CL c x r # C) \<longleftrightarrow> rbc r \<and> (c = Red \<longrightarrow> col_of r = Black \<and> ccol C = Black) \<and> crbc C"
| "crbc (CR l c x # C) \<longleftrightarrow> rbc l \<and> (c = Red \<longrightarrow> col_of l = Black \<and> ccol C = Black) \<and> crbc C"

lemma not_Black [simp]: "c \<noteq> Black \<longleftrightarrow> c = Red" "c \<noteq> Red \<longleftrightarrow> c = Black"
  by (cases c; simp)+

lemma rbc_plug: "rbc (plug C t) \<longleftrightarrow> rbc t \<and> crbc C \<and> (ccol C = Red \<longrightarrow> col_of t = Black)"
  by (induction C t rule: plug.induct) auto

lemma bal_Nd: "(\<exists>n. bal (Nd c l x r) n \<and> Q n) \<longleftrightarrow> (\<exists>n. bal l n \<and> bal r n \<and> Q (if c = Black then Suc n else n))"
proof (cases c)
  case Black
  then show ?thesis by simp (metis Suc_pred diff_Suc_Suc diff_zero zero_less_Suc)
qed auto

lemma bal_plug: "(\<exists>m. bal (plug C t) m) \<longleftrightarrow> (\<exists>n. bal t n \<and> cbal C n)"
proof (induction C t rule: plug.induct)
  case (2 c x r C t)
  then show ?case using bal_Nd [of c t x r "cbal C"] by simp
next
  case (3 l c x C t)
  then show ?case using bal_Nd [of c l x t "cbal C"] by auto
qed simp

lemma root_col_plug: "C \<noteq> [] \<Longrightarrow> col_of (plug C t) = col_of (plug C t')"
proof (induction C t arbitrary: t' rule: plug.induct)
  case (2 c x r C t)
  then show ?case by (cases "C = []") auto
next
  case (3 l c x C t)
  then show ?case by (cases "C = []") auto
qed simp

lemma zip_up_col: "zip_at nil s C t \<Longrightarrow> n_col (snd s nil) = Black \<Longrightarrow> n_col (snd s (up nil C)) = ccol C"
  by (cases C rule: before.cases) (auto simp: zip_at_def)

section \<open>The loop\<close>

definition ins_ok :: "crumb list \<Rightarrow> tr \<Rightarrow> bool" where
  "ins_ok C t \<longleftrightarrow> rbc t \<and> crbc C \<and> (\<exists>n. bal t n \<and> cbal C n)"

text \<open>What one round establishes, for the position at which the next one starts.\<close>

definition round_ok :: "u64 \<Rightarrow> crumb list \<Rightarrow> tr \<Rightarrow> rb \<Rightarrow> u64 \<Rightarrow> rb \<Rightarrow> crumb list \<Rightarrow> tr \<Rightarrow> bool" where
  "round_ok nil C t s z' s' C' t' \<longleftrightarrow> zip_at nil s' C' t' \<and> (\<exists>l r. t' = Nd Red l z' r) \<and> inorder (plug C' t') = inorder (plug C t) \<and>
     only (members C t) s s' \<and> (length C' < length C \<or> ccol C' = Black) \<and> (C' \<noteq> [] \<longrightarrow> col_of (plug C' t') = Black) \<and>
     (ins_ok C t \<longrightarrow> ins_ok C' t')"

lemma insert_round_red_ok:
  assumes z: "zip_at nil s Cz (Nd Red zl z zr)" "Cz = CL Red p b # Cp \<or> Cz = CR b Red p # Cp"
    and g: "Cp = CL cg g u # C \<or> Cp = CR u cg g # C" and u: "col_of u = Red"
    and root: "col_of (plug Cz (Nd Red zl z zr)) = Black"
  shows "\<exists>z' s' C' t'. insertFixup_round nil z s = (z', s') \<and> round_ok nil Cz (Nd Red zl z zr) s z' s' C' t'"
proof -
  obtain ul ux ur where u': "u = Nd Red ul ux ur" using u by (cases u) auto
  define P where "P = (if Cz = CL Red p b # Cp then Nd Black (Nd Red zl z zr) p b else Nd Black b p (Nd Red zl z zr))"
  define G where "G = (if Cp = CL cg g u # C then Nd Red P g (Nd Black ul ux ur) else Nd Red (Nd Black ul ux ur) g P)"
  obtain s' where s': "insertFixup_round nil z s = (g, s')" "zip_at nil s' C G" "only (members Cz (Nd Red zl z zr)) s s'"
    using insert_round_red [OF z g [unfolded u'], folded P_def u', folded G_def] by blast
  obtain t where "plug Cz (Nd Red zl z zr) = plug C t" using z(2) g by auto
  then have "col_of (plug C G) = Black" if "C \<noteq> []" using root root_col_plug [OF that, of G t] by simp
  moreover have "ins_ok C G" if ok: "ins_ok Cz (Nd Red zl z zr)"
  proof -
    obtain n where n: "bal (Nd Red zl z zr) n" "cbal Cz n" "rbc (Nd Red zl z zr)" "crbc Cz" using ok by (auto simp: ins_ok_def)
    then have "bal G (Suc n)" "cbal C (Suc n)" "rbc G" "crbc C" using z(2) g u' by (auto simp: G_def P_def)
    then show ?thesis by (auto simp: ins_ok_def)
  qed
  moreover have "inorder (plug C G) = inorder (plug Cz (Nd Red zl z zr))" "\<exists>l r. G = Nd Red l g r" "length C < length Cz"
    using z(2) g by (auto simp: G_def P_def u' inorder_plug)
  ultimately show ?thesis using s' by (auto simp: round_ok_def)
qed

lemma insert_round_black_ok:
  assumes z: "zip_at nil s Cz (Nd Red zl z zr)" "Cz = CL Red p b # Cp \<or> Cz = CR b Red p # Cp"
    and g: "Cp = CL cg g u # C \<or> Cp = CR u cg g # C" and u: "col_of u = Black" "n_col (snd s nil) = Black"
    and root: "col_of (plug Cz (Nd Red zl z zr)) = Black"
  shows "\<exists>z' s' C' t'. insertFixup_round nil z s = (z', s') \<and> round_ok nil Cz (Nd Red zl z zr) s z' s' C' t'"
proof -
  obtain t where "plug Cz (Nd Red zl z zr) = plug C t" using z(2) g by auto
  then have root': "col_of (plug C (Nd Black l x r)) = Black" for l x r using root root_col_plug [of C "Nd Black l x r" t] by (cases "C = []") auto
  consider (LL) "Cz = CL Red p b # CL cg g u # C" | (LR) "Cz = CR b Red p # CL cg g u # C" | (RL) "Cz = CL Red p b # CR u cg g # C"
    | (RR) "Cz = CR b Red p # CR u cg g # C" using z(2) g by blast
  then show ?thesis
  proof cases
    case LL
    obtain s' where s': "insertFixup_round nil z s = (z, s')" "zip_at nil s' C (Nd Black (Nd Red zl z zr) p (Nd Red b g u))"
      "only (members Cz (Nd Red zl z zr)) s s'" using insert_round_LL [OF z(1) [unfolded LL] u] LL by auto
    have "round_ok nil Cz (Nd Red zl z zr) s z s' (CL Black p (Nd Red b g u) # C) (Nd Red zl z zr)"
      using s'(2,3) LL u root' by (auto simp: round_ok_def zip_CL inorder_plug ins_ok_def)
    then show ?thesis using s'(1) by blast
  next
    case LR
    obtain s' where s': "insertFixup_round nil z s = (p, s')" "zip_at nil s' C (Nd Black (Nd Red b p zl) z (Nd Red zr g u))"
      "only (members Cz (Nd Red zl z zr)) s s'" using insert_round_LR [OF z(1) [unfolded LR] u] LR by auto
    have "round_ok nil Cz (Nd Red zl z zr) s p s' (CL Black z (Nd Red zr g u) # C) (Nd Red b p zl)"
      using s'(2,3) LR u root' by (auto simp: round_ok_def zip_CL inorder_plug ins_ok_def)
    then show ?thesis using s'(1) by blast
  next
    case RL
    obtain s' where s': "insertFixup_round nil z s = (p, s')" "zip_at nil s' C (Nd Black (Nd Red u g zl) z (Nd Red zr p b))"
      "only (members Cz (Nd Red zl z zr)) s s'" using insert_round_RL [OF z(1) [unfolded RL] u] RL by auto
    have "round_ok nil Cz (Nd Red zl z zr) s p s' (CR (Nd Red u g zl) Black z # C) (Nd Red zr p b)"
      using s'(2,3) RL u root' by (auto simp: round_ok_def zip_CR inorder_plug ins_ok_def)
    then show ?thesis using s'(1) by blast
  next
    case RR
    obtain s' where s': "insertFixup_round nil z s = (z, s')" "zip_at nil s' C (Nd Black (Nd Red u g b) p (Nd Red zl z zr))"
      "only (members Cz (Nd Red zl z zr)) s s'" using insert_round_RR [OF z(1) [unfolded RR] u] RR by auto
    have "round_ok nil Cz (Nd Red zl z zr) s z s' (CR (Nd Red u g b) Black p # C) (Nd Red zl z zr)"
      using s'(2,3) RR u root' by (auto simp: round_ok_def zip_CR inorder_plug ins_ok_def)
    then show ?thesis using s'(1) by blast
  qed
qed

lemma insert_round_ok:
  assumes zip: "zip_at nil s C (Nd Red l z r)" and nil: "n_col (snd s nil) = Black" and red: "ccol C = Red"
    and root: "C \<noteq> [] \<longrightarrow> col_of (plug C (Nd Red l z r)) = Black"
  shows "\<exists>z' s' C' t'. insertFixup_round nil z s = (z', s') \<and> round_ok nil C (Nd Red l z r) s z' s' C' t'"
proof -
  obtain p b Cp where C: "C = CL Red p b # Cp \<or> C = CR b Red p # Cp" using red by (cases C rule: before.cases) auto
  then have "Cp \<noteq> []" using root by auto
  then obtain cg g u C' where g: "Cp = CL cg g u # C' \<or> Cp = CR u cg g # C'" by (cases Cp rule: before.cases) blast+
  have root': "col_of (plug C (Nd Red l z r)) = Black" using root C by auto
  show ?thesis
  proof (cases "col_of u")
    case Red then show ?thesis using insert_round_red_ok [OF zip C g _ root'] by blast
  next
    case Black then show ?thesis using insert_round_black_ok [OF zip C g _ nil root'] by blast
  qed
qed

lemma insertFixup_loop_zip:
  assumes "zip_at nil s C (Nd Red l z r)" "n_col (snd s nil) = Black" "C \<noteq> [] \<longrightarrow> col_of (plug C (Nd Red l z r)) = Black"
  shows "\<exists>s' t. insertFixup_loop nil z s = Some s' \<and> zip_at nil s' [] t \<and> t \<noteq> Lf \<and> inorder t = inorder (plug C (Nd Red l z r)) \<and>
    only (set (inorder t)) s s' \<and> (ins_ok C (Nd Red l z r) \<longrightarrow> rbc t \<and> (\<exists>n. bal t n))"
  using assms
proof (induction "if ccol C = Black then 0 else Suc (length C)" arbitrary: C l z r s rule: less_induct)
  case less
  let ?t = "plug C (Nd Red l z r)"
  have up: "n_col (snd s (parent (snd s) z)) = ccol C" using zip_up_col [OF less.prems(1,2)] zip_node(6) [OF less.prems(1)] by simp
  have ne: "inorder ?t \<noteq> []" by (simp add: inorder_plug)
  show ?case
  proof (cases "ccol C")
    case Black
    then have run: "insertFixup_loop nil z s = Some s" using up by (subst insertFixup_loop.simps) simp
    have "ins_ok C (Nd Red l z r) \<longrightarrow> rbc ?t \<and> (\<exists>n. bal ?t n)" using Black by (auto simp: rbc_plug bal_plug ins_ok_def)
    then show ?thesis using run ne less.prems(1) by (intro exI [of _ s] exI [of _ ?t]) (auto simp: zip_plug)
  next
    case Red
    then obtain z' s' C' t' where r: "insertFixup_round nil z s = (z', s')" "round_ok nil C (Nd Red l z r) s z' s' C' t'"
      using insert_round_ok [OF less.prems(1,2) _ less.prems(3)] by blast
    then obtain l' r' where t': "t' = Nd Red l' z' r'" by (auto simp: round_ok_def)
    have R: "zip_at nil s' C' (Nd Red l' z' r')" "inorder (plug C' t') = inorder ?t" "only (set (inorder ?t)) s s'"
      "length C' < length C \<or> ccol C' = Black" "C' \<noteq> [] \<longrightarrow> col_of (plug C' (Nd Red l' z' r')) = Black" "ins_ok C (Nd Red l z r) \<longrightarrow> ins_ok C' t'"
      using r(2) t' by (simp_all add: round_ok_def members_def)
    have run: "insertFixup_loop nil z s = insertFixup_loop nil z' s'" using up Red r(1) by (subst insertFixup_loop.simps) simp
    have nil': "n_col (snd s' nil) = Black" using zip_nil [OF less.prems(1)] R(3) less.prems(2) by (simp add: only_def members_def)
    have "(if ccol C' = Black then 0 else Suc (length C')) < (if ccol C = Black then 0 else Suc (length C))" using R(4) Red by auto
    from less.hyps [OF this R(1) nil' R(5)] obtain s2 t where *: "insertFixup_loop nil z' s' = Some s2" "zip_at nil s2 [] t" "t \<noteq> Lf"
      "inorder t = inorder ?t" "only (set (inorder t)) s' s2" "ins_ok C' t' \<longrightarrow> rbc t \<and> (\<exists>n. bal t n)"
      unfolding t' [symmetric] R(2) by blast
    moreover have "only (set (inorder t)) s s2" using only_trans [OF R(3) *(5) [unfolded *(4)]] *(4) by simp
    ultimately show ?thesis using run R(6) by (intro exI [of _ s2] exI [of _ t]) simp
  qed
qed

lemma insertFixup_zip:
  assumes "zip_at nil s C (Nd Red l z r)" "n_col (snd s nil) = Black" "C \<noteq> [] \<longrightarrow> col_of (plug C (Nd Red l z r)) = Black"
  shows "\<exists>s' t. insertFixup nil z s = Some s' \<and> zip_at nil s' [] t \<and> col_of t = Black \<and> inorder t = inorder (plug C (Nd Red l z r)) \<and>
    only (set (inorder t)) s s' \<and> (ins_ok C (Nd Red l z r) \<longrightarrow> rb_ok t)"
proof -
  obtain s1 t where 1: "insertFixup_loop nil z s = Some s1" "zip_at nil s1 [] t" "t \<noteq> Lf" "inorder t = inorder (plug C (Nd Red l z r))"
    "only (set (inorder t)) s s1" "ins_ok C (Nd Red l z r) \<longrightarrow> rbc t \<and> (\<exists>n. bal t n)"
    using insertFixup_loop_zip [OF assms] by blast
  obtain c tl x tr where t: "t = Nd c tl x tr" using 1(3) by (cases t) auto
  note p = paint_zip [OF 1(2) [unfolded t], of Black]
  have "rt_root (fst s1) = x" using 1(2) t by (simp add: zip_at_def)
  then have "insertFixup nil z s = Some (paint x Black s1)" using 1(1) by (auto simp: insertFixup_def paint_def split: prod.splits)
  moreover have "only (set (inorder t)) s (paint x Black s1)" using 1(5) p(2) t by (auto simp: members_def intro: only_trans)
  moreover have "rb_ok (Nd Black tl x tr)" if "rbc t" "bal t n" for n
    using that t by (auto simp: rb_ok_def split: if_splits intro: exI [of _ "Suc n"] exI [of _ n])
  moreover define t1 where "t1 = Nd Black tl x tr"
  moreover have "inorder t1 = inorder t" using t by (simp add: t1_def)
  ultimately show ?thesis using p(1) 1(4,6) by (intro exI [of _ "paint x Black s1"] exI [of _ t1]) auto
qed

end
