(* ===== verification/Rbtree_Ops.thy ===== *)
theory Rbtree_Ops
  imports Rbtree_Insert Dlink
begin

text \<open>
  Search, traversal and insertion in a tree of nodes in the store: \<open>rb_rep\<close> relates a tree of the program to the sequence of its nodes.
  The order of keys is the contract \<open>key_order\<close> of the comparison.
\<close>

section \<open>Trees of the program\<close>

definition rb_rep :: "u64 \<Rightarrow> rb \<Rightarrow> tr \<Rightarrow> bool" where
  "rb_rep nil s t \<longleftrightarrow> zip_at nil s [] t \<and> col_of t = Black \<and> n_col (snd s nil) = Black \<and> n_left (snd s nil) = nil \<and> n_right (snd s nil) = nil \<and>
     unat (rt_len (fst s)) = length (inorder t)"

lemma rb_repD:
  assumes "rb_rep nil s t"
  shows "zip_at nil s [] t" "col_of t = Black" "n_col (snd s nil) = Black" "n_left (snd s nil) = nil" "n_right (snd s nil) = nil"
    "unat (rt_len (fst s)) = length (inorder t)" "rt_root (fst s) = rt nil t" "tree_at nil (snd s) nil t" "distinct (inorder t)"
    "nil \<notin> set (inorder t)"
  using assms zip_nil [of nil s "[]" t] by (auto simp: rb_rep_def zip_at_def members_def)

lemma zip_append: "zip_at nil s C (plug D t) \<longleftrightarrow> zip_at nil s (D @ C) t"
  by (induction D t rule: plug.induct) (simp_all add: zip_CL zip_CR)

lemma plug_append: "plug (C @ D) t = plug D (plug C t)"
  by (induction C t rule: plug.induct) simp_all

lemma position: "x \<in> set (inorder t) \<Longrightarrow> \<exists>C c l r. t = plug C (Nd c l x r)"
proof (induction t)
  case (Nd c l y r)
  then consider "x = y" | "x \<in> set (inorder l)" | "x \<in> set (inorder r)" by auto
  then show ?case
  proof cases
    case 1 then show ?thesis by (intro exI [of _ "[]"]) auto
  next
    case 2
    then obtain C d l' r' where "l = plug C (Nd d l' x r')" using Nd.IH(1) by blast
    then have "Nd c l y r = plug (C @ [CL c y r]) (Nd d l' x r')" by (simp add: plug_append)
    then show ?thesis by blast
  next
    case 3
    then obtain C d l' r' where "r = plug C (Nd d l' x r')" using Nd.IH(2) by blast
    then have "Nd c l y r = plug (C @ [CR l c y]) (Nd d l' x r')" by (simp add: plug_append)
    then show ?thesis by blast
  qed
qed simp

section \<open>Neighbours\<close>

lemma minChild_tree: "tree_at nil h p t \<Longrightarrow> t \<noteq> Lf \<Longrightarrow> minChild nil h (rt nil t) = Some (hd (inorder t))"
proof (induction t arbitrary: p)
  case (Nd c l x r)
  show ?case
  proof (cases "l = Lf")
    case True
    then show ?thesis using Nd.prems by (subst minChild.simps) simp
  next
    case False
    then have "rt nil l \<noteq> nil" using Nd.prems by (cases l) auto
    moreover have "inorder l \<noteq> []" using False by (cases l) auto
    ultimately show ?thesis using Nd.prems Nd.IH(1) [of x] False by (subst minChild.simps) simp
  qed
qed simp

lemma maxChild_tree: "tree_at nil h p t \<Longrightarrow> t \<noteq> Lf \<Longrightarrow> maxChild nil h (rt nil t) = Some (last (inorder t))"
proof (induction t arbitrary: p)
  case (Nd c l x r)
  show ?case
  proof (cases "r = Lf")
    case True
    then show ?thesis using Nd.prems by (subst maxChild.simps) simp
  next
    case False
    then have "rt nil r \<noteq> nil" using Nd.prems by (cases r) auto
    moreover have "inorder r \<noteq> []" using False by (cases r) auto
    ultimately show ?thesis using Nd.prems Nd.IH(2) [of x] False by (subst maxChild.simps) simp
  qed
qed simp

lemma succ_loop_zip: "zip_at nil s C t \<Longrightarrow> t \<noteq> Lf \<Longrightarrow> succ_loop nil (snd s) (rt nil t) (up nil C) = Some (hd_or (behind C) nil)"
proof (induction C arbitrary: t rule: before.induct)
  case 1
  then show ?case by (subst succ_loop.simps) simp
next
  case (2 c x r C)
  note z = zip_upL [OF "2.prems"(1)]
  show ?case using zip_node [OF z] zip_sides [OF z] "2.prems"(2) by (subst succ_loop.simps) simp
next
  case (3 l c x C)
  note z = zip_upR [OF "3.prems"(1)]
  show ?case using zip_node [OF z] "3.IH" [OF z] by (subst succ_loop.simps) simp
qed

lemma pred_loop_zip: "zip_at nil s C t \<Longrightarrow> t \<noteq> Lf \<Longrightarrow> pred_loop nil (snd s) (rt nil t) (up nil C) = Some (last_or nil (before C))"
proof (induction C arbitrary: t rule: before.induct)
  case 1
  then show ?case by (subst pred_loop.simps) simp
next
  case (2 c x r C)
  note z = zip_upL [OF "2.prems"(1)]
  show ?case using zip_node [OF z] "2.IH" [OF z] by (subst pred_loop.simps) simp
next
  case (3 l c x C)
  note z = zip_upR [OF "3.prems"(1)]
  show ?case using zip_node [OF z] zip_sides [OF z] "3.prems"(2) by (subst pred_loop.simps) simp
qed

lemma succ_zip:
  assumes "zip_at nil s C (Nd c l x r)"
  shows "succ nil (snd s) x = Some (hd_or (inorder r @ behind C) nil)"
proof (cases "r = Lf")
  case True
  then show ?thesis using zip_node [OF assms] succ_loop_zip [OF assms] by (simp add: succ_def)
next
  case False
  then have "inorder r \<noteq> []" "rt nil r \<noteq> nil" using zip_nil [OF assms] rt_inorder [OF False, of nil] by (auto simp: members_def inorder_plug)
  then show ?thesis using zip_node [OF assms] minChild_tree [of nil "snd s" x r] assms False by (auto simp: succ_def zip_at_def hd_or_nonempty)
qed

lemma pred_zip:
  assumes "zip_at nil s C (Nd c l x r)"
  shows "pred nil (snd s) x = Some (last_or nil (before C @ inorder l))"
proof (cases "l = Lf")
  case True
  then show ?thesis using zip_node [OF assms] pred_loop_zip [OF assms] by (simp add: pred_def)
next
  case False
  then have "inorder l \<noteq> []" "rt nil l \<noteq> nil" using zip_nil [OF assms] rt_inorder [OF False, of nil] by (auto simp: members_def inorder_plug)
  then show ?thesis using zip_node [OF assms] maxChild_tree [of nil "snd s" x l] assms False by (auto simp: pred_def zip_at_def last_or_nonempty)
qed

lemma neighbours:
  assumes rep: "rb_rep nil s t" and t: "inorder t = xs @ x # ys"
  shows "succ nil (snd s) x = Some (hd_or ys nil)" "pred nil (snd s) x = Some (last_or nil xs)"
proof -
  obtain C c l r where C: "t = plug C (Nd c l x r)" using position [of x t] t by auto
  have z: "zip_at nil s C (Nd c l x r)" using rb_repD(1) [OF rep] C zip_plug by metis
  have "(before C @ inorder l) @ x # (inorder r @ behind C) = xs @ x # ys" using t C by (simp add: inorder_plug)
  moreover have "distinct (inorder t)" using rb_repD(9) [OF rep] .
  ultimately have "before C @ inorder l = xs \<and> inorder r @ behind C = ys"
    using t append_Cons_eq_iff [of x xs ys "before C @ inorder l" "inorder r @ behind C"] by simp
  then show "succ nil (snd s) x = Some (hd_or ys nil)" "pred nil (snd s) x = Some (last_or nil xs)" using succ_zip [OF z] pred_zip [OF z] by simp_all
qed

section \<open>A new leaf\<close>

lemma new_leaf_reads:
  assumes "ok_ptr y"
  shows "n_left (new_leaf nil z y h z) = nil" "n_right (new_leaf nil z y h z) = nil" "n_col (new_leaf nil z y h z) = Red"
    "parent (new_leaf nil z y h) z = y" "x \<noteq> z \<Longrightarrow> new_leaf nil z y h x = h x"
  using assms by (simp_all add: new_leaf_def)

text \<open>The link from the parent to the new leaf.\<close>

fun attach :: "u64 \<Rightarrow> crumb list \<Rightarrow> rb \<Rightarrow> rb" where
  "attach z [] (T, h) = (T\<lparr>rt_root := z\<rparr>, h)"
| "attach z (CL c y r # C) (T, h) = (T, set_left h y z)"
| "attach z (CR l c y # C) (T, h) = (T, set_right h y z)"

lemma attach_zip:
  assumes zip: "zip_at nil (T, h) C Lf" and z: "z \<notin> members C Lf" "z \<noteq> nil" "ok_ptr z"
  shows "zip_at nil (attach z C (T, new_leaf nil z (up nil C) h)) C (Nd Red Lf z Lf)"
    "only (insert z (members C Lf)) (T, h) (attach z C (T, new_leaf nil z (up nil C) h))"
proof -
  let ?h = "new_leaf nil z (up nil C) h"
  have ctx: "ctx_at nil h (rt_root T) nil C" and D: "distinct (before C @ behind C)" and ok: "ok_ptr nil" using zip by (simp_all add: zip_at_def inorder_plug)
  have up: "ok_ptr (up nil C)" using ctx_up [OF ctx] ok by (cases "C = []") auto
  note L = new_leaf_reads [OF up, where nil = nil and z = z and h = h]
  have zn: "z \<notin> set (before C)" "z \<notin> set (behind C)" using z(1) by (auto simp: members_def inorder_plug)
  have c1: "ctx_at nil ?h (rt_root T) nil C"
    by (subst ctx_at_cong [of C ?h h]) (use ctx zn in \<open>auto intro!: L(5)\<close>)
  have "tree_at nil (snd (attach z C (T, ?h))) (up nil C) (Nd Red Lf z Lf) \<and> ctx_at nil (snd (attach z C (T, ?h))) (rt_root (fst (attach z C (T, ?h)))) z C"
  proof (cases C rule: before.cases)
    case 1
    then show ?thesis using z L by simp
  next
    case (2 c y r C')
    have "tree_at nil (set_left ?h y z) y r = tree_at nil ?h y r" by (rule tree_at_cong, rule node_other) (use D 2 in auto)
    moreover have "ctx_at nil (set_left ?h y z) (rt_root T) y C' = ctx_at nil ?h (rt_root T) y C'" by (rule ctx_at_cong, rule node_other) (use D 2 in auto)
    ultimately show ?thesis using z L c1 2 zn by auto
  next
    case (3 l c y C')
    have "tree_at nil (set_right ?h y z) y l = tree_at nil ?h y l" by (rule tree_at_cong, rule node_other) (use D 3 in auto)
    moreover have "ctx_at nil (set_right ?h y z) (rt_root T) y C' = ctx_at nil ?h (rt_root T) y C'" by (rule ctx_at_cong, rule node_other) (use D 3 in auto)
    ultimately show ?thesis using z L c1 3 zn by auto
  qed
  then show "zip_at nil (attach z C (T, ?h)) C (Nd Red Lf z Lf)" using zn D ok by (auto simp: zip_at_def inorder_plug)
  show "only (insert z (members C Lf)) (T, h) (attach z C (T, ?h))"
    by (cases C rule: before.cases) (auto simp: only_def members_def inorder_plug new_leaf_def intro!: trans [OF node_other(1)] trans [OF node_other(2)])
qed

text \<open>The whole insertion at a position.\<close>

lemma insert_at:
  assumes rep: "rb_rep nil (T, h) (plug C Lf)" and z: "z \<notin> members C Lf" "z \<noteq> nil" "ok_ptr z" and len: "length (inorder (plug C Lf)) < 2 ^ 64 - 1"
  shows "\<exists>T' h' t. insertFixup nil z (attach z C (T, new_leaf nil z (up nil C) h)) = Some (T', h') \<and> rt_len T' \<noteq> - 1 \<and>
    rb_rep nil (T'\<lparr>rt_len := rt_len T' + 1\<rparr>, h') t \<and> inorder t = before C @ z # behind C \<and> (rb_ok (plug C Lf) \<longrightarrow> rb_ok t) \<and>
    (\<forall>y. y \<notin> set (inorder t) \<longrightarrow> h' y = h y)"
proof -
  note D = rb_repD [OF rep, simplified]
  have zip: "zip_at nil (T, h) C Lf" using D(1) zip_plug by blast
  let ?s = "attach z C (T, new_leaf nil z (up nil C) h)" and ?t = "plug C (Nd Red Lf z Lf)"
  note A = attach_zip [OF zip z]
  have nilm: "nil \<notin> insert z (members C Lf)" using z(2) zip_nil [OF zip] by simp
  then have nil: "snd ?s nil = h nil" using A(2) by (simp add: only_def)
  have root: "C \<noteq> [] \<longrightarrow> col_of ?t = Black" using D(2) root_col_plug [of C Lf "Nd Red Lf z Lf"] by auto
  obtain s' t where s': "insertFixup nil z ?s = Some s'" "zip_at nil s' [] t" "col_of t = Black" "inorder t = inorder ?t"
    "only (set (inorder t)) ?s s'" "ins_ok C (Nd Red Lf z Lf) \<longrightarrow> rb_ok t"
    using insertFixup_zip [OF A(1) _ root] nil D(3) by auto
  obtain T' h' where s: "s' = (T', h')" by (metis surj_pair)
  have it: "inorder t = before C @ z # behind C" using s'(4) by (simp add: inorder_plug)
  have "only (set (inorder t)) (T, h) ?s" using A(2) it by (simp add: members_def inorder_plug)
  then have o: "only (set (inorder t)) (T, h) (T', h')" using only_trans s'(5) s by blast
  have len': "rt_len T' = rt_len T" "unat (rt_len T) < 2 ^ 64 - 1" using o D(6) len by (simp_all add: only_def)
  then have ne: "rt_len T' \<noteq> - 1" by (auto simp: unsigned_minus_1_eq_mask mask_eq_exp_minus_1)
  have "unat (rt_len T' + 1) = Suc (unat (rt_len T))" using len' by (simp add: unat_word_ariths)
  then have "unat (rt_len T' + 1) = length (inorder t)" using D(6) it by (simp add: inorder_plug)
  moreover have "h' nil = h nil" using o nilm it by (simp add: only_def members_def inorder_plug)
  moreover have "zip_at nil (T'\<lparr>rt_len := rt_len T' + 1\<rparr>, h') [] t" using s'(2) s by (simp add: zip_at_def)
  ultimately have "rb_rep nil (T'\<lparr>rt_len := rt_len T' + 1\<rparr>, h') t" using s'(3) D(3-5) by (simp add: rb_rep_def)
  moreover have "ins_ok C (Nd Red Lf z Lf)" if "rb_ok (plug C Lf)"
    using that bal_plug [of C Lf] by (auto simp: ins_ok_def rb_ok_def rbc_plug)
  ultimately show ?thesis using s'(1,6) s ne it o by (auto simp: only_def)
qed

section \<open>Keys\<close>

locale key_order =
  fixes cmp :: "'k \<Rightarrow> 'k \<Rightarrow> math_order"
  assumes cmp_eq: "cmp a b = EQ \<longleftrightarrow> a = b"
    and cmp_gt: "cmp a b = GT \<longleftrightarrow> cmp b a = LT"
    and cmp_trans: "cmp a b = LT \<Longrightarrow> cmp b c = LT \<Longrightarrow> cmp a c = LT"

text \<open>The nodes in the order of their keys; equal keys are allowed.\<close>

definition in_order :: "'k rb_type \<Rightarrow> u64 list \<Rightarrow> bool" where
  "in_order R xs \<longleftrightarrow> sorted_wrt (\<lambda>a b. rb_cmp R (rb_key R a) (rb_key R b) \<noteq> GT) xs"

lemma in_order_Nd: "in_order R (inorder (Nd c l x r)) \<longleftrightarrow> in_order R (inorder l) \<and> in_order R (inorder r) \<and>
    (\<forall>a \<in> set (inorder l). rb_cmp R (rb_key R a) (rb_key R x) \<noteq> GT) \<and> (\<forall>b \<in> set (inorder r). rb_cmp R (rb_key R x) (rb_key R b) \<noteq> GT) \<and>
    (\<forall>a \<in> set (inorder l). \<forall>b \<in> set (inorder r). rb_cmp R (rb_key R a) (rb_key R b) \<noteq> GT)"
  by (auto simp: in_order_def sorted_wrt_append)

text \<open>The way down to the place of a new node.\<close>

fun turned :: "'k rb_type \<Rightarrow> u64 \<Rightarrow> crumb list \<Rightarrow> bool" where
  "turned R z [] \<longleftrightarrow> True"
| "turned R z (CL c x r # C) \<longleftrightarrow> rb_cmp R (rb_key R x) (rb_key R z) = GT"
| "turned R z (CR l c x # C) \<longleftrightarrow> rb_cmp R (rb_key R x) (rb_key R z) \<noteq> GT"

text \<open>The nodes on the two sides of a position belong there.\<close>

definition place :: "'k rb_type \<Rightarrow> u64 \<Rightarrow> crumb list \<Rightarrow> bool" where
  "place R z C \<longleftrightarrow> (\<forall>a \<in> set (before C). rb_cmp R (rb_key R a) (rb_key R z) \<noteq> GT) \<and> (\<forall>b \<in> set (behind C). rb_cmp R (rb_key R b) (rb_key R z) = GT)"

context key_order
begin

lemma not_gt_cases: "cmp a b \<noteq> GT \<longleftrightarrow> cmp a b = LT \<or> a = b"
  using cmp_eq [of a b] by (cases "cmp a b") auto

lemma le_lt: "cmp a b \<noteq> GT \<Longrightarrow> cmp b c = LT \<Longrightarrow> cmp a c = LT"
  using cmp_trans not_gt_cases by blast

lemma lt_le: "cmp a b = LT \<Longrightarrow> cmp b c \<noteq> GT \<Longrightarrow> cmp a c = LT"
  using cmp_trans not_gt_cases by blast

lemma find_loop_tree:
  assumes "rb_cmp R = cmp" "tree_at (rb_nil R) h p t" "in_order R (inorder t)"
  shows "find_loop R h k (rt (rb_nil R) t) = Some None \<and> k \<notin> rb_key R ` set (inorder t) \<or>
    (\<exists>x \<in> set (inorder t). find_loop R h k (rt (rb_nil R) t) = Some (Some x) \<and> rb_key R x = k)"
  using assms(2,3)
proof (induction t arbitrary: p)
  case Lf
  show ?case by (subst find_loop.simps) simp
next
  case (Nd c l x r)
  note O = Nd.prems(2) [unfolded in_order_Nd assms(1)]
  show ?case
  proof (cases "cmp (rb_key R x) k")
    case LT
    have "rb_key R a \<noteq> k" if "a \<in> set (inorder l)" for a
      using O that le_lt [of "rb_key R a" "rb_key R x" k] LT cmp_eq [of k k] by auto
    moreover have "rb_key R x \<noteq> k" using LT cmp_eq [of k k] by auto
    ultimately show ?thesis using Nd.prems(1) Nd.IH(2) [of x] O LT assms(1) by (subst (1 2) find_loop.simps) auto
  next
    case EQ
    then have "find_loop R h k (rt (rb_nil R) (Nd c l x r)) = Some (Some x)" using Nd.prems(1) assms(1) by (subst find_loop.simps) simp
    then show ?thesis using EQ cmp_eq [of "rb_key R x" k] by auto
  next
    case GT
    then have "cmp k (rb_key R x) = LT" using cmp_gt by simp
    then have "rb_key R b \<noteq> k" if "b \<in> set (inorder r)" for b
      using O that lt_le [of k "rb_key R x" "rb_key R b"] cmp_eq [of k k] by auto
    moreover have "rb_key R x \<noteq> k" using GT cmp_eq [of k k] by auto
    ultimately show ?thesis using Nd.prems(1) Nd.IH(1) [of x] O GT assms(1) by (subst (1 2) find_loop.simps) auto
  qed
qed

lemma lowerBound_loop_tree:
  assumes "rb_cmp R = cmp" "tree_at (rb_nil R) h q t" "in_order R (inorder t)"
  shows "lowerBound_loop R h k p (rt (rb_nil R) t) = Some (case List.find (\<lambda>x. cmp (rb_key R x) k \<noteq> LT) (inorder t) of None \<Rightarrow> p | Some x \<Rightarrow> x)"
  using assms(2,3)
proof (induction t arbitrary: p q)
  case Lf
  show ?case by (subst lowerBound_loop.simps) simp
next
  case (Nd c l x r)
  note O = Nd.prems(2) [unfolded in_order_Nd assms(1)]
  have fnd: "List.find P (xs @ ys) = (case List.find P xs of None \<Rightarrow> List.find P ys | Some z \<Rightarrow> Some z)" for P xs and ys :: "u64 list"
    by (induction xs) auto
  show ?case
  proof (cases "cmp (rb_key R x) k = LT")
    case True
    have "List.find (\<lambda>x. cmp (rb_key R x) k \<noteq> LT) (inorder l) = None"
      using O le_lt [of _ "rb_key R x" k] True by (auto simp: find_None_iff)
    then show ?thesis using Nd.prems(1) Nd.IH(2) [of x] O True assms(1) by (subst lowerBound_loop.simps) (simp add: fnd)
  next
    case False
    then have "lowerBound_loop R h k p (rt (rb_nil R) (Nd c l x r)) = lowerBound_loop R h k x (rt (rb_nil R) l)"
      using Nd.prems(1) assms(1) by (subst lowerBound_loop.simps) (auto split: math_order.splits)
    then show ?thesis using Nd.prems(1) Nd.IH(1) [of x x] O False by (simp add: fnd split: option.splits)
  qed
qed

lemma not_gt_refl: "cmp a a \<noteq> GT"
  using cmp_eq [of a a] by simp

lemma place_down:
  assumes "in_order R (inorder (Nd c l x r))" "rb_cmp R = cmp" "place R z C"
  shows "cmp (rb_key R x) (rb_key R z) = GT \<Longrightarrow> place R z (CL c x r # C)" "cmp (rb_key R x) (rb_key R z) \<noteq> GT \<Longrightarrow> place R z (CR l c x # C)"
proof -
  note O = assms(1) [unfolded in_order_Nd assms(2)]
  assume "cmp (rb_key R x) (rb_key R z) = GT"
  then have "cmp (rb_key R z) (rb_key R b) = LT" if "b \<in> set (inorder r)" for b
    using O that lt_le [of "rb_key R z" "rb_key R x" "rb_key R b"] cmp_gt by auto
  then show "place R z (CL c x r # C)" using assms(3) cmp_gt \<open>cmp (rb_key R x) (rb_key R z) = GT\<close> by (auto simp: place_def assms(2))
next
  note O = assms(1) [unfolded in_order_Nd assms(2)]
  assume x: "cmp (rb_key R x) (rb_key R z) \<noteq> GT"
  have "cmp (rb_key R a) (rb_key R z) \<noteq> GT" if "a \<in> set (inorder l)" for a
    using O that x le_lt [of "rb_key R a" "rb_key R x" "rb_key R z"] not_gt_cases by (metis math_order.distinct(3))
  then show "place R z (CR l c x # C)" using assms(3) x by (auto simp: place_def assms(2))
qed

lemma add_loop_zip:
  assumes R: "rb_cmp R = cmp" and "zip_at (rb_nil R) s C t" "in_order R (inorder t)" "turned R z C" "place R z C"
  shows "\<exists>C'. add_loop R (snd s) z (up (rb_nil R) C) (rt (rb_nil R) t) = Some (up (rb_nil R) C') \<and> plug C' Lf = plug C t \<and> turned R z C' \<and> place R z C'"
  using assms(2-5)
proof (induction t arbitrary: C)
  case Lf
  show ?case by (subst add_loop.simps) (use Lf in auto)
next
  case (Nd c l x r)
  note N = zip_node [OF Nd.prems(1)] and O = Nd.prems(2) [unfolded in_order_Nd]
  show ?case
  proof (cases "cmp (rb_key R x) (rb_key R z) = GT")
    case True
    have "add_loop R (snd s) z (up (rb_nil R) C) (rt (rb_nil R) (Nd c l x r)) = add_loop R (snd s) z x (rt (rb_nil R) l)"
      using N True R by (subst add_loop.simps) simp
    then show ?thesis
      using Nd.IH(1) [OF zip_downL [OF Nd.prems(1)] _ _ place_down(1) [OF Nd.prems(2) R Nd.prems(4) True]] O True R by simp
  next
    case False
    have "add_loop R (snd s) z (up (rb_nil R) C) (rt (rb_nil R) (Nd c l x r)) = add_loop R (snd s) z x (rt (rb_nil R) r)"
      using N False R by (subst add_loop.simps) (auto split: math_order.splits)
    then show ?thesis
      using Nd.IH(2) [OF zip_downR [OF Nd.prems(1)] _ _ place_down(2) [OF Nd.prems(2) R Nd.prems(4) False]] O False R by simp
  qed
qed

lemma findOrAdd_loop_zip:
  assumes R: "rb_cmp R = cmp" and "zip_at (rb_nil R) s C t" "in_order R (inorder t)" "turned R z C" "place R z C" "\<forall>a \<in> set (before C). rb_key R a \<noteq> rb_key R z"
  shows "(\<exists>x \<in> set (inorder t). findOrAdd_loop R (snd s) z (up (rb_nil R) C) (rt (rb_nil R) t) = Some (Some x, x) \<and> rb_key R x = rb_key R z) \<or>
    (\<exists>C'. findOrAdd_loop R (snd s) z (up (rb_nil R) C) (rt (rb_nil R) t) = Some (None, up (rb_nil R) C') \<and> plug C' Lf = plug C t \<and> turned R z C' \<and>
      place R z C' \<and> (\<forall>a \<in> set (before C'). rb_key R a \<noteq> rb_key R z))"
  using assms(2-6)
proof (induction t arbitrary: C)
  case Lf
  show ?case by (subst (1 2) findOrAdd_loop.simps) (use Lf in auto)
next
  case (Nd c l x r)
  note N = zip_node [OF Nd.prems(1)] and O = Nd.prems(2) [unfolded in_order_Nd]
  show ?case
  proof (cases "cmp (rb_key R x) (rb_key R z)")
    case GT
    have "findOrAdd_loop R (snd s) z (up (rb_nil R) C) (rt (rb_nil R) (Nd c l x r)) = findOrAdd_loop R (snd s) z x (rt (rb_nil R) l)"
      using N GT R by (subst findOrAdd_loop.simps) simp
    then show ?thesis
      using Nd.IH(1) [OF zip_downL [OF Nd.prems(1)] _ _ place_down(1) [OF Nd.prems(2) R Nd.prems(4) GT]] O GT R Nd.prems(5) by auto
  next
    case EQ
    have "findOrAdd_loop R (snd s) z (up (rb_nil R) C) (rt (rb_nil R) (Nd c l x r)) = Some (Some x, x)"
      using N EQ R by (subst findOrAdd_loop.simps) simp
    then show ?thesis using EQ cmp_eq [of "rb_key R x" "rb_key R z"] by auto
  next
    case LT
    then have ng: "cmp (rb_key R x) (rb_key R z) \<noteq> GT" by simp
    have "rb_key R a \<noteq> rb_key R z" if "a \<in> set (inorder l)" for a
      using O R that le_lt [of "rb_key R a" "rb_key R x" "rb_key R z"] LT cmp_eq [of "rb_key R z" "rb_key R z"] by auto
    moreover have "rb_key R x \<noteq> rb_key R z" using LT cmp_eq [of "rb_key R z" "rb_key R z"] by auto
    moreover have "findOrAdd_loop R (snd s) z (up (rb_nil R) C) (rt (rb_nil R) (Nd c l x r)) = findOrAdd_loop R (snd s) z x (rt (rb_nil R) r)"
      using N LT R by (subst findOrAdd_loop.simps) simp
    ultimately show ?thesis
      using Nd.IH(2) [OF zip_downR [OF Nd.prems(1)] _ _ place_down(2) [OF Nd.prems(2) R Nd.prems(4) ng]] O LT R Nd.prems(5) by auto
  qed
qed

lemma place_order:
  assumes "rb_cmp R = cmp" "in_order R (before C @ behind C)" "place R z C"
  shows "in_order R (before C @ z # behind C)"
proof -
  have "rb_cmp R (rb_key R z) (rb_key R b) \<noteq> GT" if "b \<in> set (behind C)" for b
    using assms(1,3) that cmp_gt [of "rb_key R z" "rb_key R b"] by (auto simp: place_def)
  then show ?thesis using assms(2,3) by (auto simp: in_order_def sorted_wrt_append place_def)
qed

lemma attach_eq:
  assumes "rb_cmp R = cmp" "turned R z C" "zip_at (rb_nil R) (T, h) C Lf"
  shows "(if up (rb_nil R) C = rb_nil R then (T\<lparr>rt_root := z\<rparr>, h')
     else (case rb_cmp R (rb_key R (up (rb_nil R) C)) (rb_key R z) of
             LT \<Rightarrow> (T, set_right h' (up (rb_nil R) C) z) | EQ \<Rightarrow> (T, set_right h' (up (rb_nil R) C) z) | GT \<Rightarrow> (T, set_left h' (up (rb_nil R) C) z))) =
    attach z C (T, h')"
  using assms by (cases C rule: before.cases) (auto simp: zip_at_def split: math_order.splits)

lemma rb_add_correct:
  assumes R: "rb_cmp R = cmp" and rep: "rb_rep (rb_nil R) s t" and o: "in_order R (inorder t)"
    and z: "z \<notin> set (inorder t)" "z \<noteq> rb_nil R" "ok_ptr z" and len: "length (inorder t) < 2 ^ 64 - 1"
  shows "\<exists>s' t' xs ys. rb_add R z s = Some s' \<and> rb_rep (rb_nil R) s' t' \<and> inorder t = xs @ ys \<and> inorder t' = xs @ z # ys \<and>
    in_order R (inorder t') \<and> (\<forall>b \<in> set ys. rb_cmp R (rb_key R b) (rb_key R z) = GT) \<and> (rb_ok t \<longrightarrow> rb_ok t') \<and>
    (\<forall>y. y \<notin> set (inorder t') \<longrightarrow> snd s' y = snd s y)"
proof -
  obtain T h where s: "s = (T, h)" by (metis surj_pair)
  note D = rb_repD [OF rep]
  have p0: "turned R z []" "place R z []" by (simp_all add: place_def)
  obtain C where C: "add_loop R h z (rb_nil R) (rt (rb_nil R) t) = Some (up (rb_nil R) C)" "plug C Lf = t" "turned R z C" "place R z C"
    using add_loop_zip [OF R D(1) o, of z] p0 s by auto
  have zip: "zip_at (rb_nil R) (T, h) C Lf" using D(1) s C(2) zip_plug [of "rb_nil R" s C Lf] by simp
  have it: "inorder t = before C @ behind C" using inorder_plug [of C Lf] C(2) by simp
  obtain T' h' t' where r: "insertFixup (rb_nil R) z (attach z C (T, new_leaf (rb_nil R) z (up (rb_nil R) C) h)) = Some (T', h')" "rt_len T' \<noteq> - 1"
    "rb_rep (rb_nil R) (T'\<lparr>rt_len := rt_len T' + 1\<rparr>, h') t'" "inorder t' = before C @ z # behind C" "rb_ok t \<longrightarrow> rb_ok t'"
    "\<forall>y. y \<notin> set (inorder t') \<longrightarrow> h' y = h y"
    using insert_at [of "rb_nil R" T h C z] rep s z len C(2) by (auto simp: members_def)
  have "rb_add R z s = Some (T'\<lparr>rt_len := rt_len T' + 1\<rparr>, h')"
    using C(1) D(7) r(1,2) unfolding rb_add_def s by (simp add: attach_eq [OF R C(3) zip])
  moreover have "in_order R (inorder t')" using place_order [OF R _ C(4)] o it r(4) by simp
  moreover have "\<forall>b \<in> set (behind C). rb_cmp R (rb_key R b) (rb_key R z) = GT" using C(4) by (simp add: place_def)
  ultimately show ?thesis using r(3-6) it s
    by (intro exI [of _ "(T'\<lparr>rt_len := rt_len T' + 1\<rparr>, h')"] exI [of _ t'] exI [of _ "before C"] exI [of _ "behind C"]) simp
qed

lemma findOrAdd_correct:
  assumes R: "rb_cmp R = cmp" and rep: "rb_rep (rb_nil R) s t" and o: "in_order R (inorder t)"
    and z: "z \<notin> set (inorder t)" "z \<noteq> rb_nil R" "ok_ptr z" and len: "length (inorder t) < 2 ^ 64 - 1"
  shows "(\<exists>x \<in> set (inorder t). findOrAdd R z s = Some (Some x, s) \<and> rb_key R x = rb_key R z) \<or>
    (\<exists>s' t' xs ys. findOrAdd R z s = Some (None, s') \<and> rb_rep (rb_nil R) s' t' \<and> inorder t = xs @ ys \<and> inorder t' = xs @ z # ys \<and>
    in_order R (inorder t') \<and> rb_key R z \<notin> rb_key R ` set (inorder t) \<and> (rb_ok t \<longrightarrow> rb_ok t') \<and> (\<forall>y. y \<notin> set (inorder t') \<longrightarrow> snd s' y = snd s y))"
proof -
  obtain T h where s: "s = (T, h)" by (metis surj_pair)
  note D = rb_repD [OF rep]
  have p0: "turned R z []" "place R z []" by (simp_all add: place_def)
  consider (found) x where "x \<in> set (inorder t)" "findOrAdd_loop R h z (rb_nil R) (rt (rb_nil R) t) = Some (Some x, x)" "rb_key R x = rb_key R z"
    | (new) C where "findOrAdd_loop R h z (rb_nil R) (rt (rb_nil R) t) = Some (None, up (rb_nil R) C)" "plug C Lf = t" "turned R z C" "place R z C"
        "\<forall>a \<in> set (before C). rb_key R a \<noteq> rb_key R z"
    using findOrAdd_loop_zip [OF R D(1) o, of z] p0 s by auto
  then show ?thesis
  proof cases
    case found
    then show ?thesis using D(7) s by (auto simp: findOrAdd_def)
  next
    case new
    have zip: "zip_at (rb_nil R) (T, h) C Lf" using D(1) s new(2) zip_plug [of "rb_nil R" s C Lf] by simp
    have it: "inorder t = before C @ behind C" using inorder_plug [of C Lf] new(2) by simp
    obtain T' h' t' where r: "insertFixup (rb_nil R) z (attach z C (T, new_leaf (rb_nil R) z (up (rb_nil R) C) h)) = Some (T', h')" "rt_len T' \<noteq> - 1"
      "rb_rep (rb_nil R) (T'\<lparr>rt_len := rt_len T' + 1\<rparr>, h') t'" "inorder t' = before C @ z # behind C" "rb_ok t \<longrightarrow> rb_ok t'"
      "\<forall>y. y \<notin> set (inorder t') \<longrightarrow> h' y = h y"
      using insert_at [of "rb_nil R" T h C z] rep s z len new(2) by (auto simp: members_def)
    have ne: "rb_key R a \<noteq> rb_key R z" if "a \<in> set (behind C)" for a
      using new(4) that R not_gt_refl [of "rb_key R z"] by (auto simp: place_def)
    have "up (rb_nil R) C = rb_nil R \<or> rb_cmp R (rb_key R (up (rb_nil R) C)) (rb_key R z) \<noteq> EQ"
      using new(5) ne up_member [of C "rb_nil R"] R cmp_eq by (cases "C = []") auto
    then have "(if up (rb_nil R) C = rb_nil R then Some (T\<lparr>rt_root := z\<rparr>, g)
        else (case rb_cmp R (rb_key R (up (rb_nil R) C)) (rb_key R z) of
             LT \<Rightarrow> Some (T, set_right g (up (rb_nil R) C) z) | EQ \<Rightarrow> None | GT \<Rightarrow> Some (T, set_left g (up (rb_nil R) C) z))) = Some (attach z C (T, g))" for g
      using attach_eq [OF R new(3) zip, of g] by (auto split: math_order.splits if_splits)
    then have "findOrAdd R z s = Some (None, (T'\<lparr>rt_len := rt_len T' + 1\<rparr>, h'))"
      using new(1) D(7) r(1,2) unfolding findOrAdd_def s by simp
    moreover have "in_order R (inorder t')" using place_order [OF R _ new(4)] o it r(4) by simp
    moreover have "rb_key R z \<notin> rb_key R ` set (inorder t)" using new(5) ne it by (auto simp: image_iff) metis+
    ultimately show ?thesis using r(3-6) it s
      by (intro disjI2 exI [of _ "(T'\<lparr>rt_len := rt_len T' + 1\<rparr>, h')"] exI [of _ t'] exI [of _ "before C"] exI [of _ "behind C"]) simp
  qed
qed

end

end
