(* ===== verification/Rbtree_Erase.thy ===== *)
theory Rbtree_Erase
  imports Rbtree_Ops
begin

text \<open>
  Removal: what taking a node out leaves at which position, and the repair loop. The loop keeps the nodes in order on red-black trees, where
  the sibling of the position that lost a black node is never empty; it does not restore the colours.
\<close>

section \<open>Taking a node out\<close>

lemma transplant_relink:
  "transplant nil u v (T, h) = (let (T, h) = relink nil (parent h u) u v (T, h) in (T, setParent h v (parent h u)))"
  by (simp add: transplant_def relink_def Let_def)

lemma transplant_frame:
  assumes "transplant nil u v (T, h) = (T', h')" "ok_ptr (parent h u)"
  shows "rt_len T' = rt_len T" "n_col (h' z) = n_col (h z)" "parent h' z = (if z = v then parent h u else parent h z)"
    "z \<noteq> parent h u \<or> parent h u = nil \<Longrightarrow> n_left (h' z) = n_left (h z) \<and> n_right (h' z) = n_right (h z)"
    "z \<noteq> parent h u \<or> parent h u = nil \<Longrightarrow> z \<noteq> v \<Longrightarrow> h' z = h z"
  using assms by (auto simp: transplant_relink relink_def Let_def split: if_splits)

lemma transplant_ctx:
  assumes ctx: "ctx_at nil h (rt_root T) u C" and u: "u \<notin> set (before C) \<union> set (behind C)" "u \<noteq> nil" "parent h u = up nil C"
    and v: "v \<notin> set (before C) \<union> set (behind C)" and D: "distinct (before C @ behind C)" and ok: "ok_ptr nil"
    and run: "transplant nil u v (T, h) = (T', h')"
  shows "ctx_at nil h' (rt_root T') v C"
proof -
  obtain T1 h1 where re: "relink nil (up nil C) u v (T, h) = (T1, h1)" by (metis surj_pair)
  have c: "ctx_at nil h1 (rt_root T1) v C" using relink_ctx [OF ctx u(1,2) D disjI1, OF re] .
  have r: "T' = T1" "h' = setParent h1 v (parent h1 u)" using run re u(3) by (auto simp: transplant_relink)
  have "ctx_at nil h' (rt_root T1) v C = ctx_at nil h1 (rt_root T1) v C"
    by (rule ctx_at_cong) (use v r(2) in \<open>auto intro!: node_other\<close>)
  then show ?thesis using c r(1) by simp
qed

text \<open>A subtree takes the place of the node above it.\<close>

lemma transplant_child:
  assumes zip: "zip_at nil (T, h) C (Nd c l u r)" and V: "V = l \<and> r = Lf \<or> V = r \<and> l = Lf"
    and run: "transplant nil u (rt nil V) (T, h) = (T', h')"
  shows "zip_at nil (T', h') C V" "parent h' (rt nil V) = up nil C" "rt_len T' = rt_len T"
    "z \<notin> members C (Nd c l u r) \<Longrightarrow> z \<noteq> nil \<Longrightarrow> h' z = h z"
    "n_col (h' nil) = n_col (h nil) \<and> n_left (h' nil) = n_left (h nil) \<and> n_right (h' nil) = n_right (h nil)"
proof -
  note N = zip_node [OF zip, simplified] and nm = zip_nil [OF zip]
  have T: "tree_at nil h u V" and D: "distinct (before C @ inorder V @ behind C)" "u \<notin> set (before C)" "u \<notin> set (behind C)" "u \<notin> set (inorder V)"
    and ctx: "ctx_at nil h (rt_root T) u C" and mem: "members C (Nd c l u r) = insert u (set (before C) \<union> set (inorder V) \<union> set (behind C))"
    using zip V by (auto simp: zip_at_def inorder_plug members_def)
  have upok: "ok_ptr (up nil C)" using ctx_up [OF ctx] N(7) by (cases "C = []") auto
  note F = transplant_frame [OF run, unfolded N(6), OF upok]
  have v: "rt nil V \<notin> set (before C) \<union> set (behind C)" using D nm rt_inorder [of V nil] by (cases "V = Lf") (auto simp: mem)
  have upn: "up nil C = nil \<longleftrightarrow> C = []" using ctx_up [OF ctx] by (cases "C = []") auto
  have "up nil C \<notin> set (inorder V)"
  proof (cases "C = []")
    case False
    then show ?thesis using up_member [OF False, of nil] D(1) by auto
  qed (use nm mem in auto)
  note upV = this upn
  have "ctx_at nil h' (rt_root T') (rt nil V) C" by (rule transplant_ctx [OF ctx _ N(1,6) v _ N(7) run]) (use D in auto)
  moreover have "tree_at nil h' (up nil C) V"
  proof (rule tree_at_reparent [OF T])
    show "h' y = h y" if "y \<in> set (inorder V)" "y \<noteq> rt nil V" for y using that upV by (intro F(5)) auto
    assume "V \<noteq> Lf"
    then have "rt nil V \<in> set (inorder V)" by (rule rt_inorder)
    then have "rt nil V \<noteq> up nil C" using upV(1) by auto
    then show "n_left (h' (rt nil V)) = n_left (h (rt nil V)) \<and> n_right (h' (rt nil V)) = n_right (h (rt nil V)) \<and>
      n_col (h' (rt nil V)) = n_col (h (rt nil V)) \<and> parent h' (rt nil V) = up nil C"
      using F(2,3) F(4) [of "rt nil V"] by simp
  qed (use D in auto)
  ultimately show "zip_at nil (T', h') C V" using D N(7) by (simp add: zip_at_def inorder_plug)
  show "parent h' (rt nil V) = up nil C" using F(3) by simp
  show "rt_len T' = rt_len T" by (rule F(1))
  show "n_col (h' nil) = n_col (h nil) \<and> n_left (h' nil) = n_left (h nil) \<and> n_right (h' nil) = n_right (h nil)"
    using F(2) F(4) [of nil] upV by auto
  show "h' z = h z" if "z \<notin> members C (Nd c l u r)" "z \<noteq> nil"
  proof (rule F(5))
    show "z \<noteq> up nil C \<or> up nil C = nil" using that up_member [of C nil] upn by (cases "C = []") (auto simp: mem)
    show "z \<noteq> rt nil V" using that rt_inorder [of V nil] by (cases "V = Lf") (auto simp: mem)
  qed
qed

text \<open>A node outside the tree takes the place of another, with its left subtree and colour and a right subtree of its own.\<close>

lemma replace_zip:
  assumes ctx: "ctx_at nil h (rt_root T) z C" and z: "parent h z = up nil C" "n_left (h z) = rt nil l" "n_col (h z) = c" "z \<noteq> nil"
    and l: "tree_at nil h z l" "l \<noteq> Lf" and R: "tree_at nil h y R" "n_right (h y) = rt nil R" and y: "y \<noteq> nil" "ok_ptr y" "ok_ptr nil"
    and D: "distinct (z # before C @ inorder l @ y # inorder R @ behind C)" and nil: "nil \<notin> set (before C) \<union> set (behind C) \<union> set (inorder R)"
    and run: "replace_node nil z y (T, h) = (T', h')"
  shows "zip_at nil (T', h') C (Nd c l y R)" "rt_len T' = rt_len T" "x \<notin> members C (Nd c l y R) \<Longrightarrow> h' x = h x"
proof -
  obtain T1 h1 where t: "transplant nil z y (T, h) = (T1, h1)" by (metis surj_pair)
  have upok: "ok_ptr (up nil C)" using ctx_up [OF ctx] y(3) by (cases "C = []") auto
  note F = transplant_frame [OF t, unfolded z(1), OF upok]
  have upn: "up nil C = nil \<longleftrightarrow> C = []" using ctx_up [OF ctx] by (cases "C = []") auto
  have "up nil C \<notin> set (inorder l) \<union> set (inorder R) \<and> up nil C \<noteq> y \<and> up nil C \<noteq> z"
  proof (cases "C = []")
    case False
    then show ?thesis using up_member [OF False, of nil] D by auto
  qed (use tree_at_nodes [OF l(1)] nil y(1) z(4) in auto)
  then have up: "up nil C \<notin> set (inorder l) \<union> set (inorder R)" "up nil C = nil \<longleftrightarrow> C = []" "up nil C \<noteq> y" "up nil C \<noteq> z" using upn by auto
  have rl: "rt nil l \<in> set (inorder l)" using l(2) by (rule rt_inorder)
  have zl: "n_left (h1 z) = rt nil l" "n_col (h1 z) = c" using F(2,4) z up by auto
  have zy: "z \<noteq> y" "rt nil l \<noteq> y" using D rl by auto
  have r: "T' = T1" "h' = set_col (setParent (set_left h1 y (rt nil l)) (rt nil l) y) y c"
    using run t zl zy by (auto simp: replace_node_def Let_def split: if_splits)
  have h'o: "h' x = h x" if "x \<noteq> y" "x \<noteq> rt nil l" "x \<noteq> up nil C \<or> C = []" for x using that F(5) [of x] up(2) by (auto simp: r(2))
  have "ctx_at nil h1 (rt_root T1) y C" by (rule transplant_ctx [OF ctx _ z(4,1) _ _ y(3) t]) (use D in auto)
  moreover have h1o: "h' x = h1 x" if "x \<noteq> y" "x \<noteq> rt nil l" for x using that by (simp add: r(2))
  have "ctx_at nil h' (rt_root T1) y C = ctx_at nil h1 (rt_root T1) y C" by (rule ctx_at_cong, rule h1o) (use D rl in auto)
  ultimately have c': "ctx_at nil h' (rt_root T') y C" using r(1) by simp
  have "tree_at nil h' y R = tree_at nil h y R" by (rule tree_at_cong, rule h'o) (use D rl up in auto)
  moreover have "tree_at nil h' y l"
  proof (rule tree_at_reparent [OF l(1)])
    show "h' x = h x" if "x \<in> set (inorder l)" "x \<noteq> rt nil l" for x using that D up by (intro h'o) auto
    show "n_left (h' (rt nil l)) = n_left (h (rt nil l)) \<and> n_right (h' (rt nil l)) = n_right (h (rt nil l)) \<and>
      n_col (h' (rt nil l)) = n_col (h (rt nil l)) \<and> parent h' (rt nil l) = y"
    proof -
      have "rt nil l \<noteq> up nil C" using rl up(1) by auto
      then show ?thesis using F(2,4) [of "rt nil l"] zy y(2) by (simp add: r(2))
    qed
  qed (use D in auto)
  moreover have "n_left (h' y) = rt nil l" "n_right (h' y) = rt nil R" "n_col (h' y) = c" "parent h' y = up nil C"
    using F(3,4) [of y] zy R(2) up(3) y(2) by (auto simp: r(2))
  ultimately show "zip_at nil (T', h') C (Nd c l y R)" using c' y R(1) D by (auto simp: zip_at_def inorder_plug)
  show "rt_len T' = rt_len T" using F(1) r(1) by simp
  show "h' x = h x" if "x \<notin> members C (Nd c l y R)"
    using that rl up_member [of C nil] by (intro h'o) (auto simp: members_def inorder_plug)
qed

lemma sides_append: "before (C @ D) = before D @ before C" "behind (C @ D) = behind C @ behind D"
  by (induction C rule: before.induct) simp_all

text \<open>The smallest node of a subtree.\<close>

lemma leftmost: "t \<noteq> Lf \<Longrightarrow> \<exists>D d y e. t = plug D (Nd d Lf y e) \<and> before D = []"
proof (induction t)
  case (Nd c l x r)
  show ?case
  proof (cases "l = Lf")
    case True
    then show ?thesis by (intro exI [of _ "[]"]) auto
  next
    case False
    then obtain D d y e where "l = plug D (Nd d Lf y e)" "before D = []" using Nd.IH(1) by blast
    then show ?thesis by (intro exI [of _ "D @ [CL c x r]"]) (auto simp: plug_append sides_append)
  qed
qed simp

lemma up_append: "D \<noteq> [] \<Longrightarrow> up nil (D @ C) = up nil D"
  by (cases D rule: before.cases) auto

lemma zip_root_parent: "zip_at nil s C t \<Longrightarrow> t \<noteq> Lf \<Longrightarrow> parent (snd s) (rt nil t) = up nil C"
  by (cases t) (auto simp: zip_at_def)

lemma zip_rt: "zip_at nil s C t \<Longrightarrow> rt nil t = nil \<longleftrightarrow> t = Lf"
  by (cases t) (auto simp: zip_at_def)

text \<open>Where the tree misses a node after \<open>unlink\<close>: the new position, and what did not change.\<close>

definition unlinked :: "u64 \<Rightarrow> crumb list \<Rightarrow> tr \<Rightarrow> rb \<Rightarrow> rb \<Rightarrow> crumb list \<Rightarrow> tr \<Rightarrow> bool" where
  "unlinked nil C t s s' C' t' \<longleftrightarrow> zip_at nil s' C' t' \<and> parent (snd s') (rt nil t') = up nil C' \<and> rt_len (fst s') = rt_len (fst s) \<and>
     (\<forall>z. z \<notin> members C t \<longrightarrow> z \<noteq> nil \<longrightarrow> snd s' z = snd s z) \<and>
     n_col (snd s' nil) = n_col (snd s nil) \<and> n_left (snd s' nil) = n_left (snd s nil) \<and> n_right (snd s' nil) = n_right (snd s nil)"

lemma unlink_outer:
  assumes zip: "zip_at nil s C (Nd c l z r)" and e: "V = l \<and> r = Lf \<or> V = r \<and> l = Lf"
  shows "\<exists>s'. unlink nil z s = Some (rt nil V, c, s') \<and> unlinked nil C (Nd c l z r) s s' C V"
proof -
  obtain T h where s: "s = (T, h)" by (metis surj_pair)
  note N = zip_node [OF zip, unfolded s, simplified]
  have "rt nil l = nil \<longleftrightarrow> l = Lf" "rt nil r = nil \<longleftrightarrow> r = Lf"
    using zip_nil [OF zip] rt_inorder [of l nil] rt_inorder [of r nil] by (cases "l = Lf"; cases "r = Lf"; auto simp: members_def inorder_plug)+
  then have u: "unlink nil z s = Some (rt nil V, c, transplant nil z (rt nil V) (T, h))" using e N by (auto simp: unlink_def s)
  obtain T' h' where t: "transplant nil z (rt nil V) (T, h) = (T', h')" by (metis surj_pair)
  note R = transplant_child [OF zip [unfolded s] e t]
  have "unlinked nil C (Nd c l z r) s (T', h') C V" using R s by (auto simp: unlinked_def)
  then show ?thesis using u t by auto
qed

lemma unlink_next:
  assumes zip: "zip_at nil s C (Nd c l z (Nd d Lf y e))" and l: "l \<noteq> Lf"
  shows "\<exists>s'. unlink nil z s = Some (rt nil e, d, s') \<and> unlinked nil C (Nd c l z (Nd d Lf y e)) s s' (CR l c y # C) e"
proof -
  obtain T h where s: "s = (T, h)" by (metis surj_pair)
  note zr = zip_downR [OF zip]
  note N = zip_node [OF zip, unfolded s, simplified] and M = zip_node [OF zr, unfolded s, simplified]
  have "rt nil l \<noteq> nil" using zip_nil [OF zip] rt_inorder [OF l, of nil] by (auto simp: members_def inorder_plug)
  moreover have "minChild nil h y = Some y" using M by (subst minChild.simps) simp
  ultimately have u: "unlink nil z s = Some (rt nil e, d, replace_node nil z y (T, setParent h (rt nil e) y))"
    using N M by (simp add: unlink_def s Let_def)
  let ?h = "setParent h (rt nil e) y"
  obtain T' h' where t: "replace_node nil z y (T, ?h) = (T', h')" by (metis surj_pair)
  have D: "distinct (z # before C @ inorder l @ y # inorder e @ behind C)" and nm: "nil \<notin> set (before C)" "nil \<notin> set (behind C)" "nil \<notin> set (inorder l)" "nil \<notin> set (inorder e)"
    and ctx: "ctx_at nil h (rt_root T) z C" and tr: "tree_at nil h z l" "tree_at nil h y e"
    using zip zip_nil [OF zip] s by (auto simp: zip_at_def inorder_plug members_def)
  have ho: "?h x = h x" if "x \<noteq> rt nil e" for x using that by simp
  have re: "rt nil e \<notin> set (before C) \<union> set (behind C) \<union> set (inorder l) \<union> {z, y}"
    using D nm N(1) M(1) rt_inorder [of e nil] by (cases "e = Lf") auto
  have c': "ctx_at nil ?h (rt_root T) z C" by (subst ctx_at_cong [of C ?h h]) (use ctx re in \<open>auto intro!: node_other\<close>)
  have l': "tree_at nil ?h z l" by (subst tree_at_cong [of l ?h h]) (use tr(1) re in \<open>auto intro!: node_other\<close>)
  have e': "tree_at nil ?h y e" by (rule tree_at_reparent [OF tr(2)]) (use D M(2) in auto)
  note R = replace_zip [OF c' _ _ _ N(1) l' l e' _ M(1,2) N(7) D _ t, where c = c]
  have z: "zip_at nil (T', h') C (Nd c l y e)" "rt_len T' = rt_len T" "x \<notin> members C (Nd c l y e) \<Longrightarrow> h' x = ?h x" for x
    using R N M nm re by auto
  have nil': "h' nil = ?h nil" using z(3) [of nil] nm M(1) by (auto simp: members_def inorder_plug)
  have par: "parent h' (rt nil e) = y"
    using zip_root_parent [OF zip_downR [OF z(1)]] parent_cong [of h' nil ?h] nil' M(2) by (cases "e = Lf") auto
  have "h' x = h x" if "x \<notin> members C (Nd c l z (Nd d Lf y e))" "x \<noteq> nil" for x
  proof -
    have "x \<noteq> rt nil e" using that rt_inorder [of e nil] by (cases "e = Lf") (auto simp: members_def inorder_plug)
    then show ?thesis using z(3) [of x] that ho [of x] by (simp add: members_def inorder_plug)
  qed
  then have "unlinked nil C (Nd c l z (Nd d Lf y e)) s (T', h') (CR l c y # C) e"
    using z(1,2) par nil' s by (auto simp: unlinked_def zip_CR)
  then show ?thesis using u t by auto
qed

lemma unlink_deep:
  assumes zip: "zip_at nil s C (Nd c l z (plug D (Nd d Lf y e)))" and l: "l \<noteq> Lf" and D: "before D = []" "D \<noteq> []"
  shows "\<exists>s'. unlink nil z s = Some (rt nil e, d, s') \<and> unlinked nil C (Nd c l z (plug D (Nd d Lf y e))) s s' (D @ CR l c y # C) e"
proof -
  obtain T h where s: "s = (T, h)" by (metis surj_pair)
  let ?r = "plug D (Nd d Lf y e)" and ?R = "plug D e"
  note N = zip_node [OF zip, unfolded s, simplified]
  have zy: "zip_at nil (T, h) (D @ CR l c z # C) (Nd d Lf y e)" using zip_downR [OF zip] s zip_append by simp
  note M = zip_node [OF zy, simplified]
  have ir: "inorder ?r = y # inorder e @ behind D" "inorder ?R = inorder e @ behind D" using D(1) by (simp_all add: inorder_plug)
  have R: "?R \<noteq> Lf" "?r \<noteq> Lf" using ir D(2) up_member [OF D(2), of nil] D(1) by (cases ?R; cases ?r; auto)+
  have dist: "distinct (z # before C @ inorder l @ y # inorder ?R @ behind C)"
    and nm: "nil \<notin> set (before C)" "nil \<notin> set (behind C)" "nil \<notin> set (inorder l)" "nil \<notin> set (inorder ?R)" "y \<noteq> nil"
    using zip zip_nil [OF zip] M(1) ir by (auto simp: zip_at_def inorder_plug members_def)
  have py: "parent h y = up nil D" "up nil D \<noteq> z" using M(6) up_append [OF D(2)] up_member [OF D(2), of nil] D(1) dist ir by auto
  have "minChild nil h (rt nil ?r) = Some y" using minChild_tree [of nil h z ?r] zip R(2) ir s by (simp add: zip_at_def)
  moreover have "rt nil l \<noteq> nil" "rt nil ?r \<noteq> nil" using zip_rt [OF zip_downL [OF zip]] zip_rt [OF zip_downR [OF zip]] l R by auto
  ultimately have u: "unlink nil z s = Some (rt nil e, d, replace_node nil z y (let (T, h) = transplant nil y (rt nil e) (T, h); h = set_right h y (n_right (h z)) in
      (T, setParent h (n_right (h y)) y)))" using N M py by (simp add: unlink_def s Let_def)
  obtain T1 h1 where t1: "transplant nil y (rt nil e) (T, h) = (T1, h1)" by (metis surj_pair)
  note A = transplant_child [OF zy disjI2, OF conjI [OF refl refl] t1]
  have z1: "zip_at nil (T1, h1) C (Nd c l z ?R)" using A(1) zip_append [of nil "(T1, h1)" "CR l c z # C" D e] by (simp add: zip_CR)
  note N1 = zip_node [OF z1, simplified]
  let ?h = "setParent (set_right h1 y (rt nil ?R)) (rt nil ?R) y"
  obtain T' h' where t: "replace_node nil z y (T1, ?h) = (T', h')" by (metis surj_pair)
  have u': "unlink nil z s = Some (rt nil e, d, (T', h'))" using u t1 t N1 by (simp add: Let_def)
  have rR: "rt nil ?R \<in> set (inorder ?R)" using R(1) by (rule rt_inorder)
  have ho: "?h x = h1 x" if "x \<noteq> y" "x \<noteq> rt nil ?R" for x using that by simp
  have c1: "ctx_at nil h1 (rt_root T1) z C" and tr1: "tree_at nil h1 z l" "tree_at nil h1 z ?R" using z1 by (simp_all add: zip_at_def)
  have c': "ctx_at nil ?h (rt_root T1) z C" by (subst ctx_at_cong [of C ?h h1], rule ho) (use c1 dist rR in auto)
  have l': "tree_at nil ?h z l" by (subst tree_at_cong [of l ?h h1], rule ho) (use tr1 dist rR in auto)
  have yR: "y \<noteq> rt nil ?R" "z \<noteq> y" "z \<noteq> rt nil ?R" using rR dist by auto
  have R': "tree_at nil ?h y ?R"
  proof (rule tree_at_reparent [OF tr1(2)])
    show "?h x = h1 x" if "x \<in> set (inorder ?R)" "x \<noteq> rt nil ?R" for x by (rule ho) (use that dist in auto)
  qed (use dist M(2) yR in auto)
  have f: "parent ?h z = up nil C" "n_left (?h z) = rt nil l" "n_col (?h z) = c" "n_right (?h y) = rt nil ?R" using N1 yR M(2) by simp_all
  note Z = replace_zip [OF c' f(1-3) N(1) l' l R' f(4) M(1,2) N(7) dist _ t]
  have z2: "zip_at nil (T', h') C (Nd c l y ?R)" "rt_len T' = rt_len T1" "x \<notin> members C (Nd c l y ?R) \<Longrightarrow> h' x = ?h x" for x using Z nm by auto
  have z3: "zip_at nil (T', h') (D @ CR l c y # C) e" using zip_append [of nil "(T', h')" "CR l c y # C" D e] z2(1) by (simp add: zip_CR)
  have "nil \<notin> members C (Nd c l y ?R)" using nm by (auto simp: members_def inorder_plug)
  moreover have "nil \<noteq> rt nil ?R" using rR nm(4) by metis
  ultimately have nil': "h' nil = h1 nil" using z2(3) [of nil] ho [of nil] nm(5) by simp
  have par: "parent h' (rt nil e) = up nil (D @ CR l c y # C)"
    using zip_root_parent [OF z3] A(2) parent_cong [of h' nil h1] nil' up_append [OF D(2)] by (cases "e = Lf") auto
  have "h' x = h x" if x: "x \<notin> members C (Nd c l z ?r)" "x \<noteq> nil" for x
  proof -
    have "x \<notin> members C (Nd c l y ?R)" "x \<noteq> y" "x \<noteq> rt nil ?R" "x \<notin> members (D @ CR l c z # C) (Nd d Lf y e)"
      using x(1) rR ir by (auto simp: members_def inorder_plug sides_append)
    then show ?thesis using z2(3) ho A(4) x(2) by simp
  qed
  then have "unlinked nil C (Nd c l z ?r) s (T', h') (D @ CR l c y # C) e"
    using z3 z2(2) par nil' A(3,5) s by (auto simp: unlinked_def)
  then show ?thesis using u' by auto
qed

text \<open>A position that lacks one black node.\<close>

definition lost :: "crumb list \<Rightarrow> tr \<Rightarrow> bool" where
  "lost C t \<longleftrightarrow> crbc C \<and> (\<exists>n. bal t n \<and> cbal C (Suc n))"

lemma other_node: "ccol (D @ CR l c z # C) = ccol (D @ CR l c y # C)" "crbc (D @ CR l c z # C) = crbc (D @ CR l c y # C)"
  "cbal (D @ CR l c z # C) n = cbal (D @ CR l c y # C) n"
proof -
  show cc: "ccol (D @ CR l c z # C) = ccol (D @ CR l c y # C)" for D by (cases D rule: before.cases) auto
  show "crbc (D @ CR l c z # C) = crbc (D @ CR l c y # C)" by (induction D rule: before.induct) (simp_all add: cc)
  show "cbal (D @ CR l c z # C) n = cbal (D @ CR l c y # C) n" by (induction D arbitrary: n rule: before.induct) simp_all
qed

lemma lost_child: "rbc (plug C (Nd Black l x r)) \<Longrightarrow> bal (plug C (Nd Black l x r)) m \<Longrightarrow> V = l \<or> V = r \<Longrightarrow> lost C V"
  using bal_plug [of C "Nd Black l x r"] by (auto simp: lost_def rbc_plug gr0_conv_Suc)

lemma unlink_zip:
  assumes zip: "zip_at nil s C (Nd c l z r)"
  defines "t \<equiv> Nd c l z r"
  shows "\<exists>yc s' C' t'. unlink nil z s = Some (rt nil t', yc, s') \<and> unlinked nil C t s s' C' t' \<and>
    inorder (plug C' t') = before C @ inorder l @ inorder r @ behind C \<and>
    (rb_ok (plug C t) \<longrightarrow> yc = Black \<longrightarrow> lost C' t') \<and> (col_of (plug C t) = Black \<longrightarrow> yc = Red \<longrightarrow> col_of (plug C' t') = Black)"
proof (cases "l = Lf \<or> r = Lf")
  case True
  then obtain V where V: "V = l \<and> r = Lf \<or> V = r \<and> l = Lf" by blast
  then obtain s' where s': "unlink nil z s = Some (rt nil V, c, s')" "unlinked nil C t s s' C V" using unlink_outer [OF zip V] t_def by blast
  have "lost C V" if "rb_ok (plug C t)" "c = Black" using that lost_child [of C l z r _ V] V by (auto simp: rb_ok_def t_def)
  moreover have "col_of (plug C V) = Black" if "col_of (plug C t) = Black" "c = Red"
    using that root_col_plug [of C V t] by (cases "C = []") (auto simp: t_def)
  moreover have "inorder (plug C V) = before C @ inorder l @ inorder r @ behind C" using V by (auto simp: inorder_plug)
  ultimately show ?thesis using s' by blast
next
  case False
  then obtain D d y e where r: "r = plug D (Nd d Lf y e)" "before D = []" using leftmost by blast
  let ?C = "D @ CR l c y # C"
  have "\<exists>s'. unlink nil z s = Some (rt nil e, d, s') \<and> unlinked nil C t s s' ?C e"
    using unlink_next [of nil s C c l z d y e] unlink_deep [of nil s C c l z D d y e] zip False r by (cases "D = []") (auto simp: t_def)
  then obtain s' where s': "unlink nil z s = Some (rt nil e, d, s')" "unlinked nil C t s s' ?C e" by blast
  have pt: "plug C t = plug (D @ CR l c z # C) (Nd d Lf y e)" by (simp add: plug_append t_def r)
  have "lost ?C e" if "rb_ok (plug C t)" "d = Black"
    using that lost_child [of "D @ CR l c z # C" Lf y e _ e] by (auto simp: rb_ok_def pt lost_def other_node [where z = z and y = y])
  moreover have "col_of (plug ?C e) = Black" if "col_of (plug C t) = Black"
    using that root_col_plug [of C "Nd c l y (plug D e)" t] by (cases "C = []") (auto simp: t_def plug_append)
  moreover have "inorder (plug ?C e) = before C @ inorder l @ inorder r @ behind C" using r by (simp add: inorder_plug sides_append)
  ultimately show ?thesis using s' by blast
qed

section \<open>Repair\<close>

text \<open>The two parts of a round at a left child: a red sibling is rotated up, then the black sibling is treated.\<close>

definition sibling_L :: "u64 \<Rightarrow> u64 \<Rightarrow> rb \<Rightarrow> u64 \<times> rb" where
  "sibling_L nil x = (\<lambda>(T, h).
     let w = n_right (h (parent h x)) in
     if n_col (h w) = Red then
       (let h = set_col h w Black;
            h = set_col h (parent h x) Red;
            (T, h) = leftRotate nil (parent h x) (T, h) in
        (n_right (h (parent h x)), (T, h)))
     else (w, (T, h)))"

definition repair_L :: "u64 \<Rightarrow> u64 \<Rightarrow> u64 \<Rightarrow> rb \<Rightarrow> u64 \<times> rb" where
  "repair_L nil x w = (\<lambda>(T, h).
     if n_col (h (n_left (h w))) = Black \<and> n_col (h (n_right (h w))) = Black then
       (let h = set_col h w Red in (parent h x, (T, h)))
     else
       (let (w, (T, h)) =
              (if n_col (h (n_right (h w))) = Black then
                 (let h = set_col h (n_left (h w)) Black;
                      h = set_col h w Red;
                      (T, h) = rightRotate nil w (T, h) in
                  (n_right (h (parent h x)), (T, h)))
               else (w, (T, h)));
            h = (if n_col (h (parent h x)) = Red then set_col h w Red else set_col h w Black);
            h = set_col h (parent h x) Black;
            h = set_col h (n_right (h w)) Black;
            (T, h) = leftRotate nil (parent h x) (T, h) in
        (rt_root T, (T, h))))"

definition sibling_R :: "u64 \<Rightarrow> u64 \<Rightarrow> rb \<Rightarrow> u64 \<times> rb" where
  "sibling_R nil x = (\<lambda>(T, h).
     let w = n_left (h (parent h x)) in
     if n_col (h w) = Red then
       (let h = set_col h w Black;
            h = set_col h (parent h w) Red;
            (T, h) = rightRotate nil (parent h x) (T, h) in
        (n_left (h (parent h x)), (T, h)))
     else (w, (T, h)))"

definition repair_R :: "u64 \<Rightarrow> u64 \<Rightarrow> u64 \<Rightarrow> rb \<Rightarrow> u64 \<times> rb" where
  "repair_R nil x w = (\<lambda>(T, h).
     if n_col (h (n_right (h w))) = Black \<and> n_col (h (n_left (h w))) = Black then
       (let h = set_col h w Red in (parent h x, (T, h)))
     else
       (let (w, (T, h)) =
              (if n_col (h (n_left (h w))) = Black then
                 (let h = set_col h (n_right (h w)) Black;
                      h = set_col h w Red;
                      (T, h) = leftRotate nil w (T, h) in
                  (n_left (h (parent h x)), (T, h)))
               else (w, (T, h)));
            h = (if n_col (h (parent h x)) = Red then set_col h w Red else set_col h w Black);
            h = set_col h (parent h x) Black;
            h = set_col h (n_left (h w)) Black;
            (T, h) = rightRotate nil (parent h x) (T, h) in
        (rt_root T, (T, h))))"

lemma eraseFixup_round_parts:
  "eraseFixup_round nil x (T, h) =
    (if x = n_left (h (parent h x)) then (case sibling_L nil x (T, h) of (w, s) \<Rightarrow> repair_L nil x w s)
     else (case sibling_R nil x (T, h) of (w, s) \<Rightarrow> repair_R nil x w s))"
  unfolding eraseFixup_round_def sibling_L_def repair_L_def sibling_R_def repair_R_def
  by (simp add: Let_def split: prod.splits)

text \<open>A red sibling becomes the parent of the parent.\<close>

lemma sibling_L_red:
  assumes zip: "zip_at nil s (CL c p (Nd Red wl w wr) # C) t" and x: "parent (snd s) (rt nil t) = p"
  shows "\<exists>s'. sibling_L nil (rt nil t) s = (rt nil wl, s') \<and> zip_at nil s' (CL Red p wl # CL Black w wr # C) t \<and>
    parent (snd s') (rt nil t) = p \<and> only (members C (Nd c t p (Nd Red wl w wr))) s s'"
proof -
  obtain T h where s: "s = (T, h)" by (metis surj_pair)
  note zp = zip_upL [OF zip]
  note zw = zip_downR [OF zp]
  have n: "n_right (h p) = w" "n_col (h w) = Red" "parent h w = p" using zip_node [OF zp] zip_node [OF zw] by (simp_all add: s)
  note a = paint_zip [OF zw, of Black]
  note b = paint_zip [OF zip_upR [OF a(1)], of Red]
  note r = rotate_left [OF b(1)]
  let ?s = "leftRotate nil p (paint p Red (paint w Black s))"
  have o: "only (members C (Nd c t p (Nd Red wl w wr))) s ?s" using a(2) b(2) r(2) by (auto simp: members_def inorder_plug intro: only_trans)
  have z': "zip_at nil ?s (CL Red p wl # CL Black w wr # C) t" using r(1) by (simp add: zip_CL)
  have par: "parent (snd ?s) (rt nil t) = p"
  proof (cases "t = Lf")
    case True
    have "snd ?s nil = snd s nil" using o zip_nil [OF zp] by (simp add: only_def)
    then show ?thesis using x True parent_cong [of "snd ?s" nil "snd s"] by simp
  qed (use zip_root_parent [OF z'] in simp)
  have "n_right (snd ?s p) = rt nil wl" using zip_node(4) [OF zip_upL [OF z']] .
  then have "sibling_L nil (rt nil t) s = (rt nil wl, ?s)"
    using n x par unfolding sibling_L_def by (simp add: s Let_def paint_eq case_prod_beta)
  then show ?thesis using o z' par by blast
qed

text \<open>A black sibling: with black children it becomes red and the loss moves up; otherwise rotations end the repair.\<close>

lemma repair_L_black:
  assumes zip: "zip_at nil s (CL c p (Nd Black wl w wr) # C) t" and x: "parent (snd s) (rt nil t) = p" and nil: "n_col (snd s nil) = Black"
    and b: "col_of wl = Black" "col_of wr = Black"
  shows "\<exists>s'. repair_L nil (rt nil t) w s = (p, s') \<and> zip_at nil s' C (Nd c t p (Nd Red wl w wr)) \<and> only (members C (Nd c t p (Nd Black wl w wr))) s s'"
proof -
  obtain T h where s: "s = (T, h)" by (metis surj_pair)
  note zp = zip_upL [OF zip]
  note zw = zip_downR [OF zp]
  have n: "n_left (h w) = rt nil wl" "n_right (h w) = rt nil wr" "n_col (h (rt nil wl)) = Black" "n_col (h (rt nil wr)) = Black"
    using zip_node [OF zw] zip_root_col [OF zip_downL [OF zw] nil] zip_root_col [OF zip_downR [OF zw] nil] b by (simp_all add: s)
  note a = paint_zip [OF zw, of Red]
  have "repair_L nil (rt nil t) w s = (p, paint w Red s)" using n x by (simp add: repair_L_def s Let_def paint_eq)
  moreover have "zip_at nil (paint w Red s) C (Nd c t p (Nd Red wl w wr))" by (rule zip_upR [OF a(1)])
  ultimately show ?thesis using a(2) by (auto simp: members_def inorder_plug)
qed

lemma repair_L_far:
  assumes zip: "zip_at nil s (CL c p (Nd d wl w (Nd Red a v b)) # C) t" and x: "parent (snd s) (rt nil t) = p" and nil: "n_col (snd s nil) = Black"
  shows "\<exists>s'. repair_L nil (rt nil t) w s = (rt_root (fst s'), s') \<and> zip_at nil s' C (Nd c (Nd Black t p wl) w (Nd Black a v b)) \<and>
    only (members C (Nd c t p (Nd d wl w (Nd Red a v b)))) s s'"
proof -
  obtain T h where s: "s = (T, h)" by (metis surj_pair)
  note zp = zip_upL [OF zip]
  note zw = zip_downR [OF zp]
  note zv = zip_downR [OF zw]
  have n: "n_right (h w) = v" "n_col (h v) = Red" "n_col (h p) = c" "p \<noteq> w" "p \<noteq> v" "v \<noteq> w"
    using zip_node [OF zw] zip_node [OF zv] zip_node [OF zp] zip_distinct [OF zp] by (auto simp: s inorder_plug)
  note k1 = paint_zip [OF zw, of c]
  note k2 = paint_zip [OF zip_upR [OF k1(1)], of Black]
  note k3 = paint_zip [OF zip_downR [OF zip_downR [OF k2(1)]], of Black]
  note r = rotate_left [OF zip_upR [OF zip_upR [OF k3(1)]]]
  let ?s = "leftRotate nil p (paint v Black (paint p Black (paint w c s)))"
  have o: "only (members C (Nd c t p (Nd d wl w (Nd Red a v b)))) s ?s" using k1(2) k2(2) k3(2) r(2) by (auto simp: members_def inorder_plug intro: only_trans)
  have "repair_L nil (rt nil t) w s = (rt_root (fst ?s), ?s)"
    using n x by (cases c) (auto simp: repair_L_def s Let_def paint_eq case_prod_beta)
  then show ?thesis using o r(1) by blast
qed

lemma repair_L_near:
  assumes zip: "zip_at nil s (CL c p (Nd d (Nd Red a v b) w wr) # C) t" and x: "parent (snd s) (rt nil t) = p" and nil: "n_col (snd s nil) = Black"
    and wr: "col_of wr = Black"
  shows "\<exists>s'. repair_L nil (rt nil t) w s = (rt_root (fst s'), s') \<and> zip_at nil s' C (Nd c (Nd Black t p a) v (Nd Black b w wr)) \<and>
    only (members C (Nd c t p (Nd d (Nd Red a v b) w wr))) s s'"
proof -
  obtain T h where s: "s = (T, h)" by (metis surj_pair)
  note zp = zip_upL [OF zip]
  note zw = zip_downR [OF zp]
  note zv = zip_downL [OF zw]
  have n: "n_left (h w) = v" "n_right (h w) = rt nil wr" "n_col (h (rt nil wr)) = Black" "n_col (h v) = Red"
    using zip_node [OF zw] zip_node [OF zv] zip_root_col [OF zip_downR [OF zw] nil] wr by (simp_all add: s)
  note k1 = paint_zip [OF zv, of Black]
  note k2 = paint_zip [OF zip_upL [OF k1(1)], of Red]
  note r1 = rotate_right [OF k2(1)]
  let ?s1 = "rightRotate nil w (paint w Red (paint v Black s))"
  obtain T1 h1 where s1: "?s1 = (T1, h1)" by (metis surj_pair)
  have o1: "only (members C (Nd c t p (Nd d (Nd Red a v b) w wr))) s ?s1" using k1(2) k2(2) r1(2) by (auto simp: members_def inorder_plug intro: only_trans)
  have z1: "zip_at nil ?s1 (CL c p (Nd Black a v (Nd Red b w wr)) # C) t" using zip_upR [OF r1(1)] by (simp add: zip_CL)
  have par: "parent h1 (rt nil t) = p"
  proof (cases "t = Lf")
    case True
    have "snd ?s1 nil = snd s nil" using o1 zip_nil [OF zp] by (simp add: only_def)
    then show ?thesis using x True parent_cong [of "snd ?s1" nil "snd s"] by (simp add: s1)
  qed (use zip_root_parent [OF z1] s1 in simp)
  have n1: "n_right (h1 p) = v" "n_right (h1 v) = w" "n_col (h1 p) = c" "n_col (h1 w) = Red"
    using zip_node [OF zip_upR [OF r1(1)]] zip_node [OF r1(1)] zip_node [OF zip_downR [OF r1(1)]] by (simp_all add: s1)
  have ne: "p \<noteq> v" "p \<noteq> w" "v \<noteq> w" using zip_distinct [OF zp] by (auto simp: inorder_plug)
  note k3 = paint_zip [OF r1(1), of c]
  note k4 = paint_zip [OF zip_upR [OF k3(1)], of Black]
  note k5 = paint_zip [OF zip_downR [OF zip_downR [OF k4(1)]], of Black]
  note r = rotate_left [OF zip_upR [OF zip_upR [OF k5(1)]]]
  let ?s = "leftRotate nil p (paint w Black (paint p Black (paint v c ?s1)))"
  have "only (members C (Nd c t p (Nd d (Nd Red a v b) w wr))) ?s1 ?s" using k3(2) k4(2) k5(2) r(2) by (auto simp: members_def inorder_plug intro: only_trans)
  then have o: "only (members C (Nd c t p (Nd d (Nd Red a v b) w wr))) s ?s" using only_trans [OF o1] by blast
  have "repair_L nil (rt nil t) w s = (rt_root (fst ?s), ?s)"
    using n n1 ne x par s1 by (cases c) (auto simp: repair_L_def s Let_def paint_eq case_prod_beta)
  then show ?thesis using o r(1) by blast
qed

text \<open>The same at a right child.\<close>

lemma sibling_R_red:
  assumes zip: "zip_at nil s (CR (Nd Red wr w wl) c p # C) t" and x: "parent (snd s) (rt nil t) = p"
  shows "\<exists>s'. sibling_R nil (rt nil t) s = (rt nil wl, s') \<and> zip_at nil s' (CR wl Red p # CR wr Black w # C) t \<and>
    parent (snd s') (rt nil t) = p \<and> only (members C (Nd c (Nd Red wr w wl) p t)) s s'"
proof -
  obtain T h where s: "s = (T, h)" by (metis surj_pair)
  note zp = zip_upR [OF zip]
  note zw = zip_downL [OF zp]
  have n: "n_left (h p) = w" "n_col (h w) = Red" "parent h w = p" using zip_node [OF zp] zip_node [OF zw] by (simp_all add: s)
  note a = paint_zip [OF zw, of Black]
  note b = paint_zip [OF zip_upL [OF a(1)], of Red]
  note r = rotate_right [OF b(1)]
  let ?s = "rightRotate nil p (paint p Red (paint w Black s))"
  have o: "only (members C (Nd c (Nd Red wr w wl) p t)) s ?s" using a(2) b(2) r(2) by (auto simp: members_def inorder_plug intro: only_trans)
  have z': "zip_at nil ?s (CR wl Red p # CR wr Black w # C) t" using r(1) by (simp add: zip_CR)
  have par: "parent (snd ?s) (rt nil t) = p"
  proof (cases "t = Lf")
    case True
    have "snd ?s nil = snd s nil" using o zip_nil [OF zp] by (simp add: only_def)
    then show ?thesis using x True parent_cong [of "snd ?s" nil "snd s"] by simp
  qed (use zip_root_parent [OF z'] in simp)
  have "n_left (snd ?s p) = rt nil wl" using zip_node(3) [OF zip_upR [OF z']] .
  then have "sibling_R nil (rt nil t) s = (rt nil wl, ?s)"
    using n x par unfolding sibling_R_def by (simp add: s Let_def paint_eq case_prod_beta)
  then show ?thesis using o z' par by blast
qed

lemma repair_R_black:
  assumes zip: "zip_at nil s (CR (Nd Black wr w wl) c p # C) t" and x: "parent (snd s) (rt nil t) = p" and nil: "n_col (snd s nil) = Black"
    and b: "col_of wl = Black" "col_of wr = Black"
  shows "\<exists>s'. repair_R nil (rt nil t) w s = (p, s') \<and> zip_at nil s' C (Nd c (Nd Red wr w wl) p t) \<and> only (members C (Nd c (Nd Black wr w wl) p t)) s s'"
proof -
  obtain T h where s: "s = (T, h)" by (metis surj_pair)
  note zp = zip_upR [OF zip]
  note zw = zip_downL [OF zp]
  have n: "n_right (h w) = rt nil wl" "n_left (h w) = rt nil wr" "n_col (h (rt nil wl)) = Black" "n_col (h (rt nil wr)) = Black"
    using zip_node [OF zw] zip_root_col [OF zip_downR [OF zw] nil] zip_root_col [OF zip_downL [OF zw] nil] b by (simp_all add: s)
  note a = paint_zip [OF zw, of Red]
  have "repair_R nil (rt nil t) w s = (p, paint w Red s)" using n x by (simp add: repair_R_def s Let_def paint_eq)
  moreover have "zip_at nil (paint w Red s) C (Nd c (Nd Red wr w wl) p t)" by (rule zip_upL [OF a(1)])
  ultimately show ?thesis using a(2) by (auto simp: members_def inorder_plug)
qed

lemma repair_R_far:
  assumes zip: "zip_at nil s (CR (Nd d (Nd Red b v a) w wl) c p # C) t" and x: "parent (snd s) (rt nil t) = p" and nil: "n_col (snd s nil) = Black"
  shows "\<exists>s'. repair_R nil (rt nil t) w s = (rt_root (fst s'), s') \<and> zip_at nil s' C (Nd c (Nd Black b v a) w (Nd Black wl p t)) \<and>
    only (members C (Nd c (Nd d (Nd Red b v a) w wl) p t)) s s'"
proof -
  obtain T h where s: "s = (T, h)" by (metis surj_pair)
  note zp = zip_upR [OF zip]
  note zw = zip_downL [OF zp]
  note zv = zip_downL [OF zw]
  have n: "n_left (h w) = v" "n_col (h v) = Red" "n_col (h p) = c" "p \<noteq> w" "p \<noteq> v" "v \<noteq> w"
    using zip_node [OF zw] zip_node [OF zv] zip_node [OF zp] zip_distinct [OF zp] by (auto simp: s inorder_plug)
  note k1 = paint_zip [OF zw, of c]
  note k2 = paint_zip [OF zip_upL [OF k1(1)], of Black]
  note k3 = paint_zip [OF zip_downL [OF zip_downL [OF k2(1)]], of Black]
  note r = rotate_right [OF zip_upL [OF zip_upL [OF k3(1)]]]
  let ?s = "rightRotate nil p (paint v Black (paint p Black (paint w c s)))"
  have o: "only (members C (Nd c (Nd d (Nd Red b v a) w wl) p t)) s ?s" using k1(2) k2(2) k3(2) r(2) by (auto simp: members_def inorder_plug intro: only_trans)
  have "repair_R nil (rt nil t) w s = (rt_root (fst ?s), ?s)"
    using n x by (cases c) (auto simp: repair_R_def s Let_def paint_eq case_prod_beta)
  then show ?thesis using o r(1) by blast
qed

lemma repair_R_near:
  assumes zip: "zip_at nil s (CR (Nd d wr w (Nd Red b v a)) c p # C) t" and x: "parent (snd s) (rt nil t) = p" and nil: "n_col (snd s nil) = Black"
    and wr: "col_of wr = Black"
  shows "\<exists>s'. repair_R nil (rt nil t) w s = (rt_root (fst s'), s') \<and> zip_at nil s' C (Nd c (Nd Black wr w b) v (Nd Black a p t)) \<and>
    only (members C (Nd c (Nd d wr w (Nd Red b v a)) p t)) s s'"
proof -
  obtain T h where s: "s = (T, h)" by (metis surj_pair)
  note zp = zip_upR [OF zip]
  note zw = zip_downL [OF zp]
  note zv = zip_downR [OF zw]
  have n: "n_right (h w) = v" "n_left (h w) = rt nil wr" "n_col (h (rt nil wr)) = Black" "n_col (h v) = Red"
    using zip_node [OF zw] zip_node [OF zv] zip_root_col [OF zip_downL [OF zw] nil] wr by (simp_all add: s)
  note k1 = paint_zip [OF zv, of Black]
  note k2 = paint_zip [OF zip_upR [OF k1(1)], of Red]
  note r1 = rotate_left [OF k2(1)]
  let ?s1 = "leftRotate nil w (paint w Red (paint v Black s))"
  obtain T1 h1 where s1: "?s1 = (T1, h1)" by (metis surj_pair)
  have o1: "only (members C (Nd c (Nd d wr w (Nd Red b v a)) p t)) s ?s1" using k1(2) k2(2) r1(2) by (auto simp: members_def inorder_plug intro: only_trans)
  have z1: "zip_at nil ?s1 (CR (Nd Black (Nd Red wr w b) v a) c p # C) t" using zip_upL [OF r1(1)] by (simp add: zip_CR)
  have par: "parent h1 (rt nil t) = p"
  proof (cases "t = Lf")
    case True
    have "snd ?s1 nil = snd s nil" using o1 zip_nil [OF zp] by (simp add: only_def)
    then show ?thesis using x True parent_cong [of "snd ?s1" nil "snd s"] by (simp add: s1)
  qed (use zip_root_parent [OF z1] s1 in simp)
  have n1: "n_left (h1 p) = v" "n_left (h1 v) = w" "n_col (h1 p) = c" "n_col (h1 w) = Red"
    using zip_node [OF zip_upL [OF r1(1)]] zip_node [OF r1(1)] zip_node [OF zip_downL [OF r1(1)]] by (simp_all add: s1)
  have ne: "p \<noteq> v" "p \<noteq> w" "v \<noteq> w" using zip_distinct [OF zp] by (auto simp: inorder_plug)
  note k3 = paint_zip [OF r1(1), of c]
  note k4 = paint_zip [OF zip_upL [OF k3(1)], of Black]
  note k5 = paint_zip [OF zip_downL [OF zip_downL [OF k4(1)]], of Black]
  note r = rotate_right [OF zip_upL [OF zip_upL [OF k5(1)]]]
  let ?s = "rightRotate nil p (paint w Black (paint p Black (paint v c ?s1)))"
  have "only (members C (Nd c (Nd d wr w (Nd Red b v a)) p t)) ?s1 ?s" using k3(2) k4(2) k5(2) r(2) by (auto simp: members_def inorder_plug intro: only_trans)
  then have o: "only (members C (Nd c (Nd d wr w (Nd Red b v a)) p t)) s ?s" using only_trans [OF o1] by blast
  have "repair_R nil (rt nil t) w s = (rt_root (fst ?s), ?s)"
    using n n1 ne x par s1 by (cases c) (auto simp: repair_R_def s Let_def paint_eq case_prod_beta)
  then show ?thesis using o r(1) by blast
qed

text \<open>A round leaves the same nodes in the same order, seen from another position.\<close>

definition moved :: "u64 \<Rightarrow> crumb list \<Rightarrow> tr \<Rightarrow> rb \<Rightarrow> crumb list \<Rightarrow> tr \<Rightarrow> rb \<Rightarrow> bool" where
  "moved nil C t s C' t' s' \<longleftrightarrow> zip_at nil s' C' t' \<and> parent (snd s') (rt nil t') = up nil C' \<and>
     inorder (plug C' t') = inorder (plug C t) \<and> only (members C t) s s'"

lemma moved_root:
  assumes "zip_at nil s' C0 t0" "t0 \<noteq> Lf" "inorder (plug C0 t0) = inorder (plug C t)" "only (members C t) s s'"
  shows "moved nil C t s [] (plug C0 t0) s' \<and> rt_root (fst s') = rt nil (plug C0 t0)"
proof -
  have z: "zip_at nil s' [] (plug C0 t0)" using assms(1) zip_plug by blast
  have "inorder t0 \<noteq> []" using assms(2) by (cases t0) auto
  then have "inorder (plug C0 t0) \<noteq> []" by (simp add: inorder_plug)
  then have "plug C0 t0 \<noteq> Lf" by (cases "plug C0 t0") auto
  then show ?thesis using z zip_root_parent [OF z] assms(3,4) by (simp add: moved_def zip_at_def)
qed

lemma repair_L_ok:
  assumes zip: "zip_at nil s (CL c p W # C) t" and x: "parent (snd s) (rt nil t) = p" and nil: "n_col (snd s nil) = Black"
    and W: "col_of W = Black" "bal W (Suc n)"
  shows "\<exists>s' C' t'. repair_L nil (rt nil t) (rt nil W) s = (rt nil t', s') \<and> moved nil (CL c p W # C) t s C' t' s' \<and>
    (C' = [] \<or> C' = C \<and> (\<exists>W'. t' = Nd c t p W' \<and> bal W' n))"
proof -
  obtain wl w wr where w: "W = Nd Black wl w wr" using W by (cases W) auto
  consider (black) "col_of wl = Black" "col_of wr = Black" | (far) a v b where "wr = Nd Red a v b" | (near) a v b where "wl = Nd Red a v b" "col_of wr = Black"
    by (cases wl; cases wr) (metis col_of.simps col.exhaust)+
  then show ?thesis
  proof cases
    case black
    obtain s' where s': "repair_L nil (rt nil t) w s = (p, s')" "zip_at nil s' C (Nd c t p (Nd Red wl w wr))" "only (members C (Nd c t p (Nd Black wl w wr))) s s'"
      using repair_L_black [OF zip [unfolded w] x nil black] by blast
    have "moved nil (CL c p W # C) t s C (Nd c t p (Nd Red wl w wr)) s'"
      using s'(2,3) zip_root_parent [OF s'(2)] w by (auto simp: moved_def inorder_plug)
    then show ?thesis using s'(1) W w by (intro exI [of _ s'] exI [of _ C] exI [of _ "Nd c t p (Nd Red wl w wr)"]) auto
  next
    case far
    obtain s' where s': "repair_L nil (rt nil t) w s = (rt_root (fst s'), s')" "zip_at nil s' C (Nd c (Nd Black t p wl) w (Nd Black a v b))"
      "only (members C (Nd c t p (Nd Black wl w (Nd Red a v b)))) s s'"
      using repair_L_far [OF zip [unfolded w far] x nil] by blast
    have "moved nil (CL c p W # C) t s [] (plug C (Nd c (Nd Black t p wl) w (Nd Black a v b))) s' \<and> rt_root (fst s') = rt nil (plug C (Nd c (Nd Black t p wl) w (Nd Black a v b)))"
      using moved_root [OF s'(2), of "CL c p W # C" t s] s'(3) w far by (simp add: inorder_plug)
    then show ?thesis using s'(1) w by (intro exI [of _ s'] exI [of _ "[]"] exI [of _ "plug C (Nd c (Nd Black t p wl) w (Nd Black a v b))"]) simp
  next
    case near
    obtain s' where s': "repair_L nil (rt nil t) w s = (rt_root (fst s'), s')" "zip_at nil s' C (Nd c (Nd Black t p a) v (Nd Black b w wr))"
      "only (members C (Nd c t p (Nd Black (Nd Red a v b) w wr))) s s'"
      using repair_L_near [OF zip [unfolded w near(1)] x nil near(2)] by blast
    have "moved nil (CL c p W # C) t s [] (plug C (Nd c (Nd Black t p a) v (Nd Black b w wr))) s' \<and> rt_root (fst s') = rt nil (plug C (Nd c (Nd Black t p a) v (Nd Black b w wr)))"
      using moved_root [OF s'(2), of "CL c p W # C" t s] s'(3) w near by (simp add: inorder_plug)
    then show ?thesis using s'(1) w by (intro exI [of _ s'] exI [of _ "[]"] exI [of _ "plug C (Nd c (Nd Black t p a) v (Nd Black b w wr))"]) simp
  qed
qed

lemma erase_round_L:
  assumes zip: "zip_at nil s (CL c p W # C) t" and x: "parent (snd s) (rt nil t) = p" and nil: "n_col (snd s nil) = Black"
    and lost: "lost (CL c p W # C) t"
  shows "\<exists>s' C' t'. eraseFixup_round nil (rt nil t) s = (rt nil t', s') \<and> moved nil (CL c p W # C) t s C' t' s' \<and>
    (C' = [] \<or> col_of t' = Red \<or> length C' < length (CL c p W # C) \<and> lost C' t')"
proof -
  obtain T h where s: "s = (T, h)" by (metis surj_pair)
  obtain n where n: "bal t n" "bal W (Suc n)" "cbal C (if c = Black then Suc (Suc n) else Suc n)" "rbc W" "c = Red \<Longrightarrow> col_of W = Black" "crbc C"
    using lost by (auto simp: lost_def)
  note N = zip_node [OF zip_upL [OF zip], unfolded s, simplified]
  have par: "parent h (rt nil t) = p" using x s by simp
  then have rd: "eraseFixup_round nil (rt nil t) s = (case sibling_L nil (rt nil t) s of (w, s) \<Rightarrow> repair_L nil (rt nil t) w s)"
    using N by (simp add: s eraseFixup_round_parts)
  show ?thesis
  proof (cases "col_of W")
    case Black
    have "sibling_L nil (rt nil t) s = (rt nil W, s)"
      using N par zip_root_col [OF zip_downR [OF zip_upL [OF zip]] nil] Black by (simp add: sibling_L_def s Let_def)
    moreover obtain s' C' t' where r: "repair_L nil (rt nil t) (rt nil W) s = (rt nil t', s')" "moved nil (CL c p W # C) t s C' t' s'"
      "C' = [] \<or> C' = C \<and> (\<exists>W'. t' = Nd c t p W' \<and> bal W' n)" using repair_L_ok [OF zip x nil Black n(2)] by blast
    moreover have "lost C (Nd c t p W')" if "bal W' n" for W' using that n by (cases c) (auto simp: lost_def)
    ultimately show ?thesis using rd by (intro exI [of _ s'] exI [of _ C'] exI [of _ t']) auto
  next
    case Red
    then obtain wl w wr where w: "W = Nd Red wl w wr" by (cases W) auto
    obtain s1 where s1: "sibling_L nil (rt nil t) s = (rt nil wl, s1)" "zip_at nil s1 (CL Red p wl # CL Black w wr # C) t" "parent (snd s1) (rt nil t) = p"
      "only (members C (Nd c t p (Nd Red wl w wr))) s s1" using sibling_L_red [OF zip [unfolded w] x] by blast
    have "nil \<notin> members C (Nd c t p (Nd Red wl w wr))" using zip_nil [OF zip] w by simp
    then have nil1: "n_col (snd s1 nil) = Black" using s1(4) nil by (simp add: only_def)
    have wl: "col_of wl = Black" "bal wl (Suc n)" using n w by auto
    obtain s' C' t' where r: "repair_L nil (rt nil t) (rt nil wl) s1 = (rt nil t', s')" "moved nil (CL Red p wl # CL Black w wr # C) t s1 C' t' s'"
      "C' = [] \<or> C' = CL Black w wr # C \<and> (\<exists>W'. t' = Nd Red t p W' \<and> bal W' n)" using repair_L_ok [OF s1(2,3) nil1 wl] by blast
    have o: "only (members C (Nd c t p W)) s s'" using s1(4) r(2) w by (auto simp: moved_def members_def inorder_plug intro: only_trans)
    then have "moved nil (CL c p W # C) t s C' t' s'" using r(2) w by (auto simp: moved_def inorder_plug)
    then show ?thesis using rd s1(1) r(1,3) by (intro exI [of _ s'] exI [of _ C'] exI [of _ t']) auto
  qed
qed

lemma repair_R_ok:
  assumes zip: "zip_at nil s (CR W c p # C) t" and x: "parent (snd s) (rt nil t) = p" and nil: "n_col (snd s nil) = Black"
    and W: "col_of W = Black" "bal W (Suc n)"
  shows "\<exists>s' C' t'. repair_R nil (rt nil t) (rt nil W) s = (rt nil t', s') \<and> moved nil (CR W c p # C) t s C' t' s' \<and>
    (C' = [] \<or> C' = C \<and> (\<exists>W'. t' = Nd c W' p t \<and> bal W' n))"
proof -
  obtain wl w wr where w: "W = Nd Black wr w wl" using W by (cases W) auto
  consider (black) "col_of wl = Black" "col_of wr = Black" | (far) a v b where "wr = Nd Red b v a" | (near) a v b where "wl = Nd Red b v a" "col_of wr = Black"
    by (cases wl; cases wr) (metis col_of.simps col.exhaust)+
  then show ?thesis
  proof cases
    case black
    obtain s' where s': "repair_R nil (rt nil t) w s = (p, s')" "zip_at nil s' C (Nd c (Nd Red wr w wl) p t)" "only (members C (Nd c (Nd Black wr w wl) p t)) s s'"
      using repair_R_black [OF zip [unfolded w] x nil black] by blast
    have "moved nil (CR W c p # C) t s C (Nd c (Nd Red wr w wl) p t) s'"
      using s'(2,3) zip_root_parent [OF s'(2)] w by (auto simp: moved_def inorder_plug)
    then show ?thesis using s'(1) W w by (intro exI [of _ s'] exI [of _ C] exI [of _ "Nd c (Nd Red wr w wl) p t"]) auto
  next
    case far
    obtain s' where s': "repair_R nil (rt nil t) w s = (rt_root (fst s'), s')" "zip_at nil s' C (Nd c (Nd Black b v a) w (Nd Black wl p t))"
      "only (members C (Nd c (Nd Black (Nd Red b v a) w wl) p t)) s s'"
      using repair_R_far [OF zip [unfolded w far] x nil] by blast
    have "moved nil (CR W c p # C) t s [] (plug C (Nd c (Nd Black b v a) w (Nd Black wl p t))) s' \<and> rt_root (fst s') = rt nil (plug C (Nd c (Nd Black b v a) w (Nd Black wl p t)))"
      using moved_root [OF s'(2), of "CR W c p # C" t s] s'(3) w far by (simp add: inorder_plug)
    then show ?thesis using s'(1) w by (intro exI [of _ s'] exI [of _ "[]"] exI [of _ "plug C (Nd c (Nd Black b v a) w (Nd Black wl p t))"]) simp
  next
    case near
    obtain s' where s': "repair_R nil (rt nil t) w s = (rt_root (fst s'), s')" "zip_at nil s' C (Nd c (Nd Black wr w b) v (Nd Black a p t))"
      "only (members C (Nd c (Nd Black wr w (Nd Red b v a)) p t)) s s'"
      using repair_R_near [OF zip [unfolded w near(1)] x nil near(2)] by blast
    have "moved nil (CR W c p # C) t s [] (plug C (Nd c (Nd Black wr w b) v (Nd Black a p t))) s' \<and> rt_root (fst s') = rt nil (plug C (Nd c (Nd Black wr w b) v (Nd Black a p t)))"
      using moved_root [OF s'(2), of "CR W c p # C" t s] s'(3) w near by (simp add: inorder_plug)
    then show ?thesis using s'(1) w by (intro exI [of _ s'] exI [of _ "[]"] exI [of _ "plug C (Nd c (Nd Black wr w b) v (Nd Black a p t))"]) simp
  qed
qed

lemma erase_round_R:
  assumes zip: "zip_at nil s (CR W c p # C) t" and x: "parent (snd s) (rt nil t) = p" and nil: "n_col (snd s nil) = Black"
    and lost: "lost (CR W c p # C) t"
  shows "\<exists>s' C' t'. eraseFixup_round nil (rt nil t) s = (rt nil t', s') \<and> moved nil (CR W c p # C) t s C' t' s' \<and>
    (C' = [] \<or> col_of t' = Red \<or> length C' < length (CR W c p # C) \<and> lost C' t')"
proof -
  obtain T h where s: "s = (T, h)" by (metis surj_pair)
  obtain n where n: "bal t n" "bal W (Suc n)" "cbal C (if c = Black then Suc (Suc n) else Suc n)" "rbc W" "c = Red \<Longrightarrow> col_of W = Black" "crbc C"
    using lost by (auto simp: lost_def)
  note N = zip_node [OF zip_upR [OF zip], unfolded s, simplified]
  have par: "parent h (rt nil t) = p" using x s by simp
  then have rd: "eraseFixup_round nil (rt nil t) s = (case sibling_R nil (rt nil t) s of (w, s) \<Rightarrow> repair_R nil (rt nil t) w s)"
    using N zip_sides [OF zip_upR [OF zip]] n(2) by (cases W) (auto simp: s eraseFixup_round_parts)
  show ?thesis
  proof (cases "col_of W")
    case Black
    have "sibling_R nil (rt nil t) s = (rt nil W, s)"
      using N par zip_root_col [OF zip_downL [OF zip_upR [OF zip]] nil] Black by (simp add: sibling_R_def s Let_def)
    moreover obtain s' C' t' where r: "repair_R nil (rt nil t) (rt nil W) s = (rt nil t', s')" "moved nil (CR W c p # C) t s C' t' s'"
      "C' = [] \<or> C' = C \<and> (\<exists>W'. t' = Nd c W' p t \<and> bal W' n)" using repair_R_ok [OF zip x nil Black n(2)] by blast
    moreover have "lost C (Nd c W' p t)" if "bal W' n" for W' using that n by (cases c) (auto simp: lost_def)
    ultimately show ?thesis using rd by (intro exI [of _ s'] exI [of _ C'] exI [of _ t']) auto
  next
    case Red
    then obtain wl w wr where w: "W = Nd Red wr w wl" by (cases W) auto
    obtain s1 where s1: "sibling_R nil (rt nil t) s = (rt nil wl, s1)" "zip_at nil s1 (CR wl Red p # CR wr Black w # C) t" "parent (snd s1) (rt nil t) = p"
      "only (members C (Nd c (Nd Red wr w wl) p t)) s s1" using sibling_R_red [OF zip [unfolded w] x] by blast
    have "nil \<notin> members C (Nd c (Nd Red wr w wl) p t)" using zip_nil [OF zip] w by simp
    then have nil1: "n_col (snd s1 nil) = Black" using s1(4) nil by (simp add: only_def)
    have wl: "col_of wl = Black" "bal wl (Suc n)" using n w by auto
    obtain s' C' t' where r: "repair_R nil (rt nil t) (rt nil wl) s1 = (rt nil t', s')" "moved nil (CR wl Red p # CR wr Black w # C) t s1 C' t' s'"
      "C' = [] \<or> C' = CR wr Black w # C \<and> (\<exists>W'. t' = Nd Red W' p t \<and> bal W' n)" using repair_R_ok [OF s1(2,3) nil1 wl] by blast
    have o: "only (members C (Nd c W p t)) s s'" using s1(4) r(2) w by (auto simp: moved_def members_def inorder_plug intro: only_trans)
    then have "moved nil (CR W c p # C) t s C' t' s'" using r(2) w by (auto simp: moved_def inorder_plug)
    then show ?thesis using rd s1(1) r(1,3) by (intro exI [of _ s'] exI [of _ C'] exI [of _ t']) auto
  qed
qed

section \<open>The loop and the whole operation\<close>

lemma not_root:
  assumes zip: "zip_at nil s C t" and par: "parent (snd s) (rt nil t) = up nil C" and C: "C \<noteq> []"
  shows "rt nil t \<noteq> rt_root (fst s)"
proof -
  have z: "zip_at nil s [] (plug C t)" using zip zip_plug by blast
  have in_m: "up nil C \<in> members C t" using C by (cases C rule: before.cases) (auto simp: members_def inorder_plug)
  then have up: "up nil C \<noteq> nil" using zip_nil [OF zip] by metis
  have ne: "plug C t \<noteq> Lf" using in_m by (auto simp: members_def)
  have "parent (snd s) (rt nil (plug C t)) = nil" using zip_root_parent [OF z ne] by simp
  moreover have "rt_root (fst s) = rt nil (plug C t)" using z by (simp add: zip_at_def)
  ultimately show ?thesis using par up by auto
qed

lemma erase_round:
  assumes "zip_at nil s C t" "parent (snd s) (rt nil t) = up nil C" "n_col (snd s nil) = Black" "lost C t" "C \<noteq> []"
  shows "\<exists>s' C' t'. eraseFixup_round nil (rt nil t) s = (rt nil t', s') \<and> moved nil C t s C' t' s' \<and>
    (C' = [] \<or> col_of t' = Red \<or> length C' < length C \<and> lost C' t')"
proof (cases C rule: before.cases)
  case 1 then show ?thesis using assms(5) by simp
next
  case (2 c x r C0) then show ?thesis using erase_round_L [of nil s c x r C0 t] assms by simp
next
  case (3 l c x C0) then show ?thesis using erase_round_R [of nil s l c x C0 t] assms by simp
qed

lemma eraseFixup_loop_zip:
  assumes "zip_at nil s C t" "parent (snd s) (rt nil t) = up nil C" "n_col (snd s nil) = Black" "C = [] \<or> col_of t = Red \<or> lost C t"
  shows "\<exists>s' t'. eraseFixup_loop nil (rt nil t) s = Some s' \<and> zip_at nil s' [] t' \<and> inorder t' = inorder (plug C t) \<and> only (members C t) s s'"
  using assms
proof (induction "if col_of t = Red then 0 else length C" arbitrary: C t s rule: less_induct)
  case less
  have col: "n_col (snd s (rt nil t)) = col_of t" using zip_root_col less.prems(1,3) by blast
  show ?case
  proof (cases "C = [] \<or> col_of t = Red")
    case True
    then have "rt nil t = rt_root (fst s) \<or> col_of t = Red" using less.prems(1) by (auto simp: zip_at_def)
    then have "eraseFixup_loop nil (rt nil t) s = Some s" using col by (subst eraseFixup_loop.simps) auto
    then show ?thesis using less.prems(1) zip_plug [of nil s C t] by (intro exI [of _ s] exI [of _ "plug C t"]) auto
  next
    case False
    then have B: "col_of t = Black" by (metis (full_types) col.exhaust)
    obtain s1 C1 t1 where r: "eraseFixup_round nil (rt nil t) s = (rt nil t1, s1)" "moved nil C t s C1 t1 s1"
      "C1 = [] \<or> col_of t1 = Red \<or> length C1 < length C \<and> lost C1 t1"
      using erase_round [OF less.prems(1-3)] less.prems(4) False by blast
    have run: "eraseFixup_loop nil (rt nil t) s = eraseFixup_loop nil (rt nil t1) s1"
      using not_root [OF less.prems(1,2)] False B col r(1) by (subst eraseFixup_loop.simps) simp
    note m = r(2) [unfolded moved_def]
    have m1: "members C1 t1 = members C t" using m by (simp add: members_def)
    have nil: "n_col (snd s1 nil) = Black" using m zip_nil [OF less.prems(1)] less.prems(3) by (simp add: only_def)
    have "(if col_of t1 = Red then 0 else length C1) < (if col_of t = Red then 0 else length C)" using r(3) False B by auto
    then obtain s' t' where "eraseFixup_loop nil (rt nil t1) s1 = Some s'" "zip_at nil s' [] t'" "inorder t' = inorder (plug C1 t1)" "only (members C1 t1) s1 s'"
      using less.hyps [of t1 C1 s1] m nil r(3) by blast
    then show ?thesis using run m m1 by (intro exI [of _ s'] exI [of _ t']) (auto intro: only_trans)
  qed
qed

lemma eraseFixup_zip:
  assumes zip: "zip_at nil s C t" and par: "parent (snd s) (rt nil t) = up nil C" and nil: "n_col (snd s nil) = Black" and lost: "lost C t"
  shows "\<exists>s' t'. eraseFixup nil (rt nil t) s = Some s' \<and> zip_at nil s' [] t' \<and> col_of t' = Black \<and> inorder t' = inorder (plug C t) \<and> only (members C t) s s'"
proof -
  obtain s1 t1 where 1: "eraseFixup_loop nil (rt nil t) s = Some s1" "zip_at nil s1 [] t1" "inorder t1 = inorder (plug C t)" "only (members C t) s s1"
    using eraseFixup_loop_zip [OF zip par nil] lost by blast
  have root: "rt_root (fst s1) = rt nil t1" using 1(2) by (simp add: zip_at_def)
  have run: "eraseFixup nil (rt nil t) s = Some (paint (rt nil t1) Black s1)" using 1(1) root by (auto simp: eraseFixup_def paint_def split: prod.splits)
  show ?thesis
  proof (cases t1)
    case Lf
    have "n_col (snd s1 nil) = Black" using 1(4) nil zip_nil [OF zip] by (simp add: only_def)
    then have "paint nil Black s1 = s1" by (cases s1) (auto simp: paint_def set_col_def)
    then show ?thesis using run 1 Lf by auto
  next
    case (Nd c l x r)
    note p = paint_zip [OF 1(2) [unfolded Nd], of Black]
    have "only (members C t) s (paint x Black s1)" using 1(3,4) p(2) Nd by (auto simp: members_def intro: only_trans)
    then show ?thesis using run p(1) 1(3) Nd by (intro exI [of _ "paint x Black s1"] exI [of _ "Nd Black l x r"]) auto
  qed
qed

text \<open>From a red-black tree \<open>erase\<close> takes out exactly the node it is given; it returns the next node.
  Nothing is said of the colours afterwards.\<close>

lemma rb_erase_correct:
  assumes rep: "rb_rep nil s t" and ok: "rb_ok t" and t: "inorder t = xs @ z # ys"
  shows "\<exists>s' t'. rb_erase nil z s = Some (nilChecked nil (hd_or ys nil), s') \<and> rb_rep nil s' t' \<and> inorder t' = xs @ ys \<and>
    (\<forall>x. x \<notin> set (inorder t) \<longrightarrow> x \<noteq> nil \<longrightarrow> snd s' x = snd s x)"
proof -
  note R = rb_repD [OF rep]
  obtain C c l r where C: "t = plug C (Nd c l z r)" using position [of z t] t by auto
  have zip: "zip_at nil s C (Nd c l z r)" using R(1) C zip_plug by metis
  obtain yc s1 C1 t1 where u: "unlink nil z s = Some (rt nil t1, yc, s1)" "unlinked nil C (Nd c l z r) s s1 C1 t1"
    "inorder (plug C1 t1) = before C @ inorder l @ inorder r @ behind C" "yc = Black \<Longrightarrow> lost C1 t1" "yc = Red \<Longrightarrow> col_of (plug C1 t1) = Black"
    using unlink_zip [OF zip] R(2) ok C by blast
  note U = u(2) [unfolded unlinked_def]
  have "(before C @ inorder l) @ z # (inorder r @ behind C) = xs @ z # ys" using t C by (simp add: inorder_plug)
  moreover have "distinct (xs @ z # ys)" using R(9) t by simp
  ultimately have io: "inorder (plug C1 t1) = xs @ ys"
    using u(3) append_Cons_eq_iff [of z xs ys "before C @ inorder l" "inorder r @ behind C"] by auto
  have mem: "members C (Nd c l z r) = set (inorder t)" using C by (simp add: members_def)
  have m1: "nil \<notin> members C1 t1" "members C1 t1 \<subseteq> set (inorder t)" using io t R(10) by (auto simp: members_def)
  have nil: "n_col (snd s1 nil) = Black" using U R(3) by simp
  have "\<exists>s2 t2. (if yc = Black then eraseFixup nil (rt nil t1) s1 else Some s1) = Some s2 \<and> zip_at nil s2 [] t2 \<and> col_of t2 = Black \<and>
    inorder t2 = xs @ ys \<and> only (members C1 t1) s1 s2"
  proof (cases yc)
    case Black then show ?thesis using eraseFixup_zip [of nil s1 C1 t1] U nil u(4) io by auto
  next
    case Red then show ?thesis using u(5) U io zip_plug [of nil s1 C1 t1] by auto
  qed
  then obtain T2 h2 t2 where f: "(if yc = Black then eraseFixup nil (rt nil t1) s1 else Some s1) = Some (T2, h2)" "zip_at nil (T2, h2) [] t2"
    "col_of t2 = Black" "inorder t2 = xs @ ys" "only (members C1 t1) s1 (T2, h2)" by (metis surj_pair)
  have len: "rt_len T2 = rt_len (fst s)" using f(5) U by (simp add: only_def)
  have pos: "unat (rt_len T2) = Suc (length (xs @ ys))" using R(6) t len by simp
  then have n0: "rt_len T2 \<noteq> 0" by auto
  have unat: "unat (rt_len T2 - 1) = length (xs @ ys)" using pos n0 by (simp add: unat_minus_one)
  let ?s = "(T2\<lparr>rt_len := rt_len T2 - 1\<rparr>, h2)"
  have run: "rb_erase nil z s = Some (nilChecked nil (hd_or ys nil), ?s)"
    using neighbours(1) [OF rep t] u(1) f(1) n0 by (simp add: rb_erase_def)
  have "rb_rep nil ?s t2" using f(2-5) m1(1) U R(3-5) unat by (simp add: rb_rep_def zip_at_def only_def)
  moreover have "snd ?s x = snd s x" if "x \<notin> set (inorder t)" "x \<noteq> nil" for x using that f(5) U m1(2) mem by (auto simp: only_def)
  ultimately show ?thesis using run f(4) by blast
qed

end
