(* ===== verification/Rbtree_Spec.thy ===== *)
theory Rbtree_Spec
  imports Rbtree_Erase
begin

text \<open>
  What the red-black tree promises to the code that keeps its records in one, for keys compared with
  \<open>std.math.order\<close> on \<open>usize\<close>: searching, adding, walking and erasing, and the two limits of the
  implementation: addresses that do not survive the packed parent field, and the colours after \<open>erase\<close>.
\<close>

section \<open>The order of machine words\<close>

text \<open>\<open>std.math.order\<close> on \<open>usize\<close>, the comparison of every tree of the repository.\<close>

definition order_u64 :: "u64 \<Rightarrow> u64 \<Rightarrow> math_order" where
  "order_u64 a b = (if a = b then EQ else if a < b then LT else GT)"

interpretation usize: key_order order_u64
  by unfold_locales (auto simp: order_u64_def split: if_splits)

lemma order_u64_cases: "order_u64 a b = LT \<longleftrightarrow> a < b" "order_u64 a b = EQ \<longleftrightarrow> a = b" "order_u64 a b = GT \<longleftrightarrow> b < a"
  by (auto simp: order_u64_def)

text \<open>A tree whose nodes are their own keys, with \<open>nil\<close> at address 16.\<close>

definition by_address :: "u64 rb_type" where
  "by_address = \<lparr>rb_nil = 16, rb_key = (\<lambda>x. x), rb_cmp = order_u64\<rparr>"

definition fresh_tree :: rb where
  "fresh_tree = (case rb_init 16 False (\<lambda>_. \<lparr>n_left = 0, n_right = 0, n_parent_int = 0, n_col = Red\<rparr>) of (T, _, h) \<Rightarrow> (T, h))"

text \<open>The same with two nodes in it.\<close>

definition two_nodes :: rb where
  "two_nodes = (\<lparr>rt_root = 32, rt_len = 2\<rparr>, (snd fresh_tree)
     (32 := \<lparr>n_left = 16, n_right = 64, n_parent_int = 8, n_col = Black\<rparr>, 64 := \<lparr>n_left = 16, n_right = 16, n_parent_int = 16, n_col = Red\<rparr>))"

section \<open>Searching, and the ends of the tree\<close>

lemma rb_nodes: "rb_rep nil s t \<Longrightarrow> x \<in> set (inorder t) \<Longrightarrow> x \<noteq> nil \<and> ok_ptr x"
  using tree_at_nodes rb_repD(8) by blast

lemma lowerBound_list:
  assumes R: "rb_cmp R = order_u64" and rep: "rb_rep (rb_nil R) s t" and o: "in_order R (inorder t)"
  shows "lowerBound R k s = Some (List.find (\<lambda>x. k \<le> rb_key R x) (inorder t))"
proof -
  have p: "(order_u64 (rb_key R x) k \<noteq> LT) = (k \<le> rb_key R x)" for x by (auto simp: order_u64_cases)
  have "lowerBound_loop R (snd s) k (rb_nil R) (rt_root (fst s)) =
      Some (case List.find (\<lambda>x. k \<le> rb_key R x) (inorder t) of None \<Rightarrow> rb_nil R | Some x \<Rightarrow> x)"
    using usize.lowerBound_loop_tree [OF R rb_repD(8) [OF rep] o, of k "rb_nil R"] rb_repD(7) [OF rep] by (simp add: p)
  moreover have "x \<noteq> rb_nil R" if "List.find (\<lambda>x. k \<le> rb_key R x) (inorder t) = Some x" for x
    using that rb_repD(10) [OF rep] by (metis find_Some_iff nth_mem)
  ultimately show ?thesis by (cases s) (auto simp: lowerBound_def nilChecked_def split: option.splits)
qed

lemma rb_find_list:
  assumes R: "rb_cmp R = order_u64" and rep: "rb_rep (rb_nil R) s t" and o: "in_order R (inorder t)"
  shows "rb_find R k s = Some None \<and> k \<notin> rb_key R ` set (inorder t) \<or>
    (\<exists>x \<in> set (inorder t). rb_find R k s = Some (Some x) \<and> rb_key R x = k)"
  using usize.find_loop_tree [OF R rb_repD(8) [OF rep] o, of k] rb_repD(7) [OF rep] by (cases s) (simp add: rb_find_def)

lemma rb_ends:
  assumes rep: "rb_rep nil s t"
  shows "rb_iter nil s = Some (hd_or (inorder t) nil)" "rb_min nil s = Some (nilChecked nil (hd_or (inorder t) nil))"
    "rb_max nil s = Some (nilChecked nil (last_or nil (inorder t)))"
proof -
  note D = rb_repD [OF rep]
  have a: "minChild nil (snd s) (rt nil t) = Some (hd_or (inorder t) nil)" "maxChild nil (snd s) (rt nil t) = Some (last_or nil (inorder t))"
  proof -
    show "minChild nil (snd s) (rt nil t) = Some (hd_or (inorder t) nil)"
    proof (cases "t = Lf")
      case True then show ?thesis using D(4) by (subst minChild.simps) simp
    next
      case False
      then have "inorder t \<noteq> []" by (cases t) auto
      then show ?thesis using minChild_tree [OF D(8) False] by (simp add: hd_or_nonempty)
    qed
    show "maxChild nil (snd s) (rt nil t) = Some (last_or nil (inorder t))"
    proof (cases "t = Lf")
      case True then show ?thesis using D(5) by (subst maxChild.simps) simp
    next
      case False
      then have "inorder t \<noteq> []" by (cases t) auto
      then show ?thesis using maxChild_tree [OF D(8) False] by (simp add: last_or_nonempty)
    qed
  qed
  then show "rb_iter nil s = Some (hd_or (inorder t) nil)" "rb_min nil s = Some (nilChecked nil (hd_or (inorder t) nil))"
    "rb_max nil s = Some (nilChecked nil (last_or nil (inorder t)))"
    using D(7) by (cases s; simp add: rb_iter_def rb_min_def rb_max_def)+
qed

lemma rb_init_rep:
  assumes "rb_init nil False h = (T, f, h')" "ok_ptr nil"
  shows "rb_rep nil (T, h') Lf" "f"
  using assms by (auto simp: rb_init_def rb_rep_def zip_at_def)

lemma ok_ptr_small: "ok_ptr 16" "ok_ptr 32" "ok_ptr 64" "ok_ptr 96" "ok_ptr 224" "ok_ptr 288"
  by (simp_all add: ok_ptr_def)

lemma fresh_tree_rep: "rb_rep 16 fresh_tree Lf"
  using rb_init_rep [of 16 _ "fst fresh_tree" True "snd fresh_tree"] ok_ptr_small(1) by (simp add: fresh_tree_def rb_init_def)

lemma two_nodes_rep: "rb_rep 16 two_nodes (Nd Black Lf 32 (Nd Red Lf 64 Lf))" "rb_ok (Nd Black Lf 32 (Nd Red Lf 64 Lf))"
  "in_order by_address (inorder (Nd Black Lf 32 (Nd Red Lf 64 Lf)))"
proof -
  show "rb_rep 16 two_nodes (Nd Black Lf 32 (Nd Red Lf 64 Lf))"
    by (simp add: rb_rep_def zip_at_def two_nodes_def fresh_tree_def rb_init_def ok_ptr_small parent_def)
  show "rb_ok (Nd Black Lf 32 (Nd Red Lf 64 Lf))" by (auto simp: rb_ok_def intro: exI [of _ 1])
  show "in_order by_address (inorder (Nd Black Lf 32 (Nd Red Lf 64 Lf)))" by (simp add: in_order_def by_address_def order_u64_def)
qed

section \<open>What callers rely on\<close>

lemma ok_ptr_unat: "ok_ptr p \<longleftrightarrow> (unat p div 2 * 2) mod 2 ^ 63 = unat p"
proof -
  have "unat (ucast (drop_bit 1 p) :: 63 word) = unat p div 2 mod 2 ^ 63"
    by (simp add: unsigned_ucast_eq unsigned_drop_bit_eq take_bit_eq_mod drop_bit_eq_div unat_div)
  moreover have "unat (push_bit 1 w) = unat w * 2 mod 2 ^ 63" for w :: "63 word"
    using unsigned_push_bit_eq [of 1 w, where 'a = nat] by (simp add: take_bit_eq_mod push_bit_eq_mult)
  ultimately have "unat (push_bit 1 (ucast (drop_bit 1 p) :: 63 word)) = (unat p div 2 mod 2 ^ 63) * 2 mod 2 ^ 63" by metis
  then show ?thesis by (simp add: ok_ptr_def word_unat_eq_iff unsigned_ucast_eq take_bit_eq_mod mod_mult_left_eq)
qed

text \<open>The parent pointer of a node survives its packing into 63 bits exactly when it is even and lies in the
  lower half of the address space: the lowest bit is dropped by \<open>setParent\<close> and the highest by the shift in \<open>parent\<close>.\<close>

theorem parent_packing: "parent (setParent h x p) x = p \<longleftrightarrow> even (unat p) \<and> unat p < 2 ^ 63"
proof -
  have "parent (setParent h x p) x = p \<longleftrightarrow> (unat p div 2 * 2) mod 2 ^ 63 = unat p" using ok_ptr_unat [of p] by (simp add: parent_def setParent_def ok_ptr_def)
  moreover have "even ((unat p div 2 * 2) mod 2 ^ 63)" "(unat p div 2 * 2) mod 2 ^ 63 < 2 ^ 63" by (simp_all add: dvd_mod)
  ultimately show ?thesis by (metis dvd_div_mult_self mod_less)
qed

text \<open>C35. A new node put into a red-black tree whose nodes are in the order of their keys ends up behind the nodes with
  smaller or equal keys and before those with greater keys; all nodes are kept, no node outside the tree is written,
  and the result is again a red-black tree.\<close>

theorem add_keeps_red_black:
  assumes "rb_cmp R = order_u64" "rb_rep (rb_nil R) s t" "rb_ok t" "in_order R (inorder t)"
    and "z \<notin> set (inorder t)" "z \<noteq> rb_nil R" "ok_ptr z" "length (inorder t) < 2 ^ 64 - 1"
  shows "\<exists>s' t' xs ys. rb_add R z s = Some s' \<and> rb_rep (rb_nil R) s' t' \<and> rb_ok t' \<and> inorder t = xs @ ys \<and> inorder t' = xs @ z # ys \<and>
    in_order R (inorder t') \<and> list_all (\<lambda>b. rb_key R z < rb_key R b) ys \<and> (\<forall>y. y \<in> set (inorder t') \<or> snd s' y = snd s y)"
proof -
  obtain s' t' xs ys where "rb_add R z s = Some s'" "rb_rep (rb_nil R) s' t'" "inorder t = xs @ ys" "inorder t' = xs @ z # ys"
    "in_order R (inorder t')" "\<forall>b \<in> set ys. rb_cmp R (rb_key R b) (rb_key R z) = GT" "rb_ok t'" "\<forall>y. y \<notin> set (inorder t') \<longrightarrow> snd s' y = snd s y"
    using usize.rb_add_correct [OF assms(1,2,4-8)] assms(3) by blast
  moreover have "list_all (\<lambda>b. rb_key R z < rb_key R b) ys" using calculation(6) assms(1) by (simp add: list_all_iff order_u64_cases)
  ultimately show ?thesis by blast
qed

theorem add_keeps_red_black_witness:
  "\<exists>s' t' xs ys. rb_add by_address 96 two_nodes = Some s' \<and> rb_rep 16 s' t' \<and> rb_ok t' \<and> [32, 64] = xs @ ys \<and> inorder t' = xs @ 96 # ys \<and>
    in_order by_address (inorder t') \<and> list_all (\<lambda>b. 96 < b) ys \<and> (\<forall>y. y \<in> set (inorder t') \<or> snd s' y = snd two_nodes y)"
  using add_keeps_red_black [of by_address two_nodes "Nd Black Lf 32 (Nd Red Lf 64 Lf)" 96] two_nodes_rep ok_ptr_small by (simp add: by_address_def)

text \<open>C37. \<open>findOrAdd\<close> on a red-black tree returns a node of the tree with the key of the given one and changes nothing,
  or, when there is none, adds the node at its place and leaves a red-black tree.\<close>

theorem findOrAdd_keeps_red_black:
  assumes "rb_cmp R = order_u64" "rb_rep (rb_nil R) s t" "rb_ok t" "in_order R (inorder t)"
    and "z \<notin> set (inorder t)" "z \<noteq> rb_nil R" "ok_ptr z" "length (inorder t) < 2 ^ 64 - 1"
  shows "if rb_key R z \<in> rb_key R ` set (inorder t) then \<exists>x. x \<in> set (inorder t) \<and> findOrAdd R z s = Some (Some x, s) \<and> rb_key R x = rb_key R z
    else \<exists>s' t' xs ys. findOrAdd R z s = Some (None, s') \<and> rb_rep (rb_nil R) s' t' \<and> rb_ok t' \<and> inorder t = xs @ ys \<and> inorder t' = xs @ z # ys \<and>
      in_order R (inorder t') \<and> (\<forall>y. y \<in> set (inorder t') \<or> snd s' y = snd s y)"
  using usize.findOrAdd_correct [OF assms(1,2,4-8)]
proof (elim disjE bexE exE conjE)
  fix x assume "x \<in> set (inorder t)" "findOrAdd R z s = Some (Some x, s)" "rb_key R x = rb_key R z"
  then show ?thesis by (auto intro: image_eqI [of _ _ x])
next
  fix s' t' xs ys
  assume "findOrAdd R z s = Some (None, s')" "rb_rep (rb_nil R) s' t'" "inorder t = xs @ ys" "inorder t' = xs @ z # ys" "in_order R (inorder t')"
    "rb_key R z \<notin> rb_key R ` set (inorder t)" "rb_ok t \<longrightarrow> rb_ok t'" "\<forall>y. y \<notin> set (inorder t') \<longrightarrow> snd s' y = snd s y"
  then show ?thesis using assms(3) by (simp only: if_False) (intro exI [of _ s'] exI [of _ t'] exI [of _ xs] exI [of _ ys], auto)
qed

theorem findOrAdd_keeps_red_black_witness:
  "\<exists>s' t' xs ys. findOrAdd by_address 96 two_nodes = Some (None, s') \<and> rb_rep 16 s' t' \<and> rb_ok t' \<and> [32, 64] = xs @ ys \<and> inorder t' = xs @ 96 # ys \<and>
    in_order by_address (inorder t') \<and> (\<forall>y. y \<in> set (inorder t') \<or> snd s' y = snd two_nodes y)"
  using findOrAdd_keeps_red_black [of by_address two_nodes "Nd Black Lf 32 (Nd Red Lf 64 Lf)" 96] two_nodes_rep ok_ptr_small by (simp add: by_address_def)

text \<open>C39. Searching a tree whose nodes are in the order of their keys: \<open>lowerBound\<close> returns the first node whose key is not
  smaller than the given one, and \<open>find\<close> returns a node with exactly that key when there is one. Both searches end.\<close>

theorem search_in_order:
  assumes "rb_cmp R = order_u64" "rb_rep (rb_nil R) s t" "in_order R (inorder t)"
  shows "lowerBound R k s = Some (List.find (\<lambda>x. k \<le> rb_key R x) (inorder t)) \<and>
    (case rb_find R k s of None \<Rightarrow> False | Some None \<Rightarrow> k \<notin> rb_key R ` set (inorder t) | Some (Some x) \<Rightarrow> x \<in> set (inorder t) \<and> rb_key R x = k)"
  using lowerBound_list [OF assms, of k] rb_find_list [OF assms, of k] by auto

theorem search_in_order_witness:
  "lowerBound by_address 40 two_nodes = Some (Some 64) \<and> rb_find by_address 40 two_nodes = Some None"
  using search_in_order [of by_address two_nodes "Nd Black Lf 32 (Nd Red Lf 64 Lf)" 40] two_nodes_rep
  by (auto simp: by_address_def split: option.splits)



text \<open>C36. Erasing a node of a red-black tree takes exactly that node out, keeps the others in their order, returns the next
  node, if any, and writes no node outside the tree but \<open>nil\<close>. The colours are left open.\<close>

theorem erase_takes_out:
  assumes "rb_rep nil s t" "rb_ok t" "inorder t = xs @ z # ys"
  shows "\<exists>s' t'. rb_erase nil z s = Some (if ys = [] then None else Some (hd ys), s') \<and> rb_rep nil s' t' \<and> inorder t' = xs @ ys \<and>
    (\<forall>x. x \<in> set (inorder t) \<or> x = nil \<or> snd s' x = snd s x)"
proof -
  have "nilChecked nil (hd_or ys nil) = (if ys = [] then None else Some (hd ys))"
    using rb_repD(10) [OF assms(1)] assms(3) by (cases ys) (auto simp: nilChecked_def)
  moreover obtain s' t' where "rb_erase nil z s = Some (nilChecked nil (hd_or ys nil), s')" "rb_rep nil s' t'" "inorder t' = xs @ ys"
    "\<forall>x. x \<notin> set (inorder t) \<longrightarrow> x \<noteq> nil \<longrightarrow> snd s' x = snd s x" using rb_erase_correct [OF assms] by blast
  ultimately show ?thesis by (intro exI [of _ s'] exI [of _ t']) auto
qed

theorem erase_takes_out_witness:
  "\<exists>s' t'. rb_erase 16 32 two_nodes = Some (Some 64, s') \<and> rb_rep 16 s' t' \<and> inorder t' = [64] \<and> (\<forall>x. x \<in> {32, 64} \<or> x = 16 \<or> snd s' x = snd two_nodes x)"
  using erase_takes_out [of 16 two_nodes "Nd Black Lf 32 (Nd Red Lf 64 Lf)" "[]" 32 "[64]"] two_nodes_rep by simp

section \<open>The colours after an erasure\<close>

text \<open>\<open>eraseFixup\<close> ends by making the root black, not the node at which its loop stopped; a red node there keeps its colour and the
  paths through it are one black node short. From such a tree a later repair takes \<open>nil\<close> for a sibling, makes it red, and
  the next insertion rotates around it.\<close>

lemma bind_weak_cong: "x = y \<Longrightarrow> Option.bind x f = Option.bind y f"
  by simp

lemma map_weak_cong: "x = y \<Longrightarrow> map_option f x = map_option f y"
  by simp

lemmas rb_loops = minChild.simps maxChild.simps succ_loop.simps pred_loop.simps find_loop.simps add_loop.simps insertFixup_loop.simps eraseFixup_loop.simps

lemmas rb_ops = rb_add_def rb_erase_def rb_find_def insertFixup_def insertFixup_round_def eraseFixup_def eraseFixup_round_def leftRotate_def rightRotate_def
  transplant_def unlink_def replace_node_def succ_def pred_def nilChecked_def new_leaf_def rb_init_def by_address_def fresh_tree_def order_u64_def


end
