(* ===== verification/Spec2Isabelle.thy ===== *)
theory Spec2Isabelle
  imports Bitfield Frame_Deque Pqueue_Spec Ut_Spec Bootstrap_Spec Irq Client_Table Elf_Load_Spec Rbtree_Spec
begin

text \<open>
  \<^bold>\<open>The program.\<close> SOS is the personality of a small operating system on the seL4 microkernel. Its root server, under
  \<^verbatim>\<open>projects/aos/sos/src\<close>, starts with all memory of the machine as untyped objects. It first builds its own capability space and a table of
  untyped memory (\<^verbatim>\<open>bootstrap.c\<close>, \<^verbatim>\<open>ut.c\<close>, with the library \<^verbatim>\<open>libsel4cspace\<close>), then serves frames to clients from a frame table that pages
  out (\<^verbatim>\<open>frame_table.c\<close>), maps them (\<^verbatim>\<open>mapping.c\<close>), keeps DMA memory (\<^verbatim>\<open>dma.c\<close>), dispatches interrupts (\<^verbatim>\<open>irq.c\<close>), keeps timeouts
  (\<^verbatim>\<open>libclock\<close> on top of \<^verbatim>\<open>libpqueue\<close>), loads programs (\<^verbatim>\<open>elf.c\<close>) from an archive in its own image (\<^verbatim>\<open>libcpio\<close>,
  \<^verbatim>\<open>libelf\<close>) and identifies the clients of its system calls by badges (\<^verbatim>\<open>libipc\<close>). The regions of
  an address space are kept in a red-black tree (\<^verbatim>\<open>librbtree\<close>, in Zig). The parts call each other in
  a circle that the development follows: allocating an untyped object needs slots of the capability space, a capability space that grows
  needs frames mapped for its own records, and mapping needs untyped objects and slots again.

  \<^bold>\<open>Conventions.\<close> A C function is a function from its arguments and the state it uses to an optional result: \<open>None\<close> stands for a failed
  assertion, a fatal error, an access that C does not define, or a loop that runs for ever; error codes are ordinary values. Arrays are
  lists read and written with a bounds check, pointers are addresses into an explicit store, machine integers keep their width where wrap
  around matters. Answers of an allocator are arguments of the operation that asks for them. The kernel, the C library, callbacks and the
  modules of the server written in Zig are records of functions on a state type of their own, and theorems assume of them only what they name. The
  vocabulary is in \<open>Sos_Prelude\<close>: the option monad with its elimination rules, \<open>arr_get\<close>, \<open>arr_set\<close>, \<open>cassert\<close> and the word types.

  \<^bold>\<open>Theories.\<close>
  \<^item> \<open>Bitfield\<close> models \<^verbatim>\<open>cspace/bitfield.h\<close> and shows that the search returns the lowest clear bit.
  \<^item> \<open>Cspace\<close> models \<^verbatim>\<open>cspace.c\<close>: creation of one level and two level spaces, allocation and release of slots, growth with refilled
    watermarks, and the wrappers of invocations. \<open>Cspace_Slots\<close> has the invariant \<open>cs_inv\<close> and the set \<open>slots\<close> in use. \<open>Cspace_Env\<close> is the
    contract of the supplier of memory, the locale \<open>cspace_env\<close>. \<open>Cspace_Spec\<close> states the contract of a pool of slots, the locale
    \<open>slot_pool\<close>, interprets it for both kinds of space, and has the properties: allocation returns the lowest free slot, slots handed out
    are different, release undoes allocation, creation returns.
  \<^item> \<open>Ut\<close> and \<open>Ut_Alloc\<close> model \<^verbatim>\<open>ut.c\<close>; \<open>Ut_Own\<close> has the ownership invariant of the lists. \<open>Sos_Mapping\<close> models \<^verbatim>\<open>mapping.c\<close> and the
    callbacks by which the bootstrapped space gets memory. \<open>Ut_System\<close> puts the three together: the record \<open>sos\<close> is the shared state, the
    locale \<open>cspace_env\<close> is interpreted for it, and allocation in the whole circle keeps the nodes of every client. \<open>Ut_Total\<close> shows that it
    returns while there are slots in existing cnodes. \<open>Ut_Spec\<close> has the properties.
  \<^item> \<open>Bootstrap\<close> models \<^verbatim>\<open>bootstrap.c\<close>, one definition for each phase of \<^verbatim>\<open>sos_bootstrap\<close>; \<open>Dma\<close> models \<^verbatim>\<open>dma.c\<close> and the rounding
    macros. \<open>Bootstrap_Spec\<close> has their properties: where stolen memory lies, which slots the retype loop fills, what recording the slots
    leaves reusable, and that DMA memory does not overlap.
  \<^item> \<open>Dlink\<close> treats doubly linked segments. \<open>Frame_Lists\<close>, \<open>Clock_Ring\<close> and \<open>Frame_Table\<close> model \<^verbatim>\<open>frame_table.c\<close>: the two lists, the ring of
    evictable frames with its hand, and allocation in its stages with page out. \<open>Frame_Deque\<close> states the contract of the lists as a locale
    and interprets it for both. \<open>Frame_Invariant\<close> has the invariant and its preservation; \<open>Frame_Spec\<close> has the properties: what allocation
    and release do on every branch, the second chance policy, the quality of victims, and the initial state.
  \<^item> \<open>Pqueue\<close> models \<^verbatim>\<open>pqueue.c\<close> under the contract of its callbacks; \<open>Pqueue_Spec\<close> has its properties. \<open>Timer_Device\<close> models the
    Meson timer, \<open>Timer_Clock\<close> the driver \<^verbatim>\<open>clock.c\<close>, \<open>Timer_Clock_Proofs\<close> discharges the contract of the queue for the driver's
    callbacks, and \<open>Timer_Spec\<close> has the properties: the interrupt handler serves exactly the due timeouts, in order; registering, removing and
    stopping; an invariant of every history; and the conversion of times.
  \<^item> \<open>Irq\<close> models \<^verbatim>\<open>irq.c\<close>: a registration takes a free bit and fresh slots or changes nothing, and the loop over a badge calls exactly the
    handlers of its bits and ends.
  \<^item> \<open>Client_Table\<close> models \<^verbatim>\<open>libipc\<close>: the table is well formed on every history, badges find their clients and stale ones are rejected up to
    the wrap around of the generation, and messages are read back as they were written.
  \<^item> \<open>Memory\<close> is byte memory in which an access outside the mapped addresses fails. \<open>Cpio\<close> models \<^verbatim>\<open>cpio.c\<close> over it and shows that
    files of a well formed archive are found by name and by number, and that an archive without an end mark is read past its end.
    \<open>Elf\<close> models \<^verbatim>\<open>libelf\<close> for both classes of files; \<open>Elf_Spec\<close> shows that a validated file is read only inside its bounds.
    \<open>Elf_Load\<close> models \<^verbatim>\<open>sos/src/elf.c\<close> on top of the frame table, and \<open>Elf_Load_Spec\<close> shows what the pages of a segment hold, which
    pages the loop visits and that it ends, that the frame table invariant survives success and failure, and what is lost when segments share a page.
  \<^item> \<open>Rbtree\<close> models \<^verbatim>\<open>rbtree.zig\<close> over a store of nodes with the shared \<open>nil\<close> node and packed parent pointers. \<open>Rbtree_Shape\<close> relates
    the store to a tree seen from one of its positions and describes the rotations there; \<open>Rbtree_Insert\<close> has the colour and height invariants
    and the repair after an insertion; \<open>Rbtree_Ops\<close> has the searches, the neighbours of a node and insertion, under the contract of the comparison,
    the locale \<open>key_order\<close>; \<open>Rbtree_Erase\<close> has unlinking and the repair after it. \<open>Rbtree_Spec\<close> interprets the contract for machine words and has
    the properties: insertion keeps a red-black tree, erasure takes out one node of such a tree, searches and walks follow the order, and a
    sequence of operations after which the colours left by an erasure make the tree lose nodes.

  \<^bold>\<open>Loops.\<close> Loops over arrays and lists are structural recursion or have a termination proof with a measure. Loops that can run for ever
  (waiting for the completion of a page out, serving due timeouts while callbacks register new ones, walking corrupted links, trees or archives,
  segments whose position wraps around) are
  \<open>partial_function\<close>s into an option, and the properties show that they return under the invariant. No fuel is used, except that the
  allocation of small objects recurses on the size, which stops at a page because every step doubles it.

  \<^bold>\<open>Not modelled.\<close> The seL4 kernel, musl, picotcp, libnfs, libco, the Ethernet driver, the debugger stub and the boot loader are third party
  code of their own scale that SOS only calls. The modules of the server in Zig (address spaces, the pager, files, workers and continuations) appear as
  parameters where C calls them. \<^verbatim>\<open>main.c\<close>, \<^verbatim>\<open>network.c\<close>, \<^verbatim>\<open>threads.c\<close>, the emulated system calls under \<^verbatim>\<open>sys\<close> and the client
  programs are mostly sequences of invocations and input or output without state of their own.
\<close>

end
